(* ===== verification/Prelude.thy ===== *)
theory Prelude
  imports Main "HOL-Library.Word" "HOL-Library.AList" Complex_Main
begin

text \<open>
  What every component of the server shares: the Go runtime facts the sources rely on (maps,
  instants and durations, floating point comparisons, ranging over a string) and the generic
  lemmas on them.  Nothing here models a file of the repository.

  \<^item> A Go map is an association list (\<open>gomap\<close>) with the operations of HOL-Library.AList:
    \<open>mput\<close> for \<open>m[k] = v\<close>, \<open>mdel\<close> for \<open>delete(m, k)\<close>, \<open>map_of m k\<close> for the two-valued
    read, \<open>length\<close> for \<open>len\<close>, and \<open>mfilter\<close> for a loop that deletes the entries it does not
    want.  The order of the list stands for the unspecified iteration order.
  \<^item> An instant is an \<open>int\<close>, the nanoseconds since Go's zero time (1 January of year 1, UTC);
    a duration is an \<open>int\<close>.  \<open>time_sub\<close> saturates as \<open>Time.Sub\<close> does.
  \<^item> A \<open>float64\<close> that is only compared and stored is a \<open>gofloat\<close>: NaN, an infinity, or a
    rational (every finite double is one).
  \<^item> A Go string is a byte list (\<open>string\<close>); \<open>runes\<close> is what \<open>for _, r := range s\<close> yields.
\<close>

section \<open>Maps\<close>

named_theorems gomap_simps

type_synonym ('k, 'v) gomap = "('k \<times> 'v) list"

abbreviation mput :: "'k \<Rightarrow> 'v \<Rightarrow> ('k, 'v) gomap \<Rightarrow> ('k, 'v) gomap" where
  "mput \<equiv> AList.update"

abbreviation mdel :: "'k \<Rightarrow> ('k, 'v) gomap \<Rightarrow> ('k, 'v) gomap" where
  "mdel \<equiv> AList.delete"

definition mfilter :: "('k \<Rightarrow> 'v \<Rightarrow> bool) \<Rightarrow> ('k, 'v) gomap \<Rightarrow> ('k, 'v) gomap" where
  "mfilter P m = filter (\<lambda>(k, v). P k v) m"

text \<open>A Go map holds each key once.\<close>

definition mwf :: "('k, 'v) gomap \<Rightarrow> bool" where
  "mwf m \<longleftrightarrow> distinct (map fst m)"

text \<open>The read \<open>m[k]\<close> of a missing key gives the zero value of the element type.\<close>

definition mget0 :: "'v \<Rightarrow> ('k, 'v) gomap \<Rightarrow> 'k \<Rightarrow> 'v" where
  "mget0 z m k = (case map_of m k of None \<Rightarrow> z | Some v \<Rightarrow> v)"

declare AList.update_conv' [simp] AList.delete_conv' [simp]

lemma mwf_Nil [simp]: "mwf []"
  by (simp add: mwf_def)

lemma mwf_mput [simp, intro]: "mwf m \<Longrightarrow> mwf (mput k v m)"
  by (simp add: mwf_def AList.distinct_update)

lemma mwf_mdel [simp, intro]: "mwf m \<Longrightarrow> mwf (mdel k m)"
  by (simp add: mwf_def AList.distinct_delete)

lemma map_fst_filter_distinct: "distinct (map fst m) \<Longrightarrow> distinct (map fst (filter P m))"
  by (induction m) auto

lemma mwf_mfilter [simp, intro]: "mwf m \<Longrightarrow> mwf (mfilter P m)"
  by (simp add: mwf_def mfilter_def map_fst_filter_distinct)

lemma mwf_Cons [simp]: "mwf ((k, v) # m) \<longleftrightarrow> map_of m k = None \<and> mwf m"
  by (auto simp: mwf_def map_of_eq_None_iff)

lemma map_of_mfilter:
  "mwf m \<Longrightarrow> map_of (mfilter P m) k =
     (case map_of m k of None \<Rightarrow> None | Some v \<Rightarrow> if P k v then Some v else None)"
proof (induction m)
  case Nil
  then show ?case by (simp add: mfilter_def)
next
  case (Cons x m)
  obtain a b where x: "x = (a, b)" by (cases x)
  have none: "map_of (filter Q m) a = None" for Q
    using Cons.prems by (auto simp: x map_of_eq_None_iff)
  from Cons show ?case
    by (auto simp: x mfilter_def none split: option.splits)
qed

lemma mfilter_mem_iff [simp]: "(k, v) \<in> set (mfilter P m) \<longleftrightarrow> (k, v) \<in> set m \<and> P k v"
  by (auto simp: mfilter_def)

lemma length_mfilter_le [simp]: "length (mfilter P m) \<le> length m"
  by (simp add: mfilter_def)

lemma mwf_in_set: "mwf m \<Longrightarrow> (k, v) \<in> set m \<longleftrightarrow> map_of m k = Some v"
  by (auto simp: mwf_def)

lemma length_mput:
  "length (mput k v m) = (if map_of m k = None then Suc (length m) else length m)"
  by (induction m) auto

lemma length_mput_le: "length (mput k v m) \<le> Suc (length m)"
  by (simp add: length_mput)

lemma mdel_absent: "map_of m k = None \<Longrightarrow> mdel k m = m"
  by (induction m) (auto split: if_splits)

lemma length_mdel:
  "mwf m \<Longrightarrow> length (mdel k m) = (if map_of m k = None then length m else length m - 1)"
proof (induction m)
  case Nil
  then show ?case by simp
next
  case (Cons x m)
  obtain a b where x: "x = (a, b)" by (cases x)
  show ?case
  proof (cases "a = k")
    case True
    with Cons.prems show ?thesis by (simp add: x mdel_absent)
  next
    case False
    have "length m \<noteq> 0" if "map_of m k \<noteq> None" using that by (cases m) auto
    with False Cons show ?thesis by (auto simp: x)
  qed
qed

lemma length_mdel_le: "length (mdel k m) \<le> length m"
  by (rule AList.length_delete_le)

lemma mget0_mput [simp]: "mget0 z (mput k v m) k' = (if k' = k then v else mget0 z m k')"
  by (simp add: mget0_def)

lemma mget0_mdel [simp]: "mget0 z (mdel k m) k' = (if k' = k then z else mget0 z m k')"
  by (simp add: mget0_def)

lemma mget0_Nil [simp]: "mget0 z [] k = z"
  by (simp add: mget0_def)

lemma dom_map_of_set: "mwf m \<Longrightarrow> card (dom (map_of m)) = length m"
  by (metis dom_map_of_conv_image_fst distinct_card length_map list.set_map mwf_def)

lemma map_ran_mwf [simp]: "mwf (map (\<lambda>(k, v). (k, f k v)) m) \<longleftrightarrow> mwf m"
  by (simp add: mwf_def case_prod_beta comp_def)

lemma map_of_map_ran [simp]:
  "map_of (map (\<lambda>(k, v). (k, f k v)) m) k = map_option (f k) (map_of m k)"
  by (induction m) auto

lemmas gomap_len = length_mput length_mdel dom_map_of_set

section \<open>Instants and durations\<close>

type_synonym instant = int
type_synonym duration = int

definition nanosecond :: duration where "nanosecond = 1"
definition second :: duration where "second = 1000000000"
definition minute :: duration where "minute = 60 * second"
definition hour :: duration where "hour = 60 * minute"

lemmas duration_defs = nanosecond_def second_def minute_def hour_def

text \<open>\<open>math.MinInt64\<close> and \<open>math.MaxInt64\<close>: where a duration saturates.\<close>

definition min_i64 :: int where "min_i64 = - (2 ^ 63)"
definition max_i64 :: int where "max_i64 = 2 ^ 63 - 1"

definition time_sub :: "instant \<Rightarrow> instant \<Rightarrow> duration" where
  "time_sub t u = max min_i64 (min max_i64 (t - u))"

text \<open>\<open>Time.Unix\<close>: whole seconds since 1970, rounded down; \<open>time.Unix(s, 0)\<close> goes back.\<close>

definition unix_epoch_seconds :: int where "unix_epoch_seconds = 62135596800"

definition time_unix :: "instant \<Rightarrow> int" where
  "time_unix t = t div second - unix_epoch_seconds"

definition from_unix :: "int \<Rightarrow> instant" where
  "from_unix s = (s + unix_epoch_seconds) * second"

lemma time_unix_from_unix [simp]: "time_unix (from_unix s) = s"
  by (simp add: time_unix_def from_unix_def second_def)

lemma time_unix_mono: "t \<le> u \<Longrightarrow> time_unix t \<le> time_unix u"
  by (simp add: time_unix_def second_def zdiv_mono1)

lemma time_sub_le: "d < max_i64 \<Longrightarrow> time_sub t u \<le> d \<Longrightarrow> 0 \<le> d \<Longrightarrow> t - u \<le> d"
  by (auto simp: time_sub_def max_i64_def min_i64_def split: if_splits)

lemma time_sub_self [simp]: "time_sub t t = 0"
  by (simp add: time_sub_def max_i64_def min_i64_def)

section \<open>Floating point values that are only compared\<close>

datatype gofloat = NaN | Inf bool | Fin rat

fun fle :: "gofloat \<Rightarrow> gofloat \<Rightarrow> bool" where
  "fle NaN _ = False"
| "fle _ NaN = False"
| "fle (Inf True) _ = True"
| "fle _ (Inf False) = True"
| "fle (Inf False) _ = False"
| "fle _ (Inf True) = False"
| "fle (Fin x) (Fin y) = (x \<le> y)"

definition flt :: "gofloat \<Rightarrow> gofloat \<Rightarrow> bool" where
  "flt x y \<longleftrightarrow> fle x y \<and> \<not> fle y x"

fun is_nan :: "gofloat \<Rightarrow> bool" where
  "is_nan NaN = True"
| "is_nan _ = False"

fun is_inf :: "gofloat \<Rightarrow> bool" where
  "is_inf (Inf _) = True"
| "is_inf _ = False"

lemma fle_Fin_right: "fle x (Fin b) \<longleftrightarrow> x = Inf True \<or> (\<exists>a. x = Fin a \<and> a \<le> b)"
  by (cases x rule: gofloat.exhaust) (auto, (case_tac x2, auto)?)

lemma fle_Fin_left: "fle (Fin b) x \<longleftrightarrow> x = Inf False \<or> (\<exists>a. x = Fin a \<and> b \<le> a)"
  by (cases x rule: gofloat.exhaust) (auto, (case_tac x2, auto)?)

lemma finite_range_iff:
  "fle (Fin lo) x \<and> fle x (Fin hi) \<longleftrightarrow> (\<exists>q. x = Fin q \<and> lo \<le> q \<and> q \<le> hi)"
  by (auto simp: fle_Fin_left fle_Fin_right)

section \<open>Ranging over a string\<close>

definition byte :: "char \<Rightarrow> nat" where
  "byte c = of_char c"

definition is_cont :: "nat \<Rightarrow> bool" where
  "is_cont b \<longleftrightarrow> 0x80 \<le> b \<and> b \<le> 0xBF"

text \<open>
  One step of Go's UTF-8 decoder: the rune and the bytes it takes.  A byte that starts no valid
  sequence is the rune 0xFFFD and takes one byte.
\<close>

definition decode2 :: "nat list \<Rightarrow> (nat \<times> nat) option" where
  "decode2 bs = (case bs of b0 # b1 # _ \<Rightarrow>
     if 0xC2 \<le> b0 \<and> b0 \<le> 0xDF \<and> is_cont b1 then Some ((b0 - 0xC0) * 64 + (b1 - 0x80), 2) else None
   | _ \<Rightarrow> None)"

definition decode3 :: "nat list \<Rightarrow> (nat \<times> nat) option" where
  "decode3 bs = (case bs of b0 # b1 # b2 # _ \<Rightarrow>
     if 0xE0 \<le> b0 \<and> b0 \<le> 0xEF
        \<and> (if b0 = 0xE0 then 0xA0 else 0x80) \<le> b1 \<and> b1 \<le> (if b0 = 0xED then 0x9F else 0xBF) \<and> is_cont b2
     then Some ((b0 - 0xE0) * 4096 + (b1 - 0x80) * 64 + (b2 - 0x80), 3) else None
   | _ \<Rightarrow> None)"

definition decode4 :: "nat list \<Rightarrow> (nat \<times> nat) option" where
  "decode4 bs = (case bs of b0 # b1 # b2 # b3 # _ \<Rightarrow>
     if 0xF0 \<le> b0 \<and> b0 \<le> 0xF4
        \<and> (if b0 = 0xF0 then 0x90 else 0x80) \<le> b1 \<and> b1 \<le> (if b0 = 0xF4 then 0x8F else 0xBF)
        \<and> is_cont b2 \<and> is_cont b3
     then Some ((b0 - 0xF0) * 262144 + (b1 - 0x80) * 4096 + (b2 - 0x80) * 64 + (b3 - 0x80), 4) else None
   | _ \<Rightarrow> None)"

definition decode_rune :: "nat list \<Rightarrow> nat \<times> nat" where
  "decode_rune bs =
     (if hd bs < 0x80 then (hd bs, 1)
      else case decode2 bs of Some r \<Rightarrow> r
      | None \<Rightarrow> (case decode3 bs of Some r \<Rightarrow> r
      | None \<Rightarrow> (case decode4 bs of Some r \<Rightarrow> r | None \<Rightarrow> (0xFFFD, 1))))"

lemma decode_rune_width: "1 \<le> snd (decode_rune bs)"
  by (auto simp: decode_rune_def decode2_def decode3_def decode4_def
      split: option.splits list.splits if_splits)

function runes_bytes :: "nat list \<Rightarrow> nat list" where
  "runes_bytes [] = []"
| "runes_bytes (b # bs) =
     fst (decode_rune (b # bs)) # runes_bytes (drop (snd (decode_rune (b # bs)) - 1) bs)"
  by pat_completeness auto
termination
  by (relation "measure length") (auto simp: less_Suc_eq_le)

definition runes :: "string \<Rightarrow> nat list" where
  "runes s = runes_bytes (map byte s)"

definition is_control :: "nat \<Rightarrow> bool" where
  "is_control r \<longleftrightarrow> r < 0x20 \<or> 0x7F \<le> r \<and> r < 0xA0"

text \<open>On ASCII text the runes are the bytes.\<close>

lemma runes_bytes_ascii: "(\<forall>b \<in> set bs. b < 0x80) \<Longrightarrow> runes_bytes bs = bs"
  by (induction bs) (auto simp: decode_rune_def)

lemma runes_Nil [simp]: "runes [] = []"
  by (simp add: runes_def)

section \<open>Words that do not wrap\<close>

lemma unat_inc: "(x :: 'a::len word) + 1 \<noteq> 0 \<Longrightarrow> unat (x + 1) = Suc (unat x)"
  using unatSuc [of x] by (simp add: add.commute)

lemma word_less_inc: "(x :: 'a::len word) + 1 \<noteq> 0 \<Longrightarrow> x < x + 1"
  by (simp add: word_less_nat_alt unat_inc)

end
