(* ===== verification/Channels.thy ===== *)
theory Channels
  imports Prelude
begin

text \<open>
  Buffered Go channels on an explicit heap.  A channel has an address, a capacity, the buffered
  values and a closed flag; several holders may know the address (the server that sends, the
  connection that reads), which is why the heap is explicit.  The operations are Go's:

  \<^item> \<open>ch_offer\<close> is \<open>select { case c <- x: ... default: ... }\<close>: it reports whether the value was
    queued, and panics on a closed channel;
  \<^item> \<open>ch_close\<close> is \<open>close(c)\<close>: it panics on a closed or nil channel;
  \<^item> \<open>ch_recv\<close> takes the oldest buffered value, if there is one.

  A panic sets the sticky flag \<open>hp_panicked\<close>; that reachable states of a component never set it
  is part of that component's safety theorem.
\<close>

record 'e channel =
  ch_cap :: nat
  ch_buf :: "'e list"
  ch_closed :: bool

record 'e heap =
  hp_chan :: "nat \<Rightarrow> 'e channel option"
  hp_next :: nat
  hp_panicked :: bool

definition hp_empty :: "'e heap" where
  "hp_empty = \<lparr>hp_chan = (\<lambda>_. None), hp_next = 0, hp_panicked = False\<rparr>"

definition ch_panic :: "'e heap \<Rightarrow> 'e heap" where
  "ch_panic h = h\<lparr>hp_panicked := True\<rparr>"

definition ch_make :: "nat \<Rightarrow> 'e heap \<Rightarrow> nat \<times> 'e heap" where
  "ch_make n h =
     (hp_next h,
      h\<lparr>hp_chan := (hp_chan h)(hp_next h \<mapsto> \<lparr>ch_cap = n, ch_buf = [], ch_closed = False\<rparr>),
        hp_next := Suc (hp_next h)\<rparr>)"

definition ch_offer :: "nat \<Rightarrow> 'e \<Rightarrow> 'e heap \<Rightarrow> bool \<times> 'e heap" where
  "ch_offer a x h = (case hp_chan h a of
     None \<Rightarrow> (False, h)
   | Some c \<Rightarrow>
       if ch_closed c then (False, ch_panic h)
       else if length (ch_buf c) < ch_cap c
       then (True, h\<lparr>hp_chan := (hp_chan h)(a \<mapsto> c\<lparr>ch_buf := ch_buf c @ [x]\<rparr>)\<rparr>)
       else (False, h))"

definition ch_close :: "nat \<Rightarrow> 'e heap \<Rightarrow> 'e heap" where
  "ch_close a h = (case hp_chan h a of
     None \<Rightarrow> ch_panic h
   | Some c \<Rightarrow>
       if ch_closed c then ch_panic h
       else h\<lparr>hp_chan := (hp_chan h)(a \<mapsto> c\<lparr>ch_closed := True\<rparr>)\<rparr>)"

definition ch_recv :: "nat \<Rightarrow> 'e heap \<Rightarrow> 'e option \<times> 'e heap" where
  "ch_recv a h = (case hp_chan h a of
     None \<Rightarrow> (None, h)
   | Some c \<Rightarrow> (case ch_buf c of
       [] \<Rightarrow> (None, h)
     | x # xs \<Rightarrow> (Some x, h\<lparr>hp_chan := (hp_chan h)(a \<mapsto> c\<lparr>ch_buf := xs\<rparr>)\<rparr>)))"

definition ch_close_all :: "nat list \<Rightarrow> 'e heap \<Rightarrow> 'e heap" where
  "ch_close_all as h = fold ch_close as h"

text \<open>An address is open when it holds a channel that is not closed; \<open>ch_pending\<close> is its buffer.\<close>

definition ch_open :: "'e heap \<Rightarrow> nat \<Rightarrow> bool" where
  "ch_open h a \<longleftrightarrow> (case hp_chan h a of None \<Rightarrow> False | Some c \<Rightarrow> \<not> ch_closed c)"

definition ch_pending :: "'e heap \<Rightarrow> nat \<Rightarrow> 'e list" where
  "ch_pending h a = (case hp_chan h a of None \<Rightarrow> [] | Some c \<Rightarrow> ch_buf c)"

definition ch_limit :: "'e heap \<Rightarrow> nat \<Rightarrow> nat" where
  "ch_limit h a = (case hp_chan h a of None \<Rightarrow> 0 | Some c \<Rightarrow> ch_cap c)"

definition heap_ok :: "'e heap \<Rightarrow> bool" where
  "heap_ok h \<longleftrightarrow> \<not> hp_panicked h \<and> (\<forall>a. hp_next h \<le> a \<longrightarrow> hp_chan h a = None)
     \<and> (\<forall>a. length (ch_pending h a) \<le> ch_limit h a)"

lemmas chan_defs = ch_make_def ch_offer_def ch_close_def ch_recv_def ch_open_def ch_pending_def
  ch_limit_def ch_panic_def

section \<open>Laws\<close>

lemma heap_ok_empty [simp]: "heap_ok hp_empty"
  by (simp add: heap_ok_def hp_empty_def ch_pending_def ch_limit_def)

lemma heap_ok_no_panic: "heap_ok h \<Longrightarrow> \<not> hp_panicked h"
  by (simp add: heap_ok_def)

lemma ch_open_allocated: "heap_ok h \<Longrightarrow> ch_open h a \<Longrightarrow> a < hp_next h"
  by (auto simp: heap_ok_def ch_open_def not_less[symmetric] split: option.splits)

lemma ch_make_fresh: "heap_ok h \<Longrightarrow> \<not> ch_open h (fst (ch_make n h))"
  by (auto simp: heap_ok_def ch_make_def ch_open_def)

lemma ch_make_ok: "heap_ok h \<Longrightarrow> heap_ok (snd (ch_make n h))"
  by (auto simp: heap_ok_def ch_make_def ch_pending_def ch_limit_def)

lemma ch_make_open [simp]:
  "ch_open (snd (ch_make n h)) a \<longleftrightarrow> a = fst (ch_make n h) \<or> ch_open h a"
  by (auto simp: ch_make_def ch_open_def)

lemma ch_make_pending:
  "ch_pending (snd (ch_make n h)) a = (if a = fst (ch_make n h) then [] else ch_pending h a)"
  by (auto simp: ch_make_def ch_pending_def)

lemma ch_make_limit:
  "ch_limit (snd (ch_make n h)) a = (if a = fst (ch_make n h) then n else ch_limit h a)"
  by (auto simp: ch_make_def ch_limit_def)

lemma ch_offer_ok: "heap_ok h \<Longrightarrow> ch_open h a \<Longrightarrow> heap_ok (snd (ch_offer a x h))"
  by (auto simp: heap_ok_def ch_offer_def ch_open_def ch_pending_def ch_limit_def
      split: option.splits)

lemma ch_offer_open [simp]: "ch_open (snd (ch_offer a x h)) b = ch_open h b"
  by (auto simp: chan_defs split: option.splits)

lemma ch_offer_limit [simp]: "ch_limit (snd (ch_offer a x h)) b = ch_limit h b"
  by (auto simp: chan_defs split: option.splits)

lemma ch_offer_pending:
  "ch_open h a \<Longrightarrow> ch_pending (snd (ch_offer a x h)) b =
     (if b = a \<and> length (ch_pending h a) < ch_limit h a then ch_pending h a @ [x] else ch_pending h b)"
  by (auto simp: chan_defs split: option.splits)

lemma ch_offer_result:
  "ch_open h a \<Longrightarrow> fst (ch_offer a x h) \<longleftrightarrow> length (ch_pending h a) < ch_limit h a"
  by (auto simp: chan_defs split: option.splits)

lemma ch_offer_full:
  "ch_open h a \<Longrightarrow> length (ch_pending h a) \<ge> ch_limit h a \<Longrightarrow> ch_offer a x h = (False, h)"
  by (auto simp: chan_defs split: option.splits)

lemma ch_offer_next [simp]: "hp_next (snd (ch_offer a x h)) = hp_next h"
  by (auto simp: chan_defs split: option.splits)

lemma ch_close_ok: "heap_ok h \<Longrightarrow> ch_open h a \<Longrightarrow> heap_ok (ch_close a h)"
  by (auto simp: heap_ok_def ch_close_def ch_open_def ch_pending_def ch_limit_def
      split: option.splits)

lemma ch_close_open: "ch_open h a \<Longrightarrow> ch_open (ch_close a h) b \<longleftrightarrow> b \<noteq> a \<and> ch_open h b"
  by (auto simp: chan_defs split: option.splits)

lemma ch_close_pending [simp]: "ch_pending (ch_close a h) b = ch_pending h b"
  by (auto simp: chan_defs split: option.splits)

lemma ch_close_limit [simp]: "ch_limit (ch_close a h) b = ch_limit h b"
  by (auto simp: chan_defs split: option.splits)

lemma ch_recv_ok: "heap_ok h \<Longrightarrow> heap_ok (snd (ch_recv a h))"
  by (fastforce simp: heap_ok_def ch_recv_def ch_pending_def ch_limit_def
      split: option.splits list.splits)

lemma ch_recv_open [simp]: "ch_open (snd (ch_recv a h)) b = ch_open h b"
  by (auto simp: chan_defs split: option.splits list.splits)

lemma ch_recv_limit [simp]: "ch_limit (snd (ch_recv a h)) b = ch_limit h b"
  by (auto simp: chan_defs split: option.splits list.splits)

lemma ch_close_all_simps [simp]:
  "ch_close_all [] h = h"
  "ch_close_all (a # as) h = ch_close_all as (ch_close a h)"
  by (simp_all add: ch_close_all_def)

lemma ch_close_others_open:
  "ch_open h a \<Longrightarrow> a \<notin> set as \<Longrightarrow> (\<forall>b \<in> set as. ch_open h b) \<Longrightarrow> \<forall>b \<in> set as. ch_open (ch_close a h) b"
  by (auto simp: ch_close_open)

lemma ch_close_all_ok:
  "heap_ok h \<Longrightarrow> distinct as \<Longrightarrow> (\<forall>a \<in> set as. ch_open h a) \<Longrightarrow> heap_ok (ch_close_all as h)"
proof (induction as arbitrary: h)
  case Nil
  then show ?case by simp
next
  case (Cons a as)
  then have "\<forall>b \<in> set as. ch_open (ch_close a h) b"
    by (intro ch_close_others_open) auto
  with Cons show ?case by (simp add: ch_close_ok)
qed

lemma ch_close_all_open:
  "distinct as \<Longrightarrow> (\<forall>a \<in> set as. ch_open h a) \<Longrightarrow>
     ch_open (ch_close_all as h) b \<longleftrightarrow> b \<notin> set as \<and> ch_open h b"
proof (induction as arbitrary: h)
  case Nil
  then show ?case by simp
next
  case (Cons a as)
  then have "\<forall>b \<in> set as. ch_open (ch_close a h) b"
    by (intro ch_close_others_open) auto
  with Cons show ?case by (auto simp: ch_close_open)
qed

lemma ch_close_all_pending [simp]: "ch_pending (ch_close_all as h) b = ch_pending h b"
  by (induction as arbitrary: h) auto

lemma ch_close_all_limit [simp]: "ch_limit (ch_close_all as h) b = ch_limit h b"
  by (induction as arbitrary: h) auto

end
