(* ===== verification/Fanout.thy ===== *)
theory Fanout
  imports Prelude
begin

text \<open>
  The contract between a hub and its subscribers, shared by the Watch Together rooms
  (packages/watchrooms) and the live event hub (packages/liveevents): members are registered
  under an id, each has a bounded queue, and \<open>deliver\<close> either queues a value or, when the queue
  is full, removes the member.  The lemmas lift one delivery to a broadcast over any list of
  distinct members, which is what the loops over the subscriber maps do.
\<close>

locale fanout =
  fixes inv :: "'s \<Rightarrow> bool"
    and member :: "'s \<Rightarrow> 'i \<Rightarrow> bool"
    and queue :: "'s \<Rightarrow> 'i \<Rightarrow> 'e list"
    and capacity :: nat
    and deliver :: "'i \<Rightarrow> 'e \<Rightarrow> 's \<Rightarrow> 's"
  assumes deliver_inv: "inv s \<Longrightarrow> inv (deliver i e s)"
    and deliver_member: "inv s \<Longrightarrow>
      member (deliver i e s) j \<longleftrightarrow> member s j \<and> (j = i \<longrightarrow> length (queue s i) < capacity)"
    and deliver_queue: "inv s \<Longrightarrow> member (deliver i e s) j \<Longrightarrow>
      queue (deliver i e s) j = (if j = i then queue s j @ [e] else queue s j)"
    and queue_bounded: "inv s \<Longrightarrow> member s j \<Longrightarrow> length (queue s j) \<le> capacity"
begin

definition broadcast :: "('i \<times> 'e) list \<Rightarrow> 's \<Rightarrow> 's" where
  "broadcast es s = fold (\<lambda>(i, e). deliver i e) es s"

lemma broadcast_simps [simp]:
  "broadcast [] s = s"
  "broadcast ((i, e) # es) s = broadcast es (deliver i e s)"
  by (simp_all add: broadcast_def)

lemma broadcast_inv: "inv s \<Longrightarrow> inv (broadcast es s)"
  by (induction es arbitrary: s) (auto simp: deliver_inv)

text \<open>A member survives a broadcast exactly when it is not addressed or has room.\<close>

lemma broadcast_member:
  "inv s \<Longrightarrow> mwf es \<Longrightarrow>
   member (broadcast es s) j \<longleftrightarrow>
     member s j \<and> (map_of es j \<noteq> None \<longrightarrow> length (queue s j) < capacity)"
proof (induction es arbitrary: s)
  case Nil
  then show ?case by simp
next
  case (Cons x es)
  obtain i e where x: "x = (i, e)" by (cases x)
  have IH: "member (broadcast es (deliver i e s)) j \<longleftrightarrow> member (deliver i e s) j
      \<and> (map_of es j \<noteq> None \<longrightarrow> length (queue (deliver i e s) j) < capacity)"
    using Cons by (simp add: x deliver_inv)
  show ?case
  proof (cases "j = i")
    case True
    with IH Cons.prems show ?thesis by (simp add: x deliver_member)
  next
    case False
    with IH Cons.prems show ?thesis
      by (auto simp: x deliver_member deliver_queue)
  qed
qed

text \<open>What a surviving member finds in its queue: its event once, at the end.\<close>

lemma broadcast_queue:
  "inv s \<Longrightarrow> mwf es \<Longrightarrow> member (broadcast es s) j \<Longrightarrow>
   queue (broadcast es s) j = queue s j @ (case map_of es j of None \<Rightarrow> [] | Some e \<Rightarrow> [e])"
proof (induction es arbitrary: s)
  case Nil
  then show ?case by simp
next
  case (Cons x es)
  obtain i e where x: "x = (i, e)" by (cases x)
  let ?s = "deliver i e s"
  have prem: "inv ?s" "mwf es" "member (broadcast es ?s) j"
    using Cons.prems by (auto simp: x deliver_inv)
  then have "member ?s j" by (simp add: broadcast_member)
  with Cons.prems have "queue ?s j = (if j = i then queue s j @ [e] else queue s j)"
    by (simp add: deliver_queue)
  with Cons.IH [OF prem] Cons.prems show ?case by (auto simp: x)
qed

end

end
