(* ===== verification/Rooms.thy ===== *)
theory Rooms
  imports Channels Fanout
begin

text \<open>
  Watch Together rooms: packages/watchrooms/watchrooms.go and the state checks of http.go.

  A room has a leader, the last playback event and the connected subscribers; each subscriber
  reads from a buffered channel (theory Channels).  The pointer \<open>current *room\<close> of the source is
  the room's rid here, since a room that an operation works on stays in the map for the whole
  critical section.  \<open>rooms.now()\<close> is an argument of each operation, once for every call the
  operation makes; \<open>rooms.newID\<close> is the function \<open>draw\<close> giving the n-th identifier drawn.
  Every operation is one atomic step (the source holds \<open>rooms.mu\<close>).
\<close>

section \<open>State\<close>

definition default_ttl :: duration where "default_ttl = 4 * hour"
definition max_rooms :: nat where "max_rooms = 1024"
definition max_subscribers :: nat where "max_subscribers = 64"
definition event_queue :: nat where "event_queue = 8"
definition MaximumSeconds :: rat where "MaximumSeconds = 366 * 24 * 60 * 60"
definition MaximumDriftSeconds :: rat where "MaximumDriftSeconds = 60 * 60"

lemmas rooms_limits = max_rooms_def max_subscribers_def event_queue_def

record room_event =
  ev_Action :: string
  ev_Media :: string
  ev_Seconds :: gofloat
  ev_Leader :: bool
  ev_Revision :: "64 word"
  ev_EffectiveAt :: instant
  ev_Drift :: gofloat

definition zero_event :: room_event where
  "zero_event = \<lparr>ev_Action = '''', ev_Media = '''', ev_Seconds = Fin 0, ev_Leader = False,
     ev_Revision = 0, ev_EffectiveAt = 0, ev_Drift = Fin 0\<rparr>"

record room_metrics =
  rm_Connections :: nat
  rm_Joins :: "64 word"
  rm_Reconnects :: "64 word"
  rm_SlowDrops :: "64 word"
  rm_DriftObservations :: "64 word"
  rm_DriftSeconds :: gofloat

record room_subscriber =
  sub_viewer :: string
  sub_events :: nat

record room =
  room_leader :: string
  room_updated :: instant
  room_event :: room_event
  room_subscribers :: "(64 word, room_subscriber) gomap"
  room_seen :: "string list"

record rooms =
  rs_self :: nat
  rs_rooms :: "(string, room) gomap"
  rs_ttl :: duration
  rs_nextID :: "64 word"
  rs_joins :: "64 word"
  rs_reconnects :: "64 word"
  rs_slowDrops :: "64 word"
  rs_driftObservations :: "64 word"
  rs_driftSeconds :: gofloat
  rs_heap :: "room_event heap"

text \<open>
  A subscription names the Rooms value it belongs to (\<open>sb_rooms\<close> against \<open>rs_self\<close> is the pointer
  comparison \<open>subscription.rooms != rooms\<close>), and carries its \<open>sync.Once\<close>.
\<close>

record room_subscription =
  sb_rooms :: nat
  sb_roomID :: string
  sb_id :: "64 word"
  sb_events :: nat
  sb_once :: bool

definition rooms_New :: "nat \<Rightarrow> duration \<Rightarrow> rooms" where
  "rooms_New self ttl =
     \<lparr>rs_self = self, rs_rooms = [], rs_ttl = (if ttl \<le> 0 then default_ttl else ttl), rs_nextID = 0,
      rs_joins = 0, rs_reconnects = 0, rs_slowDrops = 0, rs_driftObservations = 0,
      rs_driftSeconds = Fin 0, rs_heap = hp_empty\<rparr>"

section \<open>Validation\<close>

definition rooms_validIdentity :: "string \<Rightarrow> bool" where
  "rooms_validIdentity value =
     (if value = '''' \<or> length value > 128 then False else list_all (\<lambda>c. \<not> is_control c) (runes value))"

definition rooms_validState :: "string \<Rightarrow> string \<Rightarrow> gofloat \<Rightarrow> bool" where
  "rooms_validState action media seconds \<longleftrightarrow>
     (action = ''play'' \<or> action = ''pause'' \<or> action = ''seek'' \<or> action = ''media'')
     \<and> rooms_validIdentity media \<and> fle (Fin 0) seconds \<and> fle seconds (Fin MaximumSeconds)
     \<and> \<not> is_nan seconds \<and> \<not> is_inf seconds"

definition rooms_event_valid :: "room_event \<Rightarrow> bool" where
  "rooms_event_valid e \<longleftrightarrow> rooms_validState (ev_Action e) (ev_Media e) (ev_Seconds e)"

text \<open>The HTTP layer's own checks (http.go): what it passes as \<open>authorized\<close>.\<close>

definition validHTTPSeconds :: "gofloat \<Rightarrow> bool" where
  "validHTTPSeconds seconds \<longleftrightarrow> fle (Fin 0) seconds \<and> fle seconds (Fin MaximumSeconds)
     \<and> \<not> is_nan seconds \<and> \<not> is_inf seconds"

fun slicesContains :: "string list \<Rightarrow> string \<Rightarrow> bool" where
  "slicesContains [] value = False"
| "slicesContains (candidate # values) value = (if candidate = value then True else slicesContains values value)"

text \<open>\<open>lookup_item\<close> is the library index (the item's kind, if the media is known), \<open>can_view\<close> the policy.\<close>

definition rooms_validEvent ::
  "(string \<Rightarrow> (string \<times> 'item) option) \<Rightarrow> ('item \<Rightarrow> bool) \<Rightarrow> room_event \<Rightarrow> bool" where
  "rooms_validEvent lookup_item can_view e \<longleftrightarrow>
     slicesContains [''play'', ''pause'', ''seek'', ''media''] (ev_Action e)
     \<and> (case lookup_item (ev_Media e) of
          None \<Rightarrow> False
        | Some (kind, item) \<Rightarrow> (kind = ''video'' \<or> kind = ''audio'') \<and> can_view item)
     \<and> validHTTPSeconds (ev_Seconds e)"

section \<open>Operations\<close>

definition put_room :: "string \<Rightarrow> room \<Rightarrow> rooms \<Rightarrow> rooms" where
  "put_room rid cur R = R\<lparr>rs_rooms := mput rid cur (rs_rooms R)\<rparr>"

definition room_channels :: "room \<Rightarrow> nat list" where
  "room_channels cur = map (\<lambda>(i, s). sub_events s) (room_subscribers cur)"

definition rooms_close :: "string \<Rightarrow> rooms \<Rightarrow> rooms" where
  "rooms_close rid R = (case map_of (rs_rooms R) rid of
     None \<Rightarrow> R
   | Some cur \<Rightarrow> (put_room rid (cur\<lparr>room_subscribers := []\<rparr>) R)
       \<lparr>rs_heap := ch_close_all (room_channels cur) (rs_heap R)\<rparr>)"

text \<open>\<open>rooms.close(current); delete(rooms.rooms, id)\<close>: what an expired room gets.\<close>

definition rooms_drop :: "string \<Rightarrow> rooms \<Rightarrow> rooms" where
  "rooms_drop rid R = (let R' = rooms_close rid R in R'\<lparr>rs_rooms := mdel rid (rs_rooms R')\<rparr>)"

definition rooms_active :: "string \<Rightarrow> instant \<Rightarrow> rooms \<Rightarrow> room option \<times> rooms" where
  "rooms_active rid now R = (case map_of (rs_rooms R) rid of
     None \<Rightarrow> (None, R)
   | Some cur \<Rightarrow>
       if time_sub now (room_updated cur) \<le> rs_ttl R then (Some cur, R) else (None, rooms_drop rid R))"

definition rooms_prune :: "instant \<Rightarrow> rooms \<Rightarrow> rooms" where
  "rooms_prune now R =
     fold (\<lambda>(rid, cur) S. if time_sub now (room_updated cur) > rs_ttl S then rooms_drop rid S else S)
       (rs_rooms R) R"

text \<open>
  The loop that draws identifiers until one is free.  It ends only when a free one is drawn, so
  its value is an option: None is "never returns".
\<close>

partial_function (option) fresh_id ::
  "(nat \<Rightarrow> string) \<Rightarrow> (string, room) gomap \<Rightarrow> nat \<Rightarrow> string option" where
  "fresh_id draw m n =
     (if map_of m (take 12 (draw n)) = None then Some (take 12 (draw n)) else fresh_id draw m (Suc n))"

definition new_room :: "string \<Rightarrow> string \<Rightarrow> gofloat \<Rightarrow> instant \<Rightarrow> room" where
  "new_room leader media seconds now =
     \<lparr>room_leader = leader, room_updated = now,
      room_event = \<lparr>ev_Action = ''pause'', ev_Media = media, ev_Seconds = seconds, ev_Leader = False,
        ev_Revision = 1, ev_EffectiveAt = now, ev_Drift = Fin 0\<rparr>,
      room_subscribers = [], room_seen = []\<rparr>"

definition rooms_Create ::
  "(nat \<Rightarrow> string) \<Rightarrow> instant \<Rightarrow> string \<Rightarrow> string \<Rightarrow> gofloat \<Rightarrow> rooms \<Rightarrow> (string \<times> bool \<times> rooms) option" where
  "rooms_Create draw now leader media seconds R =
     (if \<not> rooms_validIdentity leader \<or> \<not> rooms_validState ''pause'' media seconds then Some ('''', False, R)
      else let R1 = rooms_prune now R in
        if length (rs_rooms R1) \<ge> max_rooms then Some ('''', False, R1)
        else map_option (\<lambda>rid. (rid, True, put_room rid (new_room leader media seconds now) R1))
               (fresh_id draw (rs_rooms R1) 0))"

definition rooms_Snapshot :: "instant \<Rightarrow> string \<Rightarrow> string \<Rightarrow> rooms \<Rightarrow> (room_event \<times> bool) \<times> rooms" where
  "rooms_Snapshot now rid viewer R = (case rooms_active rid now R of
     (None, R1) \<Rightarrow> ((zero_event, False), R1)
   | (Some cur, R1) \<Rightarrow> (((room_event cur)\<lparr>ev_Leader := (viewer = room_leader cur)\<rparr>, True), R1))"

definition join_room :: "string \<Rightarrow> string \<Rightarrow> instant \<Rightarrow> room \<Rightarrow> rooms \<Rightarrow> rooms" where
  "join_room rid viewer now cur R =
     (let next = rs_nextID R + 1; mk = ch_make event_queue (rs_heap R) in
      put_room rid (cur\<lparr>room_subscribers :=
            mput next \<lparr>sub_viewer = viewer, sub_events = fst mk\<rparr> (room_subscribers cur),
          room_updated := now, room_seen := List.insert viewer (room_seen cur)\<rparr>)
        (R\<lparr>rs_nextID := next, rs_joins := rs_joins R + 1,
           rs_reconnects := (if viewer \<in> set (room_seen cur) then rs_reconnects R + 1 else rs_reconnects R),
           rs_heap := snd mk\<rparr>))"

definition rooms_Join ::
  "instant \<Rightarrow> instant \<Rightarrow> string \<Rightarrow> string \<Rightarrow> rooms
     \<Rightarrow> (room_event \<times> room_subscription option \<times> bool) \<times> rooms" where
  "rooms_Join now now' rid viewer R = (case rooms_active rid now R of
     (None, R1) \<Rightarrow> ((zero_event, None, False), R1)
   | (Some cur, R1) \<Rightarrow>
       if \<not> rooms_validIdentity viewer \<or> length (room_subscribers cur) \<ge> max_subscribers
       then ((zero_event, None, False), R1)
       else ((((room_event cur)\<lparr>ev_Leader := (viewer = room_leader cur)\<rparr>,
               Some \<lparr>sb_rooms = rs_self R1, sb_roomID = rid, sb_id = rs_nextID R1 + 1,
                 sb_events = fst (ch_make event_queue (rs_heap R1)), sb_once = False\<rparr>, True),
             join_room rid viewer now' cur R1)))"

definition currentSubscriber :: "room option \<Rightarrow> 64 word \<Rightarrow> room_subscriber option" where
  "currentSubscriber cur i = (case cur of None \<Rightarrow> None | Some c \<Rightarrow> map_of (room_subscribers c) i)"

definition rooms_ObserveDrift :: "instant \<Rightarrow> room_subscription option \<Rightarrow> gofloat \<Rightarrow> rooms \<Rightarrow> bool \<times> rooms" where
  "rooms_ObserveDrift now sub seconds R = (case sub of
     None \<Rightarrow> (False, R)
   | Some sb \<Rightarrow>
       if sb_rooms sb \<noteq> rs_self R \<or> flt seconds (Fin 0) \<or> flt (Fin MaximumDriftSeconds) seconds
          \<or> is_nan seconds \<or> is_inf seconds
       then (False, R)
       else (case rooms_active (sb_roomID sb) now R of (cur, R1) \<Rightarrow>
         (case currentSubscriber cur (sb_id sb) of
            None \<Rightarrow> (False, R1)
          | Some _ \<Rightarrow> (True, R1\<lparr>rs_driftObservations := rs_driftObservations R1 + 1,
                              rs_driftSeconds := seconds\<rparr>))))"

definition rooms_Metrics :: "instant \<Rightarrow> rooms \<Rightarrow> room_metrics \<times> rooms" where
  "rooms_Metrics now R = (let R1 = rooms_prune now R in
     (\<lparr>rm_Connections = sum_list (map (\<lambda>(rid, cur). length (room_subscribers cur)) (rs_rooms R1)),
       rm_Joins = rs_joins R1, rm_Reconnects = rs_reconnects R1, rm_SlowDrops = rs_slowDrops R1,
       rm_DriftObservations = rs_driftObservations R1, rm_DriftSeconds = rs_driftSeconds R1\<rparr>, R1))"

text \<open>Closing a subscriber's channel and removing it: the slow branch of \<open>offer\<close>, and \<open>leave\<close>.\<close>

definition unsubscribe :: "string \<Rightarrow> room \<Rightarrow> 64 word \<Rightarrow> room_subscriber \<Rightarrow> rooms \<Rightarrow> rooms" where
  "unsubscribe rid cur i target R =
     (put_room rid (cur\<lparr>room_subscribers := mdel i (room_subscribers cur)\<rparr>) R)
       \<lparr>rs_heap := ch_close (sub_events target) (rs_heap R)\<rparr>"

definition rooms_offer :: "string \<Rightarrow> 64 word \<Rightarrow> room_event \<Rightarrow> rooms \<Rightarrow> bool \<times> rooms" where
  "rooms_offer rid i e R = (case map_of (rs_rooms R) rid of
     None \<Rightarrow> (False, R)
   | Some cur \<Rightarrow> (case map_of (room_subscribers cur) i of
       None \<Rightarrow> (False, R)
     | Some target \<Rightarrow> (case ch_offer (sub_events target) e (rs_heap R) of (sent, h) \<Rightarrow>
         if sent then (True, R\<lparr>rs_heap := h\<rparr>)
         else (False, (unsubscribe rid cur i target (R\<lparr>rs_heap := h\<rparr>))
                        \<lparr>rs_slowDrops := rs_slowDrops R + 1\<rparr>))))"

definition rooms_broadcast :: "string \<Rightarrow> room \<Rightarrow> room_event \<Rightarrow> rooms \<Rightarrow> rooms" where
  "rooms_broadcast rid cur e R =
     fold (\<lambda>(i, target) S. snd (rooms_offer rid i (e\<lparr>ev_Leader := (sub_viewer target = room_leader cur)\<rparr>) S))
       (room_subscribers cur) R"

definition rooms_Update ::
  "instant \<Rightarrow> room_subscription option \<Rightarrow> room_event \<Rightarrow> bool \<Rightarrow> rooms \<Rightarrow> bool \<times> rooms" where
  "rooms_Update now sub e authorized R = (case sub of
     None \<Rightarrow> (False, R)
   | Some sb \<Rightarrow>
       if sb_rooms sb \<noteq> rs_self R then (False, R)
       else (case rooms_active (sb_roomID sb) now R of
         (None, R1) \<Rightarrow> (False, R1)
       | (Some cur, R1) \<Rightarrow> (case map_of (room_subscribers cur) (sb_id sb) of
           None \<Rightarrow> (False, R1)
         | Some member \<Rightarrow>
             if sub_viewer member \<noteq> room_leader cur then
               rooms_offer (sb_roomID sb) (sb_id sb)
                 (zero_event\<lparr>ev_Action := ''denied'', ev_Revision := ev_Revision (room_event cur),
                    ev_EffectiveAt := now\<rparr>) R1
             else if \<not> authorized \<or> \<not> rooms_event_valid e
                  \<or> ev_Revision e \<noteq> 0 \<and> ev_Revision e \<le> ev_Revision (room_event cur)
             then (True, R1)
             else
               let e' = e\<lparr>ev_Revision := ev_Revision (room_event cur) + 1, ev_EffectiveAt := now\<rparr>;
                   R2 = put_room (sb_roomID sb) (cur\<lparr>room_event := e', room_updated := now\<rparr>) R1;
                   R3 = rooms_broadcast (sb_roomID sb) cur e' R2
               in ((case map_of (rs_rooms R3) (sb_roomID sb) of
                      None \<Rightarrow> False
                    | Some cur' \<Rightarrow> map_of (room_subscribers cur') (sb_id sb) \<noteq> None), R3))))"

definition rooms_leave :: "string \<Rightarrow> 64 word \<Rightarrow> rooms \<Rightarrow> rooms" where
  "rooms_leave rid i R = (case map_of (rs_rooms R) rid of
     None \<Rightarrow> R
   | Some cur \<Rightarrow> (case map_of (room_subscribers cur) i of
       None \<Rightarrow> R
     | Some target \<Rightarrow> unsubscribe rid cur i target R))"

definition subscription_Close :: "room_subscription \<Rightarrow> rooms \<Rightarrow> room_subscription \<times> rooms" where
  "subscription_Close sb R =
     (if sb_once sb then (sb, R) else (sb\<lparr>sb_once := True\<rparr>, rooms_leave (sb_roomID sb) (sb_id sb) R))"

text \<open>The reader's side: taking the next event from \<open>subscription.Events()\<close>.\<close>

definition subscription_recv :: "room_subscription \<Rightarrow> rooms \<Rightarrow> room_event option \<times> rooms" where
  "subscription_recv sb R = (case ch_recv (sb_events sb) (rs_heap R) of (x, h) \<Rightarrow> (x, R\<lparr>rs_heap := h\<rparr>))"

section \<open>The invariant\<close>

text \<open>The subscriber registered in room \<open>r\<close> under \<open>i\<close>.\<close>

definition sub_at :: "rooms \<Rightarrow> string \<Rightarrow> 64 word \<Rightarrow> room_subscriber option" where
  "sub_at R r i = currentSubscriber (map_of (rs_rooms R) r) i"

definition room_ok :: "room \<Rightarrow> bool" where
  "room_ok cur \<longleftrightarrow> mwf (room_subscribers cur) \<and> length (room_subscribers cur) \<le> max_subscribers
     \<and> rooms_validIdentity (room_leader cur) \<and> rooms_event_valid (room_event cur)
     \<and> (\<forall>i s. map_of (room_subscribers cur) i = Some s \<longrightarrow>
          rooms_validIdentity (sub_viewer s) \<and> sub_viewer s \<in> set (room_seen cur))"

definition rooms_wf :: "rooms \<Rightarrow> bool" where
  "rooms_wf R \<longleftrightarrow> mwf (rs_rooms R) \<and> length (rs_rooms R) \<le> max_rooms
     \<and> (\<forall>r cur. map_of (rs_rooms R) r = Some cur \<longrightarrow> room_ok cur)"

text \<open>
  Every registered subscriber has an open channel of its own: no channel is closed twice and
  nothing is sent on a closed one.
\<close>

definition rooms_chans :: "rooms \<Rightarrow> bool" where
  "rooms_chans R \<longleftrightarrow> heap_ok (rs_heap R)
     \<and> (\<forall>r i s. sub_at R r i = Some s \<longrightarrow>
          ch_open (rs_heap R) (sub_events s) \<and> ch_limit (rs_heap R) (sub_events s) = event_queue)
     \<and> (\<forall>r i s r' i' s'. sub_at R r i = Some s \<longrightarrow> sub_at R r' i' = Some s' \<longrightarrow>
          sub_events s = sub_events s' \<longrightarrow> r = r' \<and> i = i')"

definition rooms_inv :: "rooms \<Rightarrow> bool" where
  "rooms_inv R \<longleftrightarrow> rooms_wf R \<and> rooms_chans R"

lemma rooms_invI: "rooms_wf R \<Longrightarrow> rooms_chans R \<Longrightarrow> rooms_inv R"
  by (simp add: rooms_inv_def)

lemma rooms_inv_room_ok: "rooms_inv R \<Longrightarrow> map_of (rs_rooms R) r = Some cur \<Longrightarrow> room_ok cur"
  by (simp add: rooms_inv_def rooms_wf_def)

lemma sub_at_put_room [simp]:
  "sub_at (put_room rid cur R) r i = (if r = rid then map_of (room_subscribers cur) i else sub_at R r i)"
  by (simp add: sub_at_def put_room_def currentSubscriber_def)

lemma sub_at_heap [simp]: "sub_at (R\<lparr>rs_heap := h\<rparr>) = sub_at R"
  by (simp add: sub_at_def fun_eq_iff)

lemma sub_at_slow [simp]: "sub_at (R\<lparr>rs_slowDrops := n\<rparr>) = sub_at R"
  by (simp add: sub_at_def fun_eq_iff)

lemma sub_at_room: "map_of (rs_rooms R) r = Some cur \<Longrightarrow> sub_at R r i = map_of (room_subscribers cur) i"
  by (simp add: sub_at_def currentSubscriber_def)

lemma put_room_heap [simp]: "rs_heap (put_room rid cur R) = rs_heap R"
  by (simp add: put_room_def)

lemma put_room_map [simp]:
  "map_of (rs_rooms (put_room rid cur R)) = (map_of (rs_rooms R))(rid \<mapsto> cur)"
  by (simp add: put_room_def)

lemma rooms_chans_cong:
  "rooms_chans R \<Longrightarrow> rs_heap S = rs_heap R \<Longrightarrow> (\<And>r i. sub_at S r i = sub_at R r i) \<Longrightarrow> rooms_chans S"
  by (simp add: rooms_chans_def)

lemma rooms_wf_cong: "rooms_wf R \<Longrightarrow> rs_rooms S = rs_rooms R \<Longrightarrow> rooms_wf S"
  by (simp add: rooms_wf_def)

lemma rooms_wf_put:
  assumes "rooms_wf R" "room_ok cur"
    and "map_of (rs_rooms R) rid \<noteq> None \<or> length (rs_rooms R) < max_rooms"
    and "rs_rooms S = mput rid cur (rs_rooms R)"
  shows "rooms_wf S"
  using assms by (auto simp: rooms_wf_def length_mput)

lemma room_ok_cong:
  "room_ok cur \<Longrightarrow> room_subscribers cur' = room_subscribers cur \<Longrightarrow> room_leader cur' = room_leader cur
   \<Longrightarrow> room_seen cur' = room_seen cur \<Longrightarrow> rooms_event_valid (room_event cur') \<Longrightarrow> room_ok cur'"
  by (simp add: room_ok_def)

lemma room_ok_mdel:
  "room_ok cur \<Longrightarrow> room_ok (cur\<lparr>room_subscribers := mdel i (room_subscribers cur)\<rparr>)"
  using length_mdel_le [of i "room_subscribers cur"] by (auto simp: room_ok_def split: if_splits)

lemma set_room_channels:
  "mwf (room_subscribers cur) \<Longrightarrow>
   set (room_channels cur) = {sub_events s | i s. map_of (room_subscribers cur) i = Some s}"
  by (force simp: room_channels_def mwf_in_set)

lemma distinct_map_inj_keys:
  assumes "mwf m" and "\<And>i s i' s'. map_of m i = Some s \<Longrightarrow> map_of m i' = Some s' \<Longrightarrow> f s = f s' \<Longrightarrow> i = i'"
  shows "distinct (map (\<lambda>(i, s). f s) m)"
proof -
  have "inj_on (\<lambda>(i, s). f s) (set m)"
    using assms by (force simp: inj_on_def mwf_in_set)
  moreover have "distinct m"
    using assms(1) by (simp add: mwf_def distinct_map)
  ultimately show ?thesis by (simp add: distinct_map)
qed

lemma room_channels_open:
  assumes "rooms_chans R" "rooms_wf R" "map_of (rs_rooms R) r = Some cur"
  shows "distinct (room_channels cur) \<and> (\<forall>a \<in> set (room_channels cur). ch_open (rs_heap R) a)"
proof -
  have wf: "mwf (room_subscribers cur)"
    using assms(2,3) by (auto simp: rooms_wf_def room_ok_def)
  have at: "sub_at R r i = map_of (room_subscribers cur) i" for i
    using assms(3) by (rule sub_at_room)
  have "distinct (room_channels cur)"
    unfolding room_channels_def
    using assms(1) by (intro distinct_map_inj_keys wf) (metis at rooms_chans_def)
  moreover have "\<forall>a \<in> set (room_channels cur). ch_open (rs_heap R) a"
    using assms(1) by (auto simp: set_room_channels [OF wf] rooms_chans_def at [symmetric])
  ultimately show ?thesis ..
qed

section \<open>Every operation keeps the invariant\<close>

lemma rooms_drop_rooms: "rs_rooms (rooms_drop rid R) = mdel rid (rs_rooms R)"
  by (auto simp: rooms_drop_def rooms_close_def Let_def put_room_def AList.delete_update_same
      split: option.splits)

lemma rooms_drop_ttl [simp]: "rs_ttl (rooms_drop rid R) = rs_ttl R"
  by (simp add: rooms_drop_def rooms_close_def put_room_def split: option.splits)

lemma rooms_drop_sub_at: "sub_at (rooms_drop rid R) r i = (if r = rid then None else sub_at R r i)"
  by (simp add: sub_at_def rooms_drop_rooms currentSubscriber_def)

lemma rooms_drop_heap:
  "rs_heap (rooms_drop rid R) = (case map_of (rs_rooms R) rid of None \<Rightarrow> rs_heap R
     | Some cur \<Rightarrow> ch_close_all (room_channels cur) (rs_heap R))"
  by (simp add: rooms_drop_def rooms_close_def split: option.splits)

lemma rooms_drop_wf: "rooms_wf R \<Longrightarrow> rooms_wf (rooms_drop rid R)"
  using length_mdel_le [of rid "rs_rooms R"]
  by (auto simp: rooms_wf_def rooms_drop_rooms split: if_splits)

lemma rooms_drop_chans:
  assumes "rooms_chans R" "rooms_wf R"
  shows "rooms_chans (rooms_drop rid R)"
proof (cases "map_of (rs_rooms R) rid")
  case None
  then have "sub_at R rid i = None" for i
    by (simp add: sub_at_def currentSubscriber_def)
  with None have "rs_heap (rooms_drop rid R) = rs_heap R" "\<And>r i. sub_at (rooms_drop rid R) r i = sub_at R r i"
    by (auto simp: rooms_drop_heap rooms_drop_sub_at)
  with assms(1) show ?thesis by (rule rooms_chans_cong)
next
  case (Some cur)
  note open_all = room_channels_open [OF assms Some]
  have wf: "mwf (room_subscribers cur)"
    using assms(2) Some by (auto simp: rooms_wf_def room_ok_def)
  have other: "sub_events s \<notin> set (room_channels cur)" if "sub_at R r i = Some s" "r \<noteq> rid" for r i s
    using assms(1) that by (auto simp: set_room_channels [OF wf] sub_at_room [OF Some, symmetric] rooms_chans_def)
  have heap: "rs_heap (rooms_drop rid R) = ch_close_all (room_channels cur) (rs_heap R)"
    by (simp add: rooms_drop_heap Some)
  have "heap_ok (rs_heap (rooms_drop rid R))"
    using assms(1) open_all by (simp add: heap ch_close_all_ok rooms_chans_def)
  moreover have "ch_open (rs_heap (rooms_drop rid R)) (sub_events s)
      \<and> ch_limit (rs_heap (rooms_drop rid R)) (sub_events s) = event_queue"
    if "sub_at (rooms_drop rid R) r i = Some s" for r i s
    using assms(1) open_all that other [of r i s]
    by (auto simp: heap ch_close_all_open rooms_drop_sub_at rooms_chans_def split: if_splits)
  ultimately show ?thesis
    using assms(1) unfolding rooms_chans_def by (auto simp: rooms_drop_sub_at split: if_splits)
qed

lemma rooms_drop_inv: "rooms_inv R \<Longrightarrow> rooms_inv (rooms_drop rid R)"
  by (simp add: rooms_inv_def rooms_drop_wf rooms_drop_chans)

lemma rooms_active_inv: "rooms_inv R \<Longrightarrow> rooms_inv (snd (rooms_active rid now R))"
  by (auto simp: rooms_active_def rooms_drop_inv split: option.splits)

lemma rooms_active_Some:
  "rooms_active rid now R = (Some cur, S) \<Longrightarrow>
     S = R \<and> map_of (rs_rooms R) rid = Some cur \<and> time_sub now (room_updated cur) \<le> rs_ttl R"
  by (auto simp: rooms_active_def split: option.splits if_splits)

lemma rooms_active_None: "rooms_active rid now R = (None, S) \<Longrightarrow> S = R \<or> S = rooms_drop rid R"
  by (auto simp: rooms_active_def split: option.splits if_splits)

lemma fold_drop_inv:
  "rooms_inv R \<Longrightarrow> rooms_inv (fold (\<lambda>(rid, cur) S. if P cur S then rooms_drop rid S else S) xs R)"
  by (induction xs arbitrary: R) (auto simp: rooms_drop_inv)

lemma rooms_prune_inv: "rooms_inv R \<Longrightarrow> rooms_inv (rooms_prune now R)"
  unfolding rooms_prune_def by (rule fold_drop_inv)

lemma rooms_prune_ttl [simp]: "rs_ttl (rooms_prune now R) = rs_ttl R"
proof -
  have "rs_ttl (fold (\<lambda>(rid, cur) S. if time_sub now (room_updated cur) > rs_ttl S then rooms_drop rid S else S) xs R)
      = rs_ttl R" for xs
    by (induction xs arbitrary: R) auto
  then show ?thesis by (simp add: rooms_prune_def)
qed

lemma rooms_Snapshot_inv: "rooms_inv R \<Longrightarrow> rooms_inv (snd (rooms_Snapshot now rid viewer R))"
  using rooms_active_inv [of R rid now]
  by (auto simp: rooms_Snapshot_def split: prod.splits option.splits)

lemma rooms_Metrics_inv: "rooms_inv R \<Longrightarrow> rooms_inv (snd (rooms_Metrics now R))"
  by (simp add: rooms_Metrics_def Let_def rooms_prune_inv)

text \<open>Creating: the identifier drawn is free, so no room is replaced.\<close>

lemma fresh_id_free: "fresh_id draw m n = Some rid \<Longrightarrow> map_of m rid = None"
proof -
  assume "fresh_id draw m n = Some rid"
  then show ?thesis
    by (rule fresh_id.raw_induct [where P = "\<lambda>d m n r. map_of m r = None", rotated])
      (auto split: if_splits)
qed

lemma fresh_id_drawn: "fresh_id draw m n = Some rid \<Longrightarrow> \<exists>k. rid = take 12 (draw k)"
proof -
  assume "fresh_id draw m n = Some rid"
  then show ?thesis
    by (rule fresh_id.raw_induct [where P = "\<lambda>d m n r. \<exists>k. r = take 12 (d k)", rotated]) (auto split: if_splits)
qed

lemma fresh_id_returns:
  "k \<ge> n \<Longrightarrow> map_of m (take 12 (draw k)) = None \<Longrightarrow> \<exists>rid. fresh_id draw m n = Some rid"
proof (induction "k - n" arbitrary: n)
  case 0
  then show ?case by (simp add: fresh_id.simps)
next
  case (Suc d)
  show ?case
  proof (cases "map_of m (take 12 (draw n)) = None")
    case True
    then show ?thesis by (simp add: fresh_id.simps)
  next
    case False
    from Suc have "\<exists>rid. fresh_id draw m (Suc n) = Some rid" by (intro Suc.hyps) auto
    with False show ?thesis by (simp add: fresh_id.simps [of draw m n])
  qed
qed

text \<open>
  Among as many distinct identifiers as the map has rooms, plus one, one is free: the loop of
  \<open>Create\<close> ends within that many draws.
\<close>

lemma fresh_id_pigeonhole:
  assumes "inj_on (\<lambda>k. take 12 (draw k)) {0..length m}"
  shows "\<exists>rid. fresh_id draw m 0 = Some rid"
proof -
  let ?f = "\<lambda>k. take 12 (draw k)"
  have "\<not> ?f ` {0..length m} \<subseteq> set (map fst m)"
  proof
    assume "?f ` {0..length m} \<subseteq> set (map fst m)"
    then have "card (?f ` {0..length m}) \<le> card (set (map fst m))"
      by (intro card_mono) auto
    also have "\<dots> \<le> length m" by (metis card_length length_map)
    finally show False using assms by (simp add: card_image)
  qed
  then obtain k where "?f k \<notin> fst ` set m" by auto
  then have "map_of m (?f k) = None" by (simp add: map_of_eq_None_iff)
  then show ?thesis by (intro fresh_id_returns [of 0 k]) auto
qed

lemma new_room_ok:
  "rooms_validIdentity leader \<Longrightarrow> rooms_validState ''pause'' media seconds \<Longrightarrow>
     room_ok (new_room leader media seconds now)"
  by (simp add: room_ok_def new_room_def rooms_event_valid_def)

lemma rooms_add_inv:
  assumes "rooms_inv R" "map_of (rs_rooms R) rid = None" "length (rs_rooms R) < max_rooms"
    and "room_ok cur" "room_subscribers cur = []"
  shows "rooms_inv (put_room rid cur R)"
proof (rule rooms_invI)
  show "rooms_wf (put_room rid cur R)"
    by (rule rooms_wf_put [of R cur rid]) (use assms in \<open>auto simp: rooms_inv_def put_room_def\<close>)
  have "sub_at R rid i = None" for i
    using assms(2) by (simp add: sub_at_def currentSubscriber_def)
  with assms(5) have "sub_at (put_room rid cur R) r i = sub_at R r i" for r i by simp
  then show "rooms_chans (put_room rid cur R)"
    using assms(1) by (auto simp: rooms_inv_def intro: rooms_chans_cong [of R])
qed

lemma rooms_Create_inv:
  assumes "rooms_inv R" "rooms_Create draw now leader media seconds R = Some (rid, ok, S)"
  shows "rooms_inv S"
proof (cases "rooms_validIdentity leader \<and> rooms_validState ''pause'' media seconds
    \<and> length (rs_rooms (rooms_prune now R)) < max_rooms")
  case True
  with assms(2) have "fresh_id draw (rs_rooms (rooms_prune now R)) 0 = Some rid"
    and S: "S = put_room rid (new_room leader media seconds now) (rooms_prune now R)"
    by (auto simp: rooms_Create_def Let_def)
  then have "map_of (rs_rooms (rooms_prune now R)) rid = None" by (simp add: fresh_id_free)
  with True assms(1) show ?thesis
    unfolding S by (intro rooms_add_inv rooms_prune_inv new_room_ok) (auto simp: new_room_def)
next
  case False
  with assms show ?thesis by (auto simp: rooms_Create_def Let_def rooms_prune_inv split: if_splits)
qed

text \<open>Joining.\<close>

lemma room_ok_join:
  assumes "room_ok cur" "rooms_validIdentity viewer" "length (room_subscribers cur) < max_subscribers"
  shows "room_ok (cur\<lparr>room_subscribers := mput i \<lparr>sub_viewer = viewer, sub_events = a\<rparr> (room_subscribers cur),
    room_updated := now, room_seen := List.insert viewer (room_seen cur)\<rparr>)"
  using assms by (auto simp: room_ok_def length_mput split: if_splits)

lemma join_room_inv:
  assumes inv: "rooms_inv R" and cur: "map_of (rs_rooms R) rid = Some cur"
    and viewer: "rooms_validIdentity viewer" and len: "length (room_subscribers cur) < max_subscribers"
  shows "rooms_inv (join_room rid viewer now cur R)"
proof (rule rooms_invI)
  have ok: "room_ok cur" using inv cur by (rule rooms_inv_room_ok)
  show "rooms_wf (join_room rid viewer now cur R)"
    by (rule rooms_wf_put [OF _ room_ok_join [OF ok viewer len], of R rid])
      (use inv cur in \<open>auto simp: join_room_def Let_def put_room_def rooms_inv_def\<close>)
  let ?h = "rs_heap R" and ?a = "fst (ch_make event_queue (rs_heap R))"
  let ?S = "join_room rid viewer now cur R"
  have heap: "heap_ok ?h" using inv by (simp add: rooms_inv_def rooms_chans_def)
  have old: "ch_open ?h (sub_events s) \<and> ch_limit ?h (sub_events s) = event_queue
      \<and> sub_events s \<noteq> ?a \<and> ?a \<noteq> sub_events s"
    if "sub_at R r i = Some s" for r i s
    using inv that ch_make_fresh [OF heap, of event_queue] unfolding rooms_inv_def rooms_chans_def by metis
  have at: "sub_at ?S r i = (if r = rid \<and> i = rs_nextID R + 1 then Some \<lparr>sub_viewer = viewer, sub_events = ?a\<rparr>
      else sub_at R r i)" for r i
    using sub_at_room [OF cur] by (auto simp: join_room_def Let_def sub_at_def put_room_def currentSubscriber_def)
  have hp: "rs_heap ?S = snd (ch_make event_queue ?h)" by (simp add: join_room_def Let_def)
  have inj: "r = r' \<and> i = i'"
    if "sub_at R r i = Some s" "sub_at R r' i' = Some s'" "sub_events s = sub_events s'" for r i s r' i' s'
    using inv that by (auto simp: rooms_inv_def rooms_chans_def)
  show "rooms_chans ?S"
    unfolding rooms_chans_def hp
    using ch_make_ok [OF heap, of event_queue]
    by (auto simp: at ch_make_limit dest: old inj split: if_splits)
qed

lemma rooms_Join_inv: "rooms_inv R \<Longrightarrow> rooms_inv (snd (rooms_Join now now' rid viewer R))"
  using rooms_active_inv [of R rid now]
  by (auto simp: rooms_Join_def not_le intro!: join_room_inv dest: rooms_active_Some
      split: prod.splits option.splits)

lemma rooms_ObserveDrift_inv: "rooms_inv R \<Longrightarrow> rooms_inv (snd (rooms_ObserveDrift now sub seconds R))"
proof -
  assume inv: "rooms_inv R"
  have keep: "rooms_inv (S\<lparr>rs_driftObservations := n, rs_driftSeconds := x\<rparr>)" if "rooms_inv S" for S n x
    using that by (auto simp: rooms_inv_def rooms_wf_def rooms_chans_def sub_at_def)
  have "rooms_inv S" if "rooms_active rid now R = (c, S)" for rid c S
    using rooms_active_inv [OF inv, of rid now] that by simp
  then show "rooms_inv (snd (rooms_ObserveDrift now sub seconds R))"
    using inv by (auto simp: rooms_ObserveDrift_def intro!: keep split: prod.splits option.splits)
qed

text \<open>Unsubscribing and offering.\<close>

lemma unsubscribe_inv:
  assumes inv: "rooms_inv R" and cur: "map_of (rs_rooms R) rid = Some cur"
    and target: "map_of (room_subscribers cur) i = Some t"
  shows "rooms_inv (unsubscribe rid cur i t R)"
proof (rule rooms_invI)
  have ok: "room_ok cur" using inv cur by (rule rooms_inv_room_ok)
  show "rooms_wf (unsubscribe rid cur i t R)"
    by (rule rooms_wf_put [OF _ room_ok_mdel [OF ok, of i], of R rid])
      (use inv cur in \<open>auto simp: unsubscribe_def put_room_def rooms_inv_def\<close>)
  let ?S = "unsubscribe rid cur i t R" and ?h = "rs_heap R"
  have t: "sub_at R rid i = Some t" using cur target by (simp add: sub_at_room)
  have at: "sub_at ?S r j = (if r = rid \<and> j = i then None else sub_at R r j)" for r j
    using sub_at_room [OF cur, of j] by (auto simp: unsubscribe_def)
  have hp: "rs_heap ?S = ch_close (sub_events t) ?h" by (simp add: unsubscribe_def)
  have all: "ch_open ?h (sub_events s) \<and> ch_limit ?h (sub_events s) = event_queue
      \<and> (sub_events s = sub_events t \<longrightarrow> r = rid \<and> j = i)" if "sub_at R r j = Some s" for r j s
    using inv that t unfolding rooms_inv_def rooms_chans_def by metis
  have inj: "r = r' \<and> j = j'"
    if "sub_at R r j = Some s" "sub_at R r' j' = Some s'" "sub_events s = sub_events s'" for r j s r' j' s'
    using inv that by (auto simp: rooms_inv_def rooms_chans_def)
  have "heap_ok (ch_close (sub_events t) ?h)"
    using inv all [OF t] by (simp add: ch_close_ok rooms_inv_def rooms_chans_def)
  moreover have topen: "ch_open ?h (sub_events t)" using all [OF t] by simp
  ultimately show "rooms_chans ?S"
    unfolding rooms_chans_def hp
    by (auto simp: at ch_close_open [OF topen] dest: all inj split: if_splits)
qed

lemma rooms_slow_inv [simp]: "rooms_inv (R\<lparr>rs_slowDrops := n\<rparr>) = rooms_inv R"
  by (simp add: rooms_inv_def rooms_wf_def rooms_chans_def)

lemma rooms_heap_inv:
  assumes "rooms_inv R" "heap_ok h"
    and "\<And>a. ch_open h a = ch_open (rs_heap R) a" "\<And>a. ch_limit h a = ch_limit (rs_heap R) a"
  shows "rooms_inv (R\<lparr>rs_heap := h\<rparr>)"
  using assms by (auto simp: rooms_inv_def rooms_wf_def rooms_chans_def)

lemma rooms_offer_inv:
  assumes inv: "rooms_inv R"
  shows "rooms_inv (snd (rooms_offer rid i e R))"
proof (cases "sub_at R rid i")
  case None
  then show ?thesis
    using inv by (auto simp: rooms_offer_def sub_at_def currentSubscriber_def split: option.splits)
next
  case (Some t)
  then obtain cur where cur: "map_of (rs_rooms R) rid = Some cur" and t: "map_of (room_subscribers cur) i = Some t"
    by (auto simp: sub_at_def currentSubscriber_def split: option.splits)
  obtain sent h where o: "ch_offer (sub_events t) e (rs_heap R) = (sent, h)" by fastforce
  have "ch_open (rs_heap R) (sub_events t)" "heap_ok (rs_heap R)"
    using inv Some by (auto simp: rooms_inv_def rooms_chans_def)
  then have "rooms_inv (R\<lparr>rs_heap := h\<rparr>)"
    using inv ch_offer_ok [of "rs_heap R" "sub_events t" e] ch_offer_open [of "sub_events t" e "rs_heap R"]
      ch_offer_limit [of "sub_events t" e "rs_heap R"] by (intro rooms_heap_inv) (auto simp: o)
  then show ?thesis
    using cur t by (auto simp: rooms_offer_def o intro!: unsubscribe_inv)
qed

lemma rooms_leave_inv: "rooms_inv R \<Longrightarrow> rooms_inv (rooms_leave rid i R)"
  by (auto simp: rooms_leave_def intro!: unsubscribe_inv split: option.splits)

lemma subscription_Close_inv: "rooms_inv R \<Longrightarrow> rooms_inv (snd (subscription_Close sb R))"
  by (simp add: subscription_Close_def rooms_leave_inv)

lemma subscription_recv_inv: "rooms_inv R \<Longrightarrow> rooms_inv (snd (subscription_recv sb R))"
proof -
  assume inv: "rooms_inv R"
  obtain x h where r: "ch_recv (sb_events sb) (rs_heap R) = (x, h)" by fastforce
  have "heap_ok (rs_heap R)" using inv by (simp add: rooms_inv_def rooms_chans_def)
  then show ?thesis
    using inv ch_recv_ok [of "rs_heap R" "sb_events sb"] ch_recv_open [of "sb_events sb" "rs_heap R"]
      ch_recv_limit [of "sb_events sb" "rs_heap R"]
    by (auto simp: subscription_recv_def r intro!: rooms_heap_inv)
qed

section \<open>Offering and broadcasting\<close>

definition room_queue :: "rooms \<Rightarrow> string \<Rightarrow> 64 word \<Rightarrow> room_event list" where
  "room_queue R r i = (case sub_at R r i of None \<Rightarrow> [] | Some s \<Rightarrow> ch_pending (rs_heap R) (sub_events s))"

text \<open>A room without its subscribers: what offering leaves alone.\<close>

definition room_static :: "rooms \<Rightarrow> string \<Rightarrow> room option" where
  "room_static R r = map_option (\<lambda>cur. cur\<lparr>room_subscribers := []\<rparr>) (map_of (rs_rooms R) r)"

lemma sub_atE:
  assumes "sub_at R rid i = Some t"
  obtains cur where "map_of (rs_rooms R) rid = Some cur" "map_of (room_subscribers cur) i = Some t"
  using assms by (auto simp: sub_at_def currentSubscriber_def split: option.splits)

lemma rooms_inv_chan:
  assumes "rooms_inv R" "sub_at R r i = Some s"
  shows "ch_open (rs_heap R) (sub_events s)" "ch_limit (rs_heap R) (sub_events s) = event_queue"
    and "length (ch_pending (rs_heap R) (sub_events s)) \<le> event_queue"
proof -
  show o: "ch_open (rs_heap R) (sub_events s)" "ch_limit (rs_heap R) (sub_events s) = event_queue"
    using assms by (auto simp: rooms_inv_def rooms_chans_def)
  have "heap_ok (rs_heap R)" using assms(1) by (simp add: rooms_inv_def rooms_chans_def)
  then have "length (ch_pending (rs_heap R) (sub_events s)) \<le> ch_limit (rs_heap R) (sub_events s)"
    by (simp add: heap_ok_def)
  with o show "length (ch_pending (rs_heap R) (sub_events s)) \<le> event_queue" by simp
qed

lemma rooms_inv_inj:
  "rooms_inv R \<Longrightarrow> sub_at R r i = Some s \<Longrightarrow> sub_at R r' i' = Some s' \<Longrightarrow> sub_events s = sub_events s' \<Longrightarrow>
     r = r' \<and> i = i'"
  by (auto simp: rooms_inv_def rooms_chans_def)

lemma rooms_offer_absent: "sub_at R rid i = None \<Longrightarrow> rooms_offer rid i e R = (False, R)"
  by (auto simp: rooms_offer_def sub_at_def currentSubscriber_def split: option.splits)

lemma rooms_offer_sent:
  assumes "rooms_inv R" "sub_at R rid i = Some t" "length (room_queue R rid i) < event_queue"
  shows "rooms_offer rid i e R = (True, R\<lparr>rs_heap := snd (ch_offer (sub_events t) e (rs_heap R))\<rparr>)"
  using assms rooms_inv_chan [OF assms(1,2)] ch_offer_result [of "rs_heap R" "sub_events t" e]
  by (auto elim!: sub_atE simp: rooms_offer_def room_queue_def split: prod.splits)

lemma rooms_offer_full:
  assumes "rooms_inv R" "sub_at R rid i = Some t" "length (room_queue R rid i) \<ge> event_queue"
    and "map_of (rs_rooms R) rid = Some cur"
  shows "rooms_offer rid i e R = (False, (unsubscribe rid cur i t R)\<lparr>rs_slowDrops := rs_slowDrops R + 1\<rparr>)"
  using assms rooms_inv_chan [OF assms(1,2)] ch_offer_full [of "rs_heap R" "sub_events t" e]
  by (auto simp: rooms_offer_def room_queue_def sub_at_room split: prod.splits)

lemma unsubscribe_sub_at:
  "map_of (rs_rooms R) rid = Some cur \<Longrightarrow>
   sub_at (unsubscribe rid cur i t R) r j = (if r = rid \<and> j = i then None else sub_at R r j)"
  using sub_at_room [of R rid cur j] by (auto simp: unsubscribe_def)

lemma unsubscribe_heap [simp]: "rs_heap (unsubscribe rid cur i t R) = ch_close (sub_events t) (rs_heap R)"
  by (simp add: unsubscribe_def)

lemma rooms_offer_sub_at:
  assumes "rooms_inv R"
  shows "sub_at (snd (rooms_offer rid i e R)) r j =
    (if r = rid \<and> j = i \<and> event_queue \<le> length (room_queue R rid i) then None else sub_at R r j)"
proof (cases "sub_at R rid i")
  case None
  then show ?thesis by (simp add: rooms_offer_absent)
next
  case (Some t)
  then obtain cur where cur: "map_of (rs_rooms R) rid = Some cur" by (rule sub_atE)
  show ?thesis
  proof (cases "length (room_queue R rid i) < event_queue")
    case True
    with assms Some show ?thesis by (simp add: rooms_offer_sent)
  next
    case False
    with assms Some cur show ?thesis by (simp add: rooms_offer_full unsubscribe_sub_at)
  qed
qed

lemma rooms_offer_queue:
  assumes inv: "rooms_inv R" and at: "sub_at (snd (rooms_offer rid i e R)) r j = Some s"
  shows "room_queue (snd (rooms_offer rid i e R)) r j =
    (if r = rid \<and> j = i then room_queue R r j @ [e] else room_queue R r j)"
proof (cases "sub_at R rid i")
  case None
  with at show ?thesis by (auto simp: rooms_offer_absent)
next
  case (Some t)
  then obtain cur where cur: "map_of (rs_rooms R) rid = Some cur" by (rule sub_atE)
  have s: "sub_at R r j = Some s"
    using at by (simp add: rooms_offer_sub_at [OF inv] split: if_splits)
  show ?thesis
  proof (cases "length (room_queue R rid i) < event_queue")
    case True
    have "sub_events s = sub_events t \<longleftrightarrow> r = rid \<and> j = i"
      using rooms_inv_inj [OF inv s Some] s Some by auto
    then show ?thesis
      using True s Some rooms_inv_chan [OF inv Some]
      by (auto simp: rooms_offer_sent [OF inv Some True] room_queue_def ch_offer_pending)
  next
    case False
    then show ?thesis
      using at s Some inv cur
      by (auto simp: rooms_offer_full room_queue_def unsubscribe_sub_at)
  qed
qed

lemma rooms_offer_static: "room_static (snd (rooms_offer rid i e R)) = room_static R"
  by (auto simp: rooms_offer_def room_static_def unsubscribe_def put_room_def fun_eq_iff
      split: option.splits prod.splits)

interpretation room_fan: fanout rooms_inv "\<lambda>R i. sub_at R rid i \<noteq> None" "\<lambda>R. room_queue R rid"
  event_queue "\<lambda>i e R. snd (rooms_offer rid i e R)" for rid
proof
  fix R i e j
  assume inv: "rooms_inv R"
  show "rooms_inv (snd (rooms_offer rid i e R))" using inv by (rule rooms_offer_inv)
  show "sub_at (snd (rooms_offer rid i e R)) rid j \<noteq> None \<longleftrightarrow>
      sub_at R rid j \<noteq> None \<and> (j = i \<longrightarrow> length (room_queue R rid i) < event_queue)"
    using inv by (auto simp: rooms_offer_sub_at)
  show "room_queue (snd (rooms_offer rid i e R)) rid j =
      (if j = i then room_queue R rid j @ [e] else room_queue R rid j)"
    if "sub_at (snd (rooms_offer rid i e R)) rid j \<noteq> None"
    using that rooms_offer_queue [OF inv, of rid i e rid j] by auto
  show "length (room_queue R rid j) \<le> event_queue" if "sub_at R rid j \<noteq> None"
    using that rooms_inv_chan(3) [OF inv] by (auto simp: room_queue_def)
qed

text \<open>The events a broadcast addresses: one per subscriber, marked for the leader.\<close>

definition addressed :: "room \<Rightarrow> room_event \<Rightarrow> (64 word, room_event) gomap" where
  "addressed cur e = map (\<lambda>(i, t). (i, e\<lparr>ev_Leader := (sub_viewer t = room_leader cur)\<rparr>)) (room_subscribers cur)"

lemma rooms_broadcast_fan: "rooms_broadcast rid cur e R = room_fan.broadcast rid (addressed cur e) R"
  by (simp add: rooms_broadcast_def addressed_def room_fan.broadcast_def fold_map comp_def case_prod_unfold)

lemma mwf_addressed [simp]: "mwf (addressed cur e) = mwf (room_subscribers cur)"
  by (simp add: addressed_def)

lemma map_of_addressed:
  "map_of (addressed cur e) i =
     map_option (\<lambda>t. e\<lparr>ev_Leader := (sub_viewer t = room_leader cur)\<rparr>) (map_of (room_subscribers cur) i)"
  by (simp add: addressed_def)

lemma rooms_broadcast_inv: "rooms_inv R \<Longrightarrow> rooms_inv (rooms_broadcast rid cur e R)"
  by (simp add: rooms_broadcast_fan room_fan.broadcast_inv)

lemma fold_offer_static:
  "room_static (fold (\<lambda>(i, t) S. snd (rooms_offer rid i (f t) S)) xs R) = room_static R"
  by (induction xs arbitrary: R) (auto simp: rooms_offer_static)

lemma rooms_broadcast_static: "room_static (rooms_broadcast rid cur e R) = room_static R"
  unfolding rooms_broadcast_def by (rule fold_offer_static)

lemma fold_offer_sub_at:
  "rooms_inv R \<Longrightarrow> sub_at (fold (\<lambda>(i, t) S. snd (rooms_offer rid i (f t) S)) xs R) r j = Some s
     \<Longrightarrow> sub_at R r j = Some s"
proof (induction xs arbitrary: R)
  case Nil
  then show ?case by simp
next
  case (Cons x xs)
  obtain i t where x: "x = (i, t)" by (cases x)
  have "sub_at (snd (rooms_offer rid i (f t) R)) r j = Some s"
    using Cons by (simp add: x rooms_offer_inv)
  then show ?case using Cons.prems(1) by (simp add: rooms_offer_sub_at split: if_splits)
qed

lemma rooms_broadcast_sub_at:
  "rooms_inv R \<Longrightarrow> sub_at (rooms_broadcast rid cur e R) r j = Some s \<Longrightarrow> sub_at R r j = Some s"
  unfolding rooms_broadcast_def by (rule fold_offer_sub_at)

text \<open>The state in which an accepted event has been stored, before it is broadcast.\<close>

lemma set_event_inv:
  assumes "rooms_inv R" "map_of (rs_rooms R) rid = Some cur" "rooms_event_valid e"
  shows "rooms_inv (put_room rid (cur\<lparr>room_event := e, room_updated := now\<rparr>) R)"
proof (rule rooms_invI)
  have ok: "room_ok (cur\<lparr>room_event := e, room_updated := now\<rparr>)"
    using rooms_inv_room_ok [OF assms(1,2)] assms(3) by (auto intro: room_ok_cong)
  show "rooms_wf (put_room rid (cur\<lparr>room_event := e, room_updated := now\<rparr>) R)"
    by (rule rooms_wf_put [OF _ ok, of R rid]) (use assms in \<open>auto simp: put_room_def rooms_inv_def\<close>)
  show "rooms_chans (put_room rid (cur\<lparr>room_event := e, room_updated := now\<rparr>) R)"
    by (rule rooms_chans_cong [of R]) (use assms in \<open>auto simp: rooms_inv_def sub_at_room\<close>)
qed

text \<open>The cases of \<open>Update\<close>.\<close>

definition update_accepted :: "instant \<Rightarrow> room_subscription \<Rightarrow> room_event \<Rightarrow> bool \<Rightarrow> rooms \<Rightarrow> room \<Rightarrow> bool" where
  "update_accepted now sb e authorized R cur \<longleftrightarrow>
     sb_rooms sb = rs_self R \<and> rooms_active (sb_roomID sb) now R = (Some cur, R)
     \<and> (\<exists>m. map_of (room_subscribers cur) (sb_id sb) = Some m \<and> sub_viewer m = room_leader cur)
     \<and> authorized \<and> rooms_event_valid e \<and> (ev_Revision e = 0 \<or> ev_Revision (room_event cur) < ev_Revision e)"

definition stored_event :: "instant \<Rightarrow> room \<Rightarrow> room_event \<Rightarrow> room_event" where
  "stored_event now cur e = e\<lparr>ev_Revision := ev_Revision (room_event cur) + 1, ev_EffectiveAt := now\<rparr>"

definition set_event :: "instant \<Rightarrow> string \<Rightarrow> room \<Rightarrow> room_event \<Rightarrow> rooms \<Rightarrow> rooms" where
  "set_event now rid cur e R =
     put_room rid (cur\<lparr>room_event := stored_event now cur e, room_updated := now\<rparr>) R"

lemma stored_event_valid [simp]: "rooms_event_valid (stored_event now cur e) = rooms_event_valid e"
  by (simp add: rooms_event_valid_def stored_event_def)

lemma rooms_Update_cases:
  assumes "rooms_Update now sub e authorized R = (ok, S)"
  obtains (rejected) "S = R"
  | (expired) rid where "S = rooms_drop rid R"
  | (denied) rid i d where "S = snd (rooms_offer rid i d R)"
  | (accepted) sb cur where "sub = Some sb" "update_accepted now sb e authorized R cur"
      "S = rooms_broadcast (sb_roomID sb) cur (stored_event now cur e) (set_event now (sb_roomID sb) cur e R)"
proof -
  note cases = rejected expired accepted
  have offered: thesis if "rooms_offer rid i d R = (ok, S)" for rid i d
    using denied [of rid i d] that by simp
  show thesis
  proof (cases sub)
    case None
    with assms show ?thesis by (auto simp: rooms_Update_def intro: cases)
  next
    case (Some sb)
    obtain act R1 where act: "rooms_active (sb_roomID sb) now R = (act, R1)" by fastforce
    show ?thesis
    proof (cases act)
      case None
      with act have "R1 = R \<or> R1 = rooms_drop (sb_roomID sb) R" by (auto dest: rooms_active_None)
      with assms Some None act show ?thesis
        by (auto simp: rooms_Update_def split: if_splits intro: cases)
    next
      case (Some cur)
      with act have R1: "R1 = R" by (auto dest: rooms_active_Some)
      show ?thesis
      proof (cases "update_accepted now sb e authorized R cur")
        case True
        with assms \<open>sub = Some sb\<close> Some act R1 show ?thesis
          by (intro accepted) (auto simp: rooms_Update_def update_accepted_def Let_def not_le
              stored_event_def set_event_def split: if_splits)
      next
        case False
        with assms \<open>sub = Some sb\<close> Some act R1 show ?thesis
          by (auto simp: rooms_Update_def update_accepted_def Let_def not_le split: if_splits option.splits
              intro: rejected offered)
      qed
    qed
  qed
qed

lemma rooms_Update_accepted:
  assumes "update_accepted now sb e authorized R cur" "rooms_Update now (Some sb) e authorized R = (ok, S)"
  shows "S = rooms_broadcast (sb_roomID sb) cur (stored_event now cur e) (set_event now (sb_roomID sb) cur e R)"
    and "ok \<longleftrightarrow> sub_at S (sb_roomID sb) (sb_id sb) \<noteq> None"
  using assms
  by (auto simp: rooms_Update_def update_accepted_def Let_def not_le stored_event_def set_event_def
      sub_at_def currentSubscriber_def split: if_splits option.splits)

lemma rooms_Update_inv: "rooms_inv R \<Longrightarrow> rooms_inv (snd (rooms_Update now sub e authorized R))"
proof -
  assume inv: "rooms_inv R"
  obtain ok S where u: "rooms_Update now sub e authorized R = (ok, S)" by fastforce
  then show ?thesis
  proof (cases rule: rooms_Update_cases)
    case (accepted sb cur)
    then have "map_of (rs_rooms R) (sb_roomID sb) = Some cur" "rooms_event_valid e"
      by (auto simp: update_accepted_def dest: rooms_active_Some)
    with inv accepted u show ?thesis
      by (auto simp: set_event_def intro!: rooms_broadcast_inv set_event_inv)
  qed (use inv u in \<open>auto intro: rooms_drop_inv rooms_offer_inv\<close>)
qed

section \<open>Reachable states\<close>

inductive rooms_step :: "rooms \<Rightarrow> rooms \<Rightarrow> bool" where
  create: "rooms_Create draw now leader media seconds R = Some (rid, ok, S) \<Longrightarrow> rooms_step R S"
| snapshot: "rooms_Snapshot now rid viewer R = (r, S) \<Longrightarrow> rooms_step R S"
| join: "rooms_Join now now' rid viewer R = (r, S) \<Longrightarrow> rooms_step R S"
| drift: "rooms_ObserveDrift now sub seconds R = (r, S) \<Longrightarrow> rooms_step R S"
| metrics: "rooms_Metrics now R = (m, S) \<Longrightarrow> rooms_step R S"
| update: "rooms_Update now sub e authorized R = (ok, S) \<Longrightarrow> rooms_step R S"
| close_sub: "subscription_Close sb R = (sb', S) \<Longrightarrow> rooms_step R S"
| receive: "subscription_recv sb R = (x, S) \<Longrightarrow> rooms_step R S"

inductive rooms_reach :: "nat \<Rightarrow> duration \<Rightarrow> rooms \<Rightarrow> bool" for self ttl where
  init: "rooms_reach self ttl (rooms_New self ttl)"
| step: "rooms_reach self ttl R \<Longrightarrow> rooms_step R S \<Longrightarrow> rooms_reach self ttl S"

lemma rooms_New_inv: "rooms_inv (rooms_New self ttl)"
  by (simp add: rooms_inv_def rooms_wf_def rooms_chans_def rooms_New_def sub_at_def currentSubscriber_def)

lemma rooms_step_inv: "rooms_step R S \<Longrightarrow> rooms_inv R \<Longrightarrow> rooms_inv S"
proof (induction rule: rooms_step.induct)
  case (create draw now leader media seconds R rid ok S)
  then show ?case by (blast intro: rooms_Create_inv)
next
  case (snapshot now rid viewer R r S)
  then show ?case using rooms_Snapshot_inv [of R now rid viewer] by simp
next
  case (join now now' rid viewer R r S)
  then show ?case using rooms_Join_inv [of R now now' rid viewer] by simp
next
  case (drift now sub seconds R r S)
  then show ?case using rooms_ObserveDrift_inv [of R now sub seconds] by simp
next
  case (metrics now R m S)
  then show ?case using rooms_Metrics_inv [of R now] by simp
next
  case (update now sub e authorized R ok S)
  then show ?case using rooms_Update_inv [of R now sub e authorized] by simp
next
  case (close_sub sb R sb' S)
  then show ?case using subscription_Close_inv [of R sb] by simp
next
  case (receive sb R x S)
  then show ?case using subscription_recv_inv [of R sb] by simp
qed

lemma rooms_reach_inv: "rooms_reach self ttl R \<Longrightarrow> rooms_inv R"
  by (induction rule: rooms_reach.induct) (auto intro: rooms_New_inv rooms_step_inv)

section \<open>Expiry\<close>

definition expired :: "instant \<Rightarrow> rooms \<Rightarrow> room \<Rightarrow> bool" where
  "expired now R cur \<longleftrightarrow> rs_ttl R < time_sub now (room_updated cur)"

lemma fold_prune_map:
  "map_of (rs_rooms (fold (\<lambda>(rid, cur) S. if time_sub now (room_updated cur) > rs_ttl S then rooms_drop rid S else S)
       xs R)) r
   = (if \<exists>cur. (r, cur) \<in> set xs \<and> expired now R cur then None else map_of (rs_rooms R) r)"
proof (induction xs arbitrary: R)
  case Nil
  then show ?case by simp
next
  case (Cons x xs)
  obtain rid cur where x: "x = (rid, cur)" by (cases x)
  have "expired now (rooms_drop rid R) = expired now R" by (simp add: expired_def fun_eq_iff)
  with Cons show ?case by (auto simp: x rooms_drop_rooms expired_def)
qed

lemma rooms_prune_map:
  "mwf (rs_rooms R) \<Longrightarrow> map_of (rs_rooms (rooms_prune now R)) r =
     (case map_of (rs_rooms R) r of None \<Rightarrow> None | Some cur \<Rightarrow> if expired now R cur then None else Some cur)"
  by (auto simp: rooms_prune_def fold_prune_map mwf_in_set split: option.splits)

lemma rooms_drop_closes:
  assumes "rooms_inv R" "map_of (rs_rooms R) r = Some cur" "map_of (room_subscribers cur) i = Some s"
  shows "\<not> ch_open (rs_heap (rooms_drop r R)) (sub_events s)"
    and "ch_pending (rs_heap (rooms_drop r R)) a = ch_pending (rs_heap R) a"
proof -
  have ok: "rooms_chans R" "rooms_wf R" using assms(1) by (auto simp: rooms_inv_def)
  have wf: "mwf (room_subscribers cur)"
    using rooms_inv_room_ok [OF assms(1,2)] by (simp add: room_ok_def)
  note open_all = room_channels_open [OF ok assms(2)]
  show "\<not> ch_open (rs_heap (rooms_drop r R)) (sub_events s)"
    using open_all assms(2,3) by (auto simp: rooms_drop_heap ch_close_all_open set_room_channels [OF wf])
  show "ch_pending (rs_heap (rooms_drop r R)) a = ch_pending (rs_heap R) a"
    using assms(2) by (simp add: rooms_drop_heap)
qed

lemma fold_drop_length:
  "length (rs_rooms (fold (\<lambda>(rid, cur) S. if P cur S then rooms_drop rid S else S) xs R)) \<le> length (rs_rooms R)"
proof (induction xs arbitrary: R)
  case (Cons x xs)
  obtain rid cur where x: "x = (rid, cur)" by (cases x)
  have "length (rs_rooms (rooms_drop rid R)) \<le> length (rs_rooms R)"
    by (simp add: rooms_drop_rooms length_mdel_le)
  with Cons.IH [of R] Cons.IH [of "rooms_drop rid R"] show ?case by (auto simp: x)
qed simp

lemma rooms_prune_length: "length (rs_rooms (rooms_prune now R)) \<le> length (rs_rooms R)"
  unfolding rooms_prune_def by (rule fold_drop_length)

section \<open>Who can change a room's event\<close>

definition event_at :: "rooms \<Rightarrow> string \<Rightarrow> room_event option" where
  "event_at R r = map_option room_event (map_of (rs_rooms R) r)"

lemma event_at_eq_static: "event_at R r = map_option room_event (room_static R r)"
  by (simp add: event_at_def room_static_def option.map_comp comp_def)

lemma event_at_static: "room_static S r = room_static R r \<Longrightarrow> event_at S r = event_at R r"
  by (simp add: event_at_eq_static)

lemma event_at_drop: "event_at (rooms_drop rid R) r = (if r = rid then None else event_at R r)"
  by (simp add: event_at_def rooms_drop_rooms)

lemma event_at_active:
  "rooms_active rid now R = (c, S) \<Longrightarrow> event_at S r = Some e \<Longrightarrow> event_at R r = Some e"
  by (cases c) (auto dest!: rooms_active_None rooms_active_Some simp: event_at_drop split: if_splits)

lemma event_at_put:
  "event_at (put_room rid cur R) r = (if r = rid then Some (room_event cur) else event_at R r)"
  by (simp add: event_at_def)

lemma event_at_unsubscribe:
  "map_of (rs_rooms R) rid = Some cur \<Longrightarrow> event_at (unsubscribe rid cur i t R) r = event_at R r"
  by (simp add: unsubscribe_def event_at_def put_room_def)

lemma event_at_prune:
  "mwf (rs_rooms R) \<Longrightarrow> event_at (rooms_prune now R) r = Some e \<Longrightarrow> event_at R r = Some e"
  by (auto simp: event_at_def rooms_prune_map split: option.splits if_splits)

lemma update_accepted_event:
  assumes "update_accepted now sb e authorized R cur" "rooms_Update now (Some sb) e authorized R = (ok, S)"
  shows "event_at S (sb_roomID sb) = Some (stored_event now cur e)"
proof -
  have "event_at S (sb_roomID sb) = event_at (set_event now (sb_roomID sb) cur e R) (sb_roomID sb)"
    by (intro event_at_static) (simp add: rooms_Update_accepted(1) [OF assms] rooms_broadcast_static)
  then show ?thesis by (simp add: set_event_def event_at_put)
qed

text \<open>The two ways a room's event can come to differ: the leader's own update, or a new room.\<close>

definition leader_update :: "rooms \<Rightarrow> rooms \<Rightarrow> string \<Rightarrow> room_event \<Rightarrow> bool" where
  "leader_update R S r e' \<longleftrightarrow> (\<exists>now sb e cur.
     sb_roomID sb = r \<and> S = snd (rooms_Update now (Some sb) e True R)
     \<and> update_accepted now sb e True R cur \<and> e' = stored_event now cur e)"

definition room_replaced :: "rooms \<Rightarrow> rooms \<Rightarrow> string \<Rightarrow> bool" where
  "room_replaced R S r \<longleftrightarrow> (\<exists>draw now leader media seconds cur.
     rooms_Create draw now leader media seconds R = Some (r, True, S)
     \<and> map_of (rs_rooms R) r = Some cur \<and> expired now R cur
     \<and> map_of (rs_rooms S) r = Some (new_room leader media seconds now))"

lemma rooms_Create_event:
  assumes "rooms_inv R" "rooms_Create draw now leader media seconds R = Some (rid, ok, S)"
    and "event_at R r = Some e" "event_at S r = Some e'" "e' \<noteq> e"
  shows "room_replaced R S r"
proof -
  have wf: "mwf (rs_rooms R)" using assms(1) by (simp add: rooms_inv_def rooms_wf_def)
  let ?P = "rooms_prune now R"
  have "S = R \<or> S = ?P \<or> (ok \<and> fresh_id draw (rs_rooms ?P) 0 = Some rid
      \<and> S = put_room rid (new_room leader media seconds now) ?P)"
    using assms(2) by (auto simp: rooms_Create_def Let_def split: if_splits)
  then show ?thesis
  proof (elim disjE conjE)
    assume new: "ok" "fresh_id draw (rs_rooms ?P) 0 = Some rid" "S = put_room rid (new_room leader media seconds now) ?P"
    show ?thesis
    proof (cases "r = rid")
      case True
      with new have "map_of (rs_rooms ?P) r = None" by (simp add: fresh_id_free)
      with assms(3) wf obtain cur where cur: "map_of (rs_rooms R) r = Some cur" "expired now R cur"
        by (auto simp: rooms_prune_map event_at_def split: option.splits if_splits)
      have "map_of (rs_rooms S) r = Some (new_room leader media seconds now)" using True new(3) by simp
      moreover have "rooms_Create draw now leader media seconds R = Some (r, True, S)" using assms(2) new(1) True by simp
      ultimately show ?thesis unfolding room_replaced_def using cur by blast
    next
      case False
      with assms new wf show ?thesis by (auto simp: event_at_put dest: event_at_prune)
    qed
  qed (use assms wf in \<open>auto dest: event_at_prune\<close>)
qed

lemma rooms_Update_event:
  assumes "rooms_inv R" "rooms_Update now sub e0 authorized R = (ok, S)"
    and "event_at R r = Some e" "event_at S r = Some e'" "e' \<noteq> e"
  shows "leader_update R S r e'"
  using assms(2)
proof (cases rule: rooms_Update_cases)
  case (accepted sb cur)
  then have "event_at S r = event_at (set_event now (sb_roomID sb) cur e0 R) r"
    by (intro event_at_static) (simp add: rooms_broadcast_static)
  moreover have "authorized" using accepted by (simp add: update_accepted_def)
  ultimately show ?thesis
    using assms accepted unfolding leader_update_def
    by (intro exI [of _ now] exI [of _ sb] exI [of _ e0] exI [of _ cur])
      (auto simp: set_event_def event_at_put split: if_splits)
next
  case (denied rid i d)
  then have "event_at S r = event_at R r" by (intro event_at_static) (simp add: rooms_offer_static)
  with assms show ?thesis by simp
qed (use assms in \<open>auto simp: event_at_drop split: if_splits\<close>)

lemma event_at_same_rooms: "rs_rooms S = rs_rooms R \<Longrightarrow> event_at S = event_at R"
  by (simp add: event_at_def fun_eq_iff)

lemma rooms_Join_event:
  "rooms_Join now now' rid viewer R = (x, S) \<Longrightarrow> event_at S r = Some e' \<Longrightarrow> event_at R r = Some e'"
  by (auto simp: rooms_Join_def join_room_def Let_def event_at_def put_room_def
      dest!: rooms_active_Some rooms_active_None simp: rooms_drop_rooms split: prod.splits option.splits if_splits)

lemma rooms_step_event:
  "rooms_step R S \<Longrightarrow> rooms_inv R \<Longrightarrow> event_at R r = Some e \<Longrightarrow> event_at S r = Some e' \<Longrightarrow> e' \<noteq> e
     \<Longrightarrow> leader_update R S r e' \<or> room_replaced R S r"
proof (induction rule: rooms_step.induct)
  case (create draw now leader media seconds R rid ok S)
  then show ?case by (blast dest: rooms_Create_event)
next
  case (snapshot now rid viewer R x S)
  then show ?case
    by (auto simp: rooms_Snapshot_def dest: event_at_active split: prod.splits option.splits)
next
  case (join now now' rid viewer R x S)
  then show ?case by (auto dest: rooms_Join_event)
next
  case (drift now sub seconds R x S)
  have "event_at S r = Some e' \<Longrightarrow> event_at R r = Some e'"
    using drift(1) by (auto simp: rooms_ObserveDrift_def event_at_same_rooms [of "_\<lparr>rs_driftObservations := _, rs_driftSeconds := _\<rparr>"]
        dest: event_at_active split: prod.splits option.splits if_splits)
  with drift show ?case by simp
next
  case (metrics now R m S)
  then show ?case
    by (auto simp: rooms_Metrics_def Let_def rooms_inv_def rooms_wf_def dest: event_at_prune)
next
  case (update now sub e authorized R ok S)
  then show ?case by (blast dest: rooms_Update_event)
next
  case (close_sub sb R sb' S)
  then show ?case
    by (auto simp: subscription_Close_def rooms_leave_def event_at_unsubscribe split: if_splits option.splits)
next
  case (receive sb R x S)
  then show ?case
    by (auto simp: subscription_recv_def event_at_same_rooms [of "_\<lparr>rs_heap := _\<rparr>"] split: prod.splits)
qed

section \<open>Properties\<close>

text \<open>A run of the component, for the witnesses: Ann opens a room, Ann and Bob join it.\<close>

definition demo_draw :: "nat \<Rightarrow> string" where
  "demo_draw n = (if n = 0 then ''AAAAAAAAAAAAAAAA'' else ''BBBBBBBBBBBBBBBB'')"

definition demo_rooms1 :: rooms where
  "demo_rooms1 = put_room ''AAAAAAAAAAAA'' (new_room ''ann'' ''film'' (Fin 0) 10) (rooms_New 0 0)"

definition demo_rooms2 :: rooms where
  "demo_rooms2 = snd (rooms_Join 11 11 ''AAAAAAAAAAAA'' ''ann'' demo_rooms1)"

definition demo_rooms3 :: rooms where
  "demo_rooms3 = snd (rooms_Join 12 12 ''AAAAAAAAAAAA'' ''bob'' demo_rooms2)"

definition demo_sub :: room_subscription where
  "demo_sub = \<lparr>sb_rooms = 0, sb_roomID = ''AAAAAAAAAAAA'', sb_id = 1, sb_events = 0, sb_once = False\<rparr>"

definition demo_event :: room_event where
  "demo_event = zero_event\<lparr>ev_Action := ''play'', ev_Media := ''film'', ev_Seconds := Fin 5\<rparr>"

lemma ascii_valid:
  "list_all (\<lambda>c. 32 \<le> byte c \<and> byte c < 127) s \<Longrightarrow> s \<noteq> '''' \<Longrightarrow> length s \<le> 128 \<Longrightarrow> rooms_validIdentity s"
proof -
  assume a: "list_all (\<lambda>c. 32 \<le> byte c \<and> byte c < 127) s" "s \<noteq> ''''" "length s \<le> 128"
  then have "runes s = map byte s"
    unfolding runes_def by (intro runes_bytes_ascii) (auto simp: list_all_iff)
  with a show ?thesis by (auto simp: rooms_validIdentity_def list_all_iff is_control_def)
qed

lemma demo_ids [simp]: "rooms_validIdentity ''ann''" "rooms_validIdentity ''bob''" "rooms_validIdentity ''film''"
  by (auto intro!: ascii_valid simp: byte_def)

lemma demo_event_valid [simp]: "rooms_validState ''pause'' ''film'' (Fin 0)" "rooms_event_valid demo_event"
  by (simp_all add: rooms_validState_def rooms_event_valid_def demo_event_def zero_event_def MaximumSeconds_def)

lemma demo_reach1: "rooms_reach 0 0 demo_rooms1"
proof (rule rooms_reach.step [OF rooms_reach.init])
  have "rooms_Create demo_draw 10 ''ann'' ''film'' (Fin 0) (rooms_New 0 0) = Some (''AAAAAAAAAAAA'', True, demo_rooms1)"
    by (simp add: rooms_Create_def rooms_prune_def rooms_New_def max_rooms_def fresh_id.simps
        demo_draw_def demo_rooms1_def)
  then show "rooms_step (rooms_New 0 0) demo_rooms1" by (rule rooms_step.create)
qed

lemma demo_reach3: "rooms_reach 0 0 demo_rooms3"
proof -
  have "rooms_reach 0 0 demo_rooms2"
    unfolding demo_rooms2_def by (rule rooms_reach.step [OF demo_reach1 rooms_step.join]) (rule prod.collapse [symmetric])
  then show ?thesis
    unfolding demo_rooms3_def by (rule rooms_reach.step [OF _ rooms_step.join]) (rule prod.collapse [symmetric])
qed

lemma demo_rooms3_eval:
  "rooms_active ''AAAAAAAAAAAA'' 13 demo_rooms3 = (map_of (rs_rooms demo_rooms3) ''AAAAAAAAAAAA'', demo_rooms3)"
  "sub_at demo_rooms3 ''AAAAAAAAAAAA'' 1 = Some \<lparr>sub_viewer = ''ann'', sub_events = 0\<rparr>"
  "sub_at demo_rooms3 ''AAAAAAAAAAAA'' 2 = Some \<lparr>sub_viewer = ''bob'', sub_events = 1\<rparr>"
  "room_queue demo_rooms3 ''AAAAAAAAAAAA'' 2 = []"
  "map_option room_leader (map_of (rs_rooms demo_rooms3) ''AAAAAAAAAAAA'') = Some ''ann''"
  "event_at demo_rooms3 ''AAAAAAAAAAAA'' = Some (room_event (new_room ''ann'' ''film'' (Fin 0) 10))"
  "map_option room_updated (map_of (rs_rooms demo_rooms3) ''AAAAAAAAAAAA'') = Some 12"
  "rs_ttl demo_rooms3 = default_ttl" "rs_self demo_rooms3 = 0"
  by (simp_all add: demo_rooms3_def demo_rooms2_def demo_rooms1_def rooms_Join_def rooms_active_def rooms_New_def
      put_room_def new_room_def join_room_def Let_def max_subscribers_def default_ttl_def duration_defs
      time_sub_def min_i64_def max_i64_def sub_at_def currentSubscriber_def room_queue_def event_at_def
      ch_make_def ch_pending_def hp_empty_def event_queue_def)

text \<open>
  C1.  In every state the rooms reach, whatever is called with whatever subscription: no channel
  operation has panicked (nothing was sent on a closed channel, none was closed twice), there are
  at most 1024 rooms of at most 64 subscribers, every room has a valid leader and a valid playback
  state, and every registered subscriber has an open channel with at most 8 queued events that no
  other subscriber shares.
\<close>

theorem rooms_reachable_safe:
  assumes "rooms_reach self ttl R"
  shows "\<not> hp_panicked (rs_heap R) \<and> length (rs_rooms R) \<le> 1024
    \<and> (\<forall>r cur. map_of (rs_rooms R) r = Some cur \<longrightarrow>
         length (room_subscribers cur) \<le> 64 \<and> rooms_validIdentity (room_leader cur)
         \<and> rooms_event_valid (room_event cur))
    \<and> (\<forall>r i s. sub_at R r i = Some s \<longrightarrow>
         ch_open (rs_heap R) (sub_events s) \<and> length (ch_pending (rs_heap R) (sub_events s)) \<le> 8
         \<and> (\<forall>r' i' s'. sub_at R r' i' = Some s' \<longrightarrow> sub_events s' = sub_events s \<longrightarrow> r' = r \<and> i' = i))"
proof -
  have inv: "rooms_inv R" using assms by (rule rooms_reach_inv)
  then have heap: "heap_ok (rs_heap R)" and len: "length (rs_rooms R) \<le> max_rooms"
    by (auto simp: rooms_inv_def rooms_chans_def rooms_wf_def)
  have subs: "length (room_subscribers cur) \<le> 64 \<and> rooms_validIdentity (room_leader cur)
      \<and> rooms_event_valid (room_event cur)" if "map_of (rs_rooms R) r = Some cur" for r cur
    using rooms_inv_room_ok [OF inv that] by (simp add: room_ok_def max_subscribers_def)
  have chans: "ch_open (rs_heap R) (sub_events s) \<and> length (ch_pending (rs_heap R) (sub_events s)) \<le> 8
      \<and> (\<forall>r' i' s'. sub_at R r' i' = Some s' \<longrightarrow> sub_events s' = sub_events s \<longrightarrow> r' = r \<and> i' = i)"
    if at: "sub_at R r i = Some s" for r i s
    using rooms_inv_chan [OF inv at] rooms_inv_inj [OF inv _ at] by (auto simp: event_queue_def)
  show ?thesis
    using heap_ok_no_panic [OF heap] len subs chans by (simp add: max_rooms_def)
qed

theorem rooms_reachable_safe_witness:
  "\<not> hp_panicked (rs_heap demo_rooms3) \<and> ch_open (rs_heap demo_rooms3) 1
    \<and> rooms_reach 0 0 demo_rooms3"
  using rooms_reachable_safe [OF demo_reach3] demo_rooms3_eval(3) demo_reach3 by fastforce

text \<open>
  C2.  The playback event of a room changes only by an update that its leader sent over a live
  subscription, that the HTTP layer authorised, that is a valid state and that is not stale (its
  revision is 0 or above the room's); the room then holds exactly that event with the next
  revision and the time of the update.  Otherwise the step is a call of Create, at an instant at
  which the room had expired, that gave its identifier to a new room without subscribers.
\<close>

theorem rooms_event_changed_by_leader:
  assumes "rooms_reach self ttl R" and "rooms_step R S"
    and "event_at R r = Some e" and "event_at S r = Some e'" and "e' \<noteq> e"
  shows "(\<exists>now sb e0 cur. S = snd (rooms_Update now (Some sb) e0 True R)
            \<and> sb_roomID sb = r \<and> map_of (rs_rooms R) r = Some cur
            \<and> time_sub now (room_updated cur) \<le> rs_ttl R
            \<and> (\<exists>m. map_of (room_subscribers cur) (sb_id sb) = Some m \<and> sub_viewer m = room_leader cur)
            \<and> rooms_event_valid e0 \<and> (ev_Revision e0 = 0 \<or> ev_Revision e < ev_Revision e0)
            \<and> e' = e0\<lparr>ev_Revision := ev_Revision e + 1, ev_EffectiveAt := now\<rparr>)
         \<or> (\<exists>draw now leader media seconds cur. rooms_Create draw now leader media seconds R = Some (r, True, S)
            \<and> map_of (rs_rooms R) r = Some cur \<and> rs_ttl R < time_sub now (room_updated cur)
            \<and> map_of (rs_rooms S) r = Some (new_room leader media seconds now))"
proof -
  have "leader_update R S r e' \<or> room_replaced R S r"
    using rooms_step_event [OF assms(2) rooms_reach_inv [OF assms(1)] assms(3-5)] .
  then show ?thesis
  proof
    assume "leader_update R S r e'"
    then obtain now sb e0 cur where u: "sb_roomID sb = r" "update_accepted now sb e0 True R cur"
      "e' = stored_event now cur e0" "S = snd (rooms_Update now (Some sb) e0 True R)"
      by (auto simp: leader_update_def)
    then have cur: "map_of (rs_rooms R) r = Some cur" "time_sub now (room_updated cur) \<le> rs_ttl R"
      by (auto simp: update_accepted_def dest: rooms_active_Some)
    with assms(3) have "room_event cur = e" by (simp add: event_at_def)
    with u(2,3) have "(\<exists>m. map_of (room_subscribers cur) (sb_id sb) = Some m \<and> sub_viewer m = room_leader cur)
        \<and> rooms_event_valid e0 \<and> (ev_Revision e0 = 0 \<or> ev_Revision e < ev_Revision e0)
        \<and> e' = e0\<lparr>ev_Revision := ev_Revision e + 1, ev_EffectiveAt := now\<rparr>"
      by (auto simp: update_accepted_def stored_event_def)
    with u(1,4) cur show ?thesis by blast
  qed (auto simp: room_replaced_def expired_def)
qed

lemma demo_room3:
  obtains cur where "map_of (rs_rooms demo_rooms3) ''AAAAAAAAAAAA'' = Some cur" "room_leader cur = ''ann''"
    "room_updated cur = 12" "room_event cur = room_event (new_room ''ann'' ''film'' (Fin 0) 10)"
    "map_of (room_subscribers cur) 1 = Some \<lparr>sub_viewer = ''ann'', sub_events = 0\<rparr>"
    "map_of (room_subscribers cur) 2 = Some \<lparr>sub_viewer = ''bob'', sub_events = 1\<rparr>"
  using demo_rooms3_eval by (auto simp: event_at_def sub_at_room)

lemma demo_accepted:
  assumes "map_of (rs_rooms demo_rooms3) ''AAAAAAAAAAAA'' = Some cur" "room_leader cur = ''ann''"
    "map_of (room_subscribers cur) 1 = Some \<lparr>sub_viewer = ''ann'', sub_events = 0\<rparr>"
  shows "update_accepted 13 demo_sub demo_event True demo_rooms3 cur"
  using assms demo_rooms3_eval(1)
  by (simp add: update_accepted_def demo_rooms3_eval(9)) (simp add: demo_sub_def demo_event_def zero_event_def)

theorem rooms_event_changed_by_leader_witness:
  "\<exists>S e'. rooms_step demo_rooms3 S \<and> event_at S ''AAAAAAAAAAAA'' = Some e' \<and> ev_Revision e' = 2
     \<and> ev_EffectiveAt e' = 13"
proof -
  obtain cur where cur: "map_of (rs_rooms demo_rooms3) ''AAAAAAAAAAAA'' = Some cur" "room_leader cur = ''ann''"
    "room_event cur = room_event (new_room ''ann'' ''film'' (Fin 0) 10)"
    "map_of (room_subscribers cur) 1 = Some \<lparr>sub_viewer = ''ann'', sub_events = 0\<rparr>"
    by (rule demo_room3)
  obtain ok S where u: "rooms_Update 13 (Some demo_sub) demo_event True demo_rooms3 = (ok, S)" by fastforce
  note acc = demo_accepted [OF cur(1,2,4)]
  have step: "rooms_step demo_rooms3 S" using u by (rule rooms_step.update)
  let ?e = "stored_event 13 cur demo_event"
  have room: "sb_roomID demo_sub = ''AAAAAAAAAAAA''" by (simp add: demo_sub_def)
  have e: "event_at S ''AAAAAAAAAAAA'' = Some ?e"
    using update_accepted_event [OF acc u] room by simp
  have old: "event_at demo_rooms3 ''AAAAAAAAAAAA'' = Some (room_event cur)" using cur(1) by (simp add: event_at_def)
  have ne: "?e \<noteq> room_event cur" by (simp add: cur(3) stored_event_def new_room_def demo_event_def zero_event_def)
  have "ev_Revision ?e = 2 \<and> ev_EffectiveAt ?e = 13" by (simp add: stored_event_def cur(3) new_room_def)
  with rooms_event_changed_by_leader [OF demo_reach3 step old e ne] step e show ?thesis by blast
qed

text \<open>
  C3.  What an accepted update does to the room: every subscriber with room in its queue finds the
  stored event once, at the end of its queue, marked \<open>leader\<close> exactly when it is the leader's
  subscription; a subscriber whose queue is full is removed and its channel closed; and \<open>Update\<close>
  answers whether the caller itself is still subscribed.
\<close>

theorem rooms_update_delivers:
  assumes "rooms_inv R" and "update_accepted now sb e authorized R cur"
    and "rooms_Update now (Some sb) e authorized R = (ok, S)"
    and "map_of (room_subscribers cur) i = Some t"
  shows "(if length (room_queue R (sb_roomID sb) i) < 8
          then sub_at S (sb_roomID sb) i \<noteq> None
             \<and> room_queue S (sb_roomID sb) i = room_queue R (sb_roomID sb) i @
                 [(stored_event now cur e)\<lparr>ev_Leader := (sub_viewer t = room_leader cur)\<rparr>]
          else sub_at S (sb_roomID sb) i = None)
       \<and> event_at S (sb_roomID sb) = Some (stored_event now cur e)
       \<and> (ok \<longleftrightarrow> sub_at S (sb_roomID sb) (sb_id sb) \<noteq> None)"
proof -
  let ?r = "sb_roomID sb" and ?e = "stored_event now cur e"
  let ?M = "set_event now ?r cur e R"
  have cur: "map_of (rs_rooms R) ?r = Some cur" and valid: "rooms_event_valid e"
    using assms(2) by (auto simp: update_accepted_def dest: rooms_active_Some)
  note S = rooms_Update_accepted(1) [OF assms(2,3)] and ok = rooms_Update_accepted(2) [OF assms(2,3)]
  have inv: "rooms_inv ?M"
    unfolding set_event_def using assms(1) cur valid by (intro set_event_inv) auto
  have at: "sub_at ?M ?r j = sub_at R ?r j" for j
    using cur by (simp add: set_event_def sub_at_room)
  then have q: "room_queue ?M ?r = room_queue R ?r"
    by (auto simp: room_queue_def set_event_def fun_eq_iff split: option.splits)
  have wf: "mwf (addressed cur ?e)"
    using rooms_inv_room_ok [OF assms(1) cur] by (simp add: room_ok_def)
  have t: "sub_at R ?r i = Some t" using cur assms(4) by (simp add: sub_at_room)
  have member: "sub_at S ?r i \<noteq> None \<longleftrightarrow> length (room_queue R ?r i) < event_queue"
    using room_fan.broadcast_member [OF inv wf, of ?r i] t
    by (simp add: S rooms_broadcast_fan at q map_of_addressed assms(4))
  moreover have "room_queue S ?r i = room_queue R ?r i @ [?e\<lparr>ev_Leader := (sub_viewer t = room_leader cur)\<rparr>]"
    if "sub_at S ?r i \<noteq> None"
    using room_fan.broadcast_queue [OF inv wf, of ?r i] that
    by (simp add: S rooms_broadcast_fan q map_of_addressed assms(4))
  ultimately show ?thesis using ok update_accepted_event [OF assms(2,3)] by (auto simp: event_queue_def)
qed

theorem rooms_update_delivers_witness:
  "\<exists>cur S. snd (rooms_Update 13 (Some demo_sub) demo_event True demo_rooms3) = S
     \<and> room_queue S ''AAAAAAAAAAAA'' 2 = [(stored_event 13 cur demo_event)\<lparr>ev_Leader := False\<rparr>]"
proof -
  obtain cur where cur: "map_of (rs_rooms demo_rooms3) ''AAAAAAAAAAAA'' = Some cur" "room_leader cur = ''ann''"
    "map_of (room_subscribers cur) 1 = Some \<lparr>sub_viewer = ''ann'', sub_events = 0\<rparr>"
    "map_of (room_subscribers cur) 2 = Some \<lparr>sub_viewer = ''bob'', sub_events = 1\<rparr>"
    by (rule demo_room3)
  obtain ok S where u: "rooms_Update 13 (Some demo_sub) demo_event True demo_rooms3 = (ok, S)" by fastforce
  have "room_queue S ''AAAAAAAAAAAA'' 2 = [(stored_event 13 cur demo_event)\<lparr>ev_Leader := False\<rparr>]"
    using rooms_update_delivers [OF rooms_reach_inv [OF demo_reach3] demo_accepted [OF cur(1-3)] u cur(4)]
      demo_rooms3_eval(4) cur(2) by (simp add: demo_sub_def)
  with u show ?thesis by auto
qed

text \<open>
  A room that nobody touched for longer than the time to live is gone for every caller: a
  snapshot, a join, a drift report or an update on it fails, the room is removed, all its
  subscribers' channels are closed (their queued events stay readable), and no other room changes.
\<close>

theorem rooms_expired_room_is_gone:
  assumes "rooms_inv R" and "map_of (rs_rooms R) r = Some cur"
    and "rs_ttl R < time_sub now (room_updated cur)"
    and "S = snd (rooms_Snapshot now r viewer R)"
  shows "\<not> snd (fst (rooms_Snapshot now r viewer R))
    \<and> \<not> snd (snd (fst (rooms_Join now now' r viewer R))) \<and> snd (rooms_Join now now' r viewer R) = S
    \<and> (sb_roomID sb = r \<longrightarrow> \<not> fst (rooms_Update now (Some sb) e authorized R)
        \<and> \<not> fst (rooms_ObserveDrift now (Some sb) seconds R))
    \<and> (\<forall>r'. map_of (rs_rooms S) r' = (if r' = r then None else map_of (rs_rooms R) r'))
    \<and> (\<forall>i s. map_of (room_subscribers cur) i = Some s \<longrightarrow> \<not> ch_open (rs_heap S) (sub_events s)
        \<and> ch_pending (rs_heap S) (sub_events s) = ch_pending (rs_heap R) (sub_events s))"
proof -
  have gone: "rooms_active r now R = (None, rooms_drop r R)"
    using assms(2,3) by (simp add: rooms_active_def)
  then have S: "S = rooms_drop r R" by (simp add: assms(4) rooms_Snapshot_def)
  have "\<not> ch_open (rs_heap S) (sub_events s)
      \<and> ch_pending (rs_heap S) (sub_events s) = ch_pending (rs_heap R) (sub_events s)"
    if "map_of (room_subscribers cur) i = Some s" for i s
    unfolding S using rooms_drop_closes [OF assms(1,2) that] by blast
  with gone show ?thesis
    by (simp add: S rooms_Snapshot_def rooms_Join_def rooms_Update_def rooms_ObserveDrift_def
        currentSubscriber_def rooms_drop_rooms)
qed

theorem rooms_expired_room_is_gone_witness:
  "map_of (rs_rooms (snd (rooms_Snapshot 15000000000000 ''AAAAAAAAAAAA'' ''ann'' demo_rooms3))) ''AAAAAAAAAAAA'' = None"
proof -
  obtain cur where cur: "map_of (rs_rooms demo_rooms3) ''AAAAAAAAAAAA'' = Some cur" "room_updated cur = 12"
    by (rule demo_room3)
  have late: "rs_ttl demo_rooms3 < time_sub 15000000000000 (room_updated cur)"
    by (simp add: cur(2) demo_rooms3_eval(8) default_ttl_def duration_defs time_sub_def min_i64_def max_i64_def)
  show ?thesis
    using rooms_expired_room_is_gone [OF rooms_reach_inv [OF demo_reach3] cur(1) late refl,
      of "''ann''" 0 demo_sub demo_event True NaN] by simp
qed

text \<open>
  C4.  Creating a room: for a valid leader and playback state, the call returns exactly when 1024 rooms
  are still live or the identifier source will draw an identifier that no live room has; it refuses
  only when 1024 rooms are live, and otherwise stores the new room (paused, revision 1, no subscribers) under an identifier
  that no live room has, leaving the live rooms as they are.
\<close>

theorem rooms_create_total:
  assumes "rooms_inv R" and "rooms_validIdentity leader" and "rooms_validState ''pause'' media seconds"
  shows "(rooms_Create draw now leader media seconds R \<noteq> None \<longleftrightarrow>
      1024 \<le> length (rs_rooms (rooms_prune now R)) \<or> (\<exists>k. map_of (rs_rooms (rooms_prune now R)) (take 12 (draw k)) = None))
    \<and> (\<forall>rid ok S. rooms_Create draw now leader media seconds R = Some (rid, ok, S) \<longrightarrow>
      (ok \<longleftrightarrow> length (rs_rooms (rooms_prune now R)) < 1024)
      \<and> (ok \<longrightarrow> (\<forall>r. map_of (rs_rooms S) r =
           (if r = rid then Some (new_room leader media seconds now)
            else case map_of (rs_rooms R) r of None \<Rightarrow> None
                 | Some cur \<Rightarrow> if rs_ttl R < time_sub now (room_updated cur) then None else Some cur))
         \<and> map_of (rs_rooms (rooms_prune now R)) rid = None))"
proof -
  let ?P = "rooms_prune now R"
  have wf: "mwf (rs_rooms R)" using assms(1) by (simp add: rooms_inv_def rooms_wf_def)
  have create: "rooms_Create draw now leader media seconds R = (if 1024 \<le> length (rs_rooms ?P) then Some ([], False, ?P)
      else map_option (\<lambda>rid. (rid, True, put_room rid (new_room leader media seconds now) ?P)) (fresh_id draw (rs_rooms ?P) 0))"
    using assms(2,3) by (simp add: rooms_Create_def max_rooms_def Let_def)
  have "fresh_id draw (rs_rooms ?P) 0 \<noteq> None \<longleftrightarrow> (\<exists>k. map_of (rs_rooms ?P) (take 12 (draw k)) = None)"
    using fresh_id_returns [of 0 _ "rs_rooms ?P" draw] fresh_id_drawn [of draw "rs_rooms ?P" 0] fresh_id_free [of draw "rs_rooms ?P" 0] by fastforce
  moreover have "map_of (rs_rooms (put_room rid (new_room leader media seconds now) ?P)) r = (if r = rid then Some (new_room leader media seconds now)
        else case map_of (rs_rooms R) r of None \<Rightarrow> None
             | Some cur \<Rightarrow> if rs_ttl R < time_sub now (room_updated cur) then None else Some cur)" for rid r
    by (simp add: rooms_prune_map [OF wf] expired_def split: option.splits)
  ultimately show ?thesis unfolding create using fresh_id_free [of draw "rs_rooms ?P" 0] by auto
qed

definition demo_distinct_draw :: "nat \<Rightarrow> string" where
  "demo_distinct_draw k = char_of (k div 32) # char_of (k mod 32) # replicate 24 (CHR ''A'')"

lemma demo_distinct_inj: "inj_on (\<lambda>k. take 12 (demo_distinct_draw k)) {0..1024}"
proof (rule inj_onI)
  fix a b :: nat
  assume ab: "a \<in> {0..1024}" "b \<in> {0..1024}" "take 12 (demo_distinct_draw a) = take 12 (demo_distinct_draw b)"
  then have "(char_of (a div 32) :: char) = char_of (b div 32)" "(char_of (a mod 32) :: char) = char_of (b mod 32)"
    by (simp_all add: demo_distinct_draw_def)
  then have "(of_char (char_of (a div 32) :: char) :: nat) = of_char (char_of (b div 32) :: char)"
    "(of_char (char_of (a mod 32) :: char) :: nat) = of_char (char_of (b mod 32) :: char)" by simp_all
  then have "a div 32 mod 256 = b div 32 mod 256" "a mod 32 mod 256 = b mod 32 mod 256"
    by (simp_all only: of_char_of)
  moreover have "a div 32 < 256" "b div 32 < 256" "a mod 32 < 256" "b mod 32 < 256"
    using ab(1,2) by (auto simp: div_less_iff_less_mult intro: less_trans [OF mod_less_divisor])
  ultimately have "a div 32 = b div 32" "a mod 32 = b mod 32" by (simp_all only: mod_less)
  then show "a = b" by (metis div_mult_mod_eq)
qed

lemma demo_prune_length: "length (rs_rooms (rooms_prune 20 demo_rooms3)) < 1024"
proof -
  have "length (rs_rooms demo_rooms3) = 1"
    by (simp add: demo_rooms3_def demo_rooms2_def demo_rooms1_def rooms_Join_def rooms_active_def rooms_New_def
      put_room_def new_room_def join_room_def Let_def max_subscribers_def default_ttl_def duration_defs
      time_sub_def min_i64_def max_i64_def)
  then show ?thesis
    using rooms_prune_length [of 20 demo_rooms3] by simp
qed

theorem rooms_create_total_witness:
  "\<exists>rid S. rooms_Create demo_distinct_draw 20 ''bob'' ''film'' (Fin 0) demo_rooms3 = Some (rid, True, S)"
proof -
  let ?P = "rs_rooms (rooms_prune 20 demo_rooms3)"
  have "inj_on (\<lambda>k. take 12 (demo_distinct_draw k)) {0..length ?P}"
    by (rule inj_on_subset [OF demo_distinct_inj]) (use demo_prune_length in auto)
  then obtain rid where "fresh_id demo_distinct_draw ?P 0 = Some rid" using fresh_id_pigeonhole by blast
  then have free: "\<exists>k. map_of ?P (take 12 (demo_distinct_draw k)) = None" using fresh_id_drawn fresh_id_free by metis
  note t = rooms_create_total [OF rooms_reach_inv [OF demo_reach3] demo_ids(2) demo_event_valid(1), where draw = demo_distinct_draw and now = 20]
  have "rooms_Create demo_distinct_draw 20 ''bob'' ''film'' (Fin 0) demo_rooms3 \<noteq> None" using conjunct1 [OF t] free by blast
  then obtain rid ok S where c: "rooms_Create demo_distinct_draw 20 ''bob'' ''film'' (Fin 0) demo_rooms3 = Some (rid, ok, S)" by auto
  moreover have ok using conjunct2 [OF t] c demo_prune_length by blast
  ultimately show ?thesis by simp
qed

end
