(* ===== verification/Counters.thy ===== *)
theory Counters
  imports Prelude "HOL-Library.Multiset"
begin

text \<open>
  Tables of counters \<open>map[string]int\<close> whose entries disappear at zero: the live event hub counts
  subscribers per profile with one, the public request gate counts active and waiting requests per
  source and per network with three.  The contract is that the table counts a multiset of keys and
  holds no entry for a key that is not in it, so it never outgrows what it counts.
\<close>

lemma card_set_mset_size: "card (set_mset M) \<le> size M"
proof (induction M)
  case empty
  then show ?case by simp
next
  case (add x M)
  then show ?case by (auto simp: card_insert_if)
qed

locale keyed_counter =
  fixes wf :: "'m \<Rightarrow> bool"
    and cnt :: "'m \<Rightarrow> 'k \<Rightarrow> int"
    and inc :: "'k \<Rightarrow> 'm \<Rightarrow> 'm"
    and dec :: "'k \<Rightarrow> 'm \<Rightarrow> 'm"
    and entries :: "'m \<Rightarrow> nat"
  assumes wf_inc: "wf m \<Longrightarrow> wf (inc k m)"
    and wf_dec: "wf m \<Longrightarrow> 0 < cnt m k \<Longrightarrow> wf (dec k m)"
    and cnt_inc: "wf m \<Longrightarrow> cnt (inc k m) k' = (if k' = k then cnt m k' + 1 else cnt m k')"
    and cnt_dec: "wf m \<Longrightarrow> 0 < cnt m k \<Longrightarrow> cnt (dec k m) k' = (if k' = k then cnt m k' - 1 else cnt m k')"
    and entries_eq: "wf m \<Longrightarrow> entries m = card {k. cnt m k \<noteq> 0}"
begin

definition counts :: "'m \<Rightarrow> 'k multiset \<Rightarrow> bool" where
  "counts m M \<longleftrightarrow> wf m \<and> (\<forall>k. cnt m k = int (count M k))"

lemma counts_cnt: "counts m M \<Longrightarrow> cnt m k = int (count M k)"
  by (simp add: counts_def)

lemma counts_inc: "counts m M \<Longrightarrow> counts (inc k m) (add_mset k M)"
  by (auto simp: counts_def wf_inc cnt_inc)

lemma counts_dec: "counts m M \<Longrightarrow> k \<in># M \<Longrightarrow> counts (dec k m) (M - {#k#})"
  by (auto simp: counts_def wf_dec cnt_dec count_greater_zero_iff [symmetric] simp del: count_greater_zero_iff)

text \<open>The table is no larger than the multiset it counts.\<close>

lemma counts_entries: "counts m M \<Longrightarrow> entries m \<le> size M"
proof -
  assume c: "counts m M"
  then have "{k. cnt m k \<noteq> 0} = set_mset M"
    by (auto simp: counts_def count_eq_zero_iff)
  with c have "entries m = card (set_mset M)" by (simp add: counts_def entries_eq)
  also have "\<dots> \<le> size M" by (rule card_set_mset_size)
  finally show ?thesis .
qed

lemma counts_empty_entries: "counts m {#} \<Longrightarrow> entries m = 0"
  using counts_entries [of m "{#}"] by simp

text \<open>A guarded increment keeps a bound on every key.\<close>

lemma counts_guarded:
  "counts m M \<Longrightarrow> (\<forall>k. count M k \<le> n) \<Longrightarrow> cnt m k < int n \<Longrightarrow> \<forall>k'. count (add_mset k M) k' \<le> n"
  by (auto simp: counts_def)

end

section \<open>The table as a Go map\<close>

type_synonym 'k counter = "('k, int) gomap"

definition cnt_get :: "'k counter \<Rightarrow> 'k \<Rightarrow> int" where
  "cnt_get m k = mget0 0 m k"

text \<open>\<open>m[k]++\<close>\<close>

definition cnt_inc :: "'k \<Rightarrow> 'k counter \<Rightarrow> 'k counter" where
  "cnt_inc k m = mput k (cnt_get m k + 1) m"

text \<open>\<open>m[k]--; if m[k] == 0 { delete(m, k) }\<close>\<close>

definition cnt_dec :: "'k \<Rightarrow> 'k counter \<Rightarrow> 'k counter" where
  "cnt_dec k m = (let v = cnt_get m k - 1 in if v = 0 then mdel k m else mput k v m)"

text \<open>\<open>if m[k]--; m[k] <= 0 { delete(m, k) }\<close>\<close>

definition cnt_dec_le :: "'k \<Rightarrow> 'k counter \<Rightarrow> 'k counter" where
  "cnt_dec_le k m = (let v = cnt_get m k - 1 in if v \<le> 0 then mdel k m else mput k v m)"

definition cnt_wf :: "'k counter \<Rightarrow> bool" where
  "cnt_wf m \<longleftrightarrow> mwf m \<and> (\<forall>k v. map_of m k = Some v \<longrightarrow> 0 < v)"

lemma cnt_get_nonneg: "cnt_wf m \<Longrightarrow> 0 \<le> cnt_get m k"
  by (auto simp: cnt_wf_def cnt_get_def mget0_def less_imp_le split: option.splits)

lemma cnt_wf_Nil [simp]: "cnt_wf []"
  by (simp add: cnt_wf_def)

lemma cnt_get_Nil [simp]: "cnt_get [] k = 0"
  by (simp add: cnt_get_def)

lemma cnt_wf_inc: "cnt_wf m \<Longrightarrow> cnt_wf (cnt_inc k m)"
  using cnt_get_nonneg [of m k] by (auto simp: cnt_wf_def cnt_inc_def)

lemma cnt_get_inc: "cnt_get (cnt_inc k m) k' = (if k' = k then cnt_get m k' + 1 else cnt_get m k')"
  by (simp add: cnt_inc_def cnt_get_def)

lemma cnt_wf_dec: "cnt_wf m \<Longrightarrow> 0 < cnt_get m k \<Longrightarrow> cnt_wf (cnt_dec k m)"
  by (auto simp: cnt_wf_def cnt_dec_def Let_def split: if_splits)

lemma cnt_get_dec: "cnt_get (cnt_dec k m) k' = (if k' = k then cnt_get m k' - 1 else cnt_get m k')"
  by (simp add: cnt_dec_def cnt_get_def Let_def)

lemma cnt_dec_le_eq: "0 < cnt_get m k \<Longrightarrow> cnt_dec_le k m = cnt_dec k m"
  by (auto simp: cnt_dec_le_def cnt_dec_def Let_def)

lemma cnt_entries: "cnt_wf m \<Longrightarrow> length m = card {k. cnt_get m k \<noteq> 0}"
proof -
  assume wf: "cnt_wf m"
  then have "{k. cnt_get m k \<noteq> 0} = dom (map_of m)"
    by (force simp: cnt_wf_def cnt_get_def mget0_def split: option.splits)
  with wf show ?thesis by (simp add: cnt_wf_def dom_map_of_set)
qed

lemma mput_absent: "map_of m k = None \<Longrightarrow> mput k v m = m @ [(k, v)]"
  by (induction m) (auto split: if_splits)

lemma mset_mdel: "mwf m \<Longrightarrow> map_of m k = Some v \<Longrightarrow> mset m = add_mset (k, v) (mset (mdel k m))"
proof (induction m)
  case Nil
  then show ?case by simp
next
  case (Cons x m)
  obtain a b where x: "x = (a, b)" by (cases x)
  from Cons show ?case by (cases "a = k") (auto simp: x mdel_absent)
qed

end
