(* ===== verification/LiveHub.thy ===== *)
theory LiveHub
  imports Channels Fanout Counters
begin

text \<open>
  The live event hub: packages/liveevents/hub.go.  Published events get consecutive identifiers
  and are kept in a ring of the last 128; a subscriber is first handed the events it missed and
  then receives the events of its profile (and the ones for everybody) through a channel of 16.
  A subscriber that does not keep up is removed.  Identifiers are 64 bit and wrap.
\<close>

section \<open>State\<close>

definition historyLimit :: nat where "historyLimit = 128"
definition subscriberLimit :: nat where "subscriberLimit = 256"
definition profileSubscriberLimit :: nat where "profileSubscriberLimit = 16"
definition subscriberQueue :: nat where "subscriberQueue = 16"

record live_event =
  le_ID :: "64 word"
  le_Type :: string
  le_Resource :: string
  le_At :: instant

record scoped_event =
  se_Event :: live_event
  se_profile :: string

definition zero_scoped :: scoped_event where
  "zero_scoped = \<lparr>se_Event = \<lparr>le_ID = 0, le_Type = '''', le_Resource = '''', le_At = 0\<rparr>, se_profile = ''''\<rparr>"

record hub_subscription =
  sn_id :: "64 word"
  sn_events :: nat

record hub_metrics =
  hm_Subscribers :: nat
  hm_Published :: "64 word"
  hm_Reconnects :: "64 word"
  hm_Rejected :: "64 word"
  hm_SlowDrops :: "64 word"

record hub_subscriber =
  hs_profile :: string
  hs_events :: nat

record hub =
  hub_nextEvent :: "64 word"
  hub_nextClient :: "64 word"
  hub_published :: "64 word"
  hub_reconnects :: "64 word"
  hub_rejected :: "64 word"
  hub_slowDrops :: "64 word"
  hub_history :: "scoped_event list"
  hub_historySize :: nat
  hub_subscribers :: "(64 word, hub_subscriber) gomap"
  hub_profiles :: "string counter"
  hub_observed :: bool
  hub_heap :: "live_event heap"

definition hub_New :: hub where
  "hub_New = \<lparr>hub_nextEvent = 0, hub_nextClient = 0, hub_published = 0, hub_reconnects = 0, hub_rejected = 0,
     hub_slowDrops = 0, hub_history = replicate historyLimit zero_scoped, hub_historySize = 0,
     hub_subscribers = [], hub_profiles = [], hub_observed = False, hub_heap = hp_empty\<rparr>"

section \<open>Operations\<close>

definition hub_removeLocked :: "64 word \<Rightarrow> hub \<Rightarrow> hub" where
  "hub_removeLocked i H = (case map_of (hub_subscribers H) i of
     None \<Rightarrow> H
   | Some current \<Rightarrow> H\<lparr>hub_heap := ch_close (hs_events current) (hub_heap H),
       hub_subscribers := mdel i (hub_subscribers H),
       hub_profiles := cnt_dec_le (hs_profile current) (hub_profiles H)\<rparr>)"

text \<open>One turn of the loop of \<open>Publish\<close>: the non-blocking send, or the removal.\<close>

definition hub_send :: "64 word \<Rightarrow> live_event \<Rightarrow> hub \<Rightarrow> hub" where
  "hub_send i e H = (case map_of (hub_subscribers H) i of
     None \<Rightarrow> H
   | Some target \<Rightarrow> (case ch_offer (hs_events target) e (hub_heap H) of (sent, h) \<Rightarrow>
       if sent then H\<lparr>hub_heap := h\<rparr>
       else (let H' = hub_removeLocked i (H\<lparr>hub_heap := h\<rparr>) in H'\<lparr>hub_slowDrops := hub_slowDrops H' + 1\<rparr>)))"

definition scoped_for :: "scoped_event \<Rightarrow> string \<Rightarrow> bool" where
  "scoped_for event profile \<longleftrightarrow> se_profile event = '''' \<or> se_profile event = profile"

definition hub_fanout :: "scoped_event \<Rightarrow> (64 word, hub_subscriber) gomap \<Rightarrow> hub \<Rightarrow> hub" where
  "hub_fanout event subs H =
     fold (\<lambda>(i, s) H. if se_profile event \<noteq> '''' \<and> se_profile event \<noteq> hs_profile s then H
                      else hub_send i (se_Event event) H) subs H"

definition hub_record :: "scoped_event \<Rightarrow> hub \<Rightarrow> hub" where
  "hub_record event H = H\<lparr>hub_nextEvent := hub_nextEvent H + 1, hub_published := hub_published H + 1,
     hub_history := (hub_history H)[unat ((le_ID (se_Event event) - 1) mod of_nat historyLimit) := event],
     hub_historySize := min (hub_historySize H + 1) historyLimit\<rparr>"

definition hub_event :: "instant \<Rightarrow> string \<Rightarrow> string \<Rightarrow> string \<Rightarrow> hub \<Rightarrow> scoped_event" where
  "hub_event now profile eventType resource H =
     \<lparr>se_Event = \<lparr>le_ID = hub_nextEvent H + 1, le_Type = eventType, le_Resource = resource, le_At = now\<rparr>,
      se_profile = profile\<rparr>"

text \<open>The result says what the observer is told, after the lock is released.\<close>

definition hub_Publish ::
  "instant \<Rightarrow> string \<Rightarrow> string \<Rightarrow> string \<Rightarrow> hub \<Rightarrow> (string \<times> string \<times> string) option \<times> hub" where
  "hub_Publish now profile eventType resource H =
     (let event = hub_event now profile eventType resource H;
          H1 = hub_record event H;
          H2 = hub_fanout event (hub_subscribers H1) H1
      in (if hub_observed H2 then Some (profile, eventType, resource) else None, H2))"

definition hub_SetObserver :: "bool \<Rightarrow> hub \<Rightarrow> hub" where
  "hub_SetObserver present H = H\<lparr>hub_observed := present\<rparr>"

definition hub_backlog :: "string \<Rightarrow> 64 word \<Rightarrow> hub \<Rightarrow> live_event list" where
  "hub_backlog profile after H = concat (map (\<lambda>index.
     (let event = hub_history H !
            unat ((hub_nextEvent H - of_nat (hub_historySize H) + of_nat index) mod of_nat historyLimit)
      in if le_ID (se_Event event) > after \<and> (se_profile event = '''' \<or> se_profile event = profile)
         then [se_Event event] else []))
     [0..<hub_historySize H])"

definition hub_add :: "string \<Rightarrow> hub \<Rightarrow> hub" where
  "hub_add profile H = (let mk = ch_make subscriberQueue (hub_heap H) in
     H\<lparr>hub_nextClient := hub_nextClient H + 1,
       hub_subscribers := mput (hub_nextClient H + 1) \<lparr>hs_profile = profile, hs_events = fst mk\<rparr> (hub_subscribers H),
       hub_profiles := cnt_inc profile (hub_profiles H), hub_heap := snd mk\<rparr>)"

definition hub_subscribe ::
  "string \<Rightarrow> 64 word \<Rightarrow> hub \<Rightarrow> (live_event list \<times> hub_subscription) option \<times> hub" where
  "hub_subscribe profile after H =
     (if length (hub_subscribers H) \<ge> subscriberLimit
         \<or> cnt_get (hub_profiles H) profile \<ge> int profileSubscriberLimit
      then (None, H\<lparr>hub_rejected := hub_rejected H + 1\<rparr>)
      else let H1 = (if after > 0 then H\<lparr>hub_reconnects := hub_reconnects H + 1\<rparr> else H)
           in (Some (hub_backlog profile after H1,
                 \<lparr>sn_id = hub_nextClient H1 + 1, sn_events = fst (ch_make subscriberQueue (hub_heap H1))\<rparr>),
               hub_add profile H1))"

definition hub_Metrics :: "hub \<Rightarrow> hub_metrics" where
  "hub_Metrics H = \<lparr>hm_Subscribers = length (hub_subscribers H), hm_Published = hub_published H,
     hm_Reconnects = hub_reconnects H, hm_Rejected = hub_rejected H, hm_SlowDrops = hub_slowDrops H\<rparr>"

definition hub_close :: "hub_subscription option \<Rightarrow> hub \<Rightarrow> hub" where
  "hub_close sn H = (case sn of None \<Rightarrow> H | Some s \<Rightarrow> hub_removeLocked (sn_id s) H)"

text \<open>The connection's side: taking the next event from the subscription's channel.\<close>

definition hub_receive :: "hub_subscription \<Rightarrow> hub \<Rightarrow> live_event option \<times> hub" where
  "hub_receive sn H = (case ch_recv (sn_events sn) (hub_heap H) of (x, h) \<Rightarrow> (x, H\<lparr>hub_heap := h\<rparr>))"

section \<open>Subscribers and channels\<close>

interpretation prof_count: keyed_counter cnt_wf "cnt_get :: string counter \<Rightarrow> _" cnt_inc cnt_dec_le length
  by unfold_locales (simp_all add: cnt_wf_inc cnt_wf_dec cnt_get_inc cnt_get_dec cnt_dec_le_eq cnt_entries)

definition hub_queue :: "hub \<Rightarrow> 64 word \<Rightarrow> live_event list" where
  "hub_queue H i = (case map_of (hub_subscribers H) i of None \<Rightarrow> [] | Some s \<Rightarrow> ch_pending (hub_heap H) (hs_events s))"

definition hub_profile_mset :: "hub \<Rightarrow> string multiset" where
  "hub_profile_mset H = mset (map (\<lambda>(i, s). hs_profile s) (hub_subscribers H))"

definition hub_chans :: "hub \<Rightarrow> bool" where
  "hub_chans H \<longleftrightarrow> heap_ok (hub_heap H)
     \<and> (\<forall>i s. map_of (hub_subscribers H) i = Some s \<longrightarrow>
          ch_open (hub_heap H) (hs_events s) \<and> ch_limit (hub_heap H) (hs_events s) = subscriberQueue)
     \<and> (\<forall>i s i' s'. map_of (hub_subscribers H) i = Some s \<longrightarrow> map_of (hub_subscribers H) i' = Some s' \<longrightarrow>
          hs_events s = hs_events s' \<longrightarrow> i = i')"

definition hub_table :: "hub \<Rightarrow> bool" where
  "hub_table H \<longleftrightarrow> mwf (hub_subscribers H) \<and> length (hub_subscribers H) \<le> subscriberLimit
     \<and> (\<forall>i s. map_of (hub_subscribers H) i = Some s \<longrightarrow> i \<le> hub_nextClient H)
     \<and> prof_count.counts (hub_profiles H) (hub_profile_mset H)
     \<and> (\<forall>p. count (hub_profile_mset H) p \<le> profileSubscriberLimit)"

definition hub_wf :: "hub \<Rightarrow> bool" where
  "hub_wf H \<longleftrightarrow> hub_table H \<and> hub_chans H"

lemma hub_New_wf: "hub_wf hub_New"
  by (simp add: hub_wf_def hub_table_def hub_chans_def hub_New_def prof_count.counts_def hub_profile_mset_def)

lemma hub_table_cong:
  "hub_table H \<Longrightarrow> hub_subscribers H' = hub_subscribers H \<Longrightarrow> hub_profiles H' = hub_profiles H
     \<Longrightarrow> hub_nextClient H' = hub_nextClient H \<Longrightarrow> hub_table H'"
  by (simp add: hub_table_def hub_profile_mset_def)

lemma hub_chans_cong:
  "hub_chans H \<Longrightarrow> hub_subscribers H' = hub_subscribers H \<Longrightarrow> hub_heap H' = hub_heap H \<Longrightarrow> hub_chans H'"
  by (simp add: hub_chans_def)

lemma hub_wf_cong:
  "hub_wf H \<Longrightarrow> hub_subscribers H' = hub_subscribers H \<Longrightarrow> hub_profiles H' = hub_profiles H
     \<Longrightarrow> hub_nextClient H' = hub_nextClient H \<Longrightarrow> hub_heap H' = hub_heap H \<Longrightarrow> hub_wf H'"
  using hub_table_cong hub_chans_cong unfolding hub_wf_def by blast

lemma hub_wf_slow [simp]: "hub_wf (H\<lparr>hub_slowDrops := n\<rparr>) = hub_wf H"
  by (auto elim: hub_wf_cong)

lemma hub_wf_heap:
  assumes "hub_wf H" "heap_ok h"
    and "\<And>a. ch_open h a = ch_open (hub_heap H) a" "\<And>a. ch_limit h a = ch_limit (hub_heap H) a"
  shows "hub_wf (H\<lparr>hub_heap := h\<rparr>)"
proof -
  have "hub_table (H\<lparr>hub_heap := h\<rparr>)" by (rule hub_table_cong [of H]) (use assms in \<open>auto simp: hub_wf_def\<close>)
  with assms show ?thesis by (simp add: hub_wf_def hub_chans_def)
qed

lemma hub_wf_chan:
  assumes "hub_wf H" "map_of (hub_subscribers H) i = Some s"
  shows "ch_open (hub_heap H) (hs_events s)" "ch_limit (hub_heap H) (hs_events s) = subscriberQueue"
    and "length (ch_pending (hub_heap H) (hs_events s)) \<le> subscriberQueue" "heap_ok (hub_heap H)"
proof -
  show o: "ch_open (hub_heap H) (hs_events s)" "ch_limit (hub_heap H) (hs_events s) = subscriberQueue"
    and ok: "heap_ok (hub_heap H)"
    using assms by (auto simp: hub_wf_def hub_chans_def)
  have "length (ch_pending (hub_heap H) (hs_events s)) \<le> ch_limit (hub_heap H) (hs_events s)"
    using ok by (simp add: heap_ok_def)
  with o show "length (ch_pending (hub_heap H) (hs_events s)) \<le> subscriberQueue" by simp
qed

lemma hub_wf_inj:
  "hub_wf H \<Longrightarrow> map_of (hub_subscribers H) i = Some s \<Longrightarrow> map_of (hub_subscribers H) i' = Some s'
     \<Longrightarrow> hs_events s = hs_events s' \<Longrightarrow> i = i'"
  by (auto simp: hub_wf_def hub_chans_def)

section \<open>Removing and adding a subscriber\<close>

lemma profile_mset_mdel:
  assumes "mwf (hub_subscribers H)" "map_of (hub_subscribers H) i = Some s"
  shows "hub_profile_mset H = add_mset (hs_profile s)
    (mset (map (\<lambda>(i, s). hs_profile s) (mdel i (hub_subscribers H))))"
  using arg_cong [OF mset_mdel [OF assms], of "image_mset (\<lambda>(i, s). hs_profile s)"]
  by (simp add: hub_profile_mset_def)

lemma hub_remove_table:
  assumes "hub_table H" "map_of (hub_subscribers H) i = Some s"
  shows "hub_table (H\<lparr>hub_heap := h, hub_subscribers := mdel i (hub_subscribers H),
    hub_profiles := cnt_dec_le (hs_profile s) (hub_profiles H)\<rparr>)"
proof -
  have wf: "mwf (hub_subscribers H)" using assms(1) by (simp add: hub_table_def)
  note split = profile_mset_mdel [OF wf assms(2)]
  let ?M = "mset (map (\<lambda>(i, s). hs_profile s) (mdel i (hub_subscribers H)))"
  have "prof_count.counts (cnt_dec_le (hs_profile s) (hub_profiles H)) (hub_profile_mset H - {#hs_profile s#})"
    using assms(1) split by (intro prof_count.counts_dec) (auto simp: hub_table_def)
  then have "prof_count.counts (cnt_dec_le (hs_profile s) (hub_profiles H)) ?M" using split by simp
  moreover have "count ?M p \<le> profileSubscriberLimit" for p
  proof -
    have "count ?M p \<le> count (hub_profile_mset H) p" using split by simp
    also have "\<dots> \<le> profileSubscriberLimit" using assms(1) by (simp add: hub_table_def)
    finally show ?thesis .
  qed
  ultimately show ?thesis
    using assms(1) wf length_mdel_le [of i "hub_subscribers H"]
    by (auto simp: hub_table_def hub_profile_mset_def split: if_splits)
qed

lemma hub_remove_wf:
  assumes "hub_wf H"
  shows "hub_wf (hub_removeLocked i H)"
proof (cases "map_of (hub_subscribers H) i")
  case None
  with assms show ?thesis by (simp add: hub_removeLocked_def)
next
  case (Some s)
  note c = hub_wf_chan [OF assms Some]
  have "heap_ok (ch_close (hs_events s) (hub_heap H))" using c by (simp add: ch_close_ok)
  moreover have "ch_open (hub_heap H) (hs_events t) \<and> ch_limit (hub_heap H) (hs_events t) = subscriberQueue
      \<and> hs_events t \<noteq> hs_events s" if "map_of (hub_subscribers H) j = Some t" "j \<noteq> i" for j t
    using hub_wf_chan [OF assms that(1)] hub_wf_inj [OF assms that(1) Some] that(2) by auto
  ultimately show ?thesis
    using hub_remove_table [of H i s] assms Some hub_wf_inj [OF assms]
    by (auto simp: hub_removeLocked_def hub_wf_def hub_chans_def ch_close_open [OF c(1)])
qed

lemma hub_remove_subs:
  "map_of (hub_subscribers (hub_removeLocked i H)) = (map_of (hub_subscribers H))(i := None)"
  by (auto simp: hub_removeLocked_def split: option.splits)

lemma hub_remove_queue:
  "map_of (hub_subscribers (hub_removeLocked i H)) j \<noteq> None \<Longrightarrow> hub_queue (hub_removeLocked i H) j = hub_queue H j"
  by (auto simp: hub_removeLocked_def hub_queue_def split: option.splits if_splits)

lemma hub_add_wf:
  assumes wf: "hub_wf H" and len: "length (hub_subscribers H) < subscriberLimit"
    and room: "cnt_get (hub_profiles H) p < int profileSubscriberLimit" and nowrap: "hub_nextClient H + 1 \<noteq> 0"
  shows "hub_wf (hub_add p H)"
proof -
  let ?n = "hub_nextClient H + 1"
  have tab: "hub_table H" and ch: "hub_chans H" using wf by (auto simp: hub_wf_def)
  have less: "hub_nextClient H < ?n" using nowrap by (rule word_less_inc)
  have free: "map_of (hub_subscribers H) ?n = None"
    using tab less by (fastforce simp: hub_table_def)
  have mset: "hub_profile_mset (hub_add p H) = add_mset p (hub_profile_mset H)"
    by (simp add: hub_add_def hub_profile_mset_def Let_def mput_absent [OF free])
  have cnt: "prof_count.counts (hub_profiles H) (hub_profile_mset H)" using tab by (simp add: hub_table_def)
  have "hub_table (hub_add p H)"
    using tab len less free prof_count.counts_inc [OF cnt, of p] prof_count.counts_guarded [OF cnt _ room]
    unfolding hub_table_def mset
    by (auto simp: hub_add_def Let_def length_mput split: if_splits intro: order_trans less_imp_le)
  moreover have "hub_chans (hub_add p H)"
  proof -
    have heap: "heap_ok (hub_heap H)" using ch by (simp add: hub_chans_def)
    have old: "ch_open (hub_heap H) (hs_events s) \<and> ch_limit (hub_heap H) (hs_events s) = subscriberQueue
        \<and> hs_events s \<noteq> fst (ch_make subscriberQueue (hub_heap H))
        \<and> fst (ch_make subscriberQueue (hub_heap H)) \<noteq> hs_events s"
      if "map_of (hub_subscribers H) i = Some s" for i s
      using hub_wf_chan [OF wf that] ch_make_fresh [OF heap, of subscriberQueue] by metis
    show ?thesis
      unfolding hub_chans_def using ch_make_ok [OF heap, of subscriberQueue]
      by (auto simp: hub_add_def Let_def ch_make_limit dest: old hub_wf_inj [OF wf] split: if_splits)
  qed
  ultimately show ?thesis by (simp add: hub_wf_def)
qed

section \<open>Sending\<close>

lemma hub_send_absent: "map_of (hub_subscribers H) i = None \<Longrightarrow> hub_send i e H = H"
  by (simp add: hub_send_def)

lemma hub_send_room:
  assumes "hub_wf H" "map_of (hub_subscribers H) i = Some s" "length (hub_queue H i) < subscriberQueue"
  shows "hub_send i e H = H\<lparr>hub_heap := snd (ch_offer (hs_events s) e (hub_heap H))\<rparr>"
  using assms hub_wf_chan [OF assms(1,2)] ch_offer_result [of "hub_heap H" "hs_events s" e]
  by (auto simp: hub_send_def hub_queue_def split: prod.splits)

lemma hub_send_full:
  assumes "hub_wf H" "map_of (hub_subscribers H) i = Some s" "length (hub_queue H i) \<ge> subscriberQueue"
  shows "hub_send i e H = (hub_removeLocked i H)\<lparr>hub_slowDrops := hub_slowDrops (hub_removeLocked i H) + 1\<rparr>"
proof -
  have "ch_offer (hs_events s) e (hub_heap H) = (False, hub_heap H)"
    using assms hub_wf_chan [OF assms(1,2)] by (intro ch_offer_full) (simp_all add: hub_queue_def)
  with assms(2) show ?thesis by (simp add: hub_send_def Let_def)
qed

lemma hub_send_wf: "hub_wf H \<Longrightarrow> hub_wf (hub_send i e H)"
proof -
  assume wf: "hub_wf H"
  show ?thesis
  proof (cases "map_of (hub_subscribers H) i")
    case None
    with wf show ?thesis by (simp add: hub_send_absent)
  next
    case (Some s)
    show ?thesis
    proof (cases "length (hub_queue H i) < subscriberQueue")
      case True
      then show ?thesis
        using hub_wf_chan [OF wf Some] by (simp add: hub_send_room [OF wf Some] hub_wf_heap [OF wf] ch_offer_ok)
    next
      case False
      then show ?thesis using hub_remove_wf [OF wf] by (simp add: hub_send_full [OF wf Some])
    qed
  qed
qed

lemma hub_send_subs:
  assumes "hub_wf H"
  shows "map_of (hub_subscribers (hub_send i e H)) j =
    (if j = i \<and> subscriberQueue \<le> length (hub_queue H i) then None else map_of (hub_subscribers H) j)"
proof (cases "map_of (hub_subscribers H) i")
  case None
  then show ?thesis by (simp add: hub_send_absent)
next
  case (Some s)
  then show ?thesis
    using assms by (cases "length (hub_queue H i) < subscriberQueue")
      (simp_all add: hub_send_room hub_send_full hub_remove_subs)
qed

lemma hub_send_queue:
  assumes wf: "hub_wf H" and at: "map_of (hub_subscribers (hub_send i e H)) j \<noteq> None"
  shows "hub_queue (hub_send i e H) j = (if j = i then hub_queue H j @ [e] else hub_queue H j)"
proof (cases "map_of (hub_subscribers H) i")
  case None
  with at show ?thesis by (auto simp: hub_send_absent)
next
  case (Some s)
  show ?thesis
  proof (cases "length (hub_queue H i) < subscriberQueue")
    case True
    have "hs_events t = hs_events s \<longleftrightarrow> j = i" if "map_of (hub_subscribers H) j = Some t" for t
      using hub_wf_inj [OF wf that Some] that Some by auto
    then show ?thesis
      using True Some at hub_wf_chan [OF wf Some]
      by (auto simp: hub_send_room [OF wf Some True] hub_queue_def ch_offer_pending split: option.splits)
  next
    case False
    have "hub_queue (H'\<lparr>hub_slowDrops := n\<rparr>) = hub_queue H'" for H' n
      by (auto simp: hub_queue_def fun_eq_iff split: option.splits)
    with False at Some wf show ?thesis
      by (auto simp: hub_send_full hub_remove_subs hub_remove_queue split: if_splits)
  qed
qed

interpretation hub_fan: fanout hub_wf "\<lambda>H i. map_of (hub_subscribers H) i \<noteq> None" hub_queue
  subscriberQueue hub_send
proof
  fix H i e j
  assume wf: "hub_wf H"
  show "hub_wf (hub_send i e H)" using wf by (rule hub_send_wf)
  show "map_of (hub_subscribers (hub_send i e H)) j \<noteq> None \<longleftrightarrow>
      map_of (hub_subscribers H) j \<noteq> None \<and> (j = i \<longrightarrow> length (hub_queue H i) < subscriberQueue)"
    using wf by (auto simp: hub_send_subs)
  show "hub_queue (hub_send i e H) j = (if j = i then hub_queue H j @ [e] else hub_queue H j)"
    if "map_of (hub_subscribers (hub_send i e H)) j \<noteq> None"
    using wf that by (rule hub_send_queue)
  show "length (hub_queue H j) \<le> subscriberQueue" if "map_of (hub_subscribers H) j \<noteq> None"
    using that hub_wf_chan(3) [OF wf] by (auto simp: hub_queue_def)
qed

section \<open>Publishing\<close>

lemma hub_fanout_broadcast:
  "hub_fanout event subs H = hub_fan.broadcast
     (map (\<lambda>(i, s). (i, se_Event event)) (mfilter (\<lambda>i s. scoped_for event (hs_profile s)) subs)) H"
proof (induction subs arbitrary: H)
  case Nil
  then show ?case by (simp add: hub_fanout_def mfilter_def)
next
  case (Cons x subs)
  obtain i s where x: "x = (i, s)" by (cases x)
  have step: "hub_fanout event (x # subs) H = hub_fanout event subs
      (if scoped_for event (hs_profile s) then hub_send i (se_Event event) H else H)"
    by (auto simp: hub_fanout_def x scoped_for_def)
  show ?case unfolding step by (simp add: Cons.IH) (simp add: x mfilter_def)
qed

lemma hub_record_wf: "hub_wf (hub_record event H) = hub_wf H"
  by (auto simp: hub_record_def elim: hub_wf_cong)

lemma hub_record_simps [simp]:
  "hub_subscribers (hub_record event H) = hub_subscribers H" "hub_heap (hub_record event H) = hub_heap H"
  "hub_queue (hub_record event H) = hub_queue H" "hub_nextClient (hub_record event H) = hub_nextClient H"
  by (auto simp: hub_record_def hub_queue_def fun_eq_iff split: option.splits)

definition publish_state :: "scoped_event \<Rightarrow> hub \<Rightarrow> hub" where
  "publish_state event H = hub_fanout event (hub_subscribers H) (hub_record event H)"

lemma hub_Publish_state:
  "snd (hub_Publish now p ty r H) = publish_state (hub_event now p ty r H) H"
  by (simp add: hub_Publish_def publish_state_def Let_def)

lemma publish_wf: "hub_wf H \<Longrightarrow> hub_wf (publish_state event H)"
  by (simp add: publish_state_def hub_fanout_broadcast hub_fan.broadcast_inv hub_record_wf)

lemma publish_addressed:
  assumes "hub_wf H"
  shows "map_of (mfilter (\<lambda>i s. P s) (hub_subscribers H)) i =
    (case map_of (hub_subscribers H) i of None \<Rightarrow> None | Some s \<Rightarrow> if P s then Some s else None)"
  using assms by (simp add: map_of_mfilter hub_wf_def hub_table_def)

lemma hub_fan_subs:
  "hub_wf H \<Longrightarrow> map_of (hub_subscribers (hub_fan.broadcast es H)) i = Some s \<Longrightarrow> map_of (hub_subscribers H) i = Some s"
proof (induction es arbitrary: H)
  case Nil
  then show ?case by simp
next
  case (Cons x es)
  obtain j e where x: "x = (j, e)" by (cases x)
  have "map_of (hub_subscribers (hub_send j e H)) i = Some s"
    using Cons by (simp add: x hub_send_wf)
  with Cons.prems(1) show ?case by (simp add: hub_send_subs split: if_splits)
qed

lemma publish_subs:
  "hub_wf H \<Longrightarrow> map_of (hub_subscribers (publish_state event H)) i = Some s \<Longrightarrow>
     map_of (hub_subscribers H) i = Some s"
  using hub_fan_subs [of "hub_record event H"] by (simp add: publish_state_def hub_fanout_broadcast hub_record_wf)

text \<open>Whom a publication reaches: everyone in scope with room, nobody else; the full are dropped.\<close>

lemma publish_member:
  assumes "hub_wf H" "map_of (hub_subscribers H) i = Some s"
  shows "map_of (hub_subscribers (publish_state event H)) i \<noteq> None \<longleftrightarrow>
    (scoped_for event (hs_profile s) \<longrightarrow> length (hub_queue H i) < subscriberQueue)"
proof -
  have "mwf (map (\<lambda>(i, s). (i, se_Event event)) (mfilter (\<lambda>i s. scoped_for event (hs_profile s)) (hub_subscribers H)))"
    using assms(1) map_ran_mwf [of "\<lambda>i s. se_Event event"] by (simp add: hub_wf_def hub_table_def)
  then show ?thesis
    using assms hub_fan.broadcast_member [of "hub_record event H"]
    by (simp add: publish_state_def hub_fanout_broadcast hub_record_wf publish_addressed)
qed

lemma publish_queue:
  assumes "hub_wf H" "map_of (hub_subscribers (publish_state event H)) i = Some s"
  shows "hub_queue (publish_state event H) i =
    hub_queue H i @ (if scoped_for event (hs_profile s) then [se_Event event] else [])"
proof -
  have "mwf (map (\<lambda>(i, s). (i, se_Event event)) (mfilter (\<lambda>i s. scoped_for event (hs_profile s)) (hub_subscribers H)))"
    using assms(1) map_ran_mwf [of "\<lambda>i s. se_Event event"] by (simp add: hub_wf_def hub_table_def)
  then show ?thesis
    using assms publish_subs [OF assms] hub_fan.broadcast_queue [of "hub_record event H"]
    by (auto simp: publish_state_def hub_fanout_broadcast hub_record_wf publish_addressed)
qed

section \<open>The ring of recent events\<close>

definition hub_hist :: "scoped_event list \<Rightarrow> hub \<Rightarrow> bool" where
  "hub_hist evs H \<longleftrightarrow> length (hub_history H) = historyLimit \<and> hub_nextEvent H = of_nat (length evs)
     \<and> hub_historySize H = min (length evs) historyLimit
     \<and> (\<forall>j < length evs. length evs \<le> j + historyLimit \<longrightarrow> hub_history H ! (j mod historyLimit) = evs ! j)
     \<and> (\<forall>j < length evs. le_ID (se_Event (evs ! j)) = of_nat (Suc j))"

lemma ring_index: "unat ((of_nat n :: 64 word) mod of_nat historyLimit) = n mod historyLimit"
proof -
  have "(n mod 2 ^ 64) mod 128 = n mod (128 :: nat)" by (rule mod_mod_cancel) simp
  then show ?thesis by (simp add: historyLimit_def unat_mod unat_of_nat)
qed

lemma hub_hist_New: "hub_hist [] hub_New"
  by (simp add: hub_hist_def hub_New_def)

lemma mod_close: "j < n \<Longrightarrow> n \<le> j + m \<Longrightarrow> n < j + m \<Longrightarrow> j mod m \<noteq> n mod (m::nat)"
proof
  assume a: "j < n" "n < j + m" "j mod m = n mod m"
  then have "m dvd n - j" by (metis mod_eq_dvd_iff_nat less_imp_le)
  with a show False by (auto dest: dvd_imp_le)
qed

lemma hub_hist_record:
  assumes "hub_hist evs H"
  shows "hub_hist (evs @ [hub_event now p ty r H]) (hub_record (hub_event now p ty r H) H)"
proof -
  let ?e = "hub_event now p ty r H" and ?n = "length evs"
  have ne: "hub_nextEvent H = of_nat ?n" and len: "length (hub_history H) = historyLimit"
    using assms by (auto simp: hub_hist_def)
  have id: "le_ID (se_Event ?e) = of_nat ?n + 1" by (simp add: hub_event_def ne)
  have hist: "hub_history (hub_record ?e H) = (hub_history H)[?n mod historyLimit := ?e]"
    using ring_index [of ?n] by (simp add: hub_record_def id)
  have pos: "0 < historyLimit" by (simp add: historyLimit_def)
  have entry: "hub_history (hub_record ?e H) ! (j mod historyLimit) = (evs @ [?e]) ! j"
    if j: "j < Suc ?n" "Suc ?n \<le> j + historyLimit" for j
  proof (cases "j = ?n")
    case True
    with len pos show ?thesis by (simp add: hist)
  next
    case False
    with j have "j < ?n" "?n < j + historyLimit" by auto
    then have "j mod historyLimit \<noteq> ?n mod historyLimit" by (intro mod_close) auto
    moreover have "hub_history H ! (j mod historyLimit) = evs ! j"
      using assms j False by (simp add: hub_hist_def)
    ultimately show ?thesis using \<open>j < ?n\<close> by (simp add: hist nth_append)
  qed
  have ids: "le_ID (se_Event ((evs @ [?e]) ! j)) = of_nat (Suc j)" if "j < Suc ?n" for j
    using assms that id by (auto simp: hub_hist_def nth_append less_Suc_eq)
  have "hub_historySize (hub_record ?e H) = min (Suc ?n) historyLimit"
    using assms by (auto simp: hub_record_def hub_hist_def)
  then show ?thesis
    using entry ids len by (simp add: hub_hist_def hist) (simp add: hub_record_def ne)
qed

lemma hub_hist_cong:
  "hub_hist evs H \<Longrightarrow> hub_history H' = hub_history H \<Longrightarrow> hub_historySize H' = hub_historySize H
     \<Longrightarrow> hub_nextEvent H' = hub_nextEvent H \<Longrightarrow> hub_hist evs H'"
  by (simp add: hub_hist_def)

lemma hub_send_hist [simp]:
  "hub_history (hub_send i e H) = hub_history H" "hub_historySize (hub_send i e H) = hub_historySize H"
  "hub_nextEvent (hub_send i e H) = hub_nextEvent H" "hub_nextClient (hub_send i e H) = hub_nextClient H"
  by (simp_all add: hub_send_def hub_removeLocked_def Let_def split: option.splits prod.splits)

lemma hub_fan_hist [simp]:
  "hub_history (hub_fan.broadcast es H) = hub_history H"
  "hub_historySize (hub_fan.broadcast es H) = hub_historySize H"
  "hub_nextEvent (hub_fan.broadcast es H) = hub_nextEvent H"
  by (induction es arbitrary: H) auto

lemma publish_hist:
  "hub_hist evs H \<Longrightarrow> hub_hist (evs @ [hub_event now p ty r H]) (publish_state (hub_event now p ty r H) H)"
  by (rule hub_hist_cong [OF hub_hist_record [of evs H now p ty r]])
    (simp_all add: publish_state_def hub_fanout_broadcast)

lemma drop_as_map: "drop m xs = map (\<lambda>k. xs ! (m + k)) [0..<length xs - m]"
  by (rule nth_equalityI) auto

lemma concat_map_filter: "concat (map (\<lambda>k. if P (f k) then [g (f k)] else []) ks) = map g (filter P (map f ks))"
  by (induction ks) auto

lemma hub_backlog_log:
  assumes "hub_hist evs H"
  shows "hub_backlog profile after H =
    map se_Event (filter (\<lambda>e. le_ID (se_Event e) > after \<and> scoped_for e profile)
      (drop (length evs - historyLimit) evs))"
proof -
  let ?n = "length evs" and ?s = "hub_historySize H"
  have s: "?s = min ?n historyLimit" and ne: "hub_nextEvent H = of_nat ?n"
    using assms by (auto simp: hub_hist_def)
  have idx: "hub_history H ! unat ((hub_nextEvent H - of_nat ?s + of_nat k) mod of_nat historyLimit)
      = evs ! (?n - historyLimit + k)" if "k < ?s" for k
  proof -
    have le: "?s \<le> ?n" using s by simp
    have "hub_nextEvent H - of_nat ?s + of_nat k = (of_nat (?n - ?s + k) :: 64 word)"
      using le by (simp add: ne of_nat_diff)
    then have "hub_history H ! unat ((hub_nextEvent H - of_nat ?s + of_nat k) mod of_nat historyLimit)
      = hub_history H ! ((?n - ?s + k) mod historyLimit)" by (simp only: ring_index)
    also have "\<dots> = evs ! (?n - ?s + k)"
      using assms that s by (auto simp: hub_hist_def)
    also have "?n - ?s = ?n - historyLimit" using s by simp
    finally show ?thesis .
  qed
  have "hub_backlog profile after H = concat (map (\<lambda>k. let e = evs ! (?n - historyLimit + k)
      in if le_ID (se_Event e) > after \<and> scoped_for e profile then [se_Event e] else []) [0..<?s])"
    unfolding hub_backlog_def by (intro arg_cong [where f = concat] map_cong) (simp_all add: idx scoped_for_def)
  also have "\<dots> = map se_Event (filter (\<lambda>e. le_ID (se_Event e) > after \<and> scoped_for e profile)
      (map (\<lambda>k. evs ! (?n - historyLimit + k)) [0..<?s]))"
    unfolding Let_def by (rule concat_map_filter)
  also have "map (\<lambda>k. evs ! (?n - historyLimit + k)) [0..<?s] = drop (?n - historyLimit) evs"
    using s by (simp add: drop_as_map min_def)
  finally show ?thesis .
qed

section \<open>Runs\<close>

text \<open>
  What an outside observer of the hub knows: the events published so far, and for each
  subscription how many had been published when it was made and what its connection has read.
\<close>

record hub_trace =
  ht_evs :: "scoped_event list"
  ht_since :: "64 word \<Rightarrow> nat"
  ht_got :: "64 word \<Rightarrow> live_event list"

definition ht_empty :: hub_trace where
  "ht_empty = \<lparr>ht_evs = [], ht_since = (\<lambda>_. 0), ht_got = (\<lambda>_. [])\<rparr>"

definition ht_publish :: "scoped_event \<Rightarrow> hub_trace \<Rightarrow> hub_trace" where
  "ht_publish e T = T\<lparr>ht_evs := ht_evs T @ [e]\<rparr>"

definition ht_subscribe :: "64 word \<Rightarrow> hub_trace \<Rightarrow> hub_trace" where
  "ht_subscribe i T = T\<lparr>ht_since := (ht_since T)(i := length (ht_evs T)), ht_got := (ht_got T)(i := [])\<rparr>"

definition ht_receive :: "64 word \<Rightarrow> live_event option \<Rightarrow> hub_trace \<Rightarrow> hub_trace" where
  "ht_receive i x T = T\<lparr>ht_got := (ht_got T)(i := ht_got T i @ (case x of None \<Rightarrow> [] | Some e \<Rightarrow> [e]))\<rparr>"

lemmas ht_defs = ht_empty_def ht_publish_def ht_subscribe_def ht_receive_def

inductive hub_run :: "hub_trace \<Rightarrow> hub \<Rightarrow> bool" where
  init: "hub_run ht_empty hub_New"
| publish: "hub_run T H \<Longrightarrow>
    hub_run (ht_publish (hub_event now p ty r H) T) (snd (hub_Publish now p ty r H))"
| subscribe: "hub_run T H \<Longrightarrow> hub_nextClient H + 1 \<noteq> 0 \<Longrightarrow> hub_subscribe p after H = (Some (backlog, sn), H') \<Longrightarrow>
    hub_run (ht_subscribe (sn_id sn) T) H'"
| reject: "hub_run T H \<Longrightarrow> hub_subscribe p after H = (None, H') \<Longrightarrow> hub_run T H'"
| receive: "hub_run T H \<Longrightarrow> map_of (hub_subscribers H) (sn_id sn) = Some s \<Longrightarrow> sn_events sn = hs_events s \<Longrightarrow>
    hub_receive sn H = (x, H') \<Longrightarrow> hub_run (ht_receive (sn_id sn) x T) H'"
| receive_removed: "hub_run T H \<Longrightarrow> (\<forall>(i, s) \<in> set (hub_subscribers H). hs_events s \<noteq> sn_events sn) \<Longrightarrow>
    hub_receive sn H = (x, H') \<Longrightarrow> hub_run T H'"
| close: "hub_run T H \<Longrightarrow> hub_run T (hub_close sn H)"
| observer: "hub_run T H \<Longrightarrow> hub_run T (hub_SetObserver b H)"

text \<open>Every registered subscriber: what it read and what waits for it is what it was promised.\<close>

definition hub_promised :: "scoped_event list \<Rightarrow> nat \<Rightarrow> string \<Rightarrow> live_event list" where
  "hub_promised evs since p = map se_Event (filter (\<lambda>e. scoped_for e p) (drop since evs))"

definition hub_stream :: "hub_trace \<Rightarrow> hub \<Rightarrow> bool" where
  "hub_stream T H \<longleftrightarrow> (\<forall>i s. map_of (hub_subscribers H) i = Some s \<longrightarrow>
     ht_since T i \<le> length (ht_evs T)
     \<and> ht_got T i @ hub_queue H i = hub_promised (ht_evs T) (ht_since T i) (hs_profile s))"

definition hub_inv :: "hub_trace \<Rightarrow> hub \<Rightarrow> bool" where
  "hub_inv T H \<longleftrightarrow> hub_wf H \<and> hub_hist (ht_evs T) H \<and> hub_stream T H"

lemma hub_promised_snoc:
  "since \<le> length evs \<Longrightarrow> hub_promised (evs @ [e]) since p =
     hub_promised evs since p @ (if scoped_for e p then [se_Event e] else [])"
  by (simp add: hub_promised_def)

lemma hub_promised_now [simp]: "hub_promised evs (length evs) p = []"
  by (simp add: hub_promised_def)

lemma hub_inv_init: "hub_inv ht_empty hub_New"
  by (simp add: hub_inv_def hub_New_wf hub_stream_def ht_empty_def hub_hist_New) (simp add: hub_New_def)

lemma hub_inv_publish:
  assumes "hub_inv T H"
  shows "hub_inv (ht_publish (hub_event now p ty r H) T) (snd (hub_Publish now p ty r H))"
proof -
  let ?e = "hub_event now p ty r H"
  have wf: "hub_wf H" and st: "hub_stream T H" using assms by (auto simp: hub_inv_def)
  have "ht_since T i \<le> Suc (length (ht_evs T)) \<and> ht_got T i @ hub_queue (publish_state ?e H) i =
      hub_promised (ht_evs T @ [?e]) (ht_since T i) (hs_profile s)"
    if at: "map_of (hub_subscribers (publish_state ?e H)) i = Some s" for i s
  proof -
    have "ht_since T i \<le> length (ht_evs T)"
      "ht_got T i @ hub_queue H i = hub_promised (ht_evs T) (ht_since T i) (hs_profile s)"
      using st publish_subs [OF wf at] by (auto simp: hub_stream_def)
    with publish_queue [OF wf at] show ?thesis by (simp add: hub_promised_snoc flip: append_assoc)
  qed
  then show ?thesis
    using assms publish_hist [of "ht_evs T" H now p ty r] publish_wf [OF wf]
    by (auto simp: hub_inv_def hub_Publish_state ht_publish_def hub_stream_def)
qed

lemma hub_inv_less:
  assumes "hub_inv T H" "hub_wf H'" "hub_hist (ht_evs T) H'"
    and "\<And>i s. map_of (hub_subscribers H') i = Some s \<Longrightarrow>
      map_of (hub_subscribers H) i = Some s \<and> hub_queue H' i = hub_queue H i"
  shows "hub_inv T H'"
  using assms by (fastforce simp: hub_inv_def hub_stream_def)

lemma hub_remove_hist [simp]:
  "hub_history (hub_removeLocked i H) = hub_history H" "hub_historySize (hub_removeLocked i H) = hub_historySize H"
  "hub_nextEvent (hub_removeLocked i H) = hub_nextEvent H"
  by (simp_all add: hub_removeLocked_def split: option.splits)

lemma hub_inv_close: "hub_inv T H \<Longrightarrow> hub_inv T (hub_close sn H)"
proof (cases sn)
  case (Some s)
  assume inv: "hub_inv T H"
  have "hub_inv T (hub_removeLocked (sn_id s) H)"
  proof (rule hub_inv_less [OF inv])
    show "hub_wf (hub_removeLocked (sn_id s) H)" using inv by (simp add: hub_inv_def hub_remove_wf)
    show "hub_hist (ht_evs T) (hub_removeLocked (sn_id s) H)"
      by (rule hub_hist_cong [of _ H]) (use inv in \<open>auto simp: hub_inv_def\<close>)
  qed (auto simp: hub_remove_subs hub_remove_queue split: if_splits)
  with Some show ?thesis by (simp add: hub_close_def)
qed (simp add: hub_close_def)
section \<open>Subscribing and receiving\<close>

lemma hub_subscribe_cases:
  obtains (rejected) "hub_subscribe p after H = (None, H\<lparr>hub_rejected := hub_rejected H + 1\<rparr>)"
      "length (hub_subscribers H) \<ge> subscriberLimit \<or> cnt_get (hub_profiles H) p \<ge> int profileSubscriberLimit"
  | (admitted) n where "hub_subscribe p after H = (Some (hub_backlog p after H,
        \<lparr>sn_id = hub_nextClient H + 1, sn_events = fst (ch_make subscriberQueue (hub_heap H))\<rparr>),
        hub_add p (H\<lparr>hub_reconnects := n\<rparr>))"
      "length (hub_subscribers H) < subscriberLimit" "cnt_get (hub_profiles H) p < int profileSubscriberLimit"
proof (cases "length (hub_subscribers H) \<ge> subscriberLimit \<or> cnt_get (hub_profiles H) p \<ge> int profileSubscriberLimit")
  case True
  with rejected show ?thesis by (simp add: hub_subscribe_def)
next
  case False
  let ?n = "if after > 0 then hub_reconnects H + 1 else hub_reconnects H"
  have eq: "(if after > 0 then H\<lparr>hub_reconnects := hub_reconnects H + 1\<rparr> else H) = H\<lparr>hub_reconnects := ?n\<rparr>" by simp
  have "hub_backlog p after (H\<lparr>hub_reconnects := ?n\<rparr>) = hub_backlog p after H" by (simp add: hub_backlog_def)
  with False have "hub_subscribe p after H = (Some (hub_backlog p after H,
        \<lparr>sn_id = hub_nextClient H + 1, sn_events = fst (ch_make subscriberQueue (hub_heap H))\<rparr>),
        hub_add p (H\<lparr>hub_reconnects := ?n\<rparr>))"
    unfolding hub_subscribe_def eq by (simp add: Let_def)
  with False admitted [of ?n] show ?thesis by simp
qed

lemma hub_add_subs:
  "map_of (hub_subscribers (hub_add p H)) = (map_of (hub_subscribers H))
     (hub_nextClient H + 1 \<mapsto> \<lparr>hs_profile = p, hs_events = fst (ch_make subscriberQueue (hub_heap H))\<rparr>)"
  by (simp add: hub_add_def Let_def)

lemma hub_add_queue:
  assumes "hub_wf H" "map_of (hub_subscribers (hub_add p H)) i = Some s"
  shows "hub_queue (hub_add p H) i = (if i = hub_nextClient H + 1 then [] else hub_queue H i)"
proof -
  have heap: "heap_ok (hub_heap H)" using assms(1) by (simp add: hub_wf_def hub_chans_def)
  have "hs_events t \<noteq> fst (ch_make subscriberQueue (hub_heap H))" if "map_of (hub_subscribers H) i = Some t" for t
    using hub_wf_chan(1) [OF assms(1) that] ch_make_fresh [OF heap, of subscriberQueue] by metis
  then show ?thesis
    using assms(2) by (auto simp: hub_queue_def hub_add_def Let_def ch_make_pending split: option.splits if_splits)
qed

lemma hub_add_hist [simp]:
  "hub_history (hub_add p H) = hub_history H" "hub_historySize (hub_add p H) = hub_historySize H"
  "hub_nextEvent (hub_add p H) = hub_nextEvent H"
  by (simp_all add: hub_add_def Let_def)

lemma hub_inv_cong:
  assumes "hub_inv T H" "hub_subscribers H' = hub_subscribers H" "hub_profiles H' = hub_profiles H"
    "hub_nextClient H' = hub_nextClient H" "hub_heap H' = hub_heap H" "hub_history H' = hub_history H"
    "hub_historySize H' = hub_historySize H" "hub_nextEvent H' = hub_nextEvent H"
  shows "hub_inv T H'"
proof (rule hub_inv_less [OF assms(1)])
  show "hub_wf H'" by (rule hub_wf_cong [of H]) (use assms in \<open>auto simp: hub_inv_def\<close>)
  show "hub_hist (ht_evs T) H'" by (rule hub_hist_cong [of _ H]) (use assms in \<open>auto simp: hub_inv_def\<close>)
qed (use assms in \<open>auto simp: hub_queue_def\<close>)

lemma hub_inv_add:
  assumes inv: "hub_inv T H" and "length (hub_subscribers H) < subscriberLimit"
    and "cnt_get (hub_profiles H) p < int profileSubscriberLimit" and "hub_nextClient H + 1 \<noteq> 0"
  shows "hub_inv (ht_subscribe (hub_nextClient H + 1) T) (hub_add p H)"
proof -
  have wf: "hub_wf H" using inv by (simp add: hub_inv_def)
  have "hub_hist (ht_evs T) (hub_add p H)"
    by (rule hub_hist_cong [of _ H]) (use inv in \<open>auto simp: hub_inv_def\<close>)
  moreover have "hub_stream (ht_subscribe (hub_nextClient H + 1) T) (hub_add p H)"
    using inv hub_add_queue [OF wf, of p]
    by (auto simp: hub_stream_def hub_inv_def hub_add_subs ht_subscribe_def split: if_splits)
  ultimately show ?thesis
    using hub_add_wf [OF wf assms(2,3,4)] by (simp add: hub_inv_def ht_subscribe_def)
qed

lemma hub_inv_subscribe:
  assumes inv: "hub_inv T H" and "hub_nextClient H + 1 \<noteq> 0" and sub: "hub_subscribe p after H = (Some (backlog, sn), H')"
  shows "hub_inv (ht_subscribe (sn_id sn) T) H'"
proof (cases rule: hub_subscribe_cases [of p after H])
  case rejected
  with sub show ?thesis by simp
next
  case (admitted n)
  have "hub_inv T (H\<lparr>hub_reconnects := n\<rparr>)" by (rule hub_inv_cong [OF inv]) simp_all
  from hub_inv_add [OF this] admitted assms show ?thesis by auto
qed

lemma hub_inv_reject:
  assumes inv: "hub_inv T H" and sub: "hub_subscribe p after H = (None, H')"
  shows "hub_inv T H'"
proof (cases rule: hub_subscribe_cases [of p after H])
  case rejected
  have "hub_inv T (H\<lparr>hub_rejected := hub_rejected H + 1\<rparr>)" by (rule hub_inv_cong [OF inv]) simp_all
  with rejected sub show ?thesis by simp
next
  case (admitted n)
  with sub show ?thesis by simp
qed

lemma ch_recv_pending:
  "ch_pending (snd (ch_recv a h)) b = (if b = a then tl (ch_pending h b) else ch_pending h b)"
  by (auto simp: chan_defs split: option.splits list.splits)

lemma ch_recv_value:
  "fst (ch_recv a h) = (case ch_pending h a of [] \<Rightarrow> None | x # xs \<Rightarrow> Some x)"
  by (auto simp: chan_defs split: option.splits list.splits)

lemma hub_receive_wf: "hub_wf H \<Longrightarrow> hub_wf (snd (hub_receive sn H))"
proof -
  assume wf: "hub_wf H"
  then have "heap_ok (hub_heap H)" by (simp add: hub_wf_def hub_chans_def)
  then have "hub_wf (H\<lparr>hub_heap := snd (ch_recv (sn_events sn) (hub_heap H))\<rparr>)"
    by (intro hub_wf_heap [OF wf]) (simp_all add: ch_recv_ok)
  then show ?thesis by (simp add: hub_receive_def case_prod_beta)
qed

lemma hub_receive_state:
  "snd (hub_receive sn H) = H\<lparr>hub_heap := snd (ch_recv (sn_events sn) (hub_heap H))\<rparr>"
  "fst (hub_receive sn H) = fst (ch_recv (sn_events sn) (hub_heap H))"
  by (simp_all add: hub_receive_def split: prod.splits)

lemma hub_receive_hist: "hub_hist evs H \<Longrightarrow> hub_hist evs (snd (hub_receive sn H))"
  by (rule hub_hist_cong [of _ H]) (simp_all add: hub_receive_state)

lemma hub_receive_queue:
  assumes wf: "hub_wf H" and me: "map_of (hub_subscribers H) (sn_id sn) = Some s" "sn_events sn = hs_events s"
    and j: "map_of (hub_subscribers H) j = Some t"
  shows "hub_queue (snd (hub_receive sn H)) j = (if j = sn_id sn then tl (hub_queue H j) else hub_queue H j)"
    and "fst (hub_receive sn H) = (case hub_queue H (sn_id sn) of [] \<Rightarrow> None | x # xs \<Rightarrow> Some x)"
  using me j hub_wf_inj [OF wf me(1) j]
  by (auto simp: hub_receive_state hub_queue_def ch_recv_pending ch_recv_value)

lemma hub_inv_receive:
  assumes inv: "hub_inv T H" and me: "map_of (hub_subscribers H) (sn_id sn) = Some s" "sn_events sn = hs_events s"
  shows "hub_inv (ht_receive (sn_id sn) (fst (hub_receive sn H)) T) (snd (hub_receive sn H))"
proof -
  have wf: "hub_wf H" using inv by (simp add: hub_inv_def)
  note q = hub_receive_queue [OF wf me]
  have "(case x of None \<Rightarrow> [] | Some e \<Rightarrow> [e]) @ tl xs = xs"
    if "x = (case xs of [] \<Rightarrow> None | y # ys \<Rightarrow> Some y)" for x and xs :: "live_event list"
    using that by (cases xs) auto
  then have "(case fst (hub_receive sn H) of None \<Rightarrow> [] | Some e \<Rightarrow> [e]) @ tl (hub_queue H (sn_id sn)) = hub_queue H (sn_id sn)"
    using q(2) [OF me(1)] by blast
  then have "hub_stream (ht_receive (sn_id sn) (fst (hub_receive sn H)) T) (snd (hub_receive sn H))"
    using inv q(1) by (auto simp: hub_stream_def hub_inv_def ht_receive_def hub_receive_state(1))
  then show ?thesis
    using inv hub_receive_wf hub_receive_hist by (auto simp: hub_inv_def ht_receive_def)
qed

lemma hub_inv_receive_removed:
  assumes inv: "hub_inv T H" and "\<forall>(i, s) \<in> set (hub_subscribers H). hs_events s \<noteq> sn_events sn"
  shows "hub_inv T (snd (hub_receive sn H))"
proof (rule hub_inv_less [OF inv])
  show "hub_wf (snd (hub_receive sn H))" "hub_hist (ht_evs T) (snd (hub_receive sn H))"
    using inv hub_receive_wf hub_receive_hist by (auto simp: hub_inv_def)
  fix i s
  assume "map_of (hub_subscribers (snd (hub_receive sn H))) i = Some s"
  then have "map_of (hub_subscribers H) i = Some s" by (simp add: hub_receive_state)
  moreover from this have "hs_events s \<noteq> sn_events sn" using assms(2) map_of_SomeD by fastforce
  ultimately show "map_of (hub_subscribers H) i = Some s \<and> hub_queue (snd (hub_receive sn H)) i = hub_queue H i"
    by (simp add: hub_queue_def hub_receive_state ch_recv_pending)
qed

lemma hub_run_inv: "hub_run T H \<Longrightarrow> hub_inv T H"
proof (induction rule: hub_run.induct)
  case init
  show ?case by (rule hub_inv_init)
next
  case (publish T H now p ty r)
  then show ?case by (intro hub_inv_publish)
next
  case (subscribe T H p after backlog sn H')
  show ?case by (rule hub_inv_subscribe [OF subscribe.IH subscribe.hyps(2,3)])
next
  case (reject T H p after H')
  show ?case by (rule hub_inv_reject [OF reject.IH reject.hyps(2)])
next
  case (receive T H sn s x H')
  then show ?case using hub_inv_receive [of T H sn s] by simp
next
  case (receive_removed T H sn x H')
  then show ?case using hub_inv_receive_removed [of T H sn] by simp
next
  case (close T H sn)
  then show ?case by (intro hub_inv_close)
next
  case (observer T H b)
  then show ?case by (auto simp: hub_SetObserver_def intro: hub_inv_cong)
qed

section \<open>Properties\<close>

lemma hub_profile_count:
  "count (hub_profile_mset H) p = length (mfilter (\<lambda>i s. hs_profile s = p) (hub_subscribers H))"
proof -
  have "count (mset (map (\<lambda>(i, s). hs_profile s) m)) p = length (filter (\<lambda>(i, s). hs_profile s = p) m)" for m
    by (induction m) auto
  then show ?thesis by (simp add: hub_profile_mset_def mfilter_def)
qed

text \<open>
  C5.  Whatever the hub is asked to do, in any order, it never sends on or closes a closed channel,
  keeps at most 256 subscribers, at most 16 of one profile with an exact count per profile, and
  never holds more than 16 undelivered events for a subscriber.
\<close>

theorem hub_safe:
  assumes "hub_run T H"
  shows "\<not> hp_panicked (hub_heap H) \<and> length (hub_subscribers H) \<le> subscriberLimit
    \<and> (\<forall>p. cnt_get (hub_profiles H) p = int (length (mfilter (\<lambda>i s. hs_profile s = p) (hub_subscribers H)))
          \<and> cnt_get (hub_profiles H) p \<le> int profileSubscriberLimit)
    \<and> (\<forall>i. length (hub_queue H i) \<le> subscriberQueue)"
proof -
  have wf: "hub_wf H" using hub_run_inv [OF assms] by (simp add: hub_inv_def)
  then have tab: "hub_table H" and ok: "heap_ok (hub_heap H)" by (auto simp: hub_wf_def hub_chans_def)
  have "cnt_get (hub_profiles H) p = int (count (hub_profile_mset H) p)" for p
    using tab prof_count.counts_cnt by (auto simp: hub_table_def)
  moreover have "length (hub_queue H i) \<le> subscriberQueue" for i
    using hub_wf_chan(3) [OF wf] by (auto simp: hub_queue_def split: option.splits)
  ultimately show ?thesis
    using tab heap_ok_no_panic [OF ok] by (auto simp: hub_table_def hub_profile_count)
qed

text \<open>
  C6.  A registered subscriber misses nothing and sees nothing it should not: what its connection
  has read so far followed by what waits in its channel is exactly the events visible to its
  profile published since it subscribed, in order, each once.
\<close>

theorem hub_stream_exact:
  assumes "hub_run T H" and "map_of (hub_subscribers H) i = Some s"
  shows "ht_got T i @ hub_queue H i = hub_promised (ht_evs T) (ht_since T i) (hs_profile s)"
  using hub_run_inv [OF assms(1)] assms(2) by (simp add: hub_inv_def hub_stream_def)

lemma hub_backlog_resume:
  assumes hist: "hub_hist evs H" and n: "n \<le> length evs" "length evs \<le> n + historyLimit" "length evs < 2 ^ 64"
  shows "hub_backlog p (of_nat n) H = hub_promised evs n p"
proof -
  let ?d = "length evs - historyLimit"
  let ?vis = "\<lambda>e. le_ID (se_Event e) > of_nat n \<and> scoped_for e p"
  have newer: "le_ID (se_Event (evs ! j)) > of_nat n \<longleftrightarrow> n \<le> j" if "j < length evs" for j
  proof -
    have "le_ID (se_Event (evs ! j)) = of_nat (Suc j)" using that hist by (auto simp: hub_hist_def)
    moreover have "unat (of_nat (Suc j) :: 64 word) = Suc j" "unat (of_nat n :: 64 word) = n"
      using that n by (simp_all only: unat_of_nat) (simp_all add: mod_less)
    ultimately show ?thesis by (auto simp: word_less_nat_alt simp del: of_nat_Suc)
  qed
  have split: "drop ?d evs = take (n - ?d) (drop ?d evs) @ drop n evs"
    using n by (metis append_take_drop_id drop_drop le_add_diff_inverse2 le_diff_conv)
  have "filter ?vis (take (n - ?d) (drop ?d evs)) = []"
    using newer n by (auto simp: filter_empty_conv in_set_conv_nth)
  moreover have "filter ?vis (drop n evs) = filter (\<lambda>e. scoped_for e p) (drop n evs)"
    using newer n by (intro filter_cong) (auto simp: in_set_conv_nth)
  ultimately have "filter ?vis (drop ?d evs) = filter (\<lambda>e. scoped_for e p) (drop n evs)"
    by (subst split) simp
  then show ?thesis by (simp add: hub_backlog_log [OF hist] hub_promised_def)
qed

text \<open>
  C7.  Resuming is gapless: a client that saw the first \<open>n\<close> events and subscribes again while at most
  128 newer ones exist is handed exactly the visible events it missed, and its channel then starts
  empty at the present, so that backlog and channel together continue its stream.
\<close>

theorem hub_resume_gapless:
  assumes "hub_run T H" and "hub_subscribe p (of_nat n) H = (Some (backlog, sn), H')"
    and "hub_nextClient H + 1 \<noteq> 0"
    and "n \<le> length (ht_evs T)" "length (ht_evs T) \<le> n + historyLimit" "length (ht_evs T) < 2 ^ 64"
  shows "backlog = hub_promised (ht_evs T) n p \<and> hub_run (ht_subscribe (sn_id sn) T) H'
    \<and> hub_queue H' (sn_id sn) = [] \<and> ht_since (ht_subscribe (sn_id sn) T) (sn_id sn) = length (ht_evs T)"
proof -
  have inv: "hub_inv T H" by (rule hub_run_inv [OF assms(1)])
  have bl: "hub_backlog p (of_nat n) H = hub_promised (ht_evs T) n p"
    using inv assms by (intro hub_backlog_resume) (auto simp: hub_inv_def)
  have run: "hub_run (ht_subscribe (sn_id sn) T) H'" by (rule hub_run.subscribe [OF assms(1,3,2)])
  show ?thesis
  proof (cases rule: hub_subscribe_cases [of p "of_nat n" H])
    case rejected
    with assms(2) show ?thesis by simp
  next
    case (admitted m)
    have H': "H' = hub_add p (H\<lparr>hub_reconnects := m\<rparr>)" "sn_id sn = hub_nextClient H + 1" "backlog = hub_backlog p (of_nat n) H"
      using admitted(1) assms(2) by auto
    have wf: "hub_wf (H\<lparr>hub_reconnects := m\<rparr>)" by (rule hub_wf_cong [of H]) (use inv in \<open>auto simp: hub_inv_def\<close>)
    have "hub_queue H' (sn_id sn) = []"
      using hub_add_queue [OF wf, of p "sn_id sn"] by (simp add: H' hub_add_subs)
    with run bl H'(3) show ?thesis by (simp add: ht_subscribe_def)
  qed
qed

text \<open>A run: one event, then a client that resumes from the start, then another event.\<close>

definition hub_w1 :: hub where "hub_w1 = snd (hub_Publish 7 ''p'' ''play'' ''r'' hub_New)"
definition hub_w2 :: hub where "hub_w2 = snd (hub_subscribe ''p'' 0 hub_w1)"
definition hub_wT1 :: hub_trace where "hub_wT1 = ht_publish (hub_event 7 ''p'' ''play'' ''r'' hub_New) ht_empty"

lemma hub_w1_run: "hub_run hub_wT1 hub_w1"
  unfolding hub_w1_def hub_wT1_def by (rule hub_run.publish [OF hub_run.init])

lemma hub_w1_eval:
  "hub_nextClient hub_w1 = 0" "hub_subscribers hub_w1 = []" "hub_profiles hub_w1 = []" "hub_nextEvent hub_w1 = 1"
  by (simp_all add: hub_w1_def hub_Publish_def Let_def hub_record_def hub_New_def hub_fanout_def)

lemma hub_w1_subscribe:
  "hub_subscribe ''p'' 0 hub_w1 =
     (Some (hub_backlog ''p'' 0 hub_w1, \<lparr>sn_id = 1, sn_events = fst (ch_make subscriberQueue (hub_heap hub_w1))\<rparr>), hub_w2)"
  by (simp add: hub_w2_def hub_subscribe_def hub_w1_eval subscriberLimit_def profileSubscriberLimit_def Let_def)

lemma hub_w2_run: "hub_run (ht_subscribe 1 hub_wT1) hub_w2"
  using hub_run.subscribe [OF hub_w1_run _ hub_w1_subscribe] by (simp add: hub_w1_eval)

lemma hub_w2_subs: "\<exists>c. map_of (hub_subscribers hub_w2) 1 = Some \<lparr>hs_profile = ''p'', hs_events = c\<rparr>"
  by (simp add: hub_w2_def hub_subscribe_def hub_w1_eval subscriberLimit_def profileSubscriberLimit_def Let_def hub_add_def)

theorem hub_safe_witness: "\<not> hp_panicked (hub_heap hub_w2) \<and> length (hub_subscribers hub_w2) \<le> 256"
  using hub_safe [OF hub_w2_run] by (simp add: subscriberLimit_def)

theorem hub_stream_exact_witness: "ht_got (ht_subscribe 1 hub_wT1) 1 @ hub_queue hub_w2 1 = []"
proof -
  obtain c where "map_of (hub_subscribers hub_w2) 1 = Some \<lparr>hs_profile = ''p'', hs_events = c\<rparr>"
    using hub_w2_subs by blast
  from hub_stream_exact [OF hub_w2_run this] show ?thesis
    by (simp add: ht_subscribe_def hub_promised_def)
qed

theorem hub_resume_gapless_witness:
  "hub_backlog ''p'' 0 hub_w1 = [\<lparr>le_ID = 1, le_Type = ''play'', le_Resource = ''r'', le_At = 7\<rparr>]
     \<and> hub_queue hub_w2 1 = []"
proof -
  have "hub_subscribe ''p'' (of_nat 0) hub_w1 =
     (Some (hub_backlog ''p'' 0 hub_w1, \<lparr>sn_id = 1, sn_events = fst (ch_make subscriberQueue (hub_heap hub_w1))\<rparr>), hub_w2)"
    using hub_w1_subscribe by simp
  from hub_resume_gapless [OF hub_w1_run this] show ?thesis
    by (simp add: hub_w1_eval hub_wT1_def ht_publish_def ht_empty_def historyLimit_def hub_promised_def
        hub_event_def hub_New_def scoped_for_def)
qed

end
