(* ===== verification/Text.thy ===== *)
theory Text
  imports Prelude
begin

text \<open>
  The parts of Go's \<open>strings\<close>, \<open>strconv\<close>, \<open>net\<close> and \<open>net/netip\<close> packages that the sources call,
  on byte strings: trimming, cutting at a separator, case folding, decimal parsing, host and port,
  and IP addresses with their textual form.  Nothing here models a file of the repository.
\<close>

section \<open>Characters and bytes\<close>

lemma char_of_byte [simp]: "char_of (byte c) = c"
  by (simp add: byte_def)

lemma byte_inject: "byte c = byte d \<longleftrightarrow> c = d"
  by (metis char_of_byte)

lemma byte_char_of [simp]: "byte (char_of n) = n mod 256"
  by (simp add: byte_def)

lemma byte_less: "byte c < 256"
  by (simp add: byte_def)

section \<open>Cutting and searching\<close>

text \<open>\<open>strings.Cut\<close> at a one-byte separator: what is before and after it, and whether it is there.\<close>

definition cut :: "char \<Rightarrow> string \<Rightarrow> string \<times> string \<times> bool" where
  "cut c s = (let before = takeWhile (\<lambda>x. x \<noteq> c) s; rest = dropWhile (\<lambda>x. x \<noteq> c) s
     in (before, tl rest, rest \<noteq> []))"

lemma cut_found: "cut c (a @ c # b) = (a, b, True)" if "c \<notin> set a"
  using that by (induction a) (auto simp: cut_def Let_def)

lemma cut_absent: "cut c s = (s, [], False)" if "c \<notin> set s"
  using that by (induction s) (auto simp: cut_def Let_def)

lemma cut_eq:
  "cut c s = (a, b, found) \<Longrightarrow> if found then s = a @ c # b \<and> c \<notin> set a else s = a \<and> b = [] \<and> c \<notin> set s"
proof -
  assume h: "cut c s = (a, b, found)"
  show ?thesis
  proof (cases "c \<in> set s")
    case True
    then obtain x y where "s = x @ c # y" "c \<notin> set x" by (meson split_list_first)
    with h show ?thesis by (auto simp: cut_found)
  next
    case False
    with h show ?thesis by (auto simp: cut_absent)
  qed
qed

fun split_on :: "char \<Rightarrow> string \<Rightarrow> string list" where
  "split_on c [] = [[]]"
| "split_on c (x # s) = (if x = c then [] # split_on c s
     else (case split_on c s of [] \<Rightarrow> [[x]] | p # ps \<Rightarrow> (x # p) # ps))"

definition has_prefix :: "'a list \<Rightarrow> 'a list \<Rightarrow> bool" where
  "has_prefix s p \<longleftrightarrow> take (length p) s = p"

definition has_suffix :: "'a list \<Rightarrow> 'a list \<Rightarrow> bool" where
  "has_suffix s p \<longleftrightarrow> length p \<le> length s \<and> drop (length s - length p) s = p"

text \<open>The first position of a byte, and the last one.\<close>

fun index_byte :: "char \<Rightarrow> string \<Rightarrow> nat option" where
  "index_byte c [] = None"
| "index_byte c (x # s) = (if x = c then Some 0 else map_option Suc (index_byte c s))"

definition last_index_byte :: "char \<Rightarrow> string \<Rightarrow> nat option" where
  "last_index_byte c s = map_option (\<lambda>i. length s - 1 - i) (index_byte c (rev s))"

section \<open>Spaces and case\<close>

definition is_space :: "nat \<Rightarrow> bool" where
  "is_space r \<longleftrightarrow> r \<in> {9, 10, 11, 12, 13, 0x20, 0x85, 0xA0, 0x1680, 0x2028, 0x2029, 0x202F, 0x205F, 0x3000}
     \<or> 0x2000 \<le> r \<and> r \<le> 0x200A"

text \<open>A string as its runes, each with the bytes it takes.\<close>

function rune_segments :: "string \<Rightarrow> (nat \<times> string) list" where
  "rune_segments [] = []"
| "rune_segments (c # s) = (let r = decode_rune (map byte (c # s)) in
     (fst r, take (snd r) (c # s)) # rune_segments (drop (snd r - 1) s))"
  by pat_completeness auto
termination
  by (relation "measure length") (auto simp: less_Suc_eq_le)

definition trim_space :: "string \<Rightarrow> string" where
  "trim_space s = (let sp = (\<lambda>(r, _). is_space r) in
     concat (map snd (rev (dropWhile sp (rev (dropWhile sp (rune_segments s)))))))"

text \<open>
  Lower case and folding, of runes that are then only compared with ASCII letters: besides the
  ASCII capitals, the Kelvin sign and the dotted capital I become ASCII letters in lower case, and
  the long s folds to s.
\<close>

definition lower_rune :: "nat \<Rightarrow> nat" where
  "lower_rune r = (if 65 \<le> r \<and> r \<le> 90 then r + 32 else if r = 0x212A then 107 else if r = 0x130 then 105 else r)"

definition fold_rune :: "nat \<Rightarrow> nat" where
  "fold_rune r = (if 65 \<le> r \<and> r \<le> 90 then r + 32 else if r = 0x212A then 107 else if r = 0x17F then 115 else r)"

definition equal_fold_ascii :: "string \<Rightarrow> string \<Rightarrow> bool" where
  "equal_fold_ascii s lowercase \<longleftrightarrow> map fold_rune (runes s) = map byte lowercase"

section \<open>Numbers\<close>

definition is_digit :: "char \<Rightarrow> bool" where
  "is_digit c \<longleftrightarrow> 48 \<le> byte c \<and> byte c \<le> 57"

definition dec_value :: "string \<Rightarrow> nat" where
  "dec_value s = foldl (\<lambda>n c. n * 10 + (byte c - 48)) 0 s"

text \<open>\<open>strconv.ParseUint(s, 10, 64)\<close>\<close>

definition parse_uint64 :: "string \<Rightarrow> nat option" where
  "parse_uint64 s = (if s \<noteq> [] \<and> list_all is_digit s \<and> dec_value s < 2 ^ 64 then Some (dec_value s) else None)"

definition digit_char :: "nat \<Rightarrow> char" where
  "digit_char d = char_of (if d < 10 then 48 + d else 87 + d)"

fun show_base :: "nat \<Rightarrow> nat \<Rightarrow> nat \<Rightarrow> string" where
  "show_base b 0 n = []"
| "show_base b (Suc k) n = (if n < b then [digit_char n] else show_base b k (n div b) @ [digit_char (n mod b)])"

section \<open>Host and port\<close>

text \<open>\<open>net.SplitHostPort\<close>, of which only the host is used: \<open>None\<close> is its error.\<close>

definition split_host :: "string \<Rightarrow> string option" where
  "split_host hp = (case last_index_byte CHR '':'' hp of None \<Rightarrow> None
   | Some i \<Rightarrow>
       if hd hp = CHR ''['' then
         (case index_byte CHR '']'' hp of None \<Rightarrow> None
          | Some j \<Rightarrow> if j + 1 \<noteq> i \<or> CHR ''['' \<in> set (tl hp) \<or> CHR '']'' \<in> set (drop (j + 1) hp) then None
                     else Some (take (j - 1) (tl hp)))
       else if CHR '':'' \<in> set (take i hp) \<or> CHR ''['' \<in> set hp \<or> CHR '']'' \<in> set hp then None
       else Some (take i hp))"

section \<open>IP addresses\<close>

text \<open>\<open>netip.Addr\<close>: an IPv4 address, or an IPv6 one as its eight 16-bit groups with its zone.\<close>

datatype ip_addr = V4 "nat list" | V6 "nat list" string

definition parse_octet :: "string \<Rightarrow> nat option" where
  "parse_octet s = (if s \<noteq> [] \<and> length s \<le> 3 \<and> list_all is_digit s \<and> (hd s = CHR ''0'' \<longrightarrow> length s = 1)
       \<and> dec_value s \<le> 255 then Some (dec_value s) else None)"

definition parse_v4 :: "string \<Rightarrow> nat list option" where
  "parse_v4 s = (let os = map parse_octet (split_on CHR ''.'' s) in
     if length os = 4 \<and> list_all (\<lambda>x. x \<noteq> None) os then Some (map the os) else None)"

definition hex_digit :: "char \<Rightarrow> nat option" where
  "hex_digit c = (let b = byte c in
     if 48 \<le> b \<and> b \<le> 57 then Some (b - 48)
     else if 97 \<le> b \<and> b \<le> 102 then Some (b - 87)
     else if 65 \<le> b \<and> b \<le> 70 then Some (b - 55) else None)"

definition hex_value :: "string \<Rightarrow> nat" where
  "hex_value s = foldl (\<lambda>n c. n * 16 + (case hex_digit c of None \<Rightarrow> 0 | Some d \<Rightarrow> d)) 0 s"

text \<open>
  The loop of \<open>parseIPv6\<close>: \<open>acc\<close> the groups so far, \<open>ell\<close> where the \<open>::\<close> was.  The result is the
  groups and the position of the \<open>::\<close>.  Each turn takes at least one byte.
\<close>

function (sequential) v6_groups :: "nat list \<Rightarrow> nat option \<Rightarrow> string \<Rightarrow> (nat list \<times> nat option) option" where
  "v6_groups acc ell s =
     (if length acc \<ge> 8 then None
      else let digits = takeWhile (\<lambda>c. hex_digit c \<noteq> None) s; rest = dropWhile (\<lambda>c. hex_digit c \<noteq> None) s in
        if digits = [] \<or> length digits > 4 then None
        else (case rest of
          [] \<Rightarrow> Some (acc @ [hex_value digits], ell)
        | c # r \<Rightarrow>
            if c = CHR ''.'' then
              (if ell = None \<and> length acc \<noteq> 6 \<or> length acc > 6 then None
               else (case parse_v4 s of None \<Rightarrow> None
                 | Some os \<Rightarrow> Some (acc @ [os ! 0 * 256 + os ! 1, os ! 2 * 256 + os ! 3], ell)))
            else if c \<noteq> CHR '':'' then None
            else (case r of
              [] \<Rightarrow> None
            | c' # r' \<Rightarrow>
                if c' \<noteq> CHR '':'' then v6_groups (acc @ [hex_value digits]) ell r
                else if ell \<noteq> None then None
                else if r' = [] then Some (acc @ [hex_value digits], Some (length acc + 1))
                else v6_groups (acc @ [hex_value digits]) (Some (length acc + 1)) r')))"
  by pat_completeness auto
termination
  by (relation "measure (\<lambda>(acc, _, _). 8 - length acc)") auto

definition v6_expand :: "nat list \<Rightarrow> nat option \<Rightarrow> nat list option" where
  "v6_expand gs ell = (case ell of
     None \<Rightarrow> if length gs = 8 then Some gs else None
   | Some k \<Rightarrow> if length gs < 8 then Some (take k gs @ replicate (8 - length gs) 0 @ drop k gs) else None)"

definition parse_v6 :: "string \<Rightarrow> ip_addr option" where
  "parse_v6 s = (case cut CHR ''%'' s of (a, zone, zoned) \<Rightarrow>
     if zoned \<and> zone = [] then None
     else map_option (\<lambda>gs. V6 gs zone)
       (if take 2 a = ''::'' then
          (if drop 2 a = [] then Some (replicate 8 0)
           else Option.bind (v6_groups [] (Some 0) (drop 2 a)) (\<lambda>(gs, ell). v6_expand gs ell))
        else Option.bind (v6_groups [] None a) (\<lambda>(gs, ell). v6_expand gs ell)))"

definition parse_addr :: "string \<Rightarrow> ip_addr option" where
  "parse_addr s = (case dropWhile (\<lambda>c. c \<notin> {CHR ''.'', CHR '':'', CHR ''%''}) s of
     [] \<Rightarrow> None
   | c # _ \<Rightarrow> if c = CHR ''.'' then map_option V4 (parse_v4 s)
              else if c = CHR '':'' then parse_v6 s else None)"

text \<open>\<open>Unmap\<close> turns an IPv4-mapped address into the IPv4 one.\<close>

fun ip_unmap :: "ip_addr \<Rightarrow> ip_addr" where
  "ip_unmap (V4 os) = V4 os"
| "ip_unmap (V6 gs zone) = (if take 6 gs = [0, 0, 0, 0, 0, 0xFFFF]
     then V4 [gs ! 6 div 256, gs ! 6 mod 256, gs ! 7 div 256, gs ! 7 mod 256] else V6 gs zone)"

text \<open>The textual form: dotted decimal, or hexadecimal groups with the first longest run of zeros cut.\<close>

definition zero_run :: "nat list \<Rightarrow> nat \<Rightarrow> nat" where
  "zero_run gs i = length (takeWhile (\<lambda>g. g = 0) (drop i gs))"

definition longest_zeros :: "nat list \<Rightarrow> nat \<times> nat" where
  "longest_zeros gs = fold (\<lambda>i (best, len). if zero_run gs i > len \<and> zero_run gs i \<ge> 2 then (i, zero_run gs i) else (best, len))
     [0..<length gs] (0, 0)"

definition join_groups :: "nat list \<Rightarrow> string" where
  "join_groups gs = concat (map (\<lambda>(i, g). (if i = 0 then [] else '':'') @ show_base 16 4 g) (zip [0..<length gs] gs))"

definition show_v6 :: "nat list \<Rightarrow> string" where
  "show_v6 gs = (case longest_zeros gs of (start, len) \<Rightarrow>
     if len = 0 then join_groups gs else join_groups (take start gs) @ ''::'' @ join_groups (drop (start + len) gs))"

definition show_v4 :: "nat list \<Rightarrow> string" where
  "show_v4 os = concat (map (\<lambda>(i, g). (if i = 0 then [] else ''.'') @ show_base 10 3 g) (zip [0..<length os] os))"

text \<open>\<open>netip.PrefixFrom(address, 64).Masked().String()\<close>\<close>

definition show_prefix64 :: "nat list \<Rightarrow> string" where
  "show_prefix64 gs = show_v6 (take 4 gs @ replicate 4 0) @ ''/64''"

end
