(* ===== verification/Addresses.thy ===== *)
theory Addresses
  imports Text
begin

text \<open>
  How the public request guards identify a client: packages/httpguard/limiter.go (\<open>RemoteHost\<close>,
  \<open>limiterKey\<close>, \<open>addressBucket\<close>) and public.go (\<open>abusePrefix\<close>).  IPv6 clients are grouped by their
  64-bit network, IPv4 clients stand for themselves, and a key that is no address is used as it is.
\<close>

definition addressBucket :: "ip_addr \<Rightarrow> string" where
  "addressBucket address = (case ip_unmap address of
     V4 os \<Rightarrow> show_v4 os
   | V6 gs zone \<Rightarrow> show_prefix64 gs)"

definition limiterKey :: "string \<Rightarrow> string" where
  "limiterKey key = (case parse_addr key of
     Some address \<Rightarrow> addressBucket address
   | None \<Rightarrow> (case cut CHR '':'' key of (scope, v, found) \<Rightarrow>
       if found then (case parse_addr v of
           Some address \<Rightarrow> scope @ '':'' @ addressBucket address
         | None \<Rightarrow> key)
       else key))"

definition abusePrefix :: "string \<Rightarrow> string" where
  "abusePrefix v = (case parse_addr v of
     None \<Rightarrow> ''''
   | Some address \<Rightarrow> (case ip_unmap address of V4 os \<Rightarrow> '''' | V6 gs zone \<Rightarrow> show_prefix64 gs))"

definition RemoteHost :: "string \<Rightarrow> string" where
  "RemoteHost remote = (case split_host remote of None \<Rightarrow> trim_space remote | Some host \<Rightarrow> host)"

lemma ip_unmap_V6: "ip_unmap a = V6 gs zone \<Longrightarrow> a = V6 gs zone"
  by (cases a) (auto split: if_splits)

text \<open>Addresses of one 64-bit network share their bucket and their prefix.\<close>

lemma bucket_prefix64:
  "ip_unmap a = V6 gs z \<Longrightarrow> ip_unmap b = V6 hs y \<Longrightarrow> take 4 gs = take 4 hs \<Longrightarrow> addressBucket a = addressBucket b"
  by (simp add: addressBucket_def show_prefix64_def)

lemma abusePrefix_v4: "parse_addr v = Some (V4 os) \<Longrightarrow> abusePrefix v = ''''"
  by (simp add: abusePrefix_def)

lemma abusePrefix_bucket:
  "parse_addr v = Some a \<Longrightarrow> abusePrefix v \<noteq> '''' \<Longrightarrow> abusePrefix v = limiterKey v"
  by (auto simp: abusePrefix_def limiterKey_def addressBucket_def split: ip_addr.splits)

end
