(* ===== verification/Capacity.thy ===== *)
theory Capacity
  imports Addresses Counters Channels
begin

text \<open>
  The gate for concurrent public requests: packages/httpguard/public_capacity.go.  A request
  acquires a slot at once, is refused, or queues; a queued request sleeps on the channel
  \<open>released\<close> it read under the lock and tries again when the channel is closed, until its patience
  or its context ends.  The channels (closed and replaced by \<open>Release\<close>) are on the heap of theory
  Channels; the select of \<open>Wait\<close> may take the timer or context branch at any moment, which the
  step relation below does not restrict.
\<close>

section \<open>The gate\<close>

definition globalConcurrentLimit :: nat where "globalConcurrentLimit = 128"
definition sourceConcurrentLimit :: nat where "sourceConcurrentLimit = 32"
definition prefixConcurrentLimit :: nat where "prefixConcurrentLimit = 64"
definition queuedRequestLimit :: nat where "queuedRequestLimit = 256"
definition sourceQueuedLimit :: nat where "sourceQueuedLimit = 32"

record gate =
  cp_active :: int
  cp_queued :: int
  cp_released :: nat
  cp_sources :: "string counter"
  cp_prefixes :: "string counter"
  cp_waiting :: "string counter"
  cp_heap :: "unit heap"

definition NewPublicCapacity :: gate where
  "NewPublicCapacity = (let mk = ch_make 0 hp_empty in
     \<lparr>cp_active = 0, cp_queued = 0, cp_released = fst mk, cp_sources = [], cp_prefixes = [], cp_waiting = [],
      cp_heap = snd mk\<rparr>)"

definition acquireLocked :: "string \<Rightarrow> gate \<Rightarrow> bool \<times> gate" where
  "acquireLocked key G = (let prefix = abusePrefix key in
     if cp_active G \<ge> int globalConcurrentLimit \<or> cnt_get (cp_sources G) key \<ge> int sourceConcurrentLimit
        \<or> prefix \<noteq> '''' \<and> cnt_get (cp_prefixes G) prefix \<ge> int prefixConcurrentLimit
     then (False, G)
     else (True, G\<lparr>cp_active := cp_active G + 1, cp_sources := cnt_inc key (cp_sources G),
             cp_prefixes := (if prefix \<noteq> '''' then cnt_inc prefix (cp_prefixes G) else cp_prefixes G)\<rparr>))"

datatype wait_result = Acquired | Refused | Queued nat

text \<open>\<open>Wait\<close> up to its loop, and one turn of the loop after \<open>released\<close> was closed.\<close>

definition wait_start :: "string \<Rightarrow> gate \<Rightarrow> wait_result \<times> gate" where
  "wait_start key G = (case acquireLocked key G of (acquired, G1) \<Rightarrow>
     if acquired then (Acquired, G1)
     else if cp_queued G1 \<ge> int queuedRequestLimit \<or> cnt_get (cp_waiting G1) key \<ge> int sourceQueuedLimit
     then (Refused, G1)
     else (Queued (cp_released G1),
           G1\<lparr>cp_queued := cp_queued G1 + 1, cp_waiting := cnt_inc key (cp_waiting G1)\<rparr>))"

definition wait_retry :: "string \<Rightarrow> gate \<Rightarrow> (bool \<times> nat) \<times> gate" where
  "wait_retry key G = (case acquireLocked key G of (acquired, G1) \<Rightarrow> ((acquired, cp_released G1), G1))"

definition leaveQueue :: "string \<Rightarrow> gate \<Rightarrow> gate" where
  "leaveQueue key G = G\<lparr>cp_queued := cp_queued G - 1, cp_waiting := cnt_dec key (cp_waiting G)\<rparr>"

definition gate_Release :: "string \<Rightarrow> gate \<Rightarrow> gate" where
  "gate_Release key G = (let prefix = abusePrefix key;
       G1 = G\<lparr>cp_active := cp_active G - 1, cp_sources := cnt_dec key (cp_sources G),
              cp_prefixes := (if prefix \<noteq> '''' then cnt_dec prefix (cp_prefixes G) else cp_prefixes G)\<rparr>
     in if cp_queued G1 > 0
        then let mk = ch_make 0 (ch_close (cp_released G1) (cp_heap G1))
             in G1\<lparr>cp_released := fst mk, cp_heap := snd mk\<rparr>
        else G1)"

section \<open>Requests at the gate\<close>

text \<open>
  A request in \<open>Wait\<close>'s loop sleeps on a channel, or has acquired or given up and is about to run
  the deferred \<open>leaveQueue\<close>.  A request for which \<open>Wait\<close> returned true runs until \<open>Release\<close>.
\<close>

datatype wait_phase = Sleeping nat | Won | Lost

record gate_state =
  gs_gate :: gate
  gs_queue :: "(string \<times> wait_phase) multiset"
  gs_running :: "string multiset"

definition gate_init :: gate_state where
  "gate_init = \<lparr>gs_gate = NewPublicCapacity, gs_queue = {#}, gs_running = {#}\<rparr>"

inductive gate_step :: "gate_state \<Rightarrow> gate_state \<Rightarrow> bool" where
  admit: "wait_start k (gs_gate S) = (Acquired, G) \<Longrightarrow>
    gate_step S (S\<lparr>gs_gate := G, gs_running := add_mset k (gs_running S)\<rparr>)"
| refuse: "wait_start k (gs_gate S) = (Refused, G) \<Longrightarrow> gate_step S (S\<lparr>gs_gate := G\<rparr>)"
| enqueue: "wait_start k (gs_gate S) = (Queued c, G) \<Longrightarrow>
    gate_step S (S\<lparr>gs_gate := G, gs_queue := add_mset (k, Sleeping c) (gs_queue S)\<rparr>)"
| wake: "gs_queue S = add_mset (k, Sleeping c) Q \<Longrightarrow> \<not> ch_open (cp_heap (gs_gate S)) c \<Longrightarrow>
    wait_retry k (gs_gate S) = ((acquired, c'), G) \<Longrightarrow>
    gate_step S (S\<lparr>gs_gate := G, gs_queue := add_mset (k, if acquired then Won else Sleeping c') Q\<rparr>)"
| give_up: "gs_queue S = add_mset (k, Sleeping c) Q \<Longrightarrow>
    gate_step S (S\<lparr>gs_queue := add_mset (k, Lost) Q\<rparr>)"
| leave_won: "gs_queue S = add_mset (k, Won) Q \<Longrightarrow>
    gate_step S (S\<lparr>gs_gate := leaveQueue k (gs_gate S), gs_queue := Q, gs_running := add_mset k (gs_running S)\<rparr>)"
| leave_lost: "gs_queue S = add_mset (k, Lost) Q \<Longrightarrow>
    gate_step S (S\<lparr>gs_gate := leaveQueue k (gs_gate S), gs_queue := Q\<rparr>)"
| release: "gs_running S = add_mset k Q \<Longrightarrow>
    gate_step S (S\<lparr>gs_gate := gate_Release k (gs_gate S), gs_running := Q\<rparr>)"

inductive gate_reach :: "gate_state \<Rightarrow> bool" where
  start: "gate_reach gate_init"
| more: "gate_reach S \<Longrightarrow> gate_step S S' \<Longrightarrow> gate_reach S'"

section \<open>What the gate counts\<close>

interpretation gate_count: keyed_counter cnt_wf "cnt_get :: string counter \<Rightarrow> _" cnt_inc cnt_dec length
  by unfold_locales (simp_all add: cnt_wf_inc cnt_wf_dec cnt_get_inc cnt_get_dec cnt_entries)

definition prefixes_of :: "string multiset \<Rightarrow> string multiset" where
  "prefixes_of M = filter_mset (\<lambda>p. p \<noteq> '''') (image_mset abusePrefix M)"

definition holders :: "gate_state \<Rightarrow> string multiset" where
  "holders S = gs_running S + image_mset fst (filter_mset (\<lambda>w. snd w = Won) (gs_queue S))"

definition gate_slots :: "gate \<Rightarrow> string multiset \<Rightarrow> bool" where
  "gate_slots G H \<longleftrightarrow> cp_active G = int (size H) \<and> size H \<le> globalConcurrentLimit
     \<and> gate_count.counts (cp_sources G) H \<and> (\<forall>k. count H k \<le> sourceConcurrentLimit)
     \<and> gate_count.counts (cp_prefixes G) (prefixes_of H) \<and> (\<forall>p. count (prefixes_of H) p \<le> prefixConcurrentLimit)"

definition gate_line :: "gate \<Rightarrow> string multiset \<Rightarrow> bool" where
  "gate_line G W \<longleftrightarrow> cp_queued G = int (size W) \<and> size W \<le> queuedRequestLimit
     \<and> gate_count.counts (cp_waiting G) W \<and> (\<forall>k. count W k \<le> sourceQueuedLimit)"

definition gate_has_room :: "string \<Rightarrow> gate \<Rightarrow> bool" where
  "gate_has_room k G \<longleftrightarrow> fst (acquireLocked k G)"

definition gate_channel :: "gate_state \<Rightarrow> bool" where
  "gate_channel S \<longleftrightarrow> heap_ok (cp_heap (gs_gate S)) \<and> ch_open (cp_heap (gs_gate S)) (cp_released (gs_gate S))
     \<and> (\<forall>(k, ph) \<in># gs_queue S. \<forall>c. ph = Sleeping c \<longrightarrow> c < hp_next (cp_heap (gs_gate S)) \<and>
          (c = cp_released (gs_gate S) \<and> \<not> gate_has_room k (gs_gate S) \<or> \<not> ch_open (cp_heap (gs_gate S)) c))"

definition gate_inv :: "gate_state \<Rightarrow> bool" where
  "gate_inv S \<longleftrightarrow> gate_slots (gs_gate S) (holders S) \<and> gate_line (gs_gate S) (image_mset fst (gs_queue S))
     \<and> gate_channel S"

lemma prefixes_of_add [simp]:
  "prefixes_of (add_mset k M) = (if abusePrefix k = '''' then prefixes_of M else add_mset (abusePrefix k) (prefixes_of M))"
  by (simp add: prefixes_of_def)

lemma gate_has_room_iff:
  "gate_has_room k G \<longleftrightarrow> cp_active G < int globalConcurrentLimit \<and> cnt_get (cp_sources G) k < int sourceConcurrentLimit
     \<and> (abusePrefix k \<noteq> '''' \<longrightarrow> cnt_get (cp_prefixes G) (abusePrefix k) < int prefixConcurrentLimit)"
  by (auto simp: gate_has_room_def acquireLocked_def Let_def)

definition take_slot :: "string \<Rightarrow> gate \<Rightarrow> gate" where
  "take_slot k G = G\<lparr>cp_active := cp_active G + 1, cp_sources := cnt_inc k (cp_sources G),
     cp_prefixes := (if abusePrefix k \<noteq> '''' then cnt_inc (abusePrefix k) (cp_prefixes G) else cp_prefixes G)\<rparr>"

lemma acquireLocked_eq:
  "acquireLocked k G = (if gate_has_room k G then (True, take_slot k G) else (False, G))"
  by (auto simp: gate_has_room_iff acquireLocked_def Let_def take_slot_def)

lemma take_slot_counts:
  assumes s: "gate_slots G H" and room: "gate_has_room k G"
  shows "gate_slots (take_slot k G) (add_mset k H)"
proof -
  note r = room [unfolded gate_has_room_iff]
  have a: "gate_count.counts (cp_sources G) H" "gate_count.counts (cp_prefixes G) (prefixes_of H)"
    and l: "\<forall>k. count H k \<le> sourceConcurrentLimit" "\<forall>p. count (prefixes_of H) p \<le> prefixConcurrentLimit"
    using s by (auto simp: gate_slots_def)
  have "\<forall>p. count (prefixes_of (add_mset k H)) p \<le> prefixConcurrentLimit"
    using l(2) r gate_count.counts_guarded [OF a(2) l(2)] by (cases "abusePrefix k = ''''") simp_all
  moreover have "\<forall>k'. count (add_mset k H) k' \<le> sourceConcurrentLimit"
    using r gate_count.counts_guarded [OF a(1) l(1)] by blast
  ultimately show ?thesis
    using s r gate_count.counts_inc [OF a(1), of k] gate_count.counts_inc [OF a(2), of "abusePrefix k"]
    by (auto simp: gate_slots_def take_slot_def)
qed

lemma take_slot_room: "\<not> gate_has_room k G \<Longrightarrow> \<not> gate_has_room k (take_slot k' G)"
  by (auto simp: gate_has_room_iff take_slot_def cnt_get_inc split: if_splits)

section \<open>Every step keeps the invariant\<close>

lemma take_slot_simps [simp]:
  "cp_queued (take_slot k G) = cp_queued G" "cp_waiting (take_slot k G) = cp_waiting G"
  "cp_released (take_slot k G) = cp_released G" "cp_heap (take_slot k G) = cp_heap G"
  by (simp_all add: take_slot_def)

lemma gate_line_cong:
  "gate_line G W \<Longrightarrow> cp_queued G' = cp_queued G \<Longrightarrow> cp_waiting G' = cp_waiting G \<Longrightarrow> gate_line G' W"
  by (simp add: gate_line_def)

lemma gate_slots_cong:
  "gate_slots G H \<Longrightarrow> cp_active G' = cp_active G \<Longrightarrow> cp_sources G' = cp_sources G \<Longrightarrow> cp_prefixes G' = cp_prefixes G
     \<Longrightarrow> gate_slots G' H"
  by (simp add: gate_slots_def)

lemma gate_room_cong:
  "cp_active G' = cp_active G \<Longrightarrow> cp_sources G' = cp_sources G \<Longrightarrow> cp_prefixes G' = cp_prefixes G
     \<Longrightarrow> gate_has_room k G' = gate_has_room k G"
  by (simp add: gate_has_room_iff)

lemma Release_slots:
  assumes "gate_slots G (add_mset k H)"
  shows "gate_slots (gate_Release k G) H"
proof -
  have a: "gate_count.counts (cp_sources G) (add_mset k H)" "gate_count.counts (cp_prefixes G) (prefixes_of (add_mset k H))"
    and l: "\<forall>j. count (add_mset k H) j \<le> sourceConcurrentLimit"
      "\<forall>p. count (prefixes_of (add_mset k H)) p \<le> prefixConcurrentLimit"
    using assms by (auto simp: gate_slots_def)
  have l': "count H j \<le> sourceConcurrentLimit" "count (prefixes_of H) p \<le> prefixConcurrentLimit" for j p
    using l(1) [rule_format, of j] l(2) [rule_format, of p] by (auto split: if_splits)
  have "gate_count.counts (cnt_dec k (cp_sources G)) H"
    using gate_count.counts_dec [OF a(1), of k] by simp
  moreover have "gate_count.counts (if abusePrefix k \<noteq> '''' then cnt_dec (abusePrefix k) (cp_prefixes G) else cp_prefixes G)
      (prefixes_of H)"
    using a(2) gate_count.counts_dec [OF a(2), of "abusePrefix k"] by auto
  ultimately have "gate_slots (G\<lparr>cp_active := cp_active G - 1, cp_sources := cnt_dec k (cp_sources G),
      cp_prefixes := (if abusePrefix k \<noteq> '''' then cnt_dec (abusePrefix k) (cp_prefixes G) else cp_prefixes G)\<rparr>) H"
    using assms l' by (simp add: gate_slots_def)
  then show ?thesis by (rule gate_slots_cong) (simp_all add: gate_Release_def Let_def)
qed

lemma leave_line:
  assumes "gate_line G (add_mset k W)"
  shows "gate_line (leaveQueue k G) W"
proof -
  have a: "gate_count.counts (cp_waiting G) (add_mset k W)" "\<forall>j. count (add_mset k W) j \<le> sourceQueuedLimit"
    using assms by (auto simp: gate_line_def)
  have "count W j \<le> sourceQueuedLimit" for j using a(2) [rule_format, of j] by (auto split: if_splits)
  then show ?thesis
    using assms gate_count.counts_dec [OF a(1), of k] by (simp add: gate_line_def leaveQueue_def)
qed

lemma enqueue_line:
  assumes "gate_line G W" "cp_queued G < int queuedRequestLimit" "cnt_get (cp_waiting G) k < int sourceQueuedLimit"
  shows "gate_line (G\<lparr>cp_queued := cp_queued G + 1, cp_waiting := cnt_inc k (cp_waiting G)\<rparr>) (add_mset k W)"
proof -
  have a: "gate_count.counts (cp_waiting G) W" "\<forall>j. count W j \<le> sourceQueuedLimit"
    using assms by (auto simp: gate_line_def)
  have "\<forall>j. count (add_mset k W) j \<le> sourceQueuedLimit"
    using gate_count.counts_guarded [OF a assms(3)] .
  then show ?thesis using assms gate_count.counts_inc [OF a(1), of k] by (auto simp: gate_line_def)
qed

lemma gate_channel_less:
  assumes "gate_channel S" and "cp_heap (gs_gate S') = cp_heap (gs_gate S)" "cp_released (gs_gate S') = cp_released (gs_gate S)"
    and "\<And>k. \<not> gate_has_room k (gs_gate S) \<Longrightarrow> \<not> gate_has_room k (gs_gate S')"
    and "\<And>k c. (k, Sleeping c) \<in># gs_queue S' \<Longrightarrow> (k, Sleeping c) \<in># gs_queue S
       \<or> c = cp_released (gs_gate S) \<and> \<not> gate_has_room k (gs_gate S')"
  shows "gate_channel S'"
proof -
  have open_r: "ch_open (cp_heap (gs_gate S)) (cp_released (gs_gate S))" "heap_ok (cp_heap (gs_gate S))"
    using assms(1) by (auto simp: gate_channel_def)
  have "c < hp_next (cp_heap (gs_gate S)) \<and>
      (c = cp_released (gs_gate S) \<and> \<not> gate_has_room k (gs_gate S') \<or> \<not> ch_open (cp_heap (gs_gate S)) c)"
    if "(k, Sleeping c) \<in># gs_queue S'" for k c
    using assms(5) [OF that] ch_open_allocated [OF open_r(2,1)] assms(1,4) by (fastforce simp: gate_channel_def)
  then show ?thesis using open_r assms(2,3) by (auto simp: gate_channel_def)
qed

lemma Release_channel:
  assumes ch: "gate_channel S" and line: "gate_line (gs_gate S) (image_mset fst (gs_queue S))"
  shows "gate_channel (S\<lparr>gs_gate := gate_Release k (gs_gate S), gs_running := R\<rparr>)"
proof -
  let ?G = "gs_gate S"
  have ok: "heap_ok (cp_heap ?G)" and o: "ch_open (cp_heap ?G) (cp_released ?G)"
    using ch by (auto simp: gate_channel_def)
  have q: "cp_queued ?G = int (size (gs_queue S))" using line by (simp add: gate_line_def)
  show ?thesis
  proof (cases "gs_queue S = {#}")
    case True
    with q ok o show ?thesis by (simp add: gate_channel_def gate_Release_def Let_def)
  next
    case False
    let ?h = "ch_close (cp_released ?G) (cp_heap ?G)"
    have pos: "0 < cp_queued ?G" using False q by (simp add: nonempty_has_size)
    have ok': "heap_ok ?h" using ok o by (rule ch_close_ok)
    have nx: "hp_next ?h = hp_next (cp_heap ?G)" by (auto simp: ch_close_def ch_panic_def split: option.splits)
    have "c < hp_next (cp_heap ?G) \<and> \<not> ch_open ?h c" if "(j, Sleeping c) \<in># gs_queue S" for j c
      using ch that o by (fastforce simp: gate_channel_def ch_close_open)
    moreover have "fst (ch_make 0 ?h) = hp_next ?h" "hp_next (snd (ch_make 0 ?h)) = Suc (hp_next ?h)"
      by (simp_all add: ch_make_def)
    ultimately show ?thesis
      using ok' pos nx by (fastforce simp: gate_channel_def gate_Release_def Let_def ch_make_ok)
  qed
qed

lemma gate_init_inv: "gate_inv gate_init"
  by (simp add: gate_inv_def gate_init_def holders_def gate_slots_def gate_line_def gate_channel_def NewPublicCapacity_def
      Let_def gate_count.counts_def prefixes_of_def ch_make_ok)

lemma wait_start_cases:
  "wait_start k G = (r, G') \<Longrightarrow>
    (r = Acquired \<and> gate_has_room k G \<and> G' = take_slot k G) \<or> (r = Refused \<and> G' = G)
    \<or> (r = Queued (cp_released G) \<and> \<not> gate_has_room k G \<and> cp_queued G < int queuedRequestLimit
       \<and> cnt_get (cp_waiting G) k < int sourceQueuedLimit
       \<and> G' = G\<lparr>cp_queued := cp_queued G + 1, cp_waiting := cnt_inc k (cp_waiting G)\<rparr>)"
  by (auto simp: wait_start_def acquireLocked_eq split: if_splits)

lemma gate_step_inv:
  assumes "gate_step S S'" and inv: "gate_inv S"
  shows "gate_inv S'"
  using assms(1)
proof cases
  case (admit k G)
  then have G: "gate_has_room k (gs_gate S)" "G = take_slot k (gs_gate S)" using wait_start_cases by fastforce+
  have "gate_channel (S\<lparr>gs_gate := G, gs_running := add_mset k (gs_running S)\<rparr>)"
    by (rule gate_channel_less [of S]) (use inv G in \<open>auto simp: gate_inv_def take_slot_room\<close>)
  with inv G admit take_slot_counts [of "gs_gate S" "holders S" k] show ?thesis
    by (auto simp: gate_inv_def holders_def elim!: gate_line_cong)
next
  case (refuse k G)
  then have "G = gs_gate S" using wait_start_cases by fastforce
  with refuse inv show ?thesis by simp
next
  case (enqueue k c G)
  then have G: "c = cp_released (gs_gate S)" "\<not> gate_has_room k (gs_gate S)" "cp_queued (gs_gate S) < int queuedRequestLimit"
     "cnt_get (cp_waiting (gs_gate S)) k < int sourceQueuedLimit"
     "G = gs_gate S\<lparr>cp_queued := cp_queued (gs_gate S) + 1, cp_waiting := cnt_inc k (cp_waiting (gs_gate S))\<rparr>"
    using wait_start_cases by fastforce+
  have room: "gate_has_room j G = gate_has_room j (gs_gate S)" for j by (rule gate_room_cong) (simp_all add: G)
  have "gate_channel (S\<lparr>gs_gate := G, gs_queue := add_mset (k, Sleeping c) (gs_queue S)\<rparr>)"
    by (rule gate_channel_less [of S]) (use inv G room in \<open>auto simp: gate_inv_def\<close>)
  with inv G enqueue enqueue_line [of "gs_gate S" _ k] show ?thesis
    by (auto simp: gate_inv_def holders_def elim!: gate_slots_cong)
next
  case (wake k c Q acquired c' G)
  show ?thesis
  proof (cases acquired)
    case True
    with wake have G: "gate_has_room k (gs_gate S)" "G = take_slot k (gs_gate S)"
      by (auto simp: wait_retry_def acquireLocked_eq split: if_splits)
    have "gate_channel (S\<lparr>gs_gate := G, gs_queue := add_mset (k, Won) Q\<rparr>)"
      by (rule gate_channel_less [of S]) (use inv G wake in \<open>auto simp: gate_inv_def take_slot_room\<close>)
    with inv G wake True take_slot_counts [of "gs_gate S" "holders S" k] show ?thesis
      by (auto simp: gate_inv_def holders_def elim!: gate_line_cong)
  next
    case False
    with wake have G: "\<not> gate_has_room k (gs_gate S)" "G = gs_gate S" "c' = cp_released (gs_gate S)"
      by (auto simp: wait_retry_def acquireLocked_eq split: if_splits)
    have "gate_channel (S\<lparr>gs_gate := G, gs_queue := add_mset (k, Sleeping c') Q\<rparr>)"
      by (rule gate_channel_less [of S]) (use inv G wake in \<open>auto simp: gate_inv_def\<close>)
    with inv G wake False show ?thesis by (simp add: gate_inv_def holders_def)
  qed
next
  case (give_up k c Q)
  have "gate_channel (S\<lparr>gs_queue := add_mset (k, Lost) Q\<rparr>)"
    by (rule gate_channel_less [of S]) (use inv give_up in \<open>auto simp: gate_inv_def\<close>)
  with inv give_up show ?thesis by (simp add: gate_inv_def holders_def)
next
  case (leave_won k Q)
  have room: "gate_has_room j (leaveQueue k (gs_gate S)) = gate_has_room j (gs_gate S)" for j
    by (rule gate_room_cong) (simp_all add: leaveQueue_def)
  have "gate_channel (S\<lparr>gs_gate := leaveQueue k (gs_gate S), gs_queue := Q, gs_running := add_mset k (gs_running S)\<rparr>)"
    by (rule gate_channel_less [of S]) (use inv leave_won room in \<open>auto simp: gate_inv_def leaveQueue_def\<close>)
  moreover have "gate_slots (leaveQueue k (gs_gate S)) (holders S)"
    by (rule gate_slots_cong [of "gs_gate S"]) (use inv in \<open>auto simp: gate_inv_def leaveQueue_def\<close>)
  ultimately show ?thesis using inv leave_won leave_line [of "gs_gate S" k] by (simp add: gate_inv_def holders_def)
next
  case (leave_lost k Q)
  have room: "gate_has_room j (leaveQueue k (gs_gate S)) = gate_has_room j (gs_gate S)" for j
    by (rule gate_room_cong) (simp_all add: leaveQueue_def)
  have "gate_channel (S\<lparr>gs_gate := leaveQueue k (gs_gate S), gs_queue := Q\<rparr>)"
    by (rule gate_channel_less [of S]) (use inv leave_lost room in \<open>auto simp: gate_inv_def leaveQueue_def\<close>)
  moreover have "gate_slots (leaveQueue k (gs_gate S)) (holders S)"
    by (rule gate_slots_cong [of "gs_gate S"]) (use inv in \<open>auto simp: gate_inv_def leaveQueue_def\<close>)
  ultimately show ?thesis using inv leave_lost leave_line [of "gs_gate S" k] by (simp add: gate_inv_def holders_def)
next
  case (release k Q)
  have "gate_channel S'"
    using inv unfolding release(1) by (intro Release_channel) (auto simp: gate_inv_def)
  moreover have "gate_slots (gate_Release k (gs_gate S)) (holders S')"
    by (rule Release_slots) (use inv release in \<open>simp add: gate_inv_def holders_def\<close>)
  moreover have "gate_line (gate_Release k (gs_gate S)) (image_mset fst (gs_queue S))"
    by (rule gate_line_cong [of "gs_gate S"]) (use inv in \<open>auto simp: gate_inv_def gate_Release_def Let_def\<close>)
  ultimately show ?thesis by (simp add: release(1) gate_inv_def)
qed

lemma gate_reach_inv: "gate_reach S \<Longrightarrow> gate_inv S"
  by (induction rule: gate_reach.induct) (auto intro: gate_init_inv gate_step_inv)

section \<open>Properties\<close>

text \<open>
  C8.  The gate's limits hold in every interleaving: at most 128 requests hold a slot, 32 of one
  source and 64 of one IPv6 network, at most 256 wait and 32 of one source; the counters are exact,
  the tables hold no more keys than there are requests, and no channel operation panics.
\<close>

theorem gate_limits:
  assumes "gate_reach S"
  defines "G \<equiv> gs_gate S" and "W \<equiv> image_mset fst (gs_queue S)"
  shows "\<not> hp_panicked (cp_heap G)
    \<and> cp_active G = int (size (holders S)) \<and> size (holders S) \<le> globalConcurrentLimit
    \<and> (\<forall>k. cnt_get (cp_sources G) k = int (count (holders S) k) \<and> count (holders S) k \<le> sourceConcurrentLimit)
    \<and> (\<forall>p. cnt_get (cp_prefixes G) p = int (count (prefixes_of (holders S)) p)
          \<and> count (prefixes_of (holders S)) p \<le> prefixConcurrentLimit)
    \<and> cp_queued G = int (size W) \<and> size W \<le> queuedRequestLimit \<and> (\<forall>k. count W k \<le> sourceQueuedLimit)
    \<and> length (cp_sources G) \<le> size (holders S) \<and> length (cp_prefixes G) \<le> size (holders S)
    \<and> length (cp_waiting G) \<le> size W"
proof -
  have inv: "gate_slots G (holders S)" "gate_line G W" "gate_channel S"
    using gate_reach_inv [OF assms(1)] by (auto simp: gate_inv_def G_def W_def)
  have a: "gate_count.counts (cp_sources G) (holders S)" "gate_count.counts (cp_prefixes G) (prefixes_of (holders S))"
    "gate_count.counts (cp_waiting G) W" using inv by (auto simp: gate_slots_def gate_line_def)
  have "size (prefixes_of (holders S)) \<le> size (holders S)"
    unfolding prefixes_of_def by (metis size_filter_mset_lesseq size_image_mset)
  then have "length (cp_prefixes G) \<le> size (holders S)"
    using gate_count.counts_entries [OF a(2)] by simp
  moreover have "\<not> hp_panicked (cp_heap G)" using inv(3) heap_ok_no_panic by (auto simp: gate_channel_def G_def)
  ultimately show ?thesis
    using inv a gate_count.counts_cnt gate_count.counts_entries
    by (simp add: gate_slots_def gate_line_def)
qed

text \<open>
  C9.  No wake-up is lost: a queued request whose channel is still open has no room, so whenever
  there is room for a sleeping request its channel has been closed already, and the turn of its loop
  that this allows acquires the slot.
\<close>

theorem gate_no_lost_wakeup:
  assumes "gate_reach S" and "(k, Sleeping c) \<in># gs_queue S" and "gate_has_room k (gs_gate S)"
  shows "\<not> ch_open (cp_heap (gs_gate S)) c
    \<and> (\<exists>S'. gate_step S S' \<and> (k, Won) \<in># gs_queue S')"
proof -
  have closed: "\<not> ch_open (cp_heap (gs_gate S)) c"
    using gate_reach_inv [OF assms(1)] assms(2,3) by (fastforce simp: gate_inv_def gate_channel_def)
  obtain Q where Q: "gs_queue S = add_mset (k, Sleeping c) Q" using assms(2) by (meson multi_member_split)
  have "wait_retry k (gs_gate S) = ((True, cp_released (gs_gate S)), take_slot k (gs_gate S))"
    using assms(3) by (simp add: wait_retry_def acquireLocked_eq)
  from gate_step.wake [OF Q closed this] closed show ?thesis by force
qed

text \<open>A source that takes its 32 slots, queues one more request and gives a slot back.\<close>

definition gate_full :: "nat \<Rightarrow> gate_state" where
  "gate_full n = \<lparr>gs_gate = (take_slot ''c'' ^^ n) NewPublicCapacity, gs_queue = {#}, gs_running = replicate_mset n ''c''\<rparr>"

lemma prefix_c: "abusePrefix ''c'' = ''''"
  by code_simp

lemma gate_full_counts:
  "cp_active (gs_gate (gate_full n)) = int n" "cnt_get (cp_sources (gs_gate (gate_full n))) ''c'' = int n"
  "cp_queued (gs_gate (gate_full n)) = 0" "cp_waiting (gs_gate (gate_full n)) = []"
  by (induction n) (simp_all add: gate_full_def NewPublicCapacity_def Let_def take_slot_def cnt_get_inc)

lemma gate_full_room: "gate_has_room ''c'' (gs_gate (gate_full n)) \<longleftrightarrow> n < 32"
  by (auto simp: gate_has_room_iff gate_full_counts prefix_c globalConcurrentLimit_def sourceConcurrentLimit_def)

lemma gate_full_reach: "n \<le> 32 \<Longrightarrow> gate_reach (gate_full n)"
proof (induction n)
  case 0
  show ?case using gate_reach.start by (simp add: gate_full_def gate_init_def)
next
  case (Suc n)
  have "wait_start ''c'' (gs_gate (gate_full n)) = (Acquired, take_slot ''c'' (gs_gate (gate_full n)))"
    using Suc.prems by (simp add: wait_start_def acquireLocked_eq gate_full_room)
  from gate_step.admit [OF this] Suc show ?case
    by (auto simp: gate_full_def intro: gate_reach.more)
qed

definition gate_queued1 :: gate_state where
  "gate_queued1 = (gate_full 32)\<lparr>gs_gate := snd (wait_start ''c'' (gs_gate (gate_full 32))),
     gs_queue := {#(''c'', Sleeping (cp_released (gs_gate (gate_full 32))))#}\<rparr>"

definition gate_freed :: gate_state where
  "gate_freed = gate_queued1\<lparr>gs_gate := gate_Release ''c'' (gs_gate gate_queued1), gs_running := replicate_mset 31 ''c''\<rparr>"

lemma gate_queued1_reach: "gate_reach gate_queued1"
proof -
  have "wait_start ''c'' (gs_gate (gate_full 32)) =
      (Queued (cp_released (gs_gate (gate_full 32))), snd (wait_start ''c'' (gs_gate (gate_full 32))))"
    by (simp add: wait_start_def acquireLocked_eq gate_full_room gate_full_counts queuedRequestLimit_def sourceQueuedLimit_def)
  from gate_step.enqueue [OF this] gate_full_reach [of 32] show ?thesis
    by (auto simp: gate_queued1_def gate_full_def intro: gate_reach.more)
qed

lemma gate_freed_reach: "gate_reach gate_freed"
proof -
  have "gs_running gate_queued1 = add_mset ''c'' (replicate_mset 31 ''c'')"
    by (simp add: gate_queued1_def gate_full_def replicate_mset_Suc [symmetric] del: replicate_mset_Suc)
  from gate_step.release [OF this] gate_queued1_reach show ?thesis
    by (auto simp: gate_freed_def intro: gate_reach.more)
qed

lemma gate_freed_room: "gate_has_room ''c'' (gs_gate gate_freed)"
  by (simp add: gate_freed_def gate_queued1_def gate_has_room_iff gate_Release_def Let_def wait_start_def acquireLocked_eq
      gate_full_room gate_full_counts queuedRequestLimit_def sourceQueuedLimit_def cnt_get_dec prefix_c
      globalConcurrentLimit_def sourceConcurrentLimit_def)

theorem gate_limits_witness: "size (holders (gate_full 32)) = 32 \<and> cp_active (gs_gate (gate_full 32)) = 32"
  using gate_limits [OF gate_full_reach [of 32]] by (simp add: gate_full_counts)

theorem gate_no_lost_wakeup_witness: "\<exists>S'. gate_step gate_freed S' \<and> (''c'', Won) \<in># gs_queue S'"
  using gate_no_lost_wakeup [OF gate_freed_reach _ gate_freed_room, of "cp_released (gs_gate (gate_full 32))"]
  by (simp add: gate_freed_def gate_queued1_def)

end
