(* ===== verification/Limiter.thy ===== *)
theory Limiter
  imports Addresses
begin

text \<open>
  The fixed-window rate limiter: packages/httpguard/limiter.go.  The map \<open>windows\<close> points into the
  list \<open>expiry\<close>; an element of that list is a window with the identity \<open>PushBack\<close> gave it, so the
  map holds identities and \<open>MoveToBack\<close>, \<open>Remove\<close> and \<open>PushBack\<close> act on the association list from
  identity to window, in list order.  \<open>time.Now()\<close>, read under the lock, is an argument.
\<close>

definition trackedClientLimit :: nat where "trackedClientLimit = 4096"

record window =
  win_key :: string
  win_count :: int
  win_reset :: instant

record limiter =
  lm_windows :: "(string, nat) gomap"
  lm_expiry :: "(nat \<times> window) list"
  lm_next :: nat
  lm_fullLogged :: instant
  lm_warnings :: nat

definition limiter_zero :: limiter where
  "limiter_zero = \<lparr>lm_windows = [], lm_expiry = [], lm_next = 0, lm_fullLogged = 0, lm_warnings = 0\<rparr>"

section \<open>Operations\<close>

text \<open>The loop of \<open>dropExpired\<close> runs over the front of the list.\<close>

fun drop_front :: "instant \<Rightarrow> (nat \<times> window) list \<Rightarrow> (string, nat) gomap \<Rightarrow> (nat \<times> window) list \<times> (string, nat) gomap" where
  "drop_front now [] ws = ([], ws)"
| "drop_front now ((i, w) # es) ws =
     (if now > win_reset w then drop_front now es (mdel (win_key w) ws) else ((i, w) # es, ws))"

definition dropExpired :: "instant \<Rightarrow> limiter \<Rightarrow> limiter" where
  "dropExpired now L = (case drop_front now (lm_expiry L) (lm_windows L) of (es, ws) \<Rightarrow>
     L\<lparr>lm_expiry := es, lm_windows := ws\<rparr>)"

definition reportFull :: "instant \<Rightarrow> limiter \<Rightarrow> limiter" where
  "reportFull now L = (if now < lm_fullLogged L then L
     else L\<lparr>lm_fullLogged := now + minute, lm_warnings := Suc (lm_warnings L)\<rparr>)"

text \<open>
  The three parts of \<open>Allow\<close>: a known window that ended starts again at the back, an unknown key
  gets a window when there is space, and the window's count decides.
\<close>

definition renew_window :: "nat \<Rightarrow> instant \<Rightarrow> limiter \<Rightarrow> limiter" where
  "renew_window i now L = (case map_of (lm_expiry L) i of
     None \<Rightarrow> L
   | Some w \<Rightarrow> if now > win_reset w
       then L\<lparr>lm_expiry := mdel i (lm_expiry L) @ [(i, w\<lparr>win_count := 0, win_reset := now + minute\<rparr>)]\<rparr> else L)"

definition push_window :: "string \<Rightarrow> instant \<Rightarrow> limiter \<Rightarrow> limiter" where
  "push_window key now L = L\<lparr>lm_expiry := lm_expiry L @ [(lm_next L, \<lparr>win_key = key, win_count = 0, win_reset = now + minute\<rparr>)],
     lm_windows := mput key (lm_next L) (lm_windows L), lm_next := Suc (lm_next L)\<rparr>"

definition count_call :: "nat \<Rightarrow> int \<Rightarrow> limiter \<Rightarrow> bool \<times> limiter" where
  "count_call i maximum L = (case map_of (lm_expiry L) i of
     None \<Rightarrow> (False, L)
   | Some w \<Rightarrow> (win_count w + 1 \<le> maximum, L\<lparr>lm_expiry := mput i (w\<lparr>win_count := win_count w + 1\<rparr>) (lm_expiry L)\<rparr>))"

definition limiter_Allow :: "instant \<Rightarrow> string \<Rightarrow> int \<Rightarrow> limiter \<Rightarrow> bool \<times> limiter" where
  "limiter_Allow now rawkey maximum L = (let key = limiterKey rawkey in
     case map_of (lm_windows L) key of
       Some i \<Rightarrow> count_call i maximum (renew_window i now L)
     | None \<Rightarrow> (let L1 = dropExpired now L in
         if length (lm_windows L1) \<ge> trackedClientLimit then (False, reportFull now L1)
         else count_call (lm_next L1) maximum (push_window key now L1)))"

definition limiter_Reset :: "string \<Rightarrow> limiter \<Rightarrow> limiter" where
  "limiter_Reset rawkey L = (let key = limiterKey rawkey in
     case map_of (lm_windows L) key of
       None \<Rightarrow> L
     | Some i \<Rightarrow> L\<lparr>lm_windows := mdel key (lm_windows L), lm_expiry := mdel i (lm_expiry L)\<rparr>)"

definition TrackedClients :: "limiter \<Rightarrow> nat" where
  "TrackedClients L = length (lm_windows L)"

section \<open>The map and the list\<close>

text \<open>The window the map points to, and when map and list agree: the list is in order of the resets.\<close>

definition look :: "(nat \<times> window) list \<Rightarrow> (string, nat) gomap \<Rightarrow> string \<Rightarrow> window option" where
  "look es ws k = (case map_of ws k of None \<Rightarrow> None | Some i \<Rightarrow> map_of es i)"

definition resets :: "(nat \<times> window) list \<Rightarrow> instant list" where
  "resets es = map (\<lambda>(i, w). win_reset w) es"

definition linked :: "(nat \<times> window) list \<Rightarrow> (string, nat) gomap \<Rightarrow> bool" where
  "linked es ws \<longleftrightarrow> mwf ws \<and> mwf es \<and> sorted (resets es)
     \<and> (\<forall>k i. map_of ws k = Some i \<longleftrightarrow> (\<exists>w. map_of es i = Some w \<and> win_key w = k))"

definition limiter_inv :: "instant \<Rightarrow> limiter \<Rightarrow> bool" where
  "limiter_inv now L \<longleftrightarrow> linked (lm_expiry L) (lm_windows L)
     \<and> (\<forall>i w. map_of (lm_expiry L) i = Some w \<longrightarrow> i < lm_next L \<and> win_reset w \<le> now + minute)
     \<and> length (lm_windows L) \<le> trackedClientLimit"

lemma linked_look: "linked es ws \<Longrightarrow> look es ws k = Some w \<longleftrightarrow> (\<exists>i. map_of es i = Some w \<and> win_key w = k)"
proof
  assume l: "linked es ws" "look es ws k = Some w"
  then obtain i where i: "map_of ws k = Some i" "map_of es i = Some w" by (auto simp: look_def split: option.splits)
  from l(1) i(1) have "\<exists>w. map_of es i = Some w \<and> win_key w = k" by (simp add: linked_def)
  with i show "\<exists>i. map_of es i = Some w \<and> win_key w = k" by auto
next
  assume l: "linked es ws" "\<exists>i. map_of es i = Some w \<and> win_key w = k"
  then obtain i where i: "map_of es i = Some w" "win_key w = k" by blast
  with l(1) have "map_of ws k = Some i" by (simp add: linked_def)
  with i show "look es ws k = Some w" by (simp add: look_def)
qed

lemma option_ext: "(\<And>v. a = Some v \<longleftrightarrow> b = Some v) \<Longrightarrow> a = b"
  by (metis option.exhaust)

lemma linked_unique:
  assumes "linked es ws" "map_of es i = Some w" "map_of es j = Some v" "win_key w = win_key v"
  shows "i = j"
proof -
  have "map_of ws (win_key w) = Some i" "map_of ws (win_key v) = Some j"
    using assms(1-3) by (simp_all add: linked_def)
  with assms(4) show ?thesis by simp
qed

lemma linked_look_at: "linked es ws \<Longrightarrow> map_of es i = Some w \<Longrightarrow> look es ws (win_key w) = Some w"
  by (auto simp: linked_look)

lemma resets_simps [simp]:
  "resets [] = []" "resets ((i, w) # es) = win_reset w # resets es" "resets (es @ fs) = resets es @ resets fs"
  by (simp_all add: resets_def)

lemma resets_set: "mwf es \<Longrightarrow> r \<in> set (resets es) \<longleftrightarrow> (\<exists>i w. map_of es i = Some w \<and> r = win_reset w)"
  by (force simp: resets_def mwf_in_set [symmetric])

lemma linked_tail:
  assumes l: "linked ((i, w) # es) ws"
  shows "linked es (mdel (win_key w) ws)"
    and "look es (mdel (win_key w) ws) k = (if k = win_key w then None else look ((i, w) # es) ws k)"
proof -
  have fresh: "map_of es i = None" "mwf es" using l by (auto simp: linked_def)
  have other: "win_key v \<noteq> win_key w" if "map_of es j = Some v" for j v
    using linked_unique [OF l, of i w j v] that fresh by (cases "j = i") auto
  have iff: "map_of (mdel (win_key w) ws) k = Some j \<longleftrightarrow> (\<exists>v. map_of es j = Some v \<and> win_key v = k)" for j k
  proof (cases "k = win_key w")
    case True
    with other show ?thesis by auto
  next
    case False
    then show ?thesis using l fresh by (auto simp: linked_def)
  qed
  then show t: "linked es (mdel (win_key w) ws)" using l by (auto simp: linked_def)
  show "look es (mdel (win_key w) ws) k = (if k = win_key w then None else look ((i, w) # es) ws k)"
  proof (rule option_ext)
    fix v
    have ex: "(\<exists>j. map_of ((i, w) # es) j = Some v \<and> win_key v = k) \<longleftrightarrow>
        v = w \<and> win_key w = k \<or> (\<exists>j. map_of es j = Some v \<and> win_key v = k)"
      using fresh(1) by (metis map_of_Cons_code(2) option.distinct(1) option.inject)
    show "look es (mdel (win_key w) ws) k = Some v \<longleftrightarrow>
        (if k = win_key w then None else look ((i, w) # es) ws k) = Some v"
      unfolding linked_look [OF t] using ex other by (auto simp: linked_look [OF l] simp del: map_of.simps)
  qed
qed

text \<open>\<open>dropExpired\<close> removes exactly the windows that ended, because the list is sorted.\<close>

lemma drop_front_correct:
  assumes "linked es ws" and "drop_front now es ws = (es', ws')"
  shows "linked es' ws'" and "look es' ws' k =
    (case look es ws k of None \<Rightarrow> None | Some w \<Rightarrow> if now > win_reset w then None else Some w)"
  using assms
proof (induction now es ws rule: drop_front.induct)
  case (1 now ws)
  {
    case 1 then show ?case by simp
  next
    case 2 then show ?case by (auto simp: look_def split: option.splits)
  }
next
  case (2 now i w es ws)
  {
    case 1
    then show ?case using 2 linked_tail(1) [OF 1(1)] by (auto split: if_splits)
  next
    case 3: 2
    have mine: "look ((i, w) # es) ws (win_key w) = Some w"
      by (rule linked_look_at [OF 3(1), of i]) simp
    show ?case
    proof (cases "now > win_reset w")
      case True
      then show ?thesis
        using 2(2) [OF True linked_tail(1) [OF 3(1)]] 3(2) linked_tail(2) [OF 3(1), of k] mine
        by (auto split: option.splits)
    next
      case False
      have "\<not> now > win_reset v" if "look ((i, w) # es) ws k = Some v" for v
      proof -
        have "v = w \<or> win_reset v \<in> set (resets es)"
          using that 3(1) by (fastforce simp: linked_look resets_set linked_def split: if_splits)
        then show ?thesis using False 3(1) by (auto simp: linked_def)
      qed
      with False 3(2) show ?thesis by (auto split: option.splits)
    qed
  }
qed

section \<open>Operations on the linked structure\<close>

lemma resets_mdel_sorted: "sorted (resets es) \<Longrightarrow> sorted (resets (mdel i es))"
  by (simp add: resets_def AList.delete_eq case_prod_beta sorted_filter)

lemma resets_mdel_set: "r \<in> set (resets (mdel i es)) \<Longrightarrow> r \<in> set (resets es)"
  by (auto simp: resets_def AList.delete_eq)

lemma resets_mput:
  "map_of es i = Some w \<Longrightarrow> win_reset w' = win_reset w \<Longrightarrow> resets (mput i w' es) = resets es"
  by (induction es) auto

lemma linked_key: "linked es ws \<Longrightarrow> map_of es i = Some w \<Longrightarrow> map_of ws k = Some i \<longleftrightarrow> k = win_key w"
  by (auto simp: linked_def)

lemma linked_replace:
  assumes l: "linked es ws" and at: "map_of es i = Some w" "win_key w' = win_key w"
    and es': "mwf es'" "sorted (resets es')" "map_of es' = (map_of es)(i \<mapsto> w')"
  shows "linked es' ws" and "look es' ws = (look es ws)(win_key w \<mapsto> w')"
proof -
  note k = linked_key [OF l at(1)]
  have "map_of ws k = Some j \<longleftrightarrow> (\<exists>v. map_of es' j = Some v \<and> win_key v = k)" for k j
  proof (cases "j = i")
    case True
    with k at es' show ?thesis by auto
  next
    case False
    with l es' show ?thesis by (simp add: linked_def)
  qed
  then show "linked es' ws" using l es' by (simp add: linked_def)
  show "look es' ws = (look es ws)(win_key w \<mapsto> w')"
  proof
    fix j
    show "look es' ws j = ((look es ws)(win_key w \<mapsto> w')) j"
      using k [of j] k [of "win_key w"] es'(3) by (auto simp: look_def split: option.splits)
  qed
qed

lemma linked_push:
  assumes l: "linked es ws" and fresh: "map_of es n = None" "map_of ws (win_key w) = None"
    and last: "\<And>r. r \<in> set (resets es) \<Longrightarrow> r \<le> win_reset w"
  shows "linked (es @ [(n, w)]) (mput (win_key w) n ws)"
    and "look (es @ [(n, w)]) (mput (win_key w) n ws) = (look es ws)(win_key w \<mapsto> w)"
proof -
  have es': "map_of (es @ [(n, w)]) = (map_of es)(n \<mapsto> w)"
    using fresh(1) by (auto simp: map_add_def fun_eq_iff split: option.splits)
  have wf: "mwf (es @ [(n, w)])" using l fresh(1) by (auto simp: linked_def mwf_def map_of_eq_None_iff)
  have no: "map_of ws j \<noteq> Some n" for j using l fresh(1) by (auto simp: linked_def)
  have other: "win_key v \<noteq> win_key w" if "map_of es j = Some v" for j v
    using linked_key [OF l that, of "win_key w"] fresh(2) by auto
  have "map_of (mput (win_key w) n ws) k = Some j \<longleftrightarrow> (\<exists>v. map_of (es @ [(n, w)]) j = Some v \<and> win_key v = k)" for k j
  proof (cases "j = n")
    case True
    with no [of k] show ?thesis unfolding es' by auto
  next
    case False
    then show ?thesis unfolding es' using l other [of j] by (auto simp: linked_def)
  qed
  then show "linked (es @ [(n, w)]) (mput (win_key w) n ws)"
    using l wf last by (simp add: linked_def sorted_append)
  show "look (es @ [(n, w)]) (mput (win_key w) n ws) = (look es ws)(win_key w \<mapsto> w)"
    using no by (auto simp: look_def fun_eq_iff simp del: map_of_append split: option.splits) (auto simp: es' simp del: map_of_append)
qed

lemma linked_remove:
  assumes l: "linked es ws" and at: "map_of es i = Some w"
  shows "linked (mdel i es) (mdel (win_key w) ws)"
    and "look (mdel i es) (mdel (win_key w) ws) = (look es ws)(win_key w := None)"
proof -
  note k = linked_key [OF l at]
  have "map_of (mdel (win_key w) ws) k = Some j \<longleftrightarrow> (\<exists>v. map_of (mdel i es) j = Some v \<and> win_key v = k)" for k j
  proof (cases "j = i")
    case True
    with k show ?thesis by auto
  next
    case False
    have "win_key v \<noteq> win_key w" if "map_of es j = Some v" for v
      using linked_unique [OF l that at] False by auto
    with False l show ?thesis by (auto simp: linked_def)
  qed
  then show "linked (mdel i es) (mdel (win_key w) ws)"
    using l by (auto simp: linked_def resets_mdel_sorted)
  show "look (mdel i es) (mdel (win_key w) ws) = (look es ws)(win_key w := None)"
  proof
    fix j
    show "look (mdel i es) (mdel (win_key w) ws) j = ((look es ws)(win_key w := None)) j"
      using k [of j] by (auto simp: look_def split: option.splits)
  qed
qed

section \<open>The table the limiter implements\<close>

text \<open>
  The specification: a table from client to the calls counted and the end of the window.  It has no
  list; a call of a client without an entry first forgets every client whose window ended.
\<close>

type_synonym limit_table = "string \<Rightarrow> (int \<times> instant) option"

definition table_allow :: "instant \<Rightarrow> string \<Rightarrow> int \<Rightarrow> limit_table \<Rightarrow> bool \<times> limit_table" where
  "table_allow now key maximum T = (case T key of
     Some (c, r) \<Rightarrow>
       (let (c', r') = (if now > r then (0, now + minute) else (c, r)) in (c' + 1 \<le> maximum, T(key \<mapsto> (c' + 1, r'))))
   | None \<Rightarrow>
       (let T1 = (\<lambda>k. case T k of None \<Rightarrow> None | Some (c, r) \<Rightarrow> if now > r then None else Some (c, r)) in
        if card (dom T1) \<ge> trackedClientLimit then (False, T1) else (1 \<le> maximum, T1(key \<mapsto> (1, now + minute)))))"

definition table_of :: "limiter \<Rightarrow> limit_table" where
  "table_of L k = map_option (\<lambda>w. (win_count w, win_reset w)) (look (lm_expiry L) (lm_windows L) k)"

lemma linked_card: "linked es ws \<Longrightarrow> card (dom (look es ws)) = length ws"
proof -
  assume l: "linked es ws"
  then have "map_of es i \<noteq> None" if "map_of ws k = Some i" for i k using that by (auto simp: linked_def)
  then have "dom (look es ws) = dom (map_of ws)" by (force simp: look_def split: option.splits)
  with l show ?thesis by (simp add: linked_def dom_map_of_set)
qed

lemma table_card: "limiter_inv now L \<Longrightarrow> card (dom (table_of L)) = length (lm_windows L)"
proof -
  assume "limiter_inv now L"
  then have "card (dom (look (lm_expiry L) (lm_windows L))) = length (lm_windows L)"
    by (simp add: limiter_inv_def linked_card)
  moreover have "dom (table_of L) = dom (look (lm_expiry L) (lm_windows L))" by (auto simp: table_of_def)
  ultimately show ?thesis by simp
qed

lemma limiter_inv_mono: "limiter_inv now L \<Longrightarrow> now \<le> now' \<Longrightarrow> limiter_inv now' L"
  by (auto simp: limiter_inv_def) (meson add_right_mono order_trans)

lemma limiter_inv_zero: "limiter_inv now limiter_zero"
  by (simp add: limiter_inv_def limiter_zero_def linked_def)

lemma drop_front_mem:
  "drop_front now es ws = (es', ws') \<Longrightarrow> \<exists>n. es' = drop n es \<and> length ws' \<le> length ws"
proof (induction now es ws rule: drop_front.induct)
  case (1 now ws)
  then show ?case by simp
next
  case (2 now i w es ws)
  show ?case
  proof (cases "now > win_reset w")
    case True
    with 2 obtain n where "es' = drop n es" "length ws' \<le> length (mdel (win_key w) ws)" by auto
    then have "es' = drop (Suc n) ((i, w) # es) \<and> length ws' \<le> length ws"
      using length_mdel_le [of "win_key w" ws] by simp
    then show ?thesis by blast
  next
    case False
    with 2 show ?thesis by (intro exI [of _ 0]) auto
  qed
qed

lemma mwf_drop_map_of: "mwf es \<Longrightarrow> map_of (drop n es) i = Some w \<Longrightarrow> map_of es i = Some w"
  by (metis in_set_dropD map_of_SomeD mwf_in_set)

lemma dropExpired_inv:
  assumes "limiter_inv now L"
  shows "limiter_inv now (dropExpired now L)" and "table_of (dropExpired now L) k =
    (case table_of L k of None \<Rightarrow> None | Some (c, r) \<Rightarrow> if now > r then None else Some (c, r))"
    and "lm_next (dropExpired now L) = lm_next L"
proof -
  obtain es ws where d: "drop_front now (lm_expiry L) (lm_windows L) = (es, ws)" by fastforce
  have l: "linked (lm_expiry L) (lm_windows L)" using assms by (simp add: limiter_inv_def)
  obtain n where n: "es = drop n (lm_expiry L)" "length ws \<le> length (lm_windows L)" using drop_front_mem [OF d] by blast
  have D: "dropExpired now L = L\<lparr>lm_expiry := es, lm_windows := ws\<rparr>" by (simp add: dropExpired_def d)
  show "limiter_inv now (dropExpired now L)"
  proof -
    have "mwf (lm_expiry L)" using l by (simp add: linked_def)
    then have "map_of (lm_expiry L) i = Some w" if "map_of es i = Some w" for i w
      using mwf_drop_map_of that n(1) by metis
    then show ?thesis
      using assms n(2) drop_front_correct(1) [OF l d] by (fastforce simp: D limiter_inv_def)
  qed
  show "table_of (dropExpired now L) k =
      (case table_of L k of None \<Rightarrow> None | Some (c, r) \<Rightarrow> if now > r then None else Some (c, r))"
    using drop_front_correct(2) [OF l d, of k] by (auto simp: D table_of_def split: option.splits)
  show "lm_next (dropExpired now L) = lm_next L" by (simp add: D)
qed

lemma table_of_fun_upd:
  "look es ws = (look (lm_expiry L) (lm_windows L))(k \<mapsto> w) \<Longrightarrow> lm_expiry L' = es \<Longrightarrow> lm_windows L' = ws \<Longrightarrow>
     table_of L' = (table_of L)(k \<mapsto> (win_count w, win_reset w))"
  by (auto simp: table_of_def fun_eq_iff)

lemma count_call_inv:
  assumes inv: "limiter_inv now L" and at: "map_of (lm_expiry L) i = Some w"
  shows "limiter_inv now (snd (count_call i m L))"
    and "table_of (snd (count_call i m L)) = (table_of L)(win_key w \<mapsto> (win_count w + 1, win_reset w))"
    and "fst (count_call i m L) \<longleftrightarrow> win_count w + 1 \<le> m"
proof -
  let ?w = "w\<lparr>win_count := win_count w + 1\<rparr>" and ?es = "mput i (w\<lparr>win_count := win_count w + 1\<rparr>) (lm_expiry L)"
  have l: "linked (lm_expiry L) (lm_windows L)" using inv by (simp add: limiter_inv_def)
  have "mwf ?es" "sorted (resets ?es)" "map_of ?es = (map_of (lm_expiry L))(i \<mapsto> ?w)"
    using l at by (auto simp: linked_def resets_mput AList.update_conv')
  note r = linked_replace [OF l at _ this, simplified]
  show "limiter_inv now (snd (count_call i m L))"
    using inv at r(1) by (auto simp: count_call_def limiter_inv_def)
  show "table_of (snd (count_call i m L)) = (table_of L)(win_key w \<mapsto> (win_count w + 1, win_reset w))"
    using table_of_fun_upd [OF r(2)] at by (simp add: count_call_def)
  show "fst (count_call i m L) \<longleftrightarrow> win_count w + 1 \<le> m" using at by (simp add: count_call_def)
qed

lemma renew_window_inv:
  assumes inv: "limiter_inv now0 L" "now0 \<le> now" and at: "map_of (lm_expiry L) i = Some w"
  defines "w' \<equiv> if now > win_reset w then w\<lparr>win_count := 0, win_reset := now + minute\<rparr> else w"
  shows "limiter_inv now (renew_window i now L)" and "map_of (lm_expiry (renew_window i now L)) i = Some w'"
    and "table_of (renew_window i now L) = (table_of L)(win_key w \<mapsto> (win_count w', win_reset w'))"
proof -
  have now: "limiter_inv now L" using inv by (rule limiter_inv_mono)
  have l: "linked (lm_expiry L) (lm_windows L)" using inv by (simp add: limiter_inv_def)
  have same: "table_of L (win_key w) = Some (win_count w, win_reset w)"
    by (simp add: table_of_def linked_look_at [OF l at])
  show "limiter_inv now (renew_window i now L)" "map_of (lm_expiry (renew_window i now L)) i = Some w'"
      "table_of (renew_window i now L) = (table_of L)(win_key w \<mapsto> (win_count w', win_reset w'))"
  proof (atomize (full), cases "now > win_reset w")
    case False
    then show "limiter_inv now (renew_window i now L) \<and> map_of (lm_expiry (renew_window i now L)) i = Some w' \<and>
      table_of (renew_window i now L) = (table_of L)(win_key w \<mapsto> (win_count w', win_reset w'))"
      using now at same by (auto simp: renew_window_def w'_def)
  next
    case True
    let ?es = "mdel i (lm_expiry L) @ [(i, w')]"
    have w': "w' = w\<lparr>win_count := 0, win_reset := now + minute\<rparr>" using True by (simp add: w'_def)
    have late: "r \<le> win_reset w'" if "r \<in> set (resets (lm_expiry L))" for r
      using that now l by (auto simp: limiter_inv_def linked_def resets_set w')
    have m: "map_of ?es = (map_of (lm_expiry L))(i \<mapsto> w')"
      by (auto simp: map_add_def fun_eq_iff split: option.splits)
    have "mwf (mdel i (lm_expiry L))" using l by (auto simp: linked_def)
    then have wf: "mwf ?es" by (auto simp: mwf_def map_of_eq_None_iff AList.delete_eq)
    have "sorted (resets (mdel i (lm_expiry L)))" using l by (simp add: linked_def resets_mdel_sorted)
    moreover have "r \<le> win_reset w'" if "r \<in> set (resets (mdel i (lm_expiry L)))" for r
      by (rule late [OF resets_mdel_set [OF that]])
    ultimately have srt: "sorted (resets ?es)" by (simp add: sorted_append)
    have key: "win_key w' = win_key w" by (simp add: w')
    note r = linked_replace [OF l at key wf srt m]
    have L': "renew_window i now L = L\<lparr>lm_expiry := ?es\<rparr>" using at True by (simp add: renew_window_def w')
    have "limiter_inv now (L\<lparr>lm_expiry := ?es\<rparr>)"
    proof -
      have "j < lm_next L \<and> win_reset v \<le> now + minute" if "map_of ?es j = Some v" for j v
        using now at that unfolding m by (auto simp: limiter_inv_def w' split: if_splits)
      then show ?thesis using now r(1) by (simp add: limiter_inv_def del: map_of_append)
    qed
    then show "limiter_inv now (renew_window i now L) \<and> map_of (lm_expiry (renew_window i now L)) i = Some w' \<and>
      table_of (renew_window i now L) = (table_of L)(win_key w \<mapsto> (win_count w', win_reset w'))"
      using table_of_fun_upd [OF r(2)] m by (simp add: L' del: map_of_append)
  qed
qed

lemma push_window_inv:
  assumes inv: "limiter_inv now L" and fresh: "map_of (lm_windows L) key = None" and room: "length (lm_windows L) < trackedClientLimit"
  shows "limiter_inv now (push_window key now L)"
    and "map_of (lm_expiry (push_window key now L)) (lm_next L) = Some \<lparr>win_key = key, win_count = 0, win_reset = now + minute\<rparr>"
    and "table_of (push_window key now L) = (table_of L)(key \<mapsto> (0, now + minute))"
proof -
  let ?w = "\<lparr>win_key = key, win_count = 0, win_reset = now + minute\<rparr>"
  have l: "linked (lm_expiry L) (lm_windows L)" using inv by (simp add: limiter_inv_def)
  have new: "map_of (lm_expiry L) (lm_next L) = None"
  proof (rule ccontr)
    assume "map_of (lm_expiry L) (lm_next L) \<noteq> None"
    then obtain v where "map_of (lm_expiry L) (lm_next L) = Some v" by blast
    with inv show False unfolding limiter_inv_def by blast
  qed
  have late: "r \<le> win_reset ?w" if "r \<in> set (resets (lm_expiry L))" for r
    using that inv l by (auto simp: limiter_inv_def linked_def resets_set)
  have fresh': "map_of (lm_windows L) (win_key ?w) = None" using fresh by simp
  note r = linked_push [OF l new fresh' late, simplified]
  have m: "map_of (lm_expiry L @ [(lm_next L, ?w)]) = (map_of (lm_expiry L))(lm_next L \<mapsto> ?w)"
    using new by (auto simp: map_add_def fun_eq_iff split: option.splits)
  show "limiter_inv now (push_window key now L)"
    using inv r(1) room fresh m by (auto simp: push_window_def limiter_inv_def length_mput less_Suc_eq simp del: map_of_append)
  show "map_of (lm_expiry (push_window key now L)) (lm_next L) = Some ?w"
    using m by (simp add: push_window_def del: map_of_append)
  show "table_of (push_window key now L) = (table_of L)(key \<mapsto> (0, now + minute))"
    using table_of_fun_upd [OF r(2)] by (simp add: push_window_def)
qed

section \<open>Allow and Reset refine the table\<close>

lemma table_at: "limiter_inv now L \<Longrightarrow> map_of (lm_windows L) key = Some i \<Longrightarrow>
    \<exists>w. map_of (lm_expiry L) i = Some w \<and> win_key w = key \<and> table_of L key = Some (win_count w, win_reset w)"
proof -
  assume inv: "limiter_inv now L" and at: "map_of (lm_windows L) key = Some i"
  then have l: "linked (lm_expiry L) (lm_windows L)" by (simp add: limiter_inv_def)
  with at obtain w where w: "map_of (lm_expiry L) i = Some w" "win_key w = key" by (auto simp: linked_def)
  then show ?thesis using at by (auto simp: table_of_def look_def)
qed

lemma table_absent: "map_of (lm_windows L) key = None \<Longrightarrow> table_of L key = None"
  by (simp add: table_of_def look_def)

lemma table_present: "limiter_inv now L \<Longrightarrow> table_of L key = None \<longleftrightarrow> map_of (lm_windows L) key = None"
  using table_at table_absent by (cases "map_of (lm_windows L) key") fastforce+

lemma reportFull_simps [simp]:
  "lm_windows (reportFull now L) = lm_windows L" "lm_expiry (reportFull now L) = lm_expiry L"
  "lm_next (reportFull now L) = lm_next L"
  by (simp_all add: reportFull_def)

lemma limiter_Allow_refines:
  assumes inv: "limiter_inv now0 L" "now0 \<le> now"
  shows "limiter_inv now (snd (limiter_Allow now raw m L))"
    and "(fst (limiter_Allow now raw m L), table_of (snd (limiter_Allow now raw m L))) =
      table_allow now (limiterKey raw) m (table_of L)"
proof -
  let ?k = "limiterKey raw"
  have now: "limiter_inv now L" using inv by (rule limiter_inv_mono)
  show "limiter_inv now (snd (limiter_Allow now raw m L))"
    "(fst (limiter_Allow now raw m L), table_of (snd (limiter_Allow now raw m L))) = table_allow now ?k m (table_of L)"
  proof (atomize (full), cases "map_of (lm_windows L) ?k")
    case (Some i)
    obtain w where w: "map_of (lm_expiry L) i = Some w" "win_key w = ?k" "table_of L ?k = Some (win_count w, win_reset w)"
      using table_at [OF now Some] by blast
    note r = renew_window_inv [OF inv w(1)]
    note c = count_call_inv [OF r(1,2)]
    have A: "limiter_Allow now raw m L = count_call i m (renew_window i now L)" by (simp add: limiter_Allow_def Some)
    show "limiter_inv now (snd (limiter_Allow now raw m L)) \<and>
      (fst (limiter_Allow now raw m L), table_of (snd (limiter_Allow now raw m L))) = table_allow now ?k m (table_of L)"
      using c w r(3) by (simp add: A table_allow_def)
  next
    case None
    note d = dropExpired_inv [OF now]
    let ?L = "dropExpired now L"
    have T1: "table_of ?L = (\<lambda>k. case table_of L k of None \<Rightarrow> None | Some (c, r) \<Rightarrow> if now > r then None else Some (c, r))"
      using d(2) by blast
    have absent: "table_of L ?k = None" "map_of (lm_windows ?L) ?k = None"
      using table_absent [OF None] table_present [OF d(1), of ?k] d(2) [of ?k] by auto
    show "limiter_inv now (snd (limiter_Allow now raw m L)) \<and>
      (fst (limiter_Allow now raw m L), table_of (snd (limiter_Allow now raw m L))) = table_allow now ?k m (table_of L)"
    proof (cases "length (lm_windows ?L) \<ge> trackedClientLimit")
      case True
      then show ?thesis
        using None absent d(1) T1 table_card [OF d(1)]
        by (simp add: limiter_Allow_def Let_def table_allow_def limiter_inv_def) (simp add: table_of_def fun_eq_iff)
    next
      case False
      then have room: "length (lm_windows ?L) < trackedClientLimit" by simp
      note p = push_window_inv [OF d(1) absent(2) room]
      note c = count_call_inv [OF p(1,2)]
      have A: "limiter_Allow now raw m L = count_call (lm_next ?L) m (push_window ?k now ?L)"
        using None False by (simp add: limiter_Allow_def Let_def)
      show ?thesis
        using c p(3) absent False table_card [OF d(1)] T1 by (simp add: A table_allow_def Let_def)
    qed
  qed
qed

lemma limiter_Reset_refines:
  assumes inv: "limiter_inv now L"
  shows "limiter_inv now (limiter_Reset raw L)" and "table_of (limiter_Reset raw L) = (table_of L)(limiterKey raw := None)"
proof -
  let ?k = "limiterKey raw"
  show "limiter_inv now (limiter_Reset raw L)" "table_of (limiter_Reset raw L) = (table_of L)(?k := None)"
  proof (atomize (full), cases "map_of (lm_windows L) ?k")
    case None
    then show "limiter_inv now (limiter_Reset raw L) \<and> table_of (limiter_Reset raw L) = (table_of L)(?k := None)"
      using inv by (simp add: limiter_Reset_def table_absent fun_upd_idem)
  next
    case (Some i)
    obtain w where w: "map_of (lm_expiry L) i = Some w" "win_key w = ?k"
      using table_at [OF inv Some] by blast
    have l: "linked (lm_expiry L) (lm_windows L)" using inv by (simp add: limiter_inv_def)
    note r = linked_remove [OF l w(1)]
    have R: "limiter_Reset raw L = L\<lparr>lm_windows := mdel (win_key w) (lm_windows L), lm_expiry := mdel i (lm_expiry L)\<rparr>"
      by (simp add: limiter_Reset_def Some w)
    have "limiter_inv now (limiter_Reset raw L)"
      using inv r(1) length_mdel_le [of "win_key w" "lm_windows L"] by (auto simp: R limiter_inv_def)
    moreover have "table_of (limiter_Reset raw L) = (table_of L)(?k := None)"
      using r(2) by (simp add: R table_of_def fun_eq_iff w)
    ultimately show "limiter_inv now (limiter_Reset raw L) \<and> table_of (limiter_Reset raw L) = (table_of L)(?k := None)" ..
  qed
qed

section \<open>Runs\<close>

inductive limiter_reach :: "instant \<Rightarrow> limiter \<Rightarrow> bool" where
  zero: "limiter_reach now limiter_zero"
| allow: "limiter_reach now L \<Longrightarrow> now \<le> now' \<Longrightarrow> limiter_reach now' (snd (limiter_Allow now' raw m L))"
| reset: "limiter_reach now L \<Longrightarrow> now \<le> now' \<Longrightarrow> limiter_reach now' (limiter_Reset raw L)"

lemma limiter_reach_inv: "limiter_reach now L \<Longrightarrow> limiter_inv now L"
  by (induction rule: limiter_reach.induct)
    (auto intro: limiter_inv_zero limiter_Allow_refines(1) limiter_Reset_refines(1) limiter_inv_mono)

text \<open>
  A sequence of operations on one limiter, each at its instant and each call of \<open>Allow\<close> with a maximum of its own, and
  the answers with the client each is for.
\<close>

datatype limiter_op = OpAllow string int | OpReset string

fun limiter_calls :: "(instant \<times> limiter_op) list \<Rightarrow> limiter \<Rightarrow> (string \<times> bool) list" where
  "limiter_calls [] L = []"
| "limiter_calls ((now, OpAllow raw m) # cs) L =
     (limiterKey raw, fst (limiter_Allow now raw m L)) # limiter_calls cs (snd (limiter_Allow now raw m L))"
| "limiter_calls ((now, OpReset raw) # cs) L = limiter_calls cs (limiter_Reset raw L)"

fun client_resets :: "string \<Rightarrow> (instant \<times> limiter_op) list \<Rightarrow> int" where
  "client_resets key [] = 0"
| "client_resets key ((now, OpAllow raw m) # cs) = client_resets key cs"
| "client_resets key ((now, OpReset raw) # cs) = (if limiterKey raw = key then 1 else 0) + client_resets key cs"

definition allowed :: "string \<Rightarrow> (string \<times> bool) list \<Rightarrow> int" where
  "allowed key answers = int (length (filter (\<lambda>(k, ok). k = key \<and> ok) answers))"

text \<open>
  How many calls of \<open>key\<close> can still be allowed up to the instant \<open>e\<close>: what is left of the current
  window, and one window more when the current one ends before \<open>e\<close>.
\<close>

definition quota :: "int \<Rightarrow> instant \<Rightarrow> string \<Rightarrow> limit_table \<Rightarrow> int" where
  "quota m e key T = (case T key of None \<Rightarrow> m
     | Some (c, r) \<Rightarrow> if r < e then max 0 (m - c) + m else max 0 (m - c))"

definition table_counts_ok :: "limit_table \<Rightarrow> bool" where
  "table_counts_ok T \<longleftrightarrow> (\<forall>k c r. T k = Some (c, r) \<longrightarrow> 0 \<le> c)"

lemma table_allow_counts: "table_counts_ok T \<Longrightarrow> table_counts_ok (snd (table_allow now k m T))"
proof -
  assume ok: "table_counts_ok T"
  have "0 \<le> c + 1" if "T k = Some (c, r)" for c r
  proof -
    have "0 \<le> c" using ok that unfolding table_counts_ok_def by blast
    then show ?thesis by simp
  qed
  with ok show ?thesis
    by (auto simp: table_counts_ok_def table_allow_def Let_def split: option.splits if_splits)
qed

lemma limiter_reach_counts: "limiter_reach now L \<Longrightarrow> table_counts_ok (table_of L)"
proof (induction rule: limiter_reach.induct)
  case (zero now)
  then show ?case by (simp add: table_counts_ok_def table_of_def look_def limiter_zero_def)
next
  case (allow now L now' raw m)
  have "table_of (snd (limiter_Allow now' raw m L)) = snd (table_allow now' (limiterKey raw) m (table_of L))"
    using limiter_Allow_refines(2) [OF limiter_reach_inv [OF allow(1)] allow(2), of raw m] by (metis snd_conv)
  with allow.IH show ?case by (simp add: table_allow_counts)
next
  case (reset now L now' raw)
  then show ?case
    using limiter_Reset_refines(2) [OF limiter_reach_inv [OF reset(1)], of raw] by (simp add: table_counts_ok_def)
qed

lemma table_allow_quota:
  assumes "table_counts_ok T" "0 \<le> m" "k = key \<longrightarrow> v \<le> m" "now \<le> e" "e \<le> now + minute"
  shows "quota m e key (snd (table_allow now k v T)) + (if k = key \<and> fst (table_allow now k v T) then 1 else 0)
    \<le> quota m e key T"
  using assms
  by (auto simp: table_allow_def quota_def table_counts_ok_def Let_def split: option.splits if_splits)

lemma quota_nonneg: "0 \<le> m \<Longrightarrow> 0 \<le> quota m e key T"
  by (auto simp: quota_def split: option.splits)

lemma quota_reset: "0 \<le> m \<Longrightarrow> quota m e key (T(k := None)) \<le> quota m e key T + (if k = key then m else 0)"
  using quota_nonneg [of m e key T] by (auto simp: quota_def)

lemma quota_le: "table_counts_ok T \<Longrightarrow> 0 \<le> m \<Longrightarrow> quota m e key T \<le> 2 * m"
  by (force simp: quota_def table_counts_ok_def split: option.splits)

lemma limiter_calls_quota:
  "limiter_reach now L \<Longrightarrow> sorted (now # map fst cs) \<Longrightarrow> 0 \<le> m \<Longrightarrow> (\<forall>(t, c) \<in> set cs. t \<le> e \<and> e \<le> t + minute) \<Longrightarrow>
     (\<forall>t raw v. (t, OpAllow raw v) \<in> set cs \<and> limiterKey raw = key \<longrightarrow> v \<le> m) \<Longrightarrow>
     allowed key (limiter_calls cs L) \<le> quota m e key (table_of L) + client_resets key cs * m"
proof (induction key cs arbitrary: now L rule: client_resets.induct)
  case (1 key)
  then show ?case by (simp add: allowed_def quota_nonneg)
next
  case (2 key t raw v cs)
  let ?L = "snd (limiter_Allow t raw v L)" and ?ok = "fst (limiter_Allow t raw v L)"
  have le: "now \<le> t" using 2(3) by simp
  have ref: "(?ok, table_of ?L) = table_allow t (limiterKey raw) v (table_of L)"
    by (rule limiter_Allow_refines(2) [OF limiter_reach_inv [OF 2(2)] le])
  then have eq: "table_of ?L = snd (table_allow t (limiterKey raw) v (table_of L))"
    "?ok = fst (table_allow t (limiterKey raw) v (table_of L))" by (metis snd_conv, metis fst_conv)
  have step: "quota m e key (table_of ?L) + (if limiterKey raw = key \<and> ?ok then 1 else 0) \<le> quota m e key (table_of L)"
    unfolding eq by (rule table_allow_quota [OF limiter_reach_counts [OF 2(2)] 2(4)]) (use 2(5,6) in auto)
  have "allowed key (limiter_calls cs ?L) \<le> quota m e key (table_of ?L) + client_resets key cs * m"
    by (rule 2(1) [OF limiter_reach.allow [OF 2(2) le] _ 2(4)]) (use 2(3,5,6) in auto)
  with step show ?case by (auto simp: allowed_def)
next
  case (3 key t raw cs)
  have reach: "limiter_reach t (limiter_Reset raw L)"
    by (rule limiter_reach.reset [OF 3(2)]) (use 3(3) in simp)
  have "allowed key (limiter_calls cs (limiter_Reset raw L)) \<le>
      quota m e key (table_of (limiter_Reset raw L)) + client_resets key cs * m"
    by (rule 3(1) [OF reach _ 3(4)]) (use 3(3,5,6) in auto)
  also have "quota m e key (table_of (limiter_Reset raw L)) \<le> quota m e key (table_of L) + (if limiterKey raw = key then m else 0)"
    unfolding limiter_Reset_refines(2) [OF limiter_reach_inv [OF 3(2)]] by (rule quota_reset [OF 3(4)])
  finally show ?case by (auto simp: algebra_simps)
qed

section \<open>Properties\<close>

text \<open>
  C10.  The limiter, with its linked list and its map into it, answers and changes exactly as the
  plain table does, at any time from any state it can be in, and it tracks at most 4096 clients.
\<close>

theorem limiter_refines_table:
  assumes "limiter_reach now L" and "now \<le> now'"
  shows "(fst (limiter_Allow now' raw m L), table_of (snd (limiter_Allow now' raw m L))) =
      table_allow now' (limiterKey raw) m (table_of L)
    \<and> table_of (limiter_Reset raw L) = (table_of L)(limiterKey raw := None)
    \<and> TrackedClients L = card (dom (table_of L)) \<and> TrackedClients L \<le> trackedClientLimit"
  using limiter_Allow_refines(2) [OF limiter_reach_inv [OF assms(1)] assms(2)]
    limiter_Reset_refines(2) [OF limiter_reach_inv [OF assms(1)]] table_card [OF limiter_reach_inv [OF assms(1)]]
    limiter_reach_inv [OF assms(1)]
  by (simp add: TrackedClients_def limiter_inv_def)


lemma limiterKey_c: "limiterKey ''c'' = ''c''"
  by code_simp

theorem limiter_refines_table_witness:
  "fst (limiter_Allow 5 ''c'' 1 limiter_zero) \<and> TrackedClients limiter_zero = 0"
  using limiter_refines_table [OF limiter_reach.zero, of 0 5 "''c''" 1]
  by (simp add: limiterKey_c table_of_def limiter_zero_def look_def table_allow_def TrackedClients_def trackedClientLimit_def)

lemma limiterKey_d: "limiterKey ''d'' = ''d''"
  by code_simp


end
