(* ===== verification/Tripwire.thy ===== *)
theory Tripwire
  imports Addresses
begin

text \<open>
  The quarantine for public sources: packages/httpguard/public.go and the guard of public_http.go.
  A source that probes for scanner paths or fails to sign in too often within a minute is blocked
  for 15 minutes, and so is an IPv6 network with 20 strikes from 4 sources.  The tables are bounded;
  what does not fit is counted together.  A missing entry reads as the zero value, whose instants
  are Go's zero time, before every \<open>now\<close>; so the set of a prefix entry is allocated before it is
  written, and the empty list stands for it.
\<close>

section \<open>State\<close>

definition publicQuarantine :: duration where "publicQuarantine = 15 * minute"
definition trackedSourceLimit :: nat where "trackedSourceLimit = 4096"
definition trackedPrefixLimit :: nat where "trackedPrefixLimit = 1024"
definition trackedPrefixSources :: nat where "trackedPrefixSources = 32"

record tripwire_source =
  ts_strikes :: int
  ts_reset :: instant
  ts_blocked :: instant

record tripwire_prefix =
  tp_strikes :: int
  tp_reset :: instant
  tp_blocked :: instant
  tp_sources :: "string list"

definition zero_source :: tripwire_source where
  "zero_source = \<lparr>ts_strikes = 0, ts_reset = 0, ts_blocked = 0\<rparr>"

definition zero_prefix :: tripwire_prefix where
  "zero_prefix = \<lparr>tp_strikes = 0, tp_reset = 0, tp_blocked = 0, tp_sources = []\<rparr>"

record tripwire =
  tw_sources :: "(string, tripwire_source) gomap"
  tw_prefixes :: "(string, tripwire_prefix) gomap"
  tw_overflow :: tripwire_source

definition tripwire_zero :: tripwire where
  "tripwire_zero = \<lparr>tw_sources = [], tw_prefixes = [], tw_overflow = zero_source\<rparr>"

section \<open>Strikes\<close>

definition tripwire_Blocked :: "string \<Rightarrow> instant \<Rightarrow> tripwire \<Rightarrow> bool" where
  "tripwire_Blocked key now T \<longleftrightarrow>
     now < ts_blocked (mget0 zero_source (tw_sources T) key)
     \<or> now < tp_blocked (mget0 zero_prefix (tw_prefixes T) (abusePrefix key))
     \<or> map_of (tw_sources T) key = None \<and> length (tw_sources T) \<ge> trackedSourceLimit
       \<and> now < ts_blocked (tw_overflow T)"

definition updateTripwireSource :: "tripwire_source \<Rightarrow> instant \<Rightarrow> int \<Rightarrow> tripwire_source \<times> bool" where
  "updateTripwireSource state now maximum =
     (let s1 = (if now > ts_reset state then zero_source\<lparr>ts_reset := now + minute\<rparr> else state);
          s2 = s1\<lparr>ts_strikes := ts_strikes s1 + 1\<rparr>;
          blocked = ts_strikes s2 \<ge> maximum
      in (if blocked then s2\<lparr>ts_blocked := now + publicQuarantine\<rparr> else s2, blocked))"

text \<open>The update of a prefix entry, and the bookkeeping around it.\<close>

definition set_add :: "'a \<Rightarrow> 'a list \<Rightarrow> 'a list" where
  "set_add x xs = (if x \<in> set xs then xs else xs @ [x])"

definition updateTripwirePrefix :: "string \<Rightarrow> tripwire_prefix \<Rightarrow> instant \<Rightarrow> tripwire_prefix \<times> bool" where
  "updateTripwirePrefix key state now =
     (let s1 = (if now > tp_reset state then zero_prefix\<lparr>tp_reset := now + minute\<rparr> else state);
          s2 = s1\<lparr>tp_strikes := tp_strikes s1 + 1\<rparr>;
          s3 = (if length (tp_sources s2) < trackedPrefixSources then s2\<lparr>tp_sources := set_add key (tp_sources s2)\<rparr> else s2);
          blocked = tp_strikes s3 \<ge> 20 \<and> length (tp_sources s3) \<ge> 4
      in (if blocked then s3\<lparr>tp_blocked := now + publicQuarantine\<rparr> else s3, blocked))"

definition prune_prefixes :: "instant \<Rightarrow> tripwire \<Rightarrow> tripwire" where
  "prune_prefixes now T = T\<lparr>tw_prefixes := mfilter (\<lambda>_ p. \<not> (now > tp_reset p \<and> now > tp_blocked p)) (tw_prefixes T)\<rparr>"

definition prune_sources :: "instant \<Rightarrow> tripwire \<Rightarrow> tripwire" where
  "prune_sources now T = T\<lparr>tw_sources := mfilter (\<lambda>_ s. \<not> (now > ts_reset s \<and> now > ts_blocked s)) (tw_sources T)\<rparr>"

definition strikePrefix :: "string \<Rightarrow> instant \<Rightarrow> tripwire \<Rightarrow> bool \<times> tripwire" where
  "strikePrefix key now T = (let prefix = abusePrefix key in
     if prefix = '''' then (False, T)
     else let found = map_of (tw_prefixes T) prefix \<noteq> None;
              state = mget0 zero_prefix (tw_prefixes T) prefix;
              T1 = (if \<not> found \<and> length (tw_prefixes T) \<ge> trackedPrefixLimit then prune_prefixes now T else T)
          in if \<not> found \<and> length (tw_prefixes T1) \<ge> trackedPrefixLimit then (False, T1)
             else (case updateTripwirePrefix key state now of (state', blocked) \<Rightarrow>
               (blocked, T1\<lparr>tw_prefixes := mput prefix state' (tw_prefixes T1)\<rparr>)))"

definition tripwire_Strike :: "string \<Rightarrow> instant \<Rightarrow> int \<Rightarrow> tripwire \<Rightarrow> bool \<times> tripwire" where
  "tripwire_Strike key now maximum T =
     (let found = map_of (tw_sources T) key \<noteq> None;
          T1 = (if \<not> found \<and> length (tw_sources T) \<ge> trackedSourceLimit then prune_sources now T else T)
      in if \<not> found \<and> length (tw_sources T1) \<ge> trackedSourceLimit
         then (case updateTripwireSource (tw_overflow T1) now maximum of (state, blocked) \<Rightarrow>
           (blocked, T1\<lparr>tw_overflow := state\<rparr>))
         else (case updateTripwireSource (mget0 zero_source (tw_sources T1) key) now maximum of (state, blocked) \<Rightarrow>
           let T2 = T1\<lparr>tw_sources := mput key state (tw_sources T1)\<rparr>
           in if blocked then (True, T2) else strikePrefix key now T2))"

section \<open>Requests\<close>

definition suspicious_prefixes :: "string list" where
  "suspicious_prefixes = [''/.env'', ''/.git'', ''/.aws'', ''/.ssh'', ''/wp-'', ''/wordpress'', ''/phpmyadmin'', ''/cgi-bin'',
     ''/server-status'', ''/actuator'', ''/vendor/phpunit'']"

definition SuspiciousPublicPath :: "string \<Rightarrow> bool" where
  "SuspiciousPublicPath path = (let p = map lower_rune (runes path) in
     list_ex (\<lambda>prefix. p = map byte prefix \<or> has_prefix p (map byte (prefix @ ''/'')) \<or> has_prefix p (map byte (prefix @ ''.''))
        \<or> has_suffix prefix ''-'' \<and> has_prefix p (map byte prefix)) suspicious_prefixes)"

definition credential_paths :: "string list" where
  "credential_paths = [''/login'', ''/login/mfa'', ''/api/v1/session'', ''/auth/passkeys/login/finish'',
     ''/api/v1/passkeys/login/finish'', ''/Users/AuthenticateByName'', ''/Users/AuthenticateWithQuickConnect'']"

definition CredentialAttempt :: "string \<Rightarrow> string \<Rightarrow> bool" where
  "CredentialAttempt method path = (if method \<noteq> ''POST'' then False else path \<in> set credential_paths)"

definition ValidPublicRange :: "string list \<Rightarrow> bool" where
  "ValidPublicRange vs =
     (if vs = [] then True
      else if length vs \<noteq> 1 \<or> CHR '','' \<in> set (vs ! 0) then False
      else (case cut CHR ''='' (trim_space (vs ! 0)) of (unit, interval, found) \<Rightarrow>
        if \<not> found \<or> \<not> equal_fold_ascii unit ''bytes'' \<or> length (filter (\<lambda>c. c = CHR ''-'') interval) \<noteq> 1 then False
        else (case cut CHR ''-'' interval of (start, end', _) \<Rightarrow>
          if start = '''' \<and> end' = '''' then False
          else (case (if start \<noteq> '''' then parse_uint64 start else Some 0) of
              None \<Rightarrow> False
            | Some first \<Rightarrow> (case (if end' \<noteq> '''' then parse_uint64 end' else Some 0) of
                None \<Rightarrow> False
              | Some final \<Rightarrow> start = '''' \<or> end' = '''' \<or> first \<le> final)))))"

text \<open>
  One request at the guard.  \<open>guard_admit\<close> is the check of the quarantine and what it decides, \<open>guard_before\<close> is all that
  happens before the application runs, and \<open>guard_after\<close> is what happens with the status of a watched sign-in
  afterwards.  \<open>Blocked\<close> and \<open>Strike\<close> take the lock each on their own, so other requests may come in between the check
  and a strike.  The audit calls are part of the result.
\<close>

record public_request =
  pr_public :: bool
  pr_method :: string
  pr_path :: string
  pr_remote :: string
  pr_contentLength :: int
  pr_transferEncoding :: "string list"
  pr_range :: "string list"

datatype guard_gate = GateForward | GateQuarantined | GateProbe string instant | GateWatch string instant

definition guard_admit :: "public_request \<Rightarrow> instant \<Rightarrow> tripwire \<Rightarrow> guard_gate" where
  "guard_admit r now T =
     (if \<not> pr_public r then GateForward
      else let key = RemoteHost (pr_remote r) in
        if tripwire_Blocked key now T then GateQuarantined
        else if SuspiciousPublicPath (pr_path r) then GateProbe key now
        else if \<not> CredentialAttempt (pr_method r) (pr_path r) then GateForward
        else GateWatch key now)"

datatype guard_action = Forward | Watch string instant | Quarantined | NotFound bool

definition guard_before :: "public_request \<Rightarrow> instant \<Rightarrow> tripwire \<Rightarrow> guard_action \<times> tripwire" where
  "guard_before r now T = (case guard_admit r now T of
     GateForward \<Rightarrow> (Forward, T)
   | GateQuarantined \<Rightarrow> (Quarantined, T)
   | GateProbe key t \<Rightarrow> (case tripwire_Strike key t 3 T of (struck, T') \<Rightarrow> (NotFound struck, T'))
   | GateWatch key t \<Rightarrow> (Watch key t, T))"

definition guard_after :: "string \<Rightarrow> instant \<Rightarrow> nat \<Rightarrow> tripwire \<Rightarrow> bool \<times> tripwire" where
  "guard_after key now status T =
     (if status = 401 \<or> status = 403 then tripwire_Strike key now 10 T else (False, T))"

datatype limit_action = Pass | Fail nat | Enter string

definition limit_before :: "public_request \<Rightarrow> limit_action" where
  "limit_before r =
     (if \<not> pr_public r then Pass
      else if (pr_method r = ''GET'' \<or> pr_method r = ''HEAD'') \<and> (pr_contentLength r \<noteq> 0 \<or> length (pr_transferEncoding r) \<noteq> 0)
      then Fail 400
      else if (pr_method r = ''GET'' \<or> pr_method r = ''HEAD'') \<and> \<not> ValidPublicRange (pr_range r) then Fail 416
      else Enter (RemoteHost (pr_remote r)))"

text \<open>The writer that remembers the status: what it passes on to the connection.\<close>

record status_writer =
  sw_status :: nat
  sw_headers :: "nat list"

definition sw_WriteHeader :: "nat \<Rightarrow> status_writer \<Rightarrow> status_writer" where
  "sw_WriteHeader status w = (if sw_status w \<noteq> 0 then w
     else w\<lparr>sw_status := status, sw_headers := sw_headers w @ [status]\<rparr>)"

definition sw_Write :: "status_writer \<Rightarrow> status_writer" where
  "sw_Write w = (if sw_status w = 0 then sw_WriteHeader 200 w else w)"

section \<open>The grammar of ranges\<close>

lemma decode_rune_conts:
  assumes "x \<in> set (take (snd (decode_rune (b # bs)) - 1) bs)"
  shows "0x80 \<le> x"
proof -
  have d2: "0x80 \<le> x" if "decode2 (b # bs) = Some (r, n)" "x \<in> set (take (n - 1) bs)" for r n
    using that by (auto simp: decode2_def is_cont_def split: list.splits if_splits)
  have d3: "0x80 \<le> x" if "decode3 (b # bs) = Some (r, n)" "x \<in> set (take (n - 1) bs)" for r n
    using that by (auto simp: decode3_def is_cont_def split: list.splits if_splits)
  have d4: "0x80 \<le> x" if "decode4 (b # bs) = Some (r, n)" "x \<in> set (take (n - 1) bs)" for r n
    using that by (auto simp: decode4_def is_cont_def split: list.splits if_splits)
  obtain r n where rn: "decode_rune (b # bs) = (r, n)" by fastforce
  have "n = 1 \<or> decode2 (b # bs) = Some (r, n) \<or> decode3 (b # bs) = Some (r, n) \<or> decode4 (b # bs) = Some (r, n)"
    using rn by (simp add: decode_rune_def split: if_splits option.splits)
  with assms d2 d3 d4 show ?thesis by (auto simp: rn)
qed

lemma ascii_in_runes: "x \<in> set bs \<Longrightarrow> x < 0x80 \<Longrightarrow> x \<in> set (runes_bytes bs)"
proof (induction bs rule: runes_bytes.induct)
  case 1
  then show ?case by simp
next
  case (2 b bs)
  let ?n = "snd (decode_rune (b # bs)) - 1"
  show ?case
  proof (cases "x = b")
    case True
    with 2(3) show ?thesis by (simp add: decode_rune_def)
  next
    case False
    with 2(2) have "x \<in> set bs" by simp
    then have "x \<in> set (take ?n bs) \<or> x \<in> set (drop ?n bs)"
      by (metis Un_iff append_take_drop_id set_append)
    with decode_rune_conts [of x b bs] 2(3) have "x \<in> set (drop ?n bs)" by auto
    with 2(1,3) show ?thesis by simp
  qed
qed

lemma equal_fold_no_ascii:
  assumes "equal_fold_ascii u l" and "byte c < 0x80" and "fold_rune (byte c) \<notin> set (map byte l)"
  shows "c \<notin> set u"
proof
  assume "c \<in> set u"
  then have "byte c \<in> set (runes u)" using assms(2) by (auto simp: runes_def intro: ascii_in_runes)
  then have "fold_rune (byte c) \<in> set (map fold_rune (runes u))" by simp
  with assms(1,3) show False by (simp add: equal_fold_ascii_def)
qed

definition range_grammar :: "string \<Rightarrow> bool" where
  "range_grammar v \<longleftrightarrow> (\<exists>unit a b. trim_space v = unit @ ''='' @ a @ ''-'' @ b \<and> equal_fold_ascii unit ''bytes''
     \<and> list_all is_digit a \<and> list_all is_digit b \<and> (a \<noteq> [] \<or> b \<noteq> [])
     \<and> dec_value a < 2 ^ 64 \<and> dec_value b < 2 ^ 64 \<and> (a \<noteq> [] \<longrightarrow> b \<noteq> [] \<longrightarrow> dec_value a \<le> dec_value b))"

definition range_interval :: "string \<Rightarrow> bool" where
  "range_interval interval = (case cut CHR ''-'' interval of (start, end', _) \<Rightarrow>
     if start = '''' \<and> end' = '''' then False
     else (case (if start \<noteq> '''' then parse_uint64 start else Some 0) of
         None \<Rightarrow> False
       | Some first \<Rightarrow> (case (if end' \<noteq> '''' then parse_uint64 end' else Some 0) of
           None \<Rightarrow> False
         | Some final \<Rightarrow> start = '''' \<or> end' = '''' \<or> first \<le> final)))"

lemma count_one_split:
  "length (filter (\<lambda>c. c = x) s) = 1 \<longleftrightarrow> (\<exists>a b. s = a @ x # b \<and> x \<notin> set a \<and> x \<notin> set b)"
proof
  assume one: "length (filter (\<lambda>c. c = x) s) = 1"
  then have "x \<in> set s" by (induction s) (auto split: if_splits)
  then obtain a b where "s = a @ x # b" "x \<notin> set a" by (meson split_list_first)
  with one show "\<exists>a b. s = a @ x # b \<and> x \<notin> set a \<and> x \<notin> set b" by (auto simp: filter_empty_conv)
next
  assume "\<exists>a b. s = a @ x # b \<and> x \<notin> set a \<and> x \<notin> set b"
  then show "length (filter (\<lambda>c. c = x) s) = 1" by (auto simp: filter_empty_conv)
qed

lemma parse_part: "(if s \<noteq> '''' then parse_uint64 s else Some 0) =
    (if list_all is_digit s \<and> dec_value s < 2 ^ 64 then Some (dec_value s) else None)"
  by (auto simp: parse_uint64_def dec_value_def)

lemma range_interval_iff:
  assumes "CHR ''-'' \<notin> set a"
  shows "range_interval (a @ CHR ''-'' # b) \<longleftrightarrow> (a \<noteq> [] \<or> b \<noteq> []) \<and> list_all is_digit a \<and> list_all is_digit b
     \<and> dec_value a < 2 ^ 64 \<and> dec_value b < 2 ^ 64 \<and> (a \<noteq> [] \<longrightarrow> b \<noteq> [] \<longrightarrow> dec_value a \<le> dec_value b)"
  by (auto simp: range_interval_def cut_found [OF assms] parse_part)

lemma digits_no_dash: "list_all is_digit a \<Longrightarrow> CHR ''-'' \<notin> set a"
  by (auto simp: list_all_iff is_digit_def byte_def)

lemma ValidPublicRange_single:
  "ValidPublicRange [v] \<longleftrightarrow> CHR '','' \<notin> set v \<and> (case cut CHR ''='' (trim_space v) of (unit, interval, found) \<Rightarrow>
     found \<and> equal_fold_ascii unit ''bytes'' \<and> length (filter (\<lambda>c. c = CHR ''-'') interval) = 1 \<and> range_interval interval)"
  by (auto simp: ValidPublicRange_def range_interval_def [symmetric] split: prod.splits)

lemma fold_eq_bytes: "byte CHR ''='' < 0x80" "fold_rune (byte CHR ''='') \<notin> set (map byte ''bytes'')"
  by (simp_all add: byte_def fold_rune_def)

lemma range_grammar_iff: "ValidPublicRange [v] \<longleftrightarrow> CHR '','' \<notin> set v \<and> range_grammar v"
proof -
  obtain u i f where c: "cut CHR ''='' (trim_space v) = (u, i, f)" by (cases "cut CHR ''='' (trim_space v)")
  have "(f \<and> equal_fold_ascii u ''bytes'' \<and> length (filter (\<lambda>c. c = CHR ''-'') i) = 1 \<and> range_interval i) \<longleftrightarrow> range_grammar v"
  proof
    assume h: "f \<and> equal_fold_ascii u ''bytes'' \<and> length (filter (\<lambda>c. c = CHR ''-'') i) = 1 \<and> range_interval i"
    then obtain a b where i: "i = a @ CHR ''-'' # b" "CHR ''-'' \<notin> set a" unfolding count_one_split by blast
    have "trim_space v = u @ ''='' @ a @ ''-'' @ b" using cut_eq [OF c] h i by simp
    with h range_interval_iff [OF i(2), of b] i(1) show "range_grammar v" unfolding range_grammar_def by blast
  next
    assume "range_grammar v"
    then obtain u' a b where g: "trim_space v = u' @ CHR ''='' # (a @ CHR ''-'' # b)" "equal_fold_ascii u' ''bytes''"
        "list_all is_digit a" "list_all is_digit b" and
      num: "(a \<noteq> [] \<or> b \<noteq> [])" "dec_value a < 2 ^ 64" "dec_value b < 2 ^ 64" "a \<noteq> [] \<longrightarrow> b \<noteq> [] \<longrightarrow> dec_value a \<le> dec_value b"
      by (auto simp: range_grammar_def)
    have "u = u' \<and> i = a @ CHR ''-'' # b \<and> f"
      using c cut_found [OF equal_fold_no_ascii [OF g(2) fold_eq_bytes]] by (simp add: g(1))
    moreover have "length (filter (\<lambda>c. c = CHR ''-'') (a @ CHR ''-'' # b)) = 1"
      unfolding count_one_split using g(3,4) digits_no_dash by blast
    ultimately show "f \<and> equal_fold_ascii u ''bytes'' \<and> length (filter (\<lambda>c. c = CHR ''-'') i) = 1 \<and> range_interval i"
      using g num range_interval_iff [OF digits_no_dash [OF g(3)], of b] by simp
  qed
  then show ?thesis by (simp add: ValidPublicRange_single c)
qed

section \<open>Quarantine\<close>

text \<open>A source or its network is marked as blocked until \<open>b\<close> at least, by an entry of its own.\<close>

definition quarantined :: "instant \<Rightarrow> string \<Rightarrow> tripwire \<Rightarrow> bool" where
  "quarantined b key T \<longleftrightarrow> (\<exists>s. map_of (tw_sources T) key = Some s \<and> b \<le> ts_blocked s)
     \<or> abusePrefix key \<noteq> '''' \<and> (\<exists>p. map_of (tw_prefixes T) (abusePrefix key) = Some p \<and> b \<le> tp_blocked p)"

definition tripwire_maps :: "tripwire \<Rightarrow> bool" where
  "tripwire_maps T \<longleftrightarrow> mwf (tw_sources T) \<and> mwf (tw_prefixes T)"

lemma quarantined_Blocked: "quarantined b key T \<Longrightarrow> now < b \<Longrightarrow> tripwire_Blocked key now T"
  by (auto simp: quarantined_def tripwire_Blocked_def mget0_def)

lemma prune_simps [simp]:
  "tw_prefixes (prune_sources now T) = tw_prefixes T" "tw_overflow (prune_sources now T) = tw_overflow T"
  "tw_sources (prune_prefixes now T) = tw_sources T" "tw_overflow (prune_prefixes now T) = tw_overflow T"
  by (simp_all add: prune_sources_def prune_prefixes_def)

lemma prune_source_kept:
  "tripwire_maps T \<Longrightarrow> map_of (tw_sources T) k = Some s \<Longrightarrow> now \<le> ts_blocked s \<Longrightarrow>
     map_of (tw_sources (prune_sources now T)) k = Some s"
  by (simp add: prune_sources_def tripwire_maps_def map_of_mfilter)

lemma prune_prefix_kept:
  "tripwire_maps T \<Longrightarrow> map_of (tw_prefixes T) k = Some p \<Longrightarrow> now \<le> tp_blocked p \<Longrightarrow>
     map_of (tw_prefixes (prune_prefixes now T)) k = Some p"
  by (simp add: prune_prefixes_def tripwire_maps_def map_of_mfilter)

lemma prune_maps: "tripwire_maps T \<Longrightarrow> tripwire_maps (prune_sources now T)" "tripwire_maps T \<Longrightarrow> tripwire_maps (prune_prefixes now T)"
  by (auto simp: tripwire_maps_def prune_sources_def prune_prefixes_def)

lemma strikePrefix_sources [simp]: "tw_sources (snd (strikePrefix key now T)) = tw_sources T"
  "tw_overflow (snd (strikePrefix key now T)) = tw_overflow T"
  by (auto simp: strikePrefix_def Let_def split: prod.splits)

lemma strikePrefix_maps: "tripwire_maps T \<Longrightarrow> tripwire_maps (snd (strikePrefix key now T))"
  using prune_maps(2) [of T now] by (auto simp: strikePrefix_def Let_def tripwire_maps_def split: prod.splits)

lemma Strike_maps: "tripwire_maps T \<Longrightarrow> tripwire_maps (snd (tripwire_Strike key now m T))"
proof -
  assume "tripwire_maps T"
  then have m: "tripwire_maps (T1\<lparr>tw_sources := mput key s (tw_sources T1)\<rparr>)" "tripwire_maps (T1\<lparr>tw_overflow := o'\<rparr>)"
    if "T1 = T \<or> T1 = prune_sources now T" for T1 s o'
    using that prune_maps(1) [of T now] by (auto simp: tripwire_maps_def)
  then show ?thesis
    by (auto simp: tripwire_Strike_def Let_def split: prod.splits intro!: strikePrefix_maps)
qed

lemma strikePrefix_kept:
  assumes "tripwire_maps T" "map_of (tw_prefixes T) pre = Some p" "pre \<noteq> abusePrefix key" "now \<le> tp_blocked p"
  shows "map_of (tw_prefixes (snd (strikePrefix key now T))) pre = Some p"
  using assms prune_prefix_kept [OF assms(1,2,4)] by (auto simp: strikePrefix_def Let_def split: prod.splits)

lemma Strike_kept_source:
  assumes "tripwire_maps T" "map_of (tw_sources T) k = Some s" "k \<noteq> key" "now \<le> ts_blocked s"
  shows "map_of (tw_sources (snd (tripwire_Strike key now m T))) k = Some s"
  using assms prune_source_kept [OF assms(1,2,4)] by (auto simp: tripwire_Strike_def Let_def split: prod.splits)

lemma Strike_kept_prefix:
  assumes maps: "tripwire_maps T" and p: "map_of (tw_prefixes T) pre = Some p" "pre \<noteq> abusePrefix key" "now \<le> tp_blocked p"
  shows "map_of (tw_prefixes (snd (tripwire_Strike key now m T))) pre = Some p"
proof -
  have "map_of (tw_prefixes (snd (strikePrefix key now (T1\<lparr>tw_sources := mput key s (tw_sources T1)\<rparr>)))) pre = Some p"
    if "T1 = T \<or> T1 = prune_sources now T" for T1 s
    by (rule strikePrefix_kept) (use that maps p prune_maps(1) [of T now] in \<open>auto simp: tripwire_maps_def\<close>)
  then show ?thesis using p by (auto simp: tripwire_Strike_def Let_def split: prod.splits)
qed

lemma Strike_quarantines:
  assumes "tripwire_Strike key now m T = (True, T')" and "map_of (tw_sources T') key \<noteq> None"
  shows "quarantined (now + publicQuarantine) key T'"
proof -
  have upd: "b \<Longrightarrow> ts_blocked s = now + publicQuarantine" if "updateTripwireSource s0 now m = (s, b)" for s0 s b
    using that by (auto simp: updateTripwireSource_def Let_def)
  have pre: "quarantined (now + publicQuarantine) key T2" if "strikePrefix key now T1 = (True, T2)" for T1 T2
    using that by (auto simp: strikePrefix_def Let_def updateTripwirePrefix_def quarantined_def split: if_splits)
  show ?thesis
  proof (cases "map_of (tw_sources T) key = None \<and> length (tw_sources T) \<ge> trackedSourceLimit
      \<and> length (tw_sources (prune_sources now T)) \<ge> trackedSourceLimit")
    case True
    then have "map_of (tw_sources T') key = None"
      using assms(1) by (auto simp: tripwire_Strike_def Let_def prune_sources_def map_of_eq_None_iff mfilter_def split: prod.splits)
    with assms(2) show ?thesis by simp
  next
    case False
    then show ?thesis
      using assms(1) upd pre by (auto simp: tripwire_Strike_def Let_def quarantined_def split: prod.splits if_splits)
  qed
qed

text \<open>
  Requests that interleave.  The system has the tables, and the requests that passed the check and may still strike: the
  probes and the watched sign-ins, with the source and the instant the guard read when they came.  A probe strikes later,
  a sign-in ends later with the status of the application.
\<close>

record guard_system =
  gs_table :: tripwire
  gs_probes :: "(string \<times> instant) list"
  gs_signins :: "(string \<times> instant) list"

datatype guard_event = Arrive public_request instant | ProbeStrike string instant | SignInDone string instant nat

definition guard_idle :: guard_system where
  "guard_idle = \<lparr>gs_table = tripwire_zero, gs_probes = [], gs_signins = []\<rparr>"

fun guard_exec :: "guard_event \<Rightarrow> guard_system \<Rightarrow> guard_system option" where
  "guard_exec (Arrive r now) G = Some (case guard_admit r now (gs_table G) of
     GateProbe key t \<Rightarrow> G\<lparr>gs_probes := (key, t) # gs_probes G\<rparr>
   | GateWatch key t \<Rightarrow> G\<lparr>gs_signins := (key, t) # gs_signins G\<rparr>
   | _ \<Rightarrow> G)"
| "guard_exec (ProbeStrike key t) G = (if (key, t) \<in> set (gs_probes G)
     then Some (G\<lparr>gs_table := snd (tripwire_Strike key t 3 (gs_table G)), gs_probes := remove1 (key, t) (gs_probes G)\<rparr>) else None)"
| "guard_exec (SignInDone key t status) G = (if (key, t) \<in> set (gs_signins G)
     then Some (G\<lparr>gs_table := snd (guard_after key t status (gs_table G)), gs_signins := remove1 (key, t) (gs_signins G)\<rparr>) else None)"

fun guard_run :: "guard_event list \<Rightarrow> guard_system \<Rightarrow> guard_system option" where
  "guard_run [] G = Some G"
| "guard_run (e # es) G = (case guard_exec e G of None \<Rightarrow> None | Some G1 \<Rightarrow> guard_run es G1)"

fun event_instant :: "guard_event \<Rightarrow> instant" where
  "event_instant (Arrive r t) = t" | "event_instant (ProbeStrike key t) = t" | "event_instant (SignInDone key t status) = t"

text \<open>The event whose strike begins a quarantine: the source and the instant it strikes for.\<close>

fun event_blocks :: "guard_event \<Rightarrow> tripwire \<Rightarrow> (string \<times> instant) option" where
  "event_blocks (Arrive r t) T = None"
| "event_blocks (ProbeStrike key t) T = (if fst (tripwire_Strike key t 3 T) then Some (key, t) else None)"
| "event_blocks (SignInDone key t status) T = (if fst (guard_after key t status T) then Some (key, t) else None)"

text \<open>A strike for a source of \<open>R\<close> by a request that was already past the check in the system \<open>G\<close>.\<close>

fun late_strike :: "(string \<Rightarrow> bool) \<Rightarrow> guard_system \<Rightarrow> guard_event \<Rightarrow> bool" where
  "late_strike R G (Arrive r t) = False"
| "late_strike R G (ProbeStrike key t) = (R key \<and> (key, t) \<in> set (gs_probes G))"
| "late_strike R G (SignInDone key t status) = (R key \<and> (key, t) \<in> set (gs_signins G) \<and> (status = 401 \<or> status = 403))"

definition same_network :: "string \<Rightarrow> string \<Rightarrow> bool" where
  "same_network key k \<longleftrightarrow> k = key \<or> abusePrefix k \<noteq> '''' \<and> abusePrefix k = abusePrefix key"

text \<open>
  A mark in the tables that blocks the sources of \<open>R\<close> until \<open>b\<close> and that no strike for another source removes.  It stands
  through any interleaving in which no request that was admitted before strikes for one of them.
\<close>

lemma in_remove1: "x \<in> set (remove1 y xs) \<Longrightarrow> x \<in> set xs"
  using set_remove1_subset by (rule subsetD)

locale standing_block =
  fixes P :: "tripwire \<Rightarrow> bool" and R :: "string \<Rightarrow> bool" and b :: instant
  assumes blocks: "P T \<Longrightarrow> R k \<Longrightarrow> t < b \<Longrightarrow> tripwire_Blocked k t T"
    and keeps: "tripwire_maps T \<Longrightarrow> P T \<Longrightarrow> \<not> R k \<Longrightarrow> t < b \<Longrightarrow> P (snd (tripwire_Strike k t m T))"
begin

definition standing :: "guard_system \<Rightarrow> guard_system \<Rightarrow> bool" where
  "standing G0 G \<longleftrightarrow> tripwire_maps (gs_table G) \<and> P (gs_table G)
     \<and> (\<forall>k t. (k, t) \<in> set (gs_probes G) \<longrightarrow> R k \<longrightarrow> (k, t) \<in> set (gs_probes G0))
     \<and> (\<forall>k t. (k, t) \<in> set (gs_signins G) \<longrightarrow> R k \<longrightarrow> (k, t) \<in> set (gs_signins G0))"

lemma admit_unrelated:
  assumes "P T" "t < b"
  shows "guard_admit r t T = GateProbe k u \<Longrightarrow> \<not> R k" "guard_admit r t T = GateWatch k u \<Longrightarrow> \<not> R k"
  using blocks [OF assms(1) _ assms(2)] by (auto simp: guard_admit_def Let_def split: if_splits)

lemma exec_standing:
  assumes st: "standing G0 G" and ex: "guard_exec e G = Some G'" and t: "event_instant e < b" and late: "\<not> late_strike R G0 e"
  shows "standing G0 G'"
proof (cases e)
  case (Arrive r u)
  have "P (gs_table G)" "u < b" using st t by (simp_all add: standing_def Arrive)
  note new = admit_unrelated [OF this]
  show ?thesis using st ex new by (auto simp: Arrive standing_def split: guard_gate.splits)
next
  case (ProbeStrike k u)
  have "\<not> R k" using st ex late by (auto simp: ProbeStrike standing_def split: if_splits)
  with st ex keeps [of "gs_table G" k u 3] t Strike_maps [of "gs_table G" k u 3] show ?thesis
    by (auto simp: ProbeStrike standing_def split: if_splits dest!: in_remove1)
next
  case (SignInDone k u status)
  show ?thesis
  proof (cases "status = 401 \<or> status = 403")
    case True
    then have "\<not> R k" using st ex late by (auto simp: SignInDone standing_def split: if_splits)
    with st ex keeps [of "gs_table G" k u 10] t Strike_maps [of "gs_table G" k u 10] True show ?thesis
      by (auto simp: SignInDone standing_def guard_after_def split: if_splits dest!: in_remove1)
  next
    case False
    with st ex show ?thesis by (auto simp: SignInDone standing_def guard_after_def split: if_splits dest!: in_remove1)
  qed
qed

lemma run_standing:
  "standing G0 G \<Longrightarrow> guard_run es G = Some G' \<Longrightarrow> (\<forall>e \<in> set es. event_instant e < b \<and> \<not> late_strike R G0 e) \<Longrightarrow> standing G0 G'"
proof (induction es arbitrary: G)
  case Nil
  then show ?case by simp
next
  case (Cons e es)
  then obtain G1 where G1: "guard_exec e G = Some G1" "guard_run es G1 = Some G'" by (auto split: option.splits)
  have "standing G0 G1" by (rule exec_standing [OF Cons.prems(1) G1(1)]) (use Cons.prems(3) in auto)
  from Cons.IH [OF this G1(2)] Cons.prems(3) show ?case by simp
qed

lemma run_blocks:
  assumes "tripwire_maps (gs_table G)" "P (gs_table G)" "guard_run es G = Some G'"
    and "\<forall>e \<in> set es. event_instant e < b \<and> \<not> late_strike R G e" and "R k" "t < b"
  shows "tripwire_Blocked k t (gs_table G')"
proof -
  have "standing G G" using assms(1,2) by (simp add: standing_def)
  from run_standing [OF this assms(3,4)] have "P (gs_table G')" by (simp add: standing_def)
  from blocks [OF this assms(5,6)] show ?thesis .
qed

end

text \<open>The two marks: the entry of the source, which blocks that source, and the entry of its network, which blocks all of it.\<close>

definition source_mark :: "string \<Rightarrow> instant \<Rightarrow> tripwire \<Rightarrow> bool" where
  "source_mark key b T \<longleftrightarrow> (\<exists>s. map_of (tw_sources T) key = Some s \<and> b \<le> ts_blocked s)"

definition network_mark :: "string \<Rightarrow> instant \<Rightarrow> tripwire \<Rightarrow> bool" where
  "network_mark key b T \<longleftrightarrow> abusePrefix key \<noteq> '''' \<and> (\<exists>p. map_of (tw_prefixes T) (abusePrefix key) = Some p \<and> b \<le> tp_blocked p)"

interpretation source_block: standing_block "source_mark key b" "\<lambda>k. k = key" b for key b
proof unfold_locales
  fix T k t
  assume "source_mark key b T" "k = key" "t < b"
  then show "tripwire_Blocked k t T" by (auto simp: source_mark_def tripwire_Blocked_def mget0_def)
next
  fix T k t m
  assume "tripwire_maps T" "source_mark key b T" "k \<noteq> key" "t < b"
  then show "source_mark key b (snd (tripwire_Strike k t m T))"
    using Strike_kept_source [of T key _ k t m] unfolding source_mark_def by force
qed

interpretation network_block: standing_block "network_mark key b" "\<lambda>k. abusePrefix k \<noteq> '''' \<and> abusePrefix k = abusePrefix key" b for key b
proof unfold_locales
  fix T k t
  assume "network_mark key b T" "abusePrefix k \<noteq> '''' \<and> abusePrefix k = abusePrefix key" "t < b"
  then show "tripwire_Blocked k t T" by (auto simp: network_mark_def tripwire_Blocked_def mget0_def)
next
  fix T k t m
  assume h: "tripwire_maps T" "network_mark key b T" "\<not> (abusePrefix k \<noteq> '''' \<and> abusePrefix k = abusePrefix key)" "t < b"
  then have "abusePrefix key \<noteq> abusePrefix k" by (auto simp: network_mark_def)
  with h show "network_mark key b (snd (tripwire_Strike k t m T))"
    using Strike_kept_prefix [of T "abusePrefix key" _ k t m] unfolding network_mark_def by force
qed

lemma quarantined_marks: "quarantined b key T \<longleftrightarrow> source_mark key b T \<or> network_mark key b T"
  by (auto simp: quarantined_def source_mark_def network_mark_def)

lemma late_strike_mono: "late_strike R G e \<Longrightarrow> (\<And>k. R k \<Longrightarrow> R' k) \<Longrightarrow> late_strike R' G e"
  by (cases e) auto

lemma not_late_for:
  assumes "\<forall>e \<in> set es. event_instant e < b \<and> \<not> late_strike (same_network key) G e" "\<And>k. R k \<Longrightarrow> same_network key k"
  shows "\<forall>e \<in> set es. event_instant e < b \<and> \<not> late_strike R G e"
proof
  fix e
  assume e: "e \<in> set es"
  have "late_strike R G e \<Longrightarrow> late_strike (same_network key) G e" by (erule late_strike_mono) (rule assms(2))
  with e assms(1) show "event_instant e < b \<and> \<not> late_strike R G e" by blast
qed

lemma guard_run_quarantined:
  assumes maps: "tripwire_maps (gs_table G)" and qr: "quarantined b key (gs_table G)" and run: "guard_run es G = Some G'"
    and es: "\<forall>e \<in> set es. event_instant e < b \<and> \<not> late_strike (same_network key) G e" and t: "t < b"
  shows "tripwire_Blocked key t (gs_table G')"
  using qr unfolding quarantined_marks
proof
  assume m: "source_mark key b (gs_table G)"
  have "\<forall>e \<in> set es. event_instant e < b \<and> \<not> late_strike (\<lambda>k. k = key) G e"
    by (rule not_late_for [OF es]) (simp add: same_network_def)
  from source_block.run_blocks [OF maps m run this refl t] show ?thesis .
next
  assume m: "network_mark key b (gs_table G)"
  then have p: "abusePrefix key \<noteq> '''' \<and> abusePrefix key = abusePrefix key" by (simp add: network_mark_def)
  have "\<forall>e \<in> set es. event_instant e < b \<and> \<not> late_strike (\<lambda>k. abusePrefix k \<noteq> '''' \<and> abusePrefix k = abusePrefix key) G e"
    by (rule not_late_for [OF es]) (auto simp: same_network_def)
  from network_block.run_blocks [OF maps m run this p t] show ?thesis .
qed

lemma guard_exec_maps: "guard_exec e G = Some G' \<Longrightarrow> tripwire_maps (gs_table G) \<Longrightarrow> tripwire_maps (gs_table G')"
  by (cases e) (auto simp: guard_after_def Strike_maps split: guard_gate.splits if_splits)

lemma guard_run_maps: "guard_run es G = Some G' \<Longrightarrow> tripwire_maps (gs_table G) \<Longrightarrow> tripwire_maps (gs_table G')"
  by (induction es arbitrary: G) (auto split: option.splits dest: guard_exec_maps)

lemma event_blocks_quarantines:
  assumes "event_blocks e (gs_table G0) = Some (key, now)" "guard_exec e G0 = Some G" "map_of (tw_sources (gs_table G)) key \<noteq> None"
  shows "quarantined (now + publicQuarantine) key (gs_table G)"
proof (cases e)
  case (Arrive r t)
  with assms(1) show ?thesis by simp
next
  case (ProbeStrike k t)
  then have "tripwire_Strike key now 3 (gs_table G0) = (True, gs_table G)"
    using assms(1,2) by (auto simp: prod_eq_iff split: if_splits)
  from Strike_quarantines [OF this assms(3)] show ?thesis .
next
  case (SignInDone k t status)
  then have "tripwire_Strike key now 10 (gs_table G0) = (True, gs_table G)"
    using assms(1,2) by (auto simp: prod_eq_iff guard_after_def split: if_splits)
  from Strike_quarantines [OF this assms(3)] show ?thesis .
qed

section \<open>Bounded tables and no quarantine without strikes\<close>

definition source_ok :: "tripwire_source \<Rightarrow> bool" where
  "source_ok s \<longleftrightarrow> 0 \<le> ts_strikes s \<and> (ts_blocked s = 0 \<or> 3 \<le> ts_strikes s)"

definition prefix_ok :: "string \<Rightarrow> tripwire_prefix \<Rightarrow> bool" where
  "prefix_ok prefix p \<longleftrightarrow> distinct (tp_sources p) \<and> length (tp_sources p) \<le> trackedPrefixSources
     \<and> (\<forall>k \<in> set (tp_sources p). abusePrefix k = prefix)
     \<and> (tp_blocked p = 0 \<or> 20 \<le> tp_strikes p \<and> 4 \<le> length (tp_sources p))"

definition tripwire_inv :: "tripwire \<Rightarrow> bool" where
  "tripwire_inv T \<longleftrightarrow> tripwire_maps T
     \<and> length (tw_sources T) \<le> trackedSourceLimit \<and> length (tw_prefixes T) \<le> trackedPrefixLimit
     \<and> (\<forall>k s. map_of (tw_sources T) k = Some s \<longrightarrow> source_ok s)
     \<and> (\<forall>k p. map_of (tw_prefixes T) k = Some p \<longrightarrow> k \<noteq> '''' \<and> prefix_ok k p)
     \<and> source_ok (tw_overflow T)"

inductive tripwire_reach :: "tripwire \<Rightarrow> bool" where
  zero: "tripwire_reach tripwire_zero"
| before: "tripwire_reach T \<Longrightarrow> tripwire_reach (snd (guard_before r now T))"
| probe: "tripwire_reach T \<Longrightarrow> tripwire_reach (snd (tripwire_Strike key now 3 T))"
| after: "tripwire_reach T \<Longrightarrow> tripwire_reach (snd (guard_after key now status T))"

lemma source_ok_zero [simp]: "source_ok zero_source"
  by (simp add: source_ok_def zero_source_def)

lemma prefix_ok_zero [simp]: "prefix_ok k zero_prefix"
  by (simp add: prefix_ok_def zero_prefix_def)

lemma update_source_ok: "source_ok s \<Longrightarrow> 3 \<le> m \<Longrightarrow> source_ok (fst (updateTripwireSource s now m))"
  by (auto simp: source_ok_def updateTripwireSource_def Let_def zero_source_def)

lemma set_add_simps [simp]: "set (set_add x xs) = insert x (set xs)" "distinct (set_add x xs) \<longleftrightarrow> distinct xs"
  "length (set_add x xs) \<le> Suc (length xs)" "length xs \<le> length (set_add x xs)"
  by (auto simp: set_add_def)

lemma update_prefix_ok:
  assumes "prefix_ok (abusePrefix key) p"
  shows "prefix_ok (abusePrefix key) (fst (updateTripwirePrefix key p now))"
proof -
  have grow: "length (set_add key xs) \<le> trackedPrefixSources" if "length xs < trackedPrefixSources" for xs
    using that set_add_simps(3) [of key xs] by linarith
  have "4 \<le> length (set_add key xs)" if "4 \<le> length xs" for xs
    using that set_add_simps(4) [of xs key] by linarith
  then show ?thesis
    using assms grow by (auto simp: prefix_ok_def updateTripwirePrefix_def Let_def zero_prefix_def)
qed

lemma prune_inv: "tripwire_inv T \<Longrightarrow> tripwire_inv (prune_sources now T)" "tripwire_inv T \<Longrightarrow> tripwire_inv (prune_prefixes now T)"
proof -
  assume T: "tripwire_inv T"
  have m: "mwf (tw_sources T)" "mwf (tw_prefixes T)" using T by (auto simp: tripwire_inv_def tripwire_maps_def)
  show "tripwire_inv (prune_sources now T)"
    using T prune_maps(1) [of T now] m order_trans [OF length_mfilter_le]
    by (auto simp: tripwire_inv_def prune_sources_def map_of_mfilter split: option.splits if_splits)
  show "tripwire_inv (prune_prefixes now T)"
    using T prune_maps(2) [of T now] m order_trans [OF length_mfilter_le]
    by (auto simp: tripwire_inv_def prune_prefixes_def map_of_mfilter split: option.splits if_splits)
qed

lemma mget0_source_ok: "tripwire_inv T \<Longrightarrow> source_ok (mget0 zero_source (tw_sources T) k)"
  by (auto simp: tripwire_inv_def mget0_def split: option.splits)

lemma mget0_prefix_ok: "tripwire_inv T \<Longrightarrow> prefix_ok k (mget0 zero_prefix (tw_prefixes T) k)"
  by (auto simp: tripwire_inv_def mget0_def split: option.splits)

lemma put_source_inv:
  assumes "tripwire_inv T" "source_ok s" "map_of (tw_sources T) k \<noteq> None \<or> length (tw_sources T) < trackedSourceLimit"
  shows "tripwire_inv (T\<lparr>tw_sources := mput k s (tw_sources T)\<rparr>)"
  using assms by (auto simp: tripwire_inv_def tripwire_maps_def length_mput)

lemma put_prefix_inv:
  assumes "tripwire_inv T" "prefix_ok k p" "k \<noteq> ''''"
    "map_of (tw_prefixes T) k \<noteq> None \<or> length (tw_prefixes T) < trackedPrefixLimit"
  shows "tripwire_inv (T\<lparr>tw_prefixes := mput k p (tw_prefixes T)\<rparr>)"
  using assms by (auto simp: tripwire_inv_def tripwire_maps_def length_mput)

lemma strikePrefix_inv:
  assumes inv: "tripwire_inv T"
  shows "tripwire_inv (snd (strikePrefix key now T))"
proof (cases "abusePrefix key = ''''")
  case True
  with inv show ?thesis by (simp add: strikePrefix_def)
next
  case False
  let ?pre = "abusePrefix key"
  define T1 where "T1 = (if map_of (tw_prefixes T) ?pre = None \<and> length (tw_prefixes T) \<ge> trackedPrefixLimit then prune_prefixes now T else T)"
  let ?u = "updateTripwirePrefix key (mget0 zero_prefix (tw_prefixes T) ?pre) now"
  have i1: "tripwire_inv T1" using inv prune_inv(2) [OF inv, of now] by (simp add: T1_def)
  have s: "snd (strikePrefix key now T) = (if map_of (tw_prefixes T) ?pre = None \<and> length (tw_prefixes T1) \<ge> trackedPrefixLimit
      then T1 else T1\<lparr>tw_prefixes := mput ?pre (fst ?u) (tw_prefixes T1)\<rparr>)"
    using False by (cases "map_of (tw_prefixes T) ?pre") (simp_all add: strikePrefix_def Let_def case_prod_beta T1_def)
  show ?thesis
  proof (cases "map_of (tw_prefixes T) ?pre = None \<and> length (tw_prefixes T1) \<ge> trackedPrefixLimit")
    case True
    then show ?thesis using i1 by (simp add: s)
  next
    case more: False
    have "tripwire_inv (T1\<lparr>tw_prefixes := mput ?pre (fst ?u) (tw_prefixes T1)\<rparr>)"
      by (rule put_prefix_inv [OF i1 update_prefix_ok [OF mget0_prefix_ok [OF inv]] False]) (use more in \<open>auto simp: T1_def split: if_splits\<close>)
    with more show ?thesis by (auto simp: s)
  qed
qed

lemma Strike_inv:
  assumes inv: "tripwire_inv T" and m: "3 \<le> m"
  shows "tripwire_inv (snd (tripwire_Strike key now m T))"
proof -
  define T1 where "T1 = (if map_of (tw_sources T) key = None \<and> length (tw_sources T) \<ge> trackedSourceLimit then prune_sources now T else T)"
  let ?u = "updateTripwireSource (mget0 zero_source (tw_sources T1) key) now m"
  let ?o = "updateTripwireSource (tw_overflow T1) now m"
  have i1: "tripwire_inv T1" using inv prune_inv(1) [OF inv, of now] by (simp add: T1_def)
  have s: "snd (tripwire_Strike key now m T) =
      (if map_of (tw_sources T) key = None \<and> length (tw_sources T1) \<ge> trackedSourceLimit
       then T1\<lparr>tw_overflow := fst ?o\<rparr>
       else let T2 = T1\<lparr>tw_sources := mput key (fst ?u) (tw_sources T1)\<rparr> in
            if snd ?u then T2 else snd (strikePrefix key now T2))"
    by (cases "map_of (tw_sources T) key") (simp_all add: tripwire_Strike_def Let_def case_prod_beta T1_def)
  have ov: "tripwire_inv (T1\<lparr>tw_overflow := fst ?o\<rparr>)"
  proof -
    have "source_ok (tw_overflow T1)" using i1 by (simp only: tripwire_inv_def)
    from update_source_ok [OF this m, of now] i1 show ?thesis by (simp add: tripwire_inv_def tripwire_maps_def)
  qed
  show ?thesis
  proof (cases "map_of (tw_sources T) key = None \<and> length (tw_sources T1) \<ge> trackedSourceLimit")
    case True
    then show ?thesis using ov by (simp add: s)
  next
    case False
    have i2: "tripwire_inv (T1\<lparr>tw_sources := mput key (fst ?u) (tw_sources T1)\<rparr>)"
      by (rule put_source_inv [OF i1 update_source_ok [OF mget0_source_ok [OF i1] m]]) (use False in \<open>auto simp: T1_def split: if_splits\<close>)
    with strikePrefix_inv [OF i2, of key now] False show ?thesis
      by (auto simp: s Let_def)
  qed
qed

lemma tripwire_reach_inv: "tripwire_reach T \<Longrightarrow> tripwire_inv T"
proof (induction rule: tripwire_reach.induct)
  case zero
  show ?case by (simp add: tripwire_inv_def tripwire_zero_def tripwire_maps_def)
next
  case (before T r now)
  then show ?case using Strike_inv [of T 3] by (auto simp: guard_before_def case_prod_beta split: guard_gate.splits)
next
  case (probe T key now)
  then show ?case using Strike_inv [of T 3] by simp
next
  case (after T key now status)
  then show ?case using Strike_inv [of T 10] by (simp add: guard_after_def)
qed

section \<open>Properties\<close>


text \<open>
  C13.  Nobody is quarantined without cause, and the tables stay bounded, however requests interleave:
  a blocked source has 3 strikes itself, or its IPv6 network has 20 strikes with 4 different sources
  of that network among them, or the source is unknown while the table is full and the unknown sources
  together have 3.
\<close>

theorem tripwire_no_false_quarantine:
  assumes "tripwire_reach T"
  shows "length (tw_sources T) \<le> trackedSourceLimit \<and> length (tw_prefixes T) \<le> trackedPrefixLimit
    \<and> (\<forall>key now. 0 \<le> now \<longrightarrow> tripwire_Blocked key now T \<longrightarrow>
        (\<exists>s. map_of (tw_sources T) key = Some s \<and> 3 \<le> ts_strikes s)
        \<or> (\<exists>p. abusePrefix key \<noteq> '''' \<and> map_of (tw_prefixes T) (abusePrefix key) = Some p \<and> 20 \<le> tp_strikes p
             \<and> 4 \<le> card (set (tp_sources p)) \<and> (\<forall>k \<in> set (tp_sources p). abusePrefix k = abusePrefix key))
        \<or> map_of (tw_sources T) key = None \<and> length (tw_sources T) = trackedSourceLimit \<and> 3 \<le> ts_strikes (tw_overflow T))"
proof -
  have inv: "tripwire_inv T" by (rule tripwire_reach_inv [OF assms])
  have src: "3 \<le> ts_strikes s" if "source_ok s" "now < ts_blocked s" "0 \<le> now" for s now
    using that by (auto simp: source_ok_def)
  have pre: "k \<noteq> '''' \<and> 20 \<le> tp_strikes p \<and> 4 \<le> card (set (tp_sources p)) \<and> (\<forall>j \<in> set (tp_sources p). abusePrefix j = k)"
    if "map_of (tw_prefixes T) k = Some p" "now < tp_blocked p" "0 \<le> now" for k p now
  proof -
    have "k \<noteq> '''' \<and> prefix_ok k p" using inv that(1) by (simp add: tripwire_inv_def)
    with that(2,3) show ?thesis by (auto simp: prefix_ok_def distinct_card)
  qed
  have "(\<exists>s. map_of (tw_sources T) key = Some s \<and> 3 \<le> ts_strikes s)
        \<or> (\<exists>p. abusePrefix key \<noteq> '''' \<and> map_of (tw_prefixes T) (abusePrefix key) = Some p \<and> 20 \<le> tp_strikes p
             \<and> 4 \<le> card (set (tp_sources p)) \<and> (\<forall>k \<in> set (tp_sources p). abusePrefix k = abusePrefix key))
        \<or> map_of (tw_sources T) key = None \<and> length (tw_sources T) = trackedSourceLimit \<and> 3 \<le> ts_strikes (tw_overflow T)"
    if now: "0 \<le> now" and b: "tripwire_Blocked key now T" for key now
    using b unfolding tripwire_Blocked_def
  proof (elim disjE conjE)
    assume "now < ts_blocked (mget0 zero_source (tw_sources T) key)"
    then obtain s where "map_of (tw_sources T) key = Some s" "now < ts_blocked s"
      using now by (auto simp: mget0_def zero_source_def split: option.splits)
    with inv src [of s now] now show ?thesis by (auto simp: tripwire_inv_def)
  next
    assume "now < tp_blocked (mget0 zero_prefix (tw_prefixes T) (abusePrefix key))"
    then obtain p where "map_of (tw_prefixes T) (abusePrefix key) = Some p" "now < tp_blocked p"
      using now by (auto simp: mget0_def zero_prefix_def split: option.splits)
    with pre now show ?thesis by blast
  next
    assume "map_of (tw_sources T) key = None" "length (tw_sources T) \<ge> trackedSourceLimit" "now < ts_blocked (tw_overflow T)"
    with inv src [of "tw_overflow T" now] now show ?thesis by (auto simp: tripwire_inv_def)
  qed
  then show ?thesis using inv by (auto simp: tripwire_inv_def)
qed

text \<open>
  The range check is exact: no Range header, or one without a comma that, trimmed, reads
  \<open>bytes=a-b\<close> with decimal numbers that fit 64 bits, one of them possibly missing, and a range that
  does not run backwards.
\<close>

theorem valid_public_range_exact:
  "ValidPublicRange vs \<longleftrightarrow> vs = [] \<or> (\<exists>v. vs = [v] \<and> CHR '','' \<notin> set v \<and> range_grammar v)"
proof (cases vs)
  case Nil
  then show ?thesis by (simp add: ValidPublicRange_def)
next
  case (Cons v ws)
  then show ?thesis
    using range_grammar_iff [of v] by (cases ws) (auto simp: ValidPublicRange_def)
qed

text \<open>Three scanner probes of one address within a second, and the requests that follow.\<close>

definition probe :: public_request where
  "probe = \<lparr>pr_public = True, pr_method = ''GET'', pr_path = ''/.env'', pr_remote = ''10.0.0.9:4'', pr_contentLength = 0,
     pr_transferEncoding = [], pr_range = []\<rparr>"

definition signin :: public_request where
  "signin = probe\<lparr>pr_method := ''POST'', pr_path := ''/login''\<rparr>"

definition probed :: "nat \<Rightarrow> tripwire" where
  "probed n = ((\<lambda>T. snd (guard_before probe second T)) ^^ n) tripwire_zero"

lemma probed_reach: "tripwire_reach (probed n)"
  by (induction n) (auto simp: probed_def intro: tripwire_reach.intros)

lemma probe_facts:
  "RemoteHost ''10.0.0.9:4'' = ''10.0.0.9''" "abusePrefix ''10.0.0.9'' = ''''" "SuspiciousPublicPath ''/.env''"
  "\<not> SuspiciousPublicPath ''/login''"
  by code_simp+

lemma strike_unused_prefix:
  "abusePrefix key = '''' \<Longrightarrow> map_of (tw_sources T) key \<noteq> None \<or> length (tw_sources T) < trackedSourceLimit \<Longrightarrow>
     tripwire_Strike key now m T = (case updateTripwireSource (mget0 zero_source (tw_sources T) key) now m of
       (state, blocked) \<Rightarrow> (blocked, T\<lparr>tw_sources := mput key state (tw_sources T)\<rparr>))"
  by (auto simp: tripwire_Strike_def strikePrefix_def Let_def split: prod.splits)

lemma probed_eval:
  "n \<le> 2 \<Longrightarrow> probed n = tripwire_zero\<lparr>tw_sources := (if n = 0 then [] else
     [(''10.0.0.9'', \<lparr>ts_strikes = int n, ts_reset = second + minute, ts_blocked = 0\<rparr>)])\<rparr>"
proof (induction n)
  case 0
  show ?case by (simp add: probed_def tripwire_zero_def)
next
  case (Suc n)
  have "probed (Suc n) = snd (guard_before probe second (probed n))" by (simp add: probed_def)
  with Suc show ?case
    by (simp add: guard_before_def guard_admit_def probe_def probe_facts Let_def tripwire_Blocked_def strike_unused_prefix mget0_def
        zero_source_def zero_prefix_def tripwire_zero_def updateTripwireSource_def trackedSourceLimit_def duration_defs
        split: prod.splits)
qed

text \<open>A sign-in comes, then three probes, the third of which blocks the source while the sign-in is still running.\<close>

definition probing :: guard_system where
  "probing = \<lparr>gs_table = probed 2, gs_probes = [(''10.0.0.9'', second)], gs_signins = [(''10.0.0.9'', second)]\<rparr>"

definition probing_run :: "guard_event list" where
  "probing_run = [Arrive signin second, Arrive probe second, ProbeStrike ''10.0.0.9'' second, Arrive probe second,
     ProbeStrike ''10.0.0.9'' second, Arrive probe second]"

definition probing_blocked :: guard_system where
  "probing_blocked = probing\<lparr>gs_table := tripwire_zero\<lparr>tw_sources :=
     [(''10.0.0.9'', \<lparr>ts_strikes = 3, ts_reset = second + minute, ts_blocked = second + publicQuarantine\<rparr>)]\<rparr>, gs_probes := []\<rparr>"

lemma probing_facts: "RemoteHost (pr_remote probe) = ''10.0.0.9''" "RemoteHost (pr_remote signin) = ''10.0.0.9''"
  "CredentialAttempt (pr_method signin) (pr_path signin)"
  by (simp_all add: signin_def probe_def probe_facts CredentialAttempt_def credential_paths_def)

lemma probing_eval:
  "guard_run probing_run guard_idle = Some probing"
  "guard_exec (ProbeStrike ''10.0.0.9'' second) probing = Some probing_blocked"
  "event_blocks (ProbeStrike ''10.0.0.9'' second) (gs_table probing) = Some (''10.0.0.9'', second)"
  by (simp_all add: probing_run_def guard_idle_def probing_def probing_blocked_def guard_admit_def probing_facts probe_facts signin_def probe_def
      CredentialAttempt_def credential_paths_def probed_eval tripwire_Blocked_def strike_unused_prefix mget0_def
      zero_source_def zero_prefix_def tripwire_zero_def updateTripwireSource_def trackedSourceLimit_def duration_defs Let_def)


theorem tripwire_no_false_quarantine_witness: "length (tw_sources (probed 3)) \<le> 4096"
  using tripwire_no_false_quarantine [OF probed_reach [of 3]] by (simp add: trackedSourceLimit_def)

text \<open>
  The finding: ten sign-ins that all started at second 1 fail, and while the tenth is still running
  another one starts at second 62, past the end of the counting window.  The tenth failure starts the
  quarantine; the failure of the late one opens a new window, and with it the quarantine is gone.
\<close>

definition failed :: "nat \<Rightarrow> tripwire" where
  "failed n = ((\<lambda>T. snd (guard_after ''10.0.0.9'' second 401 T)) ^^ n) tripwire_zero"

lemma failed_eval:
  "n \<le> 10 \<Longrightarrow> failed n = tripwire_zero\<lparr>tw_sources := (if n = 0 then [] else
     [(''10.0.0.9'', \<lparr>ts_strikes = int n, ts_reset = second + minute, ts_blocked = (if n = 10 then second + publicQuarantine else 0)\<rparr>)])\<rparr>"
proof (induction n)
  case 0
  show ?case by (simp add: failed_def tripwire_zero_def)
next
  case (Suc n)
  have "failed (Suc n) = snd (guard_after ''10.0.0.9'' second 401 (failed n))" by (simp add: failed_def)
  with Suc show ?case
    by (simp add: guard_after_def probe_facts Let_def strike_unused_prefix mget0_def
        zero_source_def tripwire_zero_def updateTripwireSource_def trackedSourceLimit_def duration_defs split: prod.splits)
qed

lemma signin_before:
  "guard_before signin now T = (if tripwire_Blocked ''10.0.0.9'' now T then (Quarantined, T) else (Watch ''10.0.0.9'' now, T))"
  by (simp add: guard_before_def guard_admit_def signin_def probe_def probe_facts CredentialAttempt_def credential_paths_def)

lemma late_failure_clears_quarantine:
  "fst (guard_before signin (62 * second) (failed 9)) = Watch ''10.0.0.9'' (62 * second)
     \<and> fst (guard_before signin (62 * second) (failed 10)) = Quarantined
     \<and> fst (guard_before signin (62 * second) (snd (guard_after ''10.0.0.9'' (62 * second) 401 (failed 10)))) = Watch ''10.0.0.9'' (62 * second)"
  by (simp add: signin_before failed_eval guard_after_def tripwire_Blocked_def strike_unused_prefix probe_facts mget0_def
      updateTripwireSource_def zero_source_def zero_prefix_def tripwire_zero_def duration_defs publicQuarantine_def Let_def)

end
