(* ===== verification/Lane.thy ===== *)
theory Lane
  imports Channels
begin

text \<open>
  A lane of the workload governor: packages/workload/lane.go.  Three classes, of priority 0
  (playback), 1 (interactive) and 2 (background), share a capacity; a request that does not fit waits
  in the queue of its class until a release grants it.  The array of a fixed length 3 is a function on
  its indices.  A waiter is identified by the address of its channel \<open>ready\<close> (theory Channels), which
  \<open>grant\<close> closes.  The select of \<open>acquire\<close> is two operations here: returning once the channel is
  closed changes nothing, and giving up is \<open>lane_cancel\<close>.
\<close>

section \<open>Operations\<close>

definition classCount :: nat where "classCount = 3"

record lane_waiter =
  lw_cost :: int
  lw_ready :: nat

record lane =
  ln_capacity :: int
  ln_strict :: bool
  ln_limits :: "nat \<Rightarrow> int"
  ln_used :: "nat \<Rightarrow> int"
  ln_waiters :: "nat \<Rightarrow> lane_waiter list"
  ln_heap :: "unit heap"

datatype workload_class = Playback | Background | Interactive | OtherClass nat

definition newLane :: "int \<Rightarrow> bool \<Rightarrow> int \<Rightarrow> int \<Rightarrow> lane" where
  "newLane capacity strict interactive background =
     \<lparr>ln_capacity = capacity, ln_strict = strict,
      ln_limits = (\<lambda>p. if p = 0 then capacity else if p = 1 then interactive else background),
      ln_used = (\<lambda>_. 0), ln_waiters = (\<lambda>_. []), ln_heap = hp_empty\<rparr>"

fun class_rank :: "workload_class \<Rightarrow> nat" where
  "class_rank Playback = 0"
| "class_rank Interactive = 1"
| "class_rank Background = 2"
| "class_rank (OtherClass _) = 2"

definition lane_possible :: "nat \<Rightarrow> int \<Rightarrow> lane \<Rightarrow> bool" where
  "lane_possible p cost L \<longleftrightarrow> cost \<le> ln_capacity L \<and> (\<not> ln_strict L \<or> cost \<le> ln_limits L p)"

definition lane_total :: "nat \<Rightarrow> int \<Rightarrow> lane \<Rightarrow> int" where
  "lane_total p cost L =
     fold (\<lambda>i total. if ln_strict L \<or> i \<le> p then total + ln_used L i else total) [0..<classCount] cost"

definition lane_fits :: "nat \<Rightarrow> int \<Rightarrow> lane \<Rightarrow> bool" where
  "lane_fits p cost L =
     (if ln_used L p + cost > ln_limits L p \<and> (ln_strict L \<or> ln_used L p > 0) then False
      else lane_total p cost L \<le> ln_capacity L)"

definition lane_use :: "nat \<Rightarrow> int \<Rightarrow> lane \<Rightarrow> lane" where
  "lane_use p cost L = L\<lparr>ln_used := (ln_used L)(p := ln_used L p + cost)\<rparr>"

definition lane_grant_head :: "nat \<Rightarrow> lane_waiter \<Rightarrow> lane_waiter list \<Rightarrow> lane \<Rightarrow> lane" where
  "lane_grant_head p w ws L =
     (lane_use p (lw_cost w) (L\<lparr>ln_waiters := (ln_waiters L)(p := ws)\<rparr>))\<lparr>ln_heap := ch_close (lw_ready w) (ln_heap L)\<rparr>"

function lane_grant_class :: "nat \<Rightarrow> lane \<Rightarrow> lane" where
  "lane_grant_class p L = (case ln_waiters L p of
     [] \<Rightarrow> L
   | w # ws \<Rightarrow> if lane_fits p (lw_cost w) L then lane_grant_class p (lane_grant_head p w ws L) else L)"
  by pat_completeness auto
termination
  by (relation "measure (\<lambda>(p, L). length (ln_waiters L p))") (auto simp: lane_grant_head_def lane_use_def)

declare lane_grant_class.simps [simp del]

definition lane_grant :: "lane \<Rightarrow> lane" where
  "lane_grant L = fold lane_grant_class [0..<classCount] L"

datatype lane_result = Admitted | Waits nat

definition lane_acquire :: "nat \<Rightarrow> int \<Rightarrow> lane \<Rightarrow> lane_result \<times> lane" where
  "lane_acquire p cost L =
     (if ln_waiters L p = [] \<and> lane_fits p cost L then (Admitted, lane_use p cost L)
      else let mk = ch_make 0 (ln_heap L) in
        (Waits (fst mk), L\<lparr>ln_heap := snd mk,
           ln_waiters := (ln_waiters L)(p := ln_waiters L p @ [\<lparr>lw_cost = cost, lw_ready = fst mk\<rparr>])\<rparr>))"

definition lane_cancel :: "nat \<Rightarrow> lane_waiter \<Rightarrow> lane \<Rightarrow> lane" where
  "lane_cancel p w L = lane_grant
     (if \<not> ch_open (ln_heap L) (lw_ready w) then lane_use p (- lw_cost w) L
      else L\<lparr>ln_waiters := (ln_waiters L)(p := filter (\<lambda>v. lw_ready v \<noteq> lw_ready w) (ln_waiters L p))\<rparr>)"

definition lane_release :: "nat \<Rightarrow> int \<Rightarrow> lane \<Rightarrow> lane" where
  "lane_release p cost L = lane_grant (lane_use p (- cost) L)"

section \<open>Fitting\<close>

lemma lane_total_eq: "lane_total p cost L = cost + ln_used L 0
    + (if ln_strict L \<or> 1 \<le> p then ln_used L 1 else 0) + (if ln_strict L \<or> 2 \<le> p then ln_used L 2 else 0)"
proof -
  have "[0..<classCount] = [0, 1, 2]" by (simp add: classCount_def upt_rec numeral_2_eq_2)
  then show ?thesis by (simp add: lane_total_def)
qed

lemma lane_use_simps [simp]:
  "ln_capacity (lane_use p c L) = ln_capacity L" "ln_strict (lane_use p c L) = ln_strict L"
  "ln_limits (lane_use p c L) = ln_limits L" "ln_waiters (lane_use p c L) = ln_waiters L"
  "ln_heap (lane_use p c L) = ln_heap L" "ln_used (lane_use p c L) = (ln_used L)(p := ln_used L p + c)"
  by (simp_all add: lane_use_def)

lemma lane_fits_cong:
  "ln_capacity L' = ln_capacity L \<Longrightarrow> ln_strict L' = ln_strict L \<Longrightarrow> ln_limits L' = ln_limits L \<Longrightarrow> ln_used L' = ln_used L
     \<Longrightarrow> lane_fits p c L' = lane_fits p c L"
  by (simp only: lane_fits_def lane_total_eq)

text \<open>More use never makes room.\<close>

lemma lane_fits_antimono:
  assumes "\<not> lane_fits p c L" "ln_capacity L' = ln_capacity L" "ln_strict L' = ln_strict L" "ln_limits L' = ln_limits L"
    and "\<And>q. ln_used L q \<le> ln_used L' q"
  shows "\<not> lane_fits p c L'"
  using assms(1-4) assms(5) [of 0] assms(5) [of 1] assms(5) [of 2] assms(5) [of p]
  by (auto simp: lane_fits_def lane_total_eq split: if_splits)

section \<open>The invariant\<close>

text \<open>
  \<open>W\<close> maps the channel of every request inside \<open>acquire\<close> to its class and cost; \<open>H\<close> is what the
  requests that have returned hold, by class.  A request whose channel is closed has its share already.
\<close>

definition granted_sum :: "unit heap \<Rightarrow> (nat \<Rightarrow> (nat \<times> int) option) \<Rightarrow> nat \<Rightarrow> int" where
  "granted_sum h W p = (\<Sum>a \<in> {a \<in> dom W. fst (the (W a)) = p \<and> \<not> ch_open h a}. snd (the (W a)))"

definition lane_queue :: "lane \<Rightarrow> (nat \<Rightarrow> (nat \<times> int) option) \<Rightarrow> bool" where
  "lane_queue L W \<longleftrightarrow> heap_ok (ln_heap L) \<and> finite (dom W)
     \<and> (\<forall>q. \<forall>w \<in> set (ln_waiters L q). ch_open (ln_heap L) (lw_ready w) \<and> W (lw_ready w) = Some (q, lw_cost w))
     \<and> (\<forall>q. distinct (map lw_ready (ln_waiters L q)))
     \<and> (\<forall>a q c. W a = Some (q, c) \<longrightarrow> a < hp_next (ln_heap L) \<and> q < classCount \<and> 1 \<le> c \<and> lane_possible q c L
          \<and> (ch_open (ln_heap L) a \<longrightarrow> a \<in> lw_ready ` set (ln_waiters L q)))"

definition lane_account :: "lane \<Rightarrow> (nat \<Rightarrow> int) \<Rightarrow> (nat \<Rightarrow> (nat \<times> int) option) \<Rightarrow> bool" where
  "lane_account L H W \<longleftrightarrow> (\<forall>p. 0 \<le> H p \<and> ln_used L p = H p + granted_sum (ln_heap L) W p)"

definition lane_bounds :: "lane \<Rightarrow> bool" where
  "lane_bounds L \<longleftrightarrow> (if ln_strict L
     then ln_used L 0 + ln_used L 1 + ln_used L 2 \<le> ln_capacity L \<and> (\<forall>p < classCount. ln_used L p \<le> ln_limits L p)
     else \<forall>p < classCount. ln_used L p \<le> ln_capacity L)"

text \<open>Settled: in each class, the first waiter does not fit.\<close>

definition lane_settled :: "lane \<Rightarrow> bool" where
  "lane_settled L \<longleftrightarrow> (\<forall>p < classCount. \<forall>w ws. ln_waiters L p = w # ws \<longrightarrow> \<not> lane_fits p (lw_cost w) L)"

definition lane_inv :: "lane \<Rightarrow> (nat \<Rightarrow> int) \<Rightarrow> (nat \<Rightarrow> (nat \<times> int) option) \<Rightarrow> bool" where
  "lane_inv L H W \<longleftrightarrow> lane_queue L W \<and> lane_account L H W \<and> lane_bounds L \<and> lane_settled L"

section \<open>Granting\<close>

lemma granted_sum_cong:
  "(\<And>a. a \<in> dom W \<Longrightarrow> ch_open h' a = ch_open h a) \<Longrightarrow> granted_sum h' W p = granted_sum h W p"
  unfolding granted_sum_def by (rule sum.cong) auto

lemma granted_sum_close:
  assumes "finite (dom W)" "W a = Some (q, c)" "ch_open h a"
  shows "granted_sum (ch_close a h) W p = granted_sum h W p + (if p = q then c else 0)"
proof -
  let ?A = "{b \<in> dom W. fst (the (W b)) = p \<and> \<not> ch_open h b}"
  have eq: "{b \<in> dom W. fst (the (W b)) = p \<and> \<not> ch_open (ch_close a h) b} = (if p = q then insert a ?A else ?A)"
    using assms by (auto simp: ch_close_open)
  show ?thesis
  proof (cases "p = q")
    case True
    then show ?thesis using assms eq by (simp add: granted_sum_def)
  next
    case False
    then show ?thesis using eq by (simp add: granted_sum_def)
  qed
qed

lemma granted_sum_nonneg:
  "(\<And>a q c. W a = Some (q, c) \<Longrightarrow> 0 \<le> c) \<Longrightarrow> 0 \<le> granted_sum h W p"
  unfolding granted_sum_def by (rule sum_nonneg) force

lemma queue_used_nonneg: "lane_queue L W \<Longrightarrow> lane_account L H W \<Longrightarrow> 0 \<le> ln_used L p"
proof -
  assume q: "lane_queue L W" and a: "lane_account L H W"
  have "0 \<le> granted_sum (ln_heap L) W p"
  proof (rule granted_sum_nonneg)
    fix a q c assume "W a = Some (q, c)"
    then have "1 \<le> c" using q by (simp add: lane_queue_def)
    then show "0 \<le> c" by simp
  qed
  moreover have "0 \<le> H p \<and> ln_used L p = H p + granted_sum (ln_heap L) W p" using a by (simp add: lane_account_def)
  ultimately show ?thesis by simp
qed

lemma grant_head_simps [simp]:
  "ln_capacity (lane_grant_head p w ws L) = ln_capacity L" "ln_strict (lane_grant_head p w ws L) = ln_strict L"
  "ln_limits (lane_grant_head p w ws L) = ln_limits L"
  "ln_waiters (lane_grant_head p w ws L) = (ln_waiters L)(p := ws)"
  "ln_heap (lane_grant_head p w ws L) = ch_close (lw_ready w) (ln_heap L)"
  "ln_used (lane_grant_head p w ws L) = (ln_used L)(p := ln_used L p + lw_cost w)"
  by (simp_all add: lane_grant_head_def)

lemma possible_cong: "ln_capacity L' = ln_capacity L \<Longrightarrow> ln_strict L' = ln_strict L \<Longrightarrow> ln_limits L' = ln_limits L \<Longrightarrow>
    lane_possible p c L' = lane_possible p c L"
  by (simp add: lane_possible_def)

lemma ch_close_next [simp]: "hp_next (ch_close a h) = hp_next h"
  by (auto simp: ch_close_def ch_panic_def split: option.splits)

lemma queue_waiter:
  "lane_queue L W \<Longrightarrow> w \<in> set (ln_waiters L q) \<Longrightarrow> ch_open (ln_heap L) (lw_ready w) \<and> W (lw_ready w) = Some (q, lw_cost w)"
  unfolding lane_queue_def by blast

lemma queue_heap: "lane_queue L W \<Longrightarrow> heap_ok (ln_heap L)" "lane_queue L W \<Longrightarrow> finite (dom W)"
  unfolding lane_queue_def by blast+

lemma queue_distinct: "lane_queue L W \<Longrightarrow> distinct (map lw_ready (ln_waiters L q))"
  unfolding lane_queue_def by blast

lemma queue_entry: "lane_queue L W \<Longrightarrow> W a = Some (q, c) \<Longrightarrow>
    a < hp_next (ln_heap L) \<and> q < classCount \<and> 1 \<le> c \<and> lane_possible q c L
      \<and> (ch_open (ln_heap L) a \<longrightarrow> a \<in> lw_ready ` set (ln_waiters L q))"
  unfolding lane_queue_def by blast

lemma queueI:
  assumes "heap_ok (ln_heap L)" "finite (dom W)"
    and "\<And>q w. w \<in> set (ln_waiters L q) \<Longrightarrow> ch_open (ln_heap L) (lw_ready w) \<and> W (lw_ready w) = Some (q, lw_cost w)"
    and "\<And>q. distinct (map lw_ready (ln_waiters L q))"
    and "\<And>a q c. W a = Some (q, c) \<Longrightarrow> a < hp_next (ln_heap L) \<and> q < classCount \<and> 1 \<le> c \<and> lane_possible q c L
      \<and> (ch_open (ln_heap L) a \<longrightarrow> a \<in> lw_ready ` set (ln_waiters L q))"
  shows "lane_queue L W"
  unfolding lane_queue_def using assms by blast

lemma grant_head_queue:
  assumes q: "lane_queue L W" and at: "ln_waiters L p = w # ws"
  shows "lane_queue (lane_grant_head p w ws L) W"
proof -
  have o: "ch_open (ln_heap L) (lw_ready w)" "W (lw_ready w) = Some (p, lw_cost w)" and ok: "heap_ok (ln_heap L)"
    using queue_waiter [OF q, of w p] at q by (simp_all add: lane_queue_def)
  have d: "distinct (map lw_ready (ln_waiters L p))" using q by (simp add: lane_queue_def)
  have other: "lw_ready v \<noteq> lw_ready w" if "v \<in> set (((ln_waiters L)(p := ws)) r)" for v r
  proof (cases "r = p")
    case True
    with that d at have "lw_ready v \<in> lw_ready ` set ws" "lw_ready w \<notin> lw_ready ` set ws" by auto
    then show ?thesis by metis
  next
    case False
    then have "v \<in> set (ln_waiters L r)" using that by simp
    then have "W (lw_ready v) = Some (r, lw_cost v)" using q by (simp add: lane_queue_def)
    with False o(2) show ?thesis by auto
  qed
  have mem: "v \<in> set (ln_waiters L r)" if "v \<in> set (((ln_waiters L)(p := ws)) r)" for v r
    using that at by (auto split: if_splits)
  have rest: "a \<in> lw_ready ` set (((ln_waiters L)(p := ws)) r)"
    if "W a = Some (r, c)" "ch_open (ln_heap L) a" "a \<noteq> lw_ready w" for a r c
  proof -
    have "a \<in> lw_ready ` set (ln_waiters L r)" using q that by (simp add: lane_queue_def)
    with that(3) at show ?thesis by auto
  qed
  have 1: "\<forall>r. \<forall>v \<in> set (((ln_waiters L)(p := ws)) r).
      ch_open (ch_close (lw_ready w) (ln_heap L)) (lw_ready v) \<and> W (lw_ready v) = Some (r, lw_cost v)"
  proof (intro allI ballI)
    fix r v
    assume v: "v \<in> set (((ln_waiters L)(p := ws)) r)"
    have "ch_open (ln_heap L) (lw_ready v) \<and> W (lw_ready v) = Some (r, lw_cost v)"
      using q mem [OF v] by (simp add: lane_queue_def)
    with other [OF v] o(1) show "ch_open (ch_close (lw_ready w) (ln_heap L)) (lw_ready v) \<and> W (lw_ready v) = Some (r, lw_cost v)"
      by (simp add: ch_close_open)
  qed
  have 2: "\<forall>r. distinct (map lw_ready (((ln_waiters L)(p := ws)) r))"
    using q d at by (auto simp: lane_queue_def)
  have 3: "\<forall>a r c. W a = Some (r, c) \<longrightarrow> a < hp_next (ln_heap L) \<and> r < classCount \<and> 1 \<le> c \<and> lane_possible r c (lane_grant_head p w ws L)
      \<and> (ch_open (ch_close (lw_ready w) (ln_heap L)) a \<longrightarrow> a \<in> lw_ready ` set (((ln_waiters L)(p := ws)) r))"
  proof (intro allI impI)
    fix a r c
    assume a: "W a = Some (r, c)"
    then have "a < hp_next (ln_heap L) \<and> r < classCount \<and> 1 \<le> c \<and> lane_possible r c L"
      using q by (simp add: lane_queue_def)
    with rest [OF a] o(1) show "a < hp_next (ln_heap L) \<and> r < classCount \<and> 1 \<le> c \<and> lane_possible r c (lane_grant_head p w ws L)
      \<and> (ch_open (ch_close (lw_ready w) (ln_heap L)) a \<longrightarrow> a \<in> lw_ready ` set (((ln_waiters L)(p := ws)) r))"
      by (simp add: ch_close_open lane_possible_def)
  qed
  show ?thesis
    unfolding lane_queue_def grant_head_simps ch_close_next
    by (intro conjI 1 2 3 ch_close_ok [OF ok o(1)]) (use q in \<open>simp add: lane_queue_def\<close>)
qed

lemma grant_head_account:
  assumes q: "lane_queue L W" and a: "lane_account L H W" and at: "ln_waiters L p = w # ws"
  shows "lane_account (lane_grant_head p w ws L) H W"
proof -
  have o: "ch_open (ln_heap L) (lw_ready w)" "W (lw_ready w) = Some (p, lw_cost w)" "finite (dom W)"
    using queue_waiter [OF q, of w p] at q by (simp_all add: lane_queue_def)
  show ?thesis using a granted_sum_close [OF o(3,2,1)] by (auto simp: lane_account_def)
qed

lemma use_bounds:
  assumes b: "lane_bounds L" and fit: "lane_fits p c L" and p: "p < classCount" and nn: "\<And>q. 0 \<le> ln_used L q"
    and pos: "lane_possible p c L"
    and L': "ln_capacity L' = ln_capacity L" "ln_strict L' = ln_strict L" "ln_limits L' = ln_limits L"
      "ln_used L' = (ln_used L)(p := ln_used L p + c)"
  shows "lane_bounds L'"
proof -
  have p3: "p = 0 \<or> p = 1 \<or> p = 2" using p by (auto simp: classCount_def)
  note n = nn [of 0] nn [of 1] nn [of 2]
  show ?thesis
  proof (cases "ln_strict L")
    case True
    with fit have f: "ln_used L p + c \<le> ln_limits L p" "c + ln_used L 0 + ln_used L 1 + ln_used L 2 \<le> ln_capacity L"
      by (auto simp: lane_fits_def lane_total_eq split: if_splits)
    have "ln_used L' 0 + ln_used L' 1 + ln_used L' 2 \<le> ln_capacity L'" using f(2) p3 L' by auto
    moreover have "ln_used L' q \<le> ln_limits L' q" if "q < classCount" for q
      using b True f(1) that L' by (auto simp: lane_bounds_def)
    ultimately show ?thesis using True L' by (simp add: lane_bounds_def)
  next
    case False
    with fit have "lane_total p c L \<le> ln_capacity L" by (auto simp: lane_fits_def split: if_splits)
    then have "ln_used L p + c \<le> ln_capacity L" using p3 n False unfolding lane_total_eq by (elim disjE) simp_all
    then have "ln_used L' q \<le> ln_capacity L'" if "q < classCount" for q
      using b False that L' by (auto simp: lane_bounds_def)
    then show ?thesis using False L' by (simp add: lane_bounds_def)
  qed
qed

section \<open>Granting settles the lane\<close>

definition lane_sound :: "lane \<Rightarrow> (nat \<Rightarrow> int) \<Rightarrow> (nat \<Rightarrow> (nat \<times> int) option) \<Rightarrow> bool" where
  "lane_sound L H W \<longleftrightarrow> lane_queue L W \<and> lane_account L H W \<and> lane_bounds L"

definition same_lane :: "lane \<Rightarrow> lane \<Rightarrow> bool" where
  "same_lane L L' \<longleftrightarrow> ln_capacity L' = ln_capacity L \<and> ln_strict L' = ln_strict L \<and> ln_limits L' = ln_limits L
     \<and> (\<forall>q. ln_used L q \<le> ln_used L' q)"

lemma same_lane_refl [simp]: "same_lane L L"
  by (simp add: same_lane_def)

lemma same_lane_trans: "same_lane L M \<Longrightarrow> same_lane M N \<Longrightarrow> same_lane L N"
  unfolding same_lane_def by (metis order_trans)

lemma same_lane_fits: "same_lane L L' \<Longrightarrow> \<not> lane_fits p c L \<Longrightarrow> \<not> lane_fits p c L'"
  by (rule lane_fits_antimono [of p c L]) (auto simp: same_lane_def)

lemma grant_class_sound:
  "lane_sound L H W \<Longrightarrow> p < classCount \<Longrightarrow> lane_sound (lane_grant_class p L) H W \<and> same_lane L (lane_grant_class p L)
     \<and> (\<forall>q. q \<noteq> p \<longrightarrow> ln_waiters (lane_grant_class p L) q = ln_waiters L q)
     \<and> (\<forall>w ws. ln_waiters (lane_grant_class p L) p = w # ws \<longrightarrow> \<not> lane_fits p (lw_cost w) (lane_grant_class p L))"
proof (induction p L rule: lane_grant_class.induct)
  case (1 p L)
  note s = 1(2) [unfolded lane_sound_def]
  show ?case
  proof (cases "ln_waiters L p")
    case Nil
    then have "lane_grant_class p L = L" by (subst lane_grant_class.simps) simp
    with 1(2) Nil show ?thesis by simp
  next
    case (Cons w ws)
    show ?thesis
    proof (cases "lane_fits p (lw_cost w) L")
      case False
      with Cons have "lane_grant_class p L = L" by (subst lane_grant_class.simps) simp
      with 1(2) Cons False show ?thesis by simp
    next
      case True
      let ?M = "lane_grant_head p w ws L"
      have g: "lane_grant_class p L = lane_grant_class p ?M"
        using Cons True by (subst lane_grant_class.simps) simp
      have w: "w \<in> set (ln_waiters L p)" by (simp add: Cons)
      have at: "W (lw_ready w) = Some (p, lw_cost w)" using queue_waiter [OF _ w] s by blast
      have cost: "1 \<le> lw_cost w" "lane_possible p (lw_cost w) L" using s at by (auto simp: lane_queue_def)
      have nn: "0 \<le> ln_used L q" for q using queue_used_nonneg s by blast
      have "lane_sound ?M H W"
        unfolding lane_sound_def
        using grant_head_queue [OF _ Cons] grant_head_account [OF _ _ Cons] s
          use_bounds [OF _ True 1(3) nn cost(2), of ?M] by simp
      from 1(1) [OF Cons True this 1(3)] have ih: "lane_sound (lane_grant_class p L) H W \<and> same_lane ?M (lane_grant_class p L)
         \<and> (\<forall>q. q \<noteq> p \<longrightarrow> ln_waiters (lane_grant_class p L) q = ln_waiters ?M q)
         \<and> (\<forall>w ws. ln_waiters (lane_grant_class p L) p = w # ws \<longrightarrow> \<not> lane_fits p (lw_cost w) (lane_grant_class p L))"
        unfolding g .
      moreover have "same_lane L ?M" using cost(1) by (simp add: same_lane_def)
      ultimately show ?thesis using same_lane_trans by auto
    qed
  qed
qed

lemma grant_inv:
  assumes "lane_sound L H W"
  shows "lane_inv (lane_grant L) H W" and "same_lane L (lane_grant L)"
proof -
  define A where "A = lane_grant_class 0 L"
  define B where "B = lane_grant_class 1 A"
  define C where "C = lane_grant_class 2 B"
  have g: "lane_grant L = C" by (simp add: lane_grant_def classCount_def A_def B_def C_def upt_rec numeral_2_eq_2)
  have a: "lane_sound A H W \<and> same_lane L A \<and> (\<forall>q. q \<noteq> 0 \<longrightarrow> ln_waiters A q = ln_waiters L q)
      \<and> (\<forall>w ws. ln_waiters A 0 = w # ws \<longrightarrow> \<not> lane_fits 0 (lw_cost w) A)"
    unfolding A_def by (rule grant_class_sound [OF assms]) (simp add: classCount_def)
  then have "lane_sound A H W" by blast
  from grant_class_sound [OF this, of 1] have b: "lane_sound B H W \<and> same_lane A B \<and> (\<forall>q. q \<noteq> 1 \<longrightarrow> ln_waiters B q = ln_waiters A q)
      \<and> (\<forall>w ws. ln_waiters B 1 = w # ws \<longrightarrow> \<not> lane_fits 1 (lw_cost w) B)"
    unfolding B_def by (simp add: classCount_def)
  then have "lane_sound B H W" by blast
  from grant_class_sound [OF this, of 2] have c: "lane_sound C H W \<and> same_lane B C \<and> (\<forall>q. q \<noteq> 2 \<longrightarrow> ln_waiters C q = ln_waiters B q)
      \<and> (\<forall>w ws. ln_waiters C 2 = w # ws \<longrightarrow> \<not> lane_fits 2 (lw_cost w) C)"
    unfolding C_def by (simp add: classCount_def)
  have ac: "same_lane A C" using b c same_lane_trans by blast
  show "same_lane L (lane_grant L)" unfolding g using a ac same_lane_trans by blast
  have "\<not> lane_fits p (lw_cost w) C" if "p < classCount" "ln_waiters C p = w # ws" for p w ws
  proof -
    have "p = 0 \<or> p = 1 \<or> p = 2" using that(1) by (auto simp: classCount_def)
    then consider "p = 0" | "p = 1" | "p = 2" by blast
    then show ?thesis
    proof cases
      case 1
      then have "ln_waiters A 0 = w # ws" using that(2) b c by simp
      then show ?thesis using a same_lane_fits [OF ac] 1 by blast
    next
      case 2
      then have "ln_waiters B 1 = w # ws" using that(2) c by simp
      then show ?thesis using b c same_lane_fits [of B C] 2 by blast
    next
      case 3
      then show ?thesis using that(2) c by blast
    qed
  qed
  then show "lane_inv (lane_grant L) H W"
    using c unfolding g lane_inv_def lane_settled_def lane_sound_def by blast
qed

section \<open>The operations keep the invariant\<close>

lemma bounds_less:
  assumes "lane_bounds L" "ln_capacity L' = ln_capacity L" "ln_strict L' = ln_strict L" "ln_limits L' = ln_limits L"
    and le: "\<And>q. ln_used L' q \<le> ln_used L q"
  shows "lane_bounds L'"
proof (cases "ln_strict L")
  case True
  then have b: "ln_used L 0 + ln_used L 1 + ln_used L 2 \<le> ln_capacity L" "\<forall>p < classCount. ln_used L p \<le> ln_limits L p"
    using assms(1) by (simp_all add: lane_bounds_def)
  have "ln_used L' 0 + ln_used L' 1 + ln_used L' 2 \<le> ln_capacity L'" using b(1) le [of 0] le [of 1] le [of 2] assms(2) by linarith
  moreover have "\<forall>p < classCount. ln_used L' p \<le> ln_limits L' p" using b(2) le assms(4) order_trans by metis
  ultimately show ?thesis using True assms(3) by (simp add: lane_bounds_def)
next
  case False
  then have "\<forall>p < classCount. ln_used L p \<le> ln_capacity L" using assms(1) by (simp add: lane_bounds_def)
  then have "\<forall>p < classCount. ln_used L' p \<le> ln_capacity L'" using le assms(2) order_trans by metis
  with False show ?thesis using assms(3) by (simp add: lane_bounds_def)
qed

lemma lane_inv_sound: "lane_inv L H W \<Longrightarrow> lane_sound L H W"
  by (simp add: lane_inv_def lane_sound_def)

lemma newLane_inv:
  "0 \<le> interactive \<Longrightarrow> 0 \<le> background \<Longrightarrow> 0 \<le> capacity \<Longrightarrow>
     lane_inv (newLane capacity strict interactive background) (\<lambda>_. 0) Map.empty"
  by (simp add: lane_inv_def lane_queue_def lane_account_def lane_bounds_def lane_settled_def newLane_def granted_sum_def)

lemma queue_cong:
  "lane_queue L W \<Longrightarrow> ln_capacity L' = ln_capacity L \<Longrightarrow> ln_strict L' = ln_strict L \<Longrightarrow> ln_limits L' = ln_limits L \<Longrightarrow>
     ln_waiters L' = ln_waiters L \<Longrightarrow> ln_heap L' = ln_heap L \<Longrightarrow> lane_queue L' W"
  by (simp add: lane_queue_def lane_possible_def)

lemma lane_nonneg: "lane_inv L H W \<Longrightarrow> 0 \<le> ln_used L q"
  using queue_used_nonneg by (auto simp: lane_inv_def)

lemma same_lane_settled:
  assumes "lane_settled L" "same_lane L L'" "ln_waiters L' = ln_waiters L"
  shows "lane_settled L'"
  unfolding lane_settled_def
proof (intro allI impI)
  fix q w ws
  assume "q < classCount" "ln_waiters L' q = w # ws"
  then have "\<not> lane_fits q (lw_cost w) L" using assms(1,3) by (simp add: lane_settled_def)
  then show "\<not> lane_fits q (lw_cost w) L'" by (rule same_lane_fits [OF assms(2)])
qed

lemma acquire_admitted_inv:
  assumes inv: "lane_inv L H W" and acq: "lane_acquire p c L = (Admitted, L')"
    and p: "p < classCount" and c: "1 \<le> c" "lane_possible p c L"
  shows "lane_inv L' (H(p := H p + c)) W"
proof -
  have fit: "ln_waiters L p = []" "lane_fits p c L" and L': "L' = lane_use p c L"
    using acq by (auto simp: lane_acquire_def Let_def split: if_splits)
  have "lane_bounds L'" using use_bounds [OF _ fit(2) p lane_nonneg [OF inv] c(2), of L'] inv by (simp add: L' lane_inv_def)
  moreover have "lane_queue L' W" by (rule queue_cong [of L]) (use inv in \<open>simp_all add: lane_inv_def L'\<close>)
  moreover have "lane_account L' (H(p := H p + c)) W" using inv c by (simp add: lane_inv_def lane_account_def L')
  moreover have same: "same_lane L L'" using c by (simp add: same_lane_def L')
  moreover have "lane_settled L'"
    by (rule same_lane_settled [OF _ same]) (use inv in \<open>simp_all add: lane_inv_def L'\<close>)
  ultimately show ?thesis by (simp add: lane_inv_def)
qed

lemma granted_sum_open:
  "finite (dom W) \<Longrightarrow> W a = None \<Longrightarrow> ch_open h a \<Longrightarrow> granted_sum h (W(a \<mapsto> (q, c))) p = granted_sum h W p"
  unfolding granted_sum_def by (rule sum.cong) auto

lemma granted_sum_remove:
  assumes "finite (dom W)" "W a = Some (q, c)"
  shows "granted_sum h (W(a := None)) p = granted_sum h W p - (if p = q \<and> \<not> ch_open h a then c else 0)"
proof -
  let ?A = "{b \<in> dom W. fst (the (W b)) = p \<and> \<not> ch_open h b}"
  have eq: "granted_sum h (W(a := None)) p = (\<Sum>b \<in> ?A - {a}. snd (the (W b)))"
    unfolding granted_sum_def by (rule sum.cong) (auto split: if_splits)
  show ?thesis
  proof (cases "a \<in> ?A")
    case True
    then have "(\<Sum>b \<in> ?A. snd (the (W b))) = snd (the (W a)) + (\<Sum>b \<in> ?A - {a}. snd (the (W b)))"
      using assms by (intro sum.remove) auto
    with True assms eq show ?thesis by (simp add: granted_sum_def)
  next
    case False
    then have "?A - {a} = ?A" by blast
    with False assms eq show ?thesis by (auto simp: granted_sum_def)
  qed
qed

lemma acquire_waits_inv:
  assumes inv: "lane_inv L H W" and acq: "lane_acquire p c L = (Waits a, L')"
    and p: "p < classCount" and c: "1 \<le> c" "lane_possible p c L"
  shows "lane_inv L' H (W(a \<mapsto> (p, c)))" and "W a = None"
proof -
  have blocked: "\<not> (ln_waiters L p = [] \<and> lane_fits p c L)" and a: "a = fst (ch_make 0 (ln_heap L))"
    and L': "L' = L\<lparr>ln_heap := snd (ch_make 0 (ln_heap L)),
      ln_waiters := (ln_waiters L)(p := ln_waiters L p @ [\<lparr>lw_cost = c, lw_ready = a\<rparr>])\<rparr>"
    using acq by (auto simp: lane_acquire_def Let_def split: if_splits)
  have q: "lane_queue L W" using inv by (simp add: lane_inv_def)
  have ok: "heap_ok (ln_heap L)" and fin: "finite (dom W)" using q by (auto simp: lane_queue_def)
  have an: "a = hp_next (ln_heap L)" by (simp add: a ch_make_def)
  have nx: "hp_next (snd (ch_make 0 (ln_heap L))) = Suc a" by (simp add: a ch_make_def)
  show new: "W a = None"
  proof (rule ccontr)
    assume "W a \<noteq> None"
    then obtain r d where "W a = Some (r, d)" by (cases "W a") auto
    then have "a < hp_next (ln_heap L)" using q by (simp add: lane_queue_def)
    with an show False by simp
  qed
  have fresh: "lw_ready w \<noteq> a" if "w \<in> set (ln_waiters L r)" for w r
    using queue_waiter [OF q that] new by auto
  have op: "ch_open (snd (ch_make 0 (ln_heap L))) b \<longleftrightarrow> b = a \<or> ch_open (ln_heap L) b" for b
    by (simp add: a)
  have "lane_queue L' (W(a \<mapsto> (p, c)))"
  proof (rule queueI)
    show "heap_ok (ln_heap L')" "finite (dom (W(a \<mapsto> (p, c))))"
      using fin ch_make_ok [OF ok] by (simp_all add: L')
  next
    fix r w
    assume w: "w \<in> set (ln_waiters L' r)"
    show "ch_open (ln_heap L') (lw_ready w) \<and> (W(a \<mapsto> (p, c))) (lw_ready w) = Some (r, lw_cost w)"
    proof (cases "w \<in> set (ln_waiters L r)")
      case True
      then show ?thesis using queue_waiter [OF q True] fresh [OF True] op by (simp add: L')
    next
      case False
      with w have "r = p" "w = \<lparr>lw_cost = c, lw_ready = a\<rparr>" by (auto simp: L' split: if_splits)
      then show ?thesis using op by (simp add: L')
    qed
  next
    fix r
    show "distinct (map lw_ready (ln_waiters L' r))"
      using queue_distinct [OF q, of r] fresh by (auto simp: L')
  next
    fix b r d
    assume b: "(W(a \<mapsto> (p, c))) b = Some (r, d)"
    have pos: "lane_possible r d L' = lane_possible r d L" by (simp add: L' lane_possible_def)
    show "b < hp_next (ln_heap L') \<and> r < classCount \<and> 1 \<le> d \<and> lane_possible r d L'
      \<and> (ch_open (ln_heap L') b \<longrightarrow> b \<in> lw_ready ` set (ln_waiters L' r))"
    proof (cases "b = a")
      case True
      with b have "r = p" "d = c" by simp_all
      then show ?thesis using True p c nx pos by (simp add: L')
    next
      case False
      with b have "W b = Some (r, d)" by simp
      from queue_entry [OF q this] show ?thesis using False pos nx an op [of b] by (auto simp: L')
    qed
  qed
  moreover have "granted_sum (ln_heap L') (W(a \<mapsto> (p, c))) r = granted_sum (ln_heap L) W r" for r
  proof -
    have "granted_sum (ln_heap L') (W(a \<mapsto> (p, c))) r = granted_sum (ln_heap L') W r"
      by (rule granted_sum_open) (use fin new op in \<open>simp_all add: L'\<close>)
    also have "\<dots> = granted_sum (ln_heap L) W r"
      by (rule granted_sum_cong) (use new op in \<open>auto simp: L'\<close>)
    finally show ?thesis .
  qed
  then have "lane_account L' H (W(a \<mapsto> (p, c)))" using inv by (simp add: lane_inv_def lane_account_def) (simp add: L')
  moreover have "lane_bounds L'" by (rule bounds_less [of L]) (use inv in \<open>simp_all add: lane_inv_def L'\<close>)
  moreover have "lane_settled L'"
  proof -
    have "lane_fits r d L' = lane_fits r d L" for r d by (rule lane_fits_cong) (simp_all add: L')
    then show ?thesis
      using inv blocked by (cases "ln_waiters L p") (auto simp: lane_inv_def lane_settled_def L')
  qed
  ultimately show "lane_inv L' H (W(a \<mapsto> (p, c)))" by (simp add: lane_inv_def)
qed

text \<open>A granted request returns: its share moves from the queue's account to the holders'.\<close>

lemma queue_remove_closed:
  assumes q: "lane_queue L W" and a: "\<not> ch_open (ln_heap L) a"
  shows "lane_queue L (W(a := None))"
proof -
  have ne: "lw_ready w \<noteq> a" if "w \<in> set (ln_waiters L r)" for w r using queue_waiter [OF q that] a by auto
  show ?thesis
  proof (rule queueI)
    show "heap_ok (ln_heap L)" "finite (dom (W(a := None)))" using queue_heap [OF q] by simp_all
    show "distinct (map lw_ready (ln_waiters L r))" for r by (rule queue_distinct [OF q])
    show "ch_open (ln_heap L) (lw_ready w) \<and> (W(a := None)) (lw_ready w) = Some (r, lw_cost w)" if "w \<in> set (ln_waiters L r)" for r w
      using queue_waiter [OF q that] ne [OF that] by simp
  next
    fix b r d
    assume "(W(a := None)) b = Some (r, d)"
    then have "W b = Some (r, d)" by (auto split: if_splits)
    then show "b < hp_next (ln_heap L) \<and> r < classCount \<and> 1 \<le> d \<and> lane_possible r d L
        \<and> (ch_open (ln_heap L) b \<longrightarrow> b \<in> lw_ready ` set (ln_waiters L r))" by (rule queue_entry [OF q])
  qed
qed

lemma lane_wake_inv:
  assumes inv: "lane_inv L H W" and a: "W a = Some (p, c)" "\<not> ch_open (ln_heap L) a"
  shows "lane_inv L (H(p := H p + c)) (W(a := None))"
proof -
  have q: "lane_queue L W" using inv by (simp add: lane_inv_def)
  have fin: "finite (dom W)" and c: "1 \<le> c" using q a(1) by (auto simp: lane_queue_def)
  have "lane_account L (H(p := H p + c)) (W(a := None))"
    using inv c granted_sum_remove [OF fin a(1)] a(2) by (auto simp: lane_inv_def lane_account_def)
  with inv queue_remove_closed [OF q a(2)] show ?thesis by (simp add: lane_inv_def)
qed

lemma use_less_bounds:
  "lane_bounds L \<Longrightarrow> 0 \<le> c \<Longrightarrow> p < classCount \<Longrightarrow> lane_bounds (lane_use p (- c) L)"
  by (rule bounds_less [of L]) simp_all

lemma lane_release_inv:
  assumes inv: "lane_inv L H W" and p: "p < classCount" and c: "0 \<le> c" "c \<le> H p"
  shows "lane_inv (lane_release p c L) (H(p := H p - c)) W"
proof -
  have "lane_sound (lane_use p (- c) L) (H(p := H p - c)) W"
    unfolding lane_sound_def
    using use_less_bounds [OF _ c(1) p] queue_cong [of L W "lane_use p (- c) L"] inv c
    by (auto simp: lane_inv_def lane_account_def)
  from grant_inv(1) [OF this] show ?thesis by (simp add: lane_release_def)
qed

lemma lane_cancel_inv:
  assumes inv: "lane_inv L H W" and w: "W (lw_ready w) = Some (p, lw_cost w)"
  shows "lane_inv (lane_cancel p w L) H (W(lw_ready w := None))"
proof -
  let ?a = "lw_ready w"
  have q: "lane_queue L W" using inv by (simp add: lane_inv_def)
  have fin: "finite (dom W)" and p: "p < classCount" and c: "1 \<le> lw_cost w"
    using q w by (auto simp: lane_queue_def)
  show ?thesis
  proof (cases "ch_open (ln_heap L) ?a")
    case False
    have "lane_sound (lane_use p (- lw_cost w) L) H (W(?a := None))"
      unfolding lane_sound_def
      using use_less_bounds [of L "lw_cost w" p] queue_cong [OF queue_remove_closed [OF q False]] inv c p
        granted_sum_remove [OF fin w] False
      by (auto simp: lane_inv_def lane_account_def)
    from grant_inv(1) [OF this] False show ?thesis by (simp add: lane_cancel_def)
  next
    case True
    define L1 where "L1 = L\<lparr>ln_waiters := (ln_waiters L)(p := filter (\<lambda>v. lw_ready v \<noteq> ?a) (ln_waiters L p))\<rparr>"
    have sub: "v \<in> set (ln_waiters L r) \<and> lw_ready v \<noteq> ?a" if "v \<in> set (ln_waiters L1 r)" for v r
    proof (cases "r = p")
      case True
      with that show ?thesis by (auto simp: L1_def)
    next
      case False
      with that have "v \<in> set (ln_waiters L r)" by (simp add: L1_def)
      with queue_waiter [OF q this] w False show ?thesis by auto
    qed
    have "lane_queue L1 (W(?a := None))"
    proof (rule queueI)
      show "heap_ok (ln_heap L1)" "finite (dom (W(?a := None)))" using queue_heap [OF q] by (simp_all add: L1_def)
      show "distinct (map lw_ready (ln_waiters L1 r))" for r
        using queue_distinct [OF q, of r] by (auto simp: L1_def distinct_map_filter)
      show "ch_open (ln_heap L1) (lw_ready v) \<and> (W(?a := None)) (lw_ready v) = Some (r, lw_cost v)" if "v \<in> set (ln_waiters L1 r)" for r v
        using sub [OF that] queue_waiter [OF q, of v r] by (simp add: L1_def)
    next
      fix b r d
      assume "(W(?a := None)) b = Some (r, d)"
      then have ne: "b \<noteq> ?a" and Wb: "W b = Some (r, d)" by (auto split: if_splits)
      have pos: "lane_possible r d L1 = lane_possible r d L" by (simp add: L1_def lane_possible_def)
      from queue_entry [OF q Wb] ne show "b < hp_next (ln_heap L1) \<and> r < classCount \<and> 1 \<le> d \<and> lane_possible r d L1
        \<and> (ch_open (ln_heap L1) b \<longrightarrow> b \<in> lw_ready ` set (ln_waiters L1 r))"
        unfolding pos by (auto simp: L1_def)
    qed
    moreover have "lane_account L1 H (W(?a := None))"
      using inv granted_sum_remove [OF fin w] True by (simp add: lane_inv_def lane_account_def L1_def)
    moreover have "lane_bounds L1" by (rule bounds_less [of L]) (use inv in \<open>simp_all add: lane_inv_def L1_def\<close>)
    ultimately have "lane_inv (lane_grant L1) H (W(?a := None))"
      by (intro grant_inv(1)) (simp add: lane_sound_def)
    with True show ?thesis by (simp add: lane_cancel_def L1_def)
  qed
qed

section \<open>Runs of one lane\<close>

text \<open>
  Requests at a lane in any order: \<open>H\<close> and \<open>W\<close> are kept beside the lane as the invariant reads them.
\<close>

inductive lane_run :: "int \<Rightarrow> bool \<Rightarrow> int \<Rightarrow> int \<Rightarrow> lane \<Rightarrow> (nat \<Rightarrow> int) \<Rightarrow> (nat \<Rightarrow> (nat \<times> int) option) \<Rightarrow> bool"
  for capacity strict interactive background where
  fresh: "0 \<le> capacity \<Longrightarrow> 0 \<le> interactive \<Longrightarrow> 0 \<le> background \<Longrightarrow>
    lane_run capacity strict interactive background (newLane capacity strict interactive background) (\<lambda>_. 0) Map.empty"
| admitted: "lane_run capacity strict interactive background L H W \<Longrightarrow> p < classCount \<Longrightarrow> 1 \<le> c \<Longrightarrow> lane_possible p c L \<Longrightarrow>
    lane_acquire p c L = (Admitted, L') \<Longrightarrow> lane_run capacity strict interactive background L' (H(p := H p + c)) W"
| waits: "lane_run capacity strict interactive background L H W \<Longrightarrow> p < classCount \<Longrightarrow> 1 \<le> c \<Longrightarrow> lane_possible p c L \<Longrightarrow>
    lane_acquire p c L = (Waits a, L') \<Longrightarrow> lane_run capacity strict interactive background L' H (W(a \<mapsto> (p, c)))"
| woken: "lane_run capacity strict interactive background L H W \<Longrightarrow> W a = Some (p, c) \<Longrightarrow> \<not> ch_open (ln_heap L) a \<Longrightarrow>
    lane_run capacity strict interactive background L (H(p := H p + c)) (W(a := None))"
| cancelled: "lane_run capacity strict interactive background L H W \<Longrightarrow> W (lw_ready w) = Some (p, lw_cost w) \<Longrightarrow>
    lane_run capacity strict interactive background (lane_cancel p w L) H (W(lw_ready w := None))"
| released: "lane_run capacity strict interactive background L H W \<Longrightarrow> p < classCount \<Longrightarrow> 0 \<le> c \<Longrightarrow> c \<le> H p \<Longrightarrow>
    lane_run capacity strict interactive background (lane_release p c L) (H(p := H p - c)) W"

lemma lane_run_inv: "lane_run cap st i b L H W \<Longrightarrow> lane_inv L H W"
proof (induction rule: lane_run.induct)
  case fresh
  then show ?case by (intro newLane_inv)
next
  case (admitted L H W p c L')
  show ?case by (rule acquire_admitted_inv [OF admitted.IH admitted.hyps(5,2,3,4)])
next
  case (waits L H W p c a L')
  show ?case by (rule acquire_waits_inv(1) [OF waits.IH waits.hyps(5,2,3,4)])
next
  case (woken L H W a p c)
  show ?case by (rule lane_wake_inv [OF woken.IH woken.hyps(2,3)])
next
  case (cancelled L H W w p)
  show ?case by (rule lane_cancel_inv [OF cancelled.IH cancelled.hyps(2)])
next
  case (released L H W p c)
  show ?case by (rule lane_release_inv [OF released.IH released.hyps(2,3,4)])
qed

lemma lane_waiter_blocked:
  assumes inv: "lane_inv L H W" and w: "W a = Some (p, c)" "ch_open (ln_heap L) a"
  shows "\<exists>v vs. ln_waiters L p = v # vs \<and> \<not> lane_fits p (lw_cost v) L
    \<and> (\<exists>q < classCount. (ln_strict L \<or> q \<le> p) \<and> 0 < ln_used L q)"
proof -
  have q: "lane_queue L W" using inv by (simp add: lane_inv_def)
  have p: "p < classCount" and "a \<in> lw_ready ` set (ln_waiters L p)" using queue_entry [OF q w(1)] w(2) by auto
  then obtain v vs where v: "ln_waiters L p = v # vs" by (cases "ln_waiters L p") auto
  then have nofit: "\<not> lane_fits p (lw_cost v) L" using inv p by (simp add: lane_inv_def lane_settled_def)
  have "W (lw_ready v) = Some (p, lw_cost v)" using queue_waiter [OF q, of v p] v by simp
  then have pos: "lane_possible p (lw_cost v) L" using queue_entry [OF q] by blast
  have nn: "0 \<le> ln_used L r" for r by (rule lane_nonneg [OF inv])
  have "\<exists>r < classCount. (ln_strict L \<or> r \<le> p) \<and> 0 < ln_used L r"
  proof (rule ccontr)
    assume no: "\<not> ?thesis"
    have zero: "ln_used L r = 0" if "r < classCount" "ln_strict L \<or> r \<le> p" for r
      using no nn [of r] that by force
    have "lane_total p (lw_cost v) L = lw_cost v"
      using zero [of 0] zero [of 1] zero [of 2] by (auto simp: lane_total_eq classCount_def)
    then have "lane_fits p (lw_cost v) L"
      using pos zero [OF p] by (auto simp: lane_fits_def lane_possible_def)
    with nofit show False by simp
  qed
  with v nofit show ?thesis by blast
qed

section \<open>Properties\<close>

text \<open>
  C14.  What a lane gives out, in any order of requests, cancellations and releases: its account is
  exact (what the holders and the granted requests have); a strict lane never gives out more than its
  capacity nor a class more than its limit, and a shared lane no class more than the capacity.
\<close>

theorem lane_limits:
  assumes "lane_run capacity strict interactive background L H W"
  shows "\<not> hp_panicked (ln_heap L)
    \<and> (\<forall>p. 0 \<le> H p \<and> ln_used L p = H p + granted_sum (ln_heap L) W p)
    \<and> (if ln_strict L
       then ln_used L 0 + ln_used L 1 + ln_used L 2 \<le> ln_capacity L \<and> (\<forall>p < classCount. ln_used L p \<le> ln_limits L p)
       else \<forall>p < classCount. ln_used L p \<le> ln_capacity L)"
proof -
  have inv: "lane_inv L H W" by (rule lane_run_inv [OF assms])
  then have "heap_ok (ln_heap L)" using queue_heap(1) [of L W] by (simp add: lane_inv_def)
  then show ?thesis
    using inv heap_ok_no_panic by (auto simp: lane_inv_def lane_account_def lane_bounds_def)
qed


text \<open>A lane for one: background work holds it, and another background request waits.\<close>

definition lane_one :: lane where "lane_one = newLane 1 False 1 1"
definition lane_busy :: lane where "lane_busy = snd (lane_acquire 2 1 lane_one)"
definition lane_waiting :: lane where "lane_waiting = snd (lane_acquire 2 1 lane_busy)"

lemma lane_one_facts:
  "lane_acquire 2 1 lane_one = (Admitted, lane_busy)" "lane_acquire 2 1 lane_busy = (Waits 0, lane_waiting)"
  "lane_possible 2 1 lane_one" "lane_possible 2 1 lane_busy" "ch_open (ln_heap lane_waiting) 0"
  by (simp_all add: lane_one_def lane_busy_def lane_waiting_def newLane_def lane_acquire_def lane_fits_def lane_total_eq
      lane_possible_def Let_def ch_make_def hp_empty_def ch_open_def)

lemma lane_busy_run: "lane_run 1 False 1 1 lane_busy ((\<lambda>_. 0)(2 := 1)) Map.empty"
proof -
  have "lane_run 1 False 1 1 lane_one (\<lambda>_. 0) Map.empty" unfolding lane_one_def by (rule lane_run.fresh) simp_all
  from lane_run.admitted [OF this _ _ lane_one_facts(3,1)] show ?thesis by (simp add: classCount_def)
qed

lemma lane_waiting_run: "lane_run 1 False 1 1 lane_waiting ((\<lambda>_. 0)(2 := 1)) (Map.empty(0 \<mapsto> (2, 1)))"
  using lane_run.waits [OF lane_busy_run _ _ lane_one_facts(4,2)] by (simp add: classCount_def)

theorem lane_limits_witness: "\<not> hp_panicked (ln_heap lane_waiting)"
  using lane_limits [OF lane_waiting_run] by blast


end
