(* ===== verification/Governor.thy ===== *)
theory Governor
  imports Lane
begin

text \<open>
  The workload governor: packages/workload/governor.go.  It owns a lane for the processor, one for
  light work and one for each encoding device; a reservation takes its lanes one after another and
  gives them back in reverse.  The lane is used through the interface \<open>lane_service\<close> below, which
  theory Lane provides.  A reservation is the state of one call of \<open>reserve\<close> and of the closure it
  returns; every access to a lane is one atomic step, as in the code.
\<close>

section \<open>State\<close>

datatype lane_id = CpuLane | LightLane | DeviceLane string

record governor =
  gv_cpu :: lane
  gv_light :: lane
  gv_devices :: "(string, lane) gomap"
  gv_sessions :: "string \<Rightarrow> int"
  gv_active :: "nat \<Rightarrow> int"
  gv_waiting :: "nat \<Rightarrow> int"

record gov_metrics =
  gm_Capacity :: int
  gm_BackgroundCapacity :: int
  gm_InteractiveCapacity :: int
  gm_LightCapacity :: int
  gm_Active :: "nat \<Rightarrow> int"
  gm_Waiting :: "nat \<Rightarrow> int"

definition gov_New :: "int \<Rightarrow> (string \<Rightarrow> int) \<Rightarrow> governor" where
  "gov_New requested sessions = (let capacity = max 1 requested; light = min 64 (max 8 (2 * capacity)) in
     \<lparr>gv_cpu = newLane capacity False (max 1 (capacity div 4)) (max 1 (capacity div 2)),
      gv_light = newLane light False (light div 2) (light div 2),
      gv_devices = [], gv_sessions = sessions, gv_active = (\<lambda>_. 0), gv_waiting = (\<lambda>_. 0)\<rparr>)"

definition default_sessions :: "string \<Rightarrow> int" where
  "default_sessions _ = 2"

definition capacityFor :: "int \<Rightarrow> int" where
  "capacityFor processors = max 1 processors"

definition validClass :: "workload_class \<Rightarrow> bool" where
  "validClass c \<longleftrightarrow> c = Playback \<or> c = Background \<or> c = Interactive"

definition gov_lane :: "governor \<Rightarrow> lane_id \<Rightarrow> lane option" where
  "gov_lane G x = (case x of CpuLane \<Rightarrow> Some (gv_cpu G) | LightLane \<Rightarrow> Some (gv_light G)
     | DeviceLane key \<Rightarrow> map_of (gv_devices G) key)"

definition put_lane :: "lane_id \<Rightarrow> lane \<Rightarrow> governor \<Rightarrow> governor" where
  "put_lane x l G = (case x of CpuLane \<Rightarrow> G\<lparr>gv_cpu := l\<rparr> | LightLane \<Rightarrow> G\<lparr>gv_light := l\<rparr>
     | DeviceLane key \<Rightarrow> G\<lparr>gv_devices := mput key l (gv_devices G)\<rparr>)"

definition gov_device :: "string \<Rightarrow> governor \<Rightarrow> governor" where
  "gov_device key G = (case map_of (gv_devices G) key of
     Some _ \<Rightarrow> G
   | None \<Rightarrow> let n = max 1 (gv_sessions G key) in
       G\<lparr>gv_devices := mput key (newLane n True (n - 1) (n - 1)) (gv_devices G)\<rparr>)"

definition gov_Metrics :: "governor \<Rightarrow> gov_metrics" where
  "gov_Metrics G = \<lparr>gm_Capacity = ln_capacity (gv_cpu G), gm_BackgroundCapacity = ln_limits (gv_cpu G) 2,
     gm_InteractiveCapacity = ln_limits (gv_cpu G) 1, gm_LightCapacity = ln_capacity (gv_light G),
     gm_Active = gv_active G, gm_Waiting = gv_waiting G\<rparr>"

definition EncodingCapacity :: "governor option \<Rightarrow> int" where
  "EncodingCapacity gov = (case gov of None \<Rightarrow> 1 | Some G \<Rightarrow> ln_capacity (gv_cpu G))"

section \<open>Asking for a reservation\<close>

text \<open>
  What \<open>AcquireEncoding\<close> and \<open>AcquireLight\<close> decide before \<open>reserve\<close>: an error, no reservation
  (a nil governor), or the lanes and costs to take; and the first check of \<open>reserve\<close>.
\<close>

datatype gov_request = Invalid | Free | Take "(lane_id \<times> int) list"

definition AcquireEncoding :: "workload_class \<Rightarrow> int \<Rightarrow> string \<Rightarrow> governor option \<Rightarrow> gov_request \<times> governor option" where
  "AcquireEncoding c cost dev gov =
     (if cost < 1 \<or> length dev > 512 \<or> \<not> validClass c then (Invalid, gov)
      else case gov of None \<Rightarrow> (Free, None)
      | Some G \<Rightarrow> if dev = '''' then (Take [(CpuLane, cost)], Some G)
                 else (Take [(DeviceLane dev, cost), (LightLane, 1)], Some (gov_device dev G)))"

definition AcquireLight :: "workload_class \<Rightarrow> governor option \<Rightarrow> gov_request" where
  "AcquireLight c gov = (if \<not> validClass c then Invalid
     else case gov of None \<Rightarrow> Free | Some G \<Rightarrow> Take [(LightLane, 1)])"

definition gov_Acquire :: "workload_class \<Rightarrow> governor option \<Rightarrow> gov_request \<times> governor option" where
  "gov_Acquire c gov = AcquireEncoding c 1 '''' gov"

definition reserve_possible :: "nat \<Rightarrow> (lane_id \<times> int) list \<Rightarrow> governor \<Rightarrow> bool" where
  "reserve_possible priority costs G \<longleftrightarrow> list_all (\<lambda>(x, cost). case gov_lane G x of
     None \<Rightarrow> False | Some l \<Rightarrow> lane_possible priority cost l) costs"

text \<open>
  A reservation: taking its \<open>i\<close>-th lane, asleep at the \<open>i\<close>-th lane, held, or giving back the first
  \<open>i\<close> lanes (\<open>releaseLanes\<close>), after an error or after the release function was called.
\<close>

datatype rsv_phase = Taking nat | Asleep nat nat | Held | Failing nat | Dropping nat

record reservation =
  rv_priority :: nat
  rv_costs :: "(lane_id \<times> int) list"
  rv_phase :: rsv_phase

section \<open>The interface to the lanes\<close>

text \<open>
  What the governor relies on: a provider of lanes keeps an account of what returned requests hold
  (\<open>H\<close>, by class) and of the requests that are asleep (\<open>W\<close>, by channel).
\<close>

locale lane_service =
  fixes inv :: "'l \<Rightarrow> (nat \<Rightarrow> int) \<Rightarrow> (nat \<Rightarrow> (nat \<times> int) option) \<Rightarrow> bool"
    and possible :: "nat \<Rightarrow> int \<Rightarrow> 'l \<Rightarrow> bool"
    and acquire :: "nat \<Rightarrow> int \<Rightarrow> 'l \<Rightarrow> lane_result \<times> 'l"
    and woken :: "'l \<Rightarrow> nat \<Rightarrow> bool"
    and cancel :: "nat \<Rightarrow> lane_waiter \<Rightarrow> 'l \<Rightarrow> 'l"
    and release :: "nat \<Rightarrow> int \<Rightarrow> 'l \<Rightarrow> 'l"
  assumes admitted: "inv l H W \<Longrightarrow> acquire p c l = (Admitted, l') \<Longrightarrow> p < classCount \<Longrightarrow> 1 \<le> c \<Longrightarrow> possible p c l \<Longrightarrow>
      inv l' (H(p := H p + c)) W"
    and waits: "inv l H W \<Longrightarrow> acquire p c l = (Waits a, l') \<Longrightarrow> p < classCount \<Longrightarrow> 1 \<le> c \<Longrightarrow> possible p c l \<Longrightarrow>
      inv l' H (W(a \<mapsto> (p, c)))"
    and waits_fresh: "inv l H W \<Longrightarrow> acquire p c l = (Waits a, l') \<Longrightarrow> p < classCount \<Longrightarrow> 1 \<le> c \<Longrightarrow> possible p c l \<Longrightarrow> W a = None"
    and woke: "inv l H W \<Longrightarrow> W a = Some (p, c) \<Longrightarrow> woken l a \<Longrightarrow> inv l (H(p := H p + c)) (W(a := None))"
    and cancelled: "inv l H W \<Longrightarrow> W a = Some (p, c) \<Longrightarrow>
      inv (cancel p \<lparr>lw_cost = c, lw_ready = a\<rparr> l) H (W(a := None))"
    and released: "inv l H W \<Longrightarrow> p < classCount \<Longrightarrow> 0 \<le> c \<Longrightarrow> c \<le> H p \<Longrightarrow> inv (release p c l) (H(p := H p - c)) W"
    and possible_acquire: "possible q d (snd (acquire p c l)) = possible q d l"
    and possible_cancel: "possible q d (cancel p w l) = possible q d l"
    and possible_release: "possible q d (release p c l) = possible q d l"
begin

text \<open>A family of lanes, each with its own accounts.\<close>

definition lanes_ok :: "('x \<Rightarrow> 'l option) \<Rightarrow> ('x \<Rightarrow> nat \<Rightarrow> int) \<Rightarrow> ('x \<Rightarrow> nat \<Rightarrow> (nat \<times> int) option) \<Rightarrow> bool" where
  "lanes_ok ls H W \<longleftrightarrow> (\<forall>x. case ls x of None \<Rightarrow> H x = (\<lambda>_. 0) \<and> W x = Map.empty | Some l \<Rightarrow> inv l (H x) (W x))"

lemma lanes_okD: "lanes_ok ls H W \<Longrightarrow> ls x = Some l \<Longrightarrow> inv l (H x) (W x)"
  unfolding lanes_ok_def by (drule spec [of _ x]) simp

lemma lanes_ok_update:
  "lanes_ok ls H W \<Longrightarrow> inv l' h w \<Longrightarrow> lanes_ok (ls(x \<mapsto> l')) (H(x := h)) (W(x := w))"
  unfolding lanes_ok_def
proof
  fix y
  assume "\<forall>x. case ls x of None \<Rightarrow> H x = (\<lambda>_. 0) \<and> W x = Map.empty | Some l \<Rightarrow> inv l (H x) (W x)" and l: "inv l' h w"
  then have "case ls y of None \<Rightarrow> H y = (\<lambda>_. 0) \<and> W y = Map.empty | Some l \<Rightarrow> inv l (H y) (W y)" by blast
  with l show "case (ls(x \<mapsto> l')) y of None \<Rightarrow> (H(x := h)) y = (\<lambda>_. 0) \<and> (W(x := w)) y = Map.empty
      | Some l \<Rightarrow> inv l ((H(x := h)) y) ((W(x := w)) y)"
    by (cases "y = x"; cases "ls y") simp_all
qed

lemma lanes_admitted:
  assumes "lanes_ok ls H W" "ls x = Some l" "acquire p c l = (Admitted, l')" "p < classCount" "1 \<le> c" "possible p c l"
  shows "lanes_ok (ls(x \<mapsto> l')) (H(x := (H x)(p := H x p + c))) W"
  using lanes_ok_update [OF assms(1) admitted [OF lanes_okD [OF assms(1,2)] assms(3-6)], of x] by simp

lemma lanes_waits:
  assumes "lanes_ok ls H W" "ls x = Some l" "acquire p c l = (Waits a, l')" "p < classCount" "1 \<le> c" "possible p c l"
  shows "lanes_ok (ls(x \<mapsto> l')) H (W(x := (W x)(a \<mapsto> (p, c))))" and "W x a = None"
  using lanes_ok_update [OF assms(1) waits [OF lanes_okD [OF assms(1,2)] assms(3-6)], of x]
    waits_fresh [OF lanes_okD [OF assms(1,2)] assms(3-6)] by simp_all

lemma lanes_woke:
  assumes "lanes_ok ls H W" "ls x = Some l" "W x a = Some (p, c)" "woken l a"
  shows "lanes_ok ls (H(x := (H x)(p := H x p + c))) (W(x := (W x)(a := None)))"
proof -
  have "ls(x \<mapsto> l) = ls" using assms(2) by auto
  with lanes_ok_update [OF assms(1) woke [OF lanes_okD [OF assms(1,2)] assms(3,4)], of x] show ?thesis by simp
qed

lemma lanes_cancelled:
  assumes "lanes_ok ls H W" "ls x = Some l" "W x a = Some (p, c)"
  shows "lanes_ok (ls(x \<mapsto> cancel p \<lparr>lw_cost = c, lw_ready = a\<rparr> l)) H (W(x := (W x)(a := None)))"
  using lanes_ok_update [OF assms(1) cancelled [OF lanes_okD [OF assms(1,2)] assms(3)], of x] by simp

lemma lanes_released:
  assumes "lanes_ok ls H W" "ls x = Some l" "p < classCount" "0 \<le> c" "c \<le> H x p"
  shows "lanes_ok (ls(x \<mapsto> release p c l)) (H(x := (H x)(p := H x p - c))) W"
  using lanes_ok_update [OF assms(1) released [OF lanes_okD [OF assms(1,2)] assms(3-5)], of x] by simp

lemma lanes_new:
  assumes "lanes_ok ls H W" "ls x = None" "inv l (\<lambda>_. 0) Map.empty"
  shows "lanes_ok (ls(x \<mapsto> l)) H W"
  unfolding lanes_ok_def
proof
  fix y
  show "case (ls(x \<mapsto> l)) y of None \<Rightarrow> H y = (\<lambda>_. 0) \<and> W y = Map.empty | Some l \<Rightarrow> inv l (H y) (W y)"
  proof (cases "y = x")
    case True
    have "case ls x of None \<Rightarrow> H x = (\<lambda>_. 0) \<and> W x = Map.empty | Some l \<Rightarrow> inv l (H x) (W x)"
      using assms(1) unfolding lanes_ok_def by blast
    then have "H x = (\<lambda>_. 0)" "W x = Map.empty" using assms(2) by simp_all
    with True assms(3) show ?thesis by simp
  next
    case False
    with assms(1) show ?thesis unfolding lanes_ok_def by simp
  qed
qed

end

lemma lane_grant_config:
  "ln_capacity (lane_grant_class p L) = ln_capacity L \<and> ln_strict (lane_grant_class p L) = ln_strict L
     \<and> ln_limits (lane_grant_class p L) = ln_limits L"
proof (induction p L rule: lane_grant_class.induct)
  case (1 p L)
  then show ?case
    by (subst (1 2 3) lane_grant_class.simps) (auto split: list.splits)
qed

lemma lane_grant_possible: "lane_possible q d (lane_grant L) = lane_possible q d L"
proof -
  have "ln_capacity (fold lane_grant_class ps L) = ln_capacity L \<and> ln_strict (fold lane_grant_class ps L) = ln_strict L
     \<and> ln_limits (fold lane_grant_class ps L) = ln_limits L" for ps
    by (induction ps arbitrary: L) (auto simp: lane_grant_config)
  then show ?thesis by (simp add: lane_grant_def lane_possible_def)
qed

interpretation lanes: lane_service lane_inv lane_possible lane_acquire "\<lambda>L a. \<not> ch_open (ln_heap L) a" lane_cancel lane_release
proof
  fix L H W p c L' a q d w
  show "lane_inv L H W \<Longrightarrow> lane_acquire p c L = (Admitted, L') \<Longrightarrow> p < classCount \<Longrightarrow> 1 \<le> c \<Longrightarrow> lane_possible p c L \<Longrightarrow>
      lane_inv L' (H(p := H p + c)) W" by (rule acquire_admitted_inv)
  show "lane_inv L H W \<Longrightarrow> lane_acquire p c L = (Waits a, L') \<Longrightarrow> p < classCount \<Longrightarrow> 1 \<le> c \<Longrightarrow> lane_possible p c L \<Longrightarrow>
      lane_inv L' H (W(a \<mapsto> (p, c)))" by (rule acquire_waits_inv)
  show "lane_inv L H W \<Longrightarrow> lane_acquire p c L = (Waits a, L') \<Longrightarrow> p < classCount \<Longrightarrow> 1 \<le> c \<Longrightarrow> lane_possible p c L \<Longrightarrow>
      W a = None" by (rule acquire_waits_inv)
  show "lane_inv L H W \<Longrightarrow> W a = Some (p, c) \<Longrightarrow> \<not> ch_open (ln_heap L) a \<Longrightarrow> lane_inv L (H(p := H p + c)) (W(a := None))"
    by (rule lane_wake_inv)
  show "lane_inv L H W \<Longrightarrow> W a = Some (p, c) \<Longrightarrow> lane_inv (lane_cancel p \<lparr>lw_cost = c, lw_ready = a\<rparr> L) H (W(a := None))"
    using lane_cancel_inv [of L H W "\<lparr>lw_cost = c, lw_ready = a\<rparr>" p] by simp
  show "lane_inv L H W \<Longrightarrow> p < classCount \<Longrightarrow> 0 \<le> c \<Longrightarrow> c \<le> H p \<Longrightarrow> lane_inv (lane_release p c L) (H(p := H p - c)) W"
    by (rule lane_release_inv)
  show "lane_possible q d (snd (lane_acquire p c L)) = lane_possible q d L"
    by (simp add: lane_acquire_def Let_def lane_possible_def)
  show "lane_possible q d (lane_cancel p w L) = lane_possible q d L"
    unfolding lane_cancel_def lane_grant_possible by (simp add: lane_possible_def)
  show "lane_possible q d (lane_release p c L) = lane_possible q d L"
    unfolding lane_release_def lane_grant_possible by (simp add: lane_possible_def)
qed

section \<open>Reservations in progress\<close>

text \<open>\<open>H\<close> and \<open>W\<close> are the accounts of the lanes; no operation of the program reads them.\<close>

record gov_state =
  gt_gov :: governor
  gt_rsv :: "nat \<Rightarrow> reservation option"
  gt_H :: "lane_id \<Rightarrow> nat \<Rightarrow> int"
  gt_W :: "lane_id \<Rightarrow> nat \<Rightarrow> (nat \<times> int) option"

definition gov_init :: "int \<Rightarrow> (string \<Rightarrow> int) \<Rightarrow> gov_state" where
  "gov_init capacity sessions = \<lparr>gt_gov = gov_New capacity sessions, gt_rsv = Map.empty, gt_H = (\<lambda>_ _. 0), gt_W = (\<lambda>_. Map.empty)\<rparr>"

definition count_waiting :: "nat \<Rightarrow> int \<Rightarrow> governor \<Rightarrow> governor" where
  "count_waiting p n G = G\<lparr>gv_waiting := (gv_waiting G)(p := gv_waiting G p + n)\<rparr>"

definition count_active :: "nat \<Rightarrow> int \<Rightarrow> governor \<Rightarrow> governor" where
  "count_active p n G = G\<lparr>gv_active := (gv_active G)(p := gv_active G p + n)\<rparr>"

definition set_rsv :: "nat \<Rightarrow> reservation \<Rightarrow> rsv_phase \<Rightarrow> (nat \<Rightarrow> reservation option) \<Rightarrow> nat \<Rightarrow> reservation option" where
  "set_rsv r v ph rs = rs(r \<mapsto> v\<lparr>rv_phase := ph\<rparr>)"

text \<open>
  The steps of \<open>reserve\<close> and of its release function: one access to one lane, or one counter, each
  (the counter updates around the success of a reservation are taken together).
\<close>

inductive gov_step :: "gov_state \<Rightarrow> gov_state \<Rightarrow> bool" where
  ask: "AcquireEncoding cl cost dev (Some (gt_gov S)) = (q, Some G) \<Longrightarrow> gov_step S (S\<lparr>gt_gov := G\<rparr>)"
| begin_encoding: "AcquireEncoding cl cost dev (Some (gt_gov S)) = (Take costs, Some G) \<Longrightarrow> gt_rsv S r = None \<Longrightarrow>
    reserve_possible (class_rank cl) costs G \<Longrightarrow>
    gov_step S (S\<lparr>gt_gov := count_waiting (class_rank cl) 1 G,
      gt_rsv := (gt_rsv S)(r \<mapsto> \<lparr>rv_priority = class_rank cl, rv_costs = costs, rv_phase = Taking 0\<rparr>)\<rparr>)"
| begin_light: "AcquireLight cl (Some (gt_gov S)) = Take costs \<Longrightarrow> gt_rsv S r = None \<Longrightarrow>
    reserve_possible (class_rank cl) costs (gt_gov S) \<Longrightarrow>
    gov_step S (S\<lparr>gt_gov := count_waiting (class_rank cl) 1 (gt_gov S),
      gt_rsv := (gt_rsv S)(r \<mapsto> \<lparr>rv_priority = class_rank cl, rv_costs = costs, rv_phase = Taking 0\<rparr>)\<rparr>)"
| take_lane: "gt_rsv S r = Some v \<Longrightarrow> rv_phase v = Taking i \<Longrightarrow> i < length (rv_costs v) \<Longrightarrow> rv_costs v ! i = (x, c) \<Longrightarrow>
    gov_lane (gt_gov S) x = Some l \<Longrightarrow> lane_acquire (rv_priority v) c l = (Admitted, l') \<Longrightarrow>
    gov_step S (S\<lparr>gt_gov := put_lane x l' (gt_gov S), gt_rsv := set_rsv r v (Taking (Suc i)) (gt_rsv S),
      gt_H := (gt_H S)(x := (gt_H S x)(rv_priority v := gt_H S x (rv_priority v) + c))\<rparr>)"
| fall_asleep: "gt_rsv S r = Some v \<Longrightarrow> rv_phase v = Taking i \<Longrightarrow> i < length (rv_costs v) \<Longrightarrow> rv_costs v ! i = (x, c) \<Longrightarrow>
    gov_lane (gt_gov S) x = Some l \<Longrightarrow> lane_acquire (rv_priority v) c l = (Waits a, l') \<Longrightarrow>
    gov_step S (S\<lparr>gt_gov := put_lane x l' (gt_gov S), gt_rsv := set_rsv r v (Asleep i a) (gt_rsv S),
      gt_W := (gt_W S)(x := (gt_W S x)(a \<mapsto> (rv_priority v, c)))\<rparr>)"
| wake_up: "gt_rsv S r = Some v \<Longrightarrow> rv_phase v = Asleep i a \<Longrightarrow> rv_costs v ! i = (x, c) \<Longrightarrow>
    gov_lane (gt_gov S) x = Some l \<Longrightarrow> \<not> ch_open (ln_heap l) a \<Longrightarrow>
    gov_step S (S\<lparr>gt_rsv := set_rsv r v (Taking (Suc i)) (gt_rsv S),
      gt_H := (gt_H S)(x := (gt_H S x)(rv_priority v := gt_H S x (rv_priority v) + c)),
      gt_W := (gt_W S)(x := (gt_W S x)(a := None))\<rparr>)"
| give_up: "gt_rsv S r = Some v \<Longrightarrow> rv_phase v = Asleep i a \<Longrightarrow> rv_costs v ! i = (x, c) \<Longrightarrow>
    gov_lane (gt_gov S) x = Some l \<Longrightarrow>
    gov_step S (S\<lparr>gt_gov := put_lane x (lane_cancel (rv_priority v) \<lparr>lw_cost = c, lw_ready = a\<rparr> l) (gt_gov S),
      gt_rsv := set_rsv r v (Failing i) (gt_rsv S), gt_W := (gt_W S)(x := (gt_W S x)(a := None))\<rparr>)"
| succeed: "gt_rsv S r = Some v \<Longrightarrow> rv_phase v = Taking (length (rv_costs v)) \<Longrightarrow>
    gov_step S (S\<lparr>gt_gov := count_active (rv_priority v) 1 (count_waiting (rv_priority v) (-1) (gt_gov S)),
      gt_rsv := set_rsv r v Held (gt_rsv S)\<rparr>)"
| release: "gt_rsv S r = Some v \<Longrightarrow> rv_phase v = Held \<Longrightarrow>
    gov_step S (S\<lparr>gt_gov := count_active (rv_priority v) (-1) (gt_gov S),
      gt_rsv := set_rsv r v (Dropping (length (rv_costs v))) (gt_rsv S)\<rparr>)"
| give_back: "gt_rsv S r = Some v \<Longrightarrow> rv_phase v = Failing (Suc i) \<and> ph = Failing i \<or> rv_phase v = Dropping (Suc i) \<and> ph = Dropping i \<Longrightarrow>
    rv_costs v ! i = (x, c) \<Longrightarrow> gov_lane (gt_gov S) x = Some l \<Longrightarrow>
    gov_step S (S\<lparr>gt_gov := put_lane x (lane_release (rv_priority v) c l) (gt_gov S), gt_rsv := set_rsv r v ph (gt_rsv S),
      gt_H := (gt_H S)(x := (gt_H S x)(rv_priority v := gt_H S x (rv_priority v) - c))\<rparr>)"
| failed: "gt_rsv S r = Some v \<Longrightarrow> rv_phase v = Failing 0 \<Longrightarrow>
    gov_step S (S\<lparr>gt_gov := count_waiting (rv_priority v) (-1) (gt_gov S), gt_rsv := (gt_rsv S)(r := None)\<rparr>)"
| finished: "gt_rsv S r = Some v \<Longrightarrow> rv_phase v = Dropping 0 \<Longrightarrow> gov_step S (S\<lparr>gt_rsv := (gt_rsv S)(r := None)\<rparr>)"

inductive gov_reach :: "int \<Rightarrow> (string \<Rightarrow> int) \<Rightarrow> gov_state \<Rightarrow> bool" for capacity sessions where
  start: "gov_reach capacity sessions (gov_init capacity sessions)"
| more: "gov_reach capacity sessions S \<Longrightarrow> gov_step S S' \<Longrightarrow> gov_reach capacity sessions S'"

section \<open>The accounts of the reservations\<close>

definition rsv_taken :: "reservation \<Rightarrow> nat" where
  "rsv_taken v = (case rv_phase v of Taking i \<Rightarrow> i | Asleep i a \<Rightarrow> i | Held \<Rightarrow> length (rv_costs v)
     | Failing i \<Rightarrow> i | Dropping i \<Rightarrow> i)"

definition cost_sum :: "lane_id \<Rightarrow> (lane_id \<times> int) list \<Rightarrow> int" where
  "cost_sum x costs = sum_list (map (\<lambda>(y, c). if y = x then c else 0) costs)"

definition rsv_share :: "lane_id \<Rightarrow> nat \<Rightarrow> reservation \<Rightarrow> int" where
  "rsv_share x p v = (if rv_priority v = p then cost_sum x (take (rsv_taken v) (rv_costs v)) else 0)"

definition rsv_active :: "nat \<Rightarrow> reservation \<Rightarrow> int" where
  "rsv_active p v = (if rv_priority v = p \<and> rv_phase v = Held then 1 else 0)"

definition rsv_waiting :: "nat \<Rightarrow> reservation \<Rightarrow> int" where
  "rsv_waiting p v = (if rv_priority v \<noteq> p then 0
     else case rv_phase v of Taking i \<Rightarrow> 1 | Asleep i a \<Rightarrow> 1 | Held \<Rightarrow> 0 | Failing i \<Rightarrow> 1 | Dropping i \<Rightarrow> 0)"

definition rsv_total :: "(reservation \<Rightarrow> int) \<Rightarrow> (nat \<Rightarrow> reservation option) \<Rightarrow> int" where
  "rsv_total f rs = (\<Sum>r \<in> dom rs. f (the (rs r)))"

lemma rsv_total_new: "finite (dom rs) \<Longrightarrow> rs r = None \<Longrightarrow> rsv_total f (rs(r \<mapsto> v)) = rsv_total f rs + f v"
proof -
  assume fin: "finite (dom rs)" and new: "rs r = None"
  have "rsv_total f (rs(r \<mapsto> v)) = f v + (\<Sum>q \<in> dom rs. f (the ((rs(r \<mapsto> v)) q)))"
    using fin new by (simp add: rsv_total_def domIff)
  also have "(\<Sum>q \<in> dom rs. f (the ((rs(r \<mapsto> v)) q))) = rsv_total f rs"
    unfolding rsv_total_def by (rule sum.cong) (use new in auto)
  finally have "rsv_total f (rs(r \<mapsto> v)) = f v + rsv_total f rs" .
  then show ?thesis by (simp only: add.commute)
qed

lemma rsv_total_del: "finite (dom rs) \<Longrightarrow> rs r = Some u \<Longrightarrow> rsv_total f (rs(r := None)) = rsv_total f rs - f u"
proof -
  assume "finite (dom rs)" "rs r = Some u"
  then have "rsv_total f ((rs(r := None))(r \<mapsto> u)) = rsv_total f (rs(r := None)) + f u"
    by (intro rsv_total_new) simp_all
  with \<open>rs r = Some u\<close> show ?thesis by (simp add: fun_upd_idem)
qed

lemma rsv_total_upd:
  "finite (dom rs) \<Longrightarrow> rs r = Some u \<Longrightarrow> rsv_total f (rs(r \<mapsto> v)) = rsv_total f rs - f u + f v"
  using rsv_total_new [of "rs(r := None)" r f v] rsv_total_del [of rs r u f] by simp

lemma rsv_total_ge:
  assumes "finite (dom rs)" "rs r = Some u" "\<And>q v. rs q = Some v \<Longrightarrow> 0 \<le> f v"
  shows "f u \<le> rsv_total f rs"
proof -
  have "0 \<le> rsv_total f (rs(r := None))"
    unfolding rsv_total_def by (rule sum_nonneg) (use assms(3) in \<open>auto split: if_splits\<close>)
  then show ?thesis using rsv_total_del [OF assms(1,2), of f] by simp
qed

section \<open>The invariant\<close>

definition rsv_shape :: "(lane_id \<times> int) list \<Rightarrow> bool" where
  "rsv_shape costs \<longleftrightarrow> (\<exists>c. costs = [(CpuLane, c)]) \<or> costs = [(LightLane, 1)]
     \<or> (\<exists>key c. costs = [(DeviceLane key, c), (LightLane, 1)])"

definition rsv_ok :: "governor \<Rightarrow> reservation \<Rightarrow> bool" where
  "rsv_ok G v \<longleftrightarrow> rv_priority v < classCount \<and> rsv_shape (rv_costs v) \<and> rsv_taken v \<le> length (rv_costs v)
     \<and> (\<forall>x c. (x, c) \<in> set (rv_costs v) \<longrightarrow> 1 \<le> c \<and> (\<exists>l. gov_lane G x = Some l \<and> lane_possible (rv_priority v) c l))"

definition asleep_at :: "reservation \<Rightarrow> lane_id \<Rightarrow> nat \<Rightarrow> int \<Rightarrow> bool" where
  "asleep_at v x a c \<longleftrightarrow> (\<exists>i. rv_phase v = Asleep i a \<and> i < length (rv_costs v) \<and> rv_costs v ! i = (x, c))"

text \<open>The lanes' accounts of sleepers and the sleeping reservations are the same.\<close>

definition asleep_ok :: "(nat \<Rightarrow> reservation option) \<Rightarrow> (lane_id \<Rightarrow> nat \<Rightarrow> (nat \<times> int) option) \<Rightarrow> bool" where
  "asleep_ok rs W \<longleftrightarrow>
     (\<forall>r v i a. rs r = Some v \<longrightarrow> rv_phase v = Asleep i a \<longrightarrow> i < length (rv_costs v))
     \<and> (\<forall>r v x a c. rs r = Some v \<longrightarrow> asleep_at v x a c \<longrightarrow> W x a = Some (rv_priority v, c))
     \<and> (\<forall>x a p c. W x a = Some (p, c) \<longrightarrow> (\<exists>r v. rs r = Some v \<and> asleep_at v x a c \<and> rv_priority v = p))
     \<and> (\<forall>r r' v v' x a c c'. rs r = Some v \<longrightarrow> rs r' = Some v' \<longrightarrow> asleep_at v x a c \<longrightarrow> asleep_at v' x a c' \<longrightarrow> r = r')"

definition gov_inv :: "gov_state \<Rightarrow> bool" where
  "gov_inv S \<longleftrightarrow> lanes.lanes_ok (gov_lane (gt_gov S)) (gt_H S) (gt_W S) \<and> finite (dom (gt_rsv S))
     \<and> (\<forall>r v. gt_rsv S r = Some v \<longrightarrow> rsv_ok (gt_gov S) v)
     \<and> (\<forall>x p. gt_H S x p = rsv_total (rsv_share x p) (gt_rsv S))
     \<and> asleep_ok (gt_rsv S) (gt_W S)
     \<and> (\<forall>p. gv_active (gt_gov S) p = rsv_total (rsv_active p) (gt_rsv S))
     \<and> (\<forall>p. gv_waiting (gt_gov S) p = rsv_total (rsv_waiting p) (gt_rsv S))"

lemma gov_lane_put [simp]: "gov_lane (put_lane x l G) = (gov_lane G)(x \<mapsto> l)"
  by (auto simp: gov_lane_def put_lane_def fun_eq_iff split: lane_id.splits)

lemma put_lane_counts [simp]:
  "gv_active (put_lane x l G) = gv_active G" "gv_waiting (put_lane x l G) = gv_waiting G"
  by (simp_all add: put_lane_def split: lane_id.splits)

lemma count_lanes [simp]:
  "gov_lane (count_waiting p n G) = gov_lane G" "gov_lane (count_active p n G) = gov_lane G"
  "gv_active (count_waiting p n G) = gv_active G" "gv_waiting (count_active p n G) = gv_waiting G"
  "gv_waiting (count_waiting p n G) = (gv_waiting G)(p := gv_waiting G p + n)"
  "gv_active (count_active p n G) = (gv_active G)(p := gv_active G p + n)"
  by (simp_all add: count_waiting_def count_active_def gov_lane_def fun_eq_iff split: lane_id.splits)

text \<open>Lanes are only ever added, and keep their capacity and limits.\<close>

definition lanes_kept :: "governor \<Rightarrow> governor \<Rightarrow> bool" where
  "lanes_kept G G' \<longleftrightarrow> (\<forall>x l. gov_lane G x = Some l \<longrightarrow>
     (\<exists>l'. gov_lane G' x = Some l' \<and> (\<forall>p c. lane_possible p c l' = lane_possible p c l)))"

lemma rsv_ok_kept: "lanes_kept G G' \<Longrightarrow> rsv_ok G v \<Longrightarrow> rsv_ok G' v"
  unfolding rsv_ok_def lanes_kept_def by blast

lemma lanes_kept_refl: "gov_lane G' = gov_lane G \<Longrightarrow> lanes_kept G G'"
  by (simp add: lanes_kept_def)

lemma lanes_kept_put:
  "gov_lane G x = Some l \<Longrightarrow> (\<And>p c. lane_possible p c l' = lane_possible p c l) \<Longrightarrow> lanes_kept G (put_lane x l' G)"
  by (simp add: lanes_kept_def)

lemma rsv_ok_phase:
  "rsv_ok G v \<Longrightarrow> rsv_taken (v\<lparr>rv_phase := ph\<rparr>) \<le> length (rv_costs v) \<Longrightarrow> rsv_ok G (v\<lparr>rv_phase := ph\<rparr>)"
  by (simp add: rsv_ok_def)

text \<open>A step of one reservation: what has to be shown of it.\<close>

lemma gov_inv_step:
  assumes inv: "gov_inv S" and r: "gt_rsv S r = Some v"
    and lanes: "lanes.lanes_ok (gov_lane G') H' W'" and kept: "lanes_kept (gt_gov S) G'"
    and taken: "rsv_taken (v\<lparr>rv_phase := ph\<rparr>) \<le> length (rv_costs v)"
    and H: "\<And>x p. H' x p = gt_H S x p - rsv_share x p v + rsv_share x p (v\<lparr>rv_phase := ph\<rparr>)"
    and W: "asleep_ok (set_rsv r v ph (gt_rsv S)) W'"
    and act: "\<And>p. gv_active G' p = gv_active (gt_gov S) p - rsv_active p v + rsv_active p (v\<lparr>rv_phase := ph\<rparr>)"
    and wait: "\<And>p. gv_waiting G' p = gv_waiting (gt_gov S) p - rsv_waiting p v + rsv_waiting p (v\<lparr>rv_phase := ph\<rparr>)"
  shows "gov_inv (S\<lparr>gt_gov := G', gt_rsv := set_rsv r v ph (gt_rsv S), gt_H := H', gt_W := W'\<rparr>)"
proof -
  have fin: "finite (dom (gt_rsv S))" using inv by (simp add: gov_inv_def)
  note upd = rsv_total_upd [OF fin r, of _ "v\<lparr>rv_phase := ph\<rparr>"]
  have ok: "rsv_ok G' u" if "set_rsv r v ph (gt_rsv S) q = Some u" for q u
  proof (cases "q = r")
    case True
    have "rsv_ok (gt_gov S) v" using inv r by (simp add: gov_inv_def)
    from rsv_ok_phase [OF rsv_ok_kept [OF kept this] taken] show ?thesis using that True by (simp add: set_rsv_def)
  next
    case False
    with that have "gt_rsv S q = Some u" by (simp add: set_rsv_def)
    then have "rsv_ok (gt_gov S) u" using inv by (simp add: gov_inv_def)
    then show ?thesis by (rule rsv_ok_kept [OF kept])
  qed
  have "finite (dom (set_rsv r v ph (gt_rsv S)))" using fin by (simp add: set_rsv_def)
  moreover have "H' x p = rsv_total (rsv_share x p) (set_rsv r v ph (gt_rsv S))" for x p
    using inv unfolding set_rsv_def upd H by (simp add: gov_inv_def)
  moreover have "gv_active G' p = rsv_total (rsv_active p) (set_rsv r v ph (gt_rsv S))" for p
    using inv unfolding set_rsv_def upd act by (simp add: gov_inv_def)
  moreover have "gv_waiting G' p = rsv_total (rsv_waiting p) (set_rsv r v ph (gt_rsv S))" for p
    using inv unfolding set_rsv_def upd wait by (simp add: gov_inv_def)
  ultimately show ?thesis using lanes W ok by (simp add: gov_inv_def)
qed

section \<open>The sleepers\<close>

lemma asleep_at_phase: "(\<And>i a. rv_phase v \<noteq> Asleep i a) \<Longrightarrow> \<not> asleep_at v x a c"
  by (simp add: asleep_at_def)

lemma asleepD:
  assumes "asleep_ok rs W"
  shows "rs r = Some v \<Longrightarrow> rv_phase v = Asleep i a \<Longrightarrow> i < length (rv_costs v)"
    and "rs r = Some v \<Longrightarrow> asleep_at v x a c \<Longrightarrow> W x a = Some (rv_priority v, c)"
    and "W x a = Some (p, c) \<Longrightarrow> \<exists>r v. rs r = Some v \<and> asleep_at v x a c \<and> rv_priority v = p"
    and "rs r = Some v \<Longrightarrow> rs r' = Some v' \<Longrightarrow> asleep_at v x a c \<Longrightarrow> asleep_at v' x a c' \<Longrightarrow> r = r'"
proof -
  note a = assms [unfolded asleep_ok_def]
  show "rs r = Some v \<Longrightarrow> rv_phase v = Asleep i a \<Longrightarrow> i < length (rv_costs v)"
    by (rule a [THEN conjunct1, rule_format])
  show "rs r = Some v \<Longrightarrow> asleep_at v x a c \<Longrightarrow> W x a = Some (rv_priority v, c)"
    by (rule a [THEN conjunct2, THEN conjunct1, rule_format])
  show "W x a = Some (p, c) \<Longrightarrow> \<exists>r v. rs r = Some v \<and> asleep_at v x a c \<and> rv_priority v = p"
    by (rule a [THEN conjunct2, THEN conjunct2, THEN conjunct1, rule_format])
  show "rs r = Some v \<Longrightarrow> rs r' = Some v' \<Longrightarrow> asleep_at v x a c \<Longrightarrow> asleep_at v' x a c' \<Longrightarrow> r = r'"
    by (rule a [THEN conjunct2, THEN conjunct2, THEN conjunct2, rule_format])
qed

lemma asleepI:
  assumes "\<And>r v i a. rs r = Some v \<Longrightarrow> rv_phase v = Asleep i a \<Longrightarrow> i < length (rv_costs v)"
    and "\<And>r v x a c. rs r = Some v \<Longrightarrow> asleep_at v x a c \<Longrightarrow> W x a = Some (rv_priority v, c)"
    and "\<And>x a p c. W x a = Some (p, c) \<Longrightarrow> \<exists>r v. rs r = Some v \<and> asleep_at v x a c \<and> rv_priority v = p"
    and "\<And>r r' v v' x a c c'. rs r = Some v \<Longrightarrow> rs r' = Some v' \<Longrightarrow> asleep_at v x a c \<Longrightarrow> asleep_at v' x a c' \<Longrightarrow> r = r'"
  shows "asleep_ok rs W"
  unfolding asleep_ok_def
proof (intro conjI allI impI)
  show "i < length (rv_costs v)" if "rs r = Some v" "rv_phase v = Asleep i a" for r v i a using assms(1) that .
  show "W x a = Some (rv_priority v, c)" if "rs r = Some v" "asleep_at v x a c" for r v x a c using assms(2) that .
  show "\<exists>r v. rs r = Some v \<and> asleep_at v x a c \<and> rv_priority v = p" if "W x a = Some (p, c)" for x a p c using assms(3) that .
  show "r = r'" if "rs r = Some v" "rs r' = Some v'" "asleep_at v x a c" "asleep_at v' x a c'" for r r' v v' x a c c'
    using assms(4) that .
qed

text \<open>Replacing one reservation by another that is asleep exactly as the first.\<close>

lemma asleep_same:
  assumes ok: "asleep_ok rs W" and old: "\<And>u x a c. rs r = Some u \<Longrightarrow> \<not> asleep_at u x a c"
    and new: "\<And>u i a. w = Some u \<Longrightarrow> rv_phase u \<noteq> Asleep i a"
  shows "asleep_ok (rs(r := w)) W"
proof (rule asleepI)
  have other: "q \<noteq> r \<and> rs q = Some v" if "(rs(r := w)) q = Some v" "asleep_at v x a c" for q v x a c
    using that new by (auto simp: asleep_at_def split: if_splits)
  show "i < length (rv_costs v)" if "(rs(r := w)) q = Some v" "rv_phase v = Asleep i a" for q v i a
    using that new asleepD(1) [OF ok, of q v i a] by (auto split: if_splits)
  show "W x a = Some (rv_priority v, c)" if "(rs(r := w)) q = Some v" "asleep_at v x a c" for q v x a c
    using asleepD(2) [OF ok] other [OF that] that(2) by blast
  show "\<exists>q v. (rs(r := w)) q = Some v \<and> asleep_at v x a c \<and> rv_priority v = p" if w: "W x a = Some (p, c)" for x a p c
  proof -
    obtain q v where q: "rs q = Some v" "asleep_at v x a c" "rv_priority v = p" using asleepD(3) [OF ok w] by blast
    then have "q \<noteq> r" using old by blast
    with q show ?thesis by (metis fun_upd_other)
  qed
  show "q = q'" if "(rs(r := w)) q = Some v" "(rs(r := w)) q' = Some v'" "asleep_at v x a c" "asleep_at v' x a c'" for q q' v v' x a c c'
    using asleepD(4) [OF ok] other [OF that(1,3)] other [OF that(2,4)] that(3,4) by blast
qed

text \<open>A reservation falls asleep on a fresh channel, and leaves it.\<close>

lemma asleep_enter:
  assumes ok: "asleep_ok rs W" and r: "rs r = Some v" "\<And>i a. rv_phase v \<noteq> Asleep i a"
    and i: "i < length (rv_costs v)" "rv_costs v ! i = (x, c)" and fresh: "W x a = None"
  shows "asleep_ok (set_rsv r v (Asleep i a) rs) (W(x := (W x)(a \<mapsto> (rv_priority v, c))))"
proof -
  let ?v = "v\<lparr>rv_phase := Asleep i a\<rparr>"
  have me: "asleep_at ?v y b d \<longleftrightarrow> y = x \<and> b = a \<and> d = c" for y b d
    using i by (auto simp: asleep_at_def)
  have notv: "\<not> asleep_at v y b d" for y b d by (rule asleep_at_phase) (rule r(2))
  have other: "\<not> (y = x \<and> b = a)" if "rs q = Some u" "asleep_at u y b d" for q u y b d
    using asleepD(2) [OF ok that] fresh by auto
  show ?thesis unfolding set_rsv_def
  proof (rule asleepI)
    show "j < length (rv_costs u)" if "(rs(r \<mapsto> ?v)) q = Some u" "rv_phase u = Asleep j b" for q u j b
      using that i(1) asleepD(1) [OF ok, of q u j b] by (auto split: if_splits)
    show "(W(x := (W x)(a \<mapsto> (rv_priority v, c)))) y b = Some (rv_priority u, d)"
      if "(rs(r \<mapsto> ?v)) q = Some u" "asleep_at u y b d" for q u y b d
    proof (cases "q = r")
      case True
      with that have "u = ?v" by simp
      with that(2) have "asleep_at ?v y b d" by simp
      with me \<open>u = ?v\<close> show ?thesis by simp
    next
      case False
      with that have "rs q = Some u" by simp
      with asleepD(2) [OF ok this that(2)] other [OF this that(2)] show ?thesis by auto
    qed
    show "\<exists>q u. (rs(r \<mapsto> ?v)) q = Some u \<and> asleep_at u y b d \<and> rv_priority u = p"
      if w: "(W(x := (W x)(a \<mapsto> (rv_priority v, c)))) y b = Some (p, d)" for y b p d
    proof (cases "y = x \<and> b = a")
      case True
      with w have "d = c" "p = rv_priority v" by auto
      with True me show ?thesis by (intro exI [of _ r] exI [of _ ?v]) simp
    next
      case False
      with w have "W y b = Some (p, d)" by (auto split: if_splits)
      then obtain q u where q: "rs q = Some u" "asleep_at u y b d" "rv_priority u = p" using asleepD(3) [OF ok] by blast
      then have "q \<noteq> r" using notv r(1) by auto
      with q show ?thesis by (metis fun_upd_other)
    qed
    show "q = q'" if "(rs(r \<mapsto> ?v)) q = Some u" "(rs(r \<mapsto> ?v)) q' = Some u'" "asleep_at u y b d" "asleep_at u' y b d'" for q q' u u' y b d d'
    proof (cases "q = r"; cases "q' = r")
      assume "q = r" "q' \<noteq> r"
      with that me have "y = x \<and> b = a" "rs q' = Some u'" by auto
      with other [of q' u' y b d'] that(4) show ?thesis by blast
    next
      assume "q \<noteq> r" "q' = r"
      with that me have "y = x \<and> b = a" "rs q = Some u" by auto
      with other [of q u y b d] that(3) show ?thesis by blast
    next
      assume "q \<noteq> r" "q' \<noteq> r"
      with that show ?thesis using asleepD(4) [OF ok, of q u q' u' y b d d'] by simp
    qed simp
  qed
qed

lemma asleep_leave:
  assumes ok: "asleep_ok rs W" and r: "rs r = Some v" "rv_phase v = Asleep i a" "rv_costs v ! i = (x, c)"
    and ph: "\<And>j b. ph \<noteq> Asleep j b"
  shows "asleep_ok (set_rsv r v ph rs) (W(x := (W x)(a := None)))"
proof -
  let ?v = "v\<lparr>rv_phase := ph\<rparr>"
  have me: "asleep_at v y b d \<longleftrightarrow> y = x \<and> b = a \<and> d = c" for y b d
    using r(2,3) asleepD(1) [OF ok r(1,2)] by (auto simp: asleep_at_def)
  have gone: "\<not> asleep_at ?v y b d" for y b d by (rule asleep_at_phase) (simp add: ph)
  have other: "\<not> (y = x \<and> b = a)" if "rs q = Some u" "asleep_at u y b d" "q \<noteq> r" for q u y b d
    using asleepD(4) [OF ok that(1) r(1) that(2), of c] me that(3) by auto
  show ?thesis unfolding set_rsv_def
  proof (rule asleepI)
    show "j < length (rv_costs u)" if "(rs(r \<mapsto> ?v)) q = Some u" "rv_phase u = Asleep j b" for q u j b
      using that ph asleepD(1) [OF ok, of q u j b] by (auto split: if_splits)
    have at: "q \<noteq> r \<and> rs q = Some u" if "(rs(r \<mapsto> ?v)) q = Some u" "asleep_at u y b d" for q u y b d
      using that gone by (cases "q = r") auto
    show "(W(x := (W x)(a := None))) y b = Some (rv_priority u, d)"
      if "(rs(r \<mapsto> ?v)) q = Some u" "asleep_at u y b d" for q u y b d
      using asleepD(2) [OF ok _ that(2)] at [OF that] other [OF _ that(2)] by auto
    show "\<exists>q u. (rs(r \<mapsto> ?v)) q = Some u \<and> asleep_at u y b d \<and> rv_priority u = p"
      if w: "(W(x := (W x)(a := None))) y b = Some (p, d)" for y b p d
    proof -
      have "W y b = Some (p, d)" "\<not> (y = x \<and> b = a)" using w by (auto split: if_splits)
      then obtain q u where q: "rs q = Some u" "asleep_at u y b d" "rv_priority u = p" "\<not> (y = x \<and> b = a)"
        using asleepD(3) [OF ok] by blast
      then have "q \<noteq> r" using me r(1) by auto
      with q show ?thesis by (metis fun_upd_other)
    qed
    show "q = q'" if "(rs(r \<mapsto> ?v)) q = Some u" "(rs(r \<mapsto> ?v)) q' = Some u'" "asleep_at u y b d" "asleep_at u' y b d'" for q q' u u' y b d d'
      using at [OF that(1,3)] at [OF that(2,4)] asleepD(4) [OF ok, of q u q' u' y b d d'] that(3,4) by blast
  qed
qed

section \<open>Every step keeps the invariant\<close>

lemma cost_sum_take: "i < length cs \<Longrightarrow> cs ! i = (x, c) \<Longrightarrow>
    cost_sum y (take (Suc i) cs) = cost_sum y (take i cs) + (if y = x then c else 0)"
  by (simp add: take_Suc_conv_app_nth cost_sum_def)

lemma share_step:
  assumes "rsv_taken v = i" "rsv_taken (v\<lparr>rv_phase := ph\<rparr>) = Suc i" "i < length (rv_costs v)" "rv_costs v ! i = (x, c)"
  shows "rsv_share y p (v\<lparr>rv_phase := ph\<rparr>) = rsv_share y p v + (if y = x \<and> p = rv_priority v then c else 0)"
  using assms cost_sum_take [OF assms(3,4), of y] by (simp add: rsv_share_def)

lemma rsv_ok_cost:
  assumes "rsv_ok G v" "i < length (rv_costs v)" "rv_costs v ! i = (x, c)" "gov_lane G x = Some l"
  shows "rv_priority v < classCount" "1 \<le> c" "lane_possible (rv_priority v) c l"
proof -
  have "(x, c) \<in> set (rv_costs v)" using assms(2,3) nth_mem by fastforce
  then show "rv_priority v < classCount" "1 \<le> c" "lane_possible (rv_priority v) c l"
    using assms(1,4) unfolding rsv_ok_def by fastforce+
qed

lemma gov_invD:
  assumes "gov_inv S"
  shows "lanes.lanes_ok (gov_lane (gt_gov S)) (gt_H S) (gt_W S)" "finite (dom (gt_rsv S))"
    "gt_rsv S r = Some v \<Longrightarrow> rsv_ok (gt_gov S) v" "gt_H S x p = rsv_total (rsv_share x p) (gt_rsv S)"
    "asleep_ok (gt_rsv S) (gt_W S)"
    "gv_active (gt_gov S) p = rsv_total (rsv_active p) (gt_rsv S)"
    "gv_waiting (gt_gov S) p = rsv_total (rsv_waiting p) (gt_rsv S)"
  using assms by (simp_all add: gov_inv_def)

lemma not_asleep_same:
  assumes "gov_inv S" "gt_rsv S r = Some v" "\<And>i a. rv_phase v \<noteq> Asleep i a" "\<And>i a. ph \<noteq> Asleep i a"
  shows "asleep_ok (set_rsv r v ph (gt_rsv S)) (gt_W S)"
  unfolding set_rsv_def by (rule asleep_same [OF gov_invD(5) [OF assms(1)]])
    (use assms(2-4) asleep_at_phase [OF assms(3)] in auto)

lemma share_nonneg: "rsv_ok G v \<Longrightarrow> 0 \<le> rsv_share x p v"
proof -
  assume ok: "rsv_ok G v"
  have "0 \<le> cost_sum x cs" if "set cs \<subseteq> set (rv_costs v)" for cs
    using that ok unfolding cost_sum_def by (intro sum_list_nonneg) (force simp: rsv_ok_def)
  then show ?thesis by (simp add: rsv_share_def set_take_subset)
qed

lemma taken_lane:
  assumes inv: "gov_inv S" and v: "gt_rsv S r = Some v" and i: "i < rsv_taken v" "rv_costs v ! i = (x, c)"
  shows "c \<le> gt_H S x (rv_priority v)"
proof -
  have ok: "rsv_ok (gt_gov S) v" using gov_invD(3) [OF inv v] .
  have len: "i < length (rv_costs v)" using i(1) ok by (simp add: rsv_ok_def)
  have nn: "0 \<le> cost_sum x cs" if "set cs \<subseteq> set (rv_costs v)" for cs
    using that ok unfolding cost_sum_def by (intro sum_list_nonneg) (force simp: rsv_ok_def)
  have "take (rsv_taken v) (rv_costs v) = take (Suc i) (rv_costs v) @ drop (Suc i) (take (rsv_taken v) (rv_costs v))"
    using i(1) by (metis append_take_drop_id min_def not_less_eq not_less_iff_gr_or_eq take_take Suc_leI)
  then have "cost_sum x (take (rsv_taken v) (rv_costs v)) =
      cost_sum x (take (Suc i) (rv_costs v)) + cost_sum x (drop (Suc i) (take (rsv_taken v) (rv_costs v)))"
    by (metis cost_sum_def map_append sum_list_append)
  moreover have "0 \<le> cost_sum x (drop (Suc i) (take (rsv_taken v) (rv_costs v)))"
    by (rule nn) (meson in_set_dropD in_set_takeD subsetI)
  moreover have "0 \<le> cost_sum x (take i (rv_costs v))" by (rule nn) (rule set_take_subset)
  ultimately have "c \<le> rsv_share x (rv_priority v) v"
    using cost_sum_take [OF len i(2), of x] by (simp add: rsv_share_def)
  also have "\<dots> \<le> gt_H S x (rv_priority v)"
    unfolding gov_invD(4) [OF inv]
    by (rule rsv_total_ge [OF gov_invD(2) [OF inv] v]) (rule share_nonneg [OF gov_invD(3) [OF inv]])
  finally show ?thesis .
qed

lemma device_inv:
  assumes inv: "gov_inv S"
  shows "gov_inv (S\<lparr>gt_gov := gov_device key (gt_gov S)\<rparr>)"
proof (cases "map_of (gv_devices (gt_gov S)) key")
  case (Some l)
  then show ?thesis using inv by (simp add: gov_device_def)
next
  case None
  let ?G = "gt_gov S" let ?n = "max 1 (gv_sessions ?G key)" let ?l = "newLane ?n True (?n - 1) (?n - 1)"
  have d: "gov_device key ?G = put_lane (DeviceLane key) ?l ?G" by (simp add: gov_device_def put_lane_def None Let_def)
  have none: "gov_lane ?G (DeviceLane key) = None" by (simp add: gov_lane_def None)
  have "lanes.lanes_ok (gov_lane (gov_device key ?G)) (gt_H S) (gt_W S)"
    unfolding d gov_lane_put by (rule lanes.lanes_new [OF gov_invD(1) [OF inv] none]) (rule newLane_inv, simp_all)
  moreover have "lanes_kept ?G (gov_device key ?G)" using none by (auto simp: d lanes_kept_def)
  ultimately show ?thesis using inv rsv_ok_kept unfolding gov_inv_def by (simp add: d)
qed

lemma begin_inv:
  assumes inv: "gov_inv S" and r: "gt_rsv S r = None" and p: "p < classCount" and shape: "rsv_shape costs"
    and pos: "\<forall>(x, c) \<in> set costs. 1 \<le> c" and can: "reserve_possible p costs (gt_gov S)"
  shows "gov_inv (S\<lparr>gt_gov := count_waiting p 1 (gt_gov S),
      gt_rsv := (gt_rsv S)(r \<mapsto> \<lparr>rv_priority = p, rv_costs = costs, rv_phase = Taking 0\<rparr>)\<rparr>)"
proof -
  let ?v = "\<lparr>rv_priority = p, rv_costs = costs, rv_phase = Taking 0\<rparr>"
  note new = rsv_total_new [OF gov_invD(2) [OF inv] r, of _ ?v]
  have "1 \<le> c \<and> (\<exists>l. gov_lane (gt_gov S) x = Some l \<and> lane_possible p c l)" if "(x, c) \<in> set costs" for x c
    using pos can that by (auto simp: reserve_possible_def list_all_iff split: option.splits)
  then have "rsv_ok (count_waiting p 1 (gt_gov S)) ?v" using p shape by (simp add: rsv_ok_def rsv_taken_def)
  moreover have "asleep_ok ((gt_rsv S)(r \<mapsto> ?v)) (gt_W S)"
    by (rule asleep_same [OF gov_invD(5) [OF inv]]) (use r in auto)
  moreover have "rsv_ok (count_waiting p 1 (gt_gov S)) u" if "gt_rsv S q = Some u" for q u
    by (rule rsv_ok_kept [OF lanes_kept_refl gov_invD(3) [OF inv that]]) simp
  ultimately show ?thesis
    using gov_invD(1,2) [OF inv] gov_invD(4,6,7) [OF inv]
    by (simp add: gov_inv_def new rsv_share_def rsv_active_def rsv_waiting_def rsv_taken_def cost_sum_def)
qed

lemma AcquireEncoding_take:
  assumes "AcquireEncoding cl cost dev (Some G) = (Take costs, Some G')"
  shows "class_rank cl < classCount" "rsv_shape costs" "\<forall>(x, c) \<in> set costs. 1 \<le> c" "G' = G \<or> G' = gov_device dev G"
  using assms by (auto simp: AcquireEncoding_def validClass_def classCount_def rsv_shape_def split: if_splits)

lemma AcquireLight_take:
  assumes "AcquireLight cl (Some G) = Take costs"
  shows "class_rank cl < classCount" "rsv_shape costs" "\<forall>(x, c) \<in> set costs. 1 \<le> c"
  using assms by (auto simp: AcquireLight_def validClass_def classCount_def rsv_shape_def split: if_splits)

lemma gov_step_inv:
  assumes "gov_step S S'" and inv: "gov_inv S"
  shows "gov_inv S'"
  using assms(1)
proof cases
  case (ask cl cost dev q G)
  then have "G = gt_gov S \<or> (\<exists>key. G = gov_device key (gt_gov S))"
    by (auto simp: AcquireEncoding_def split: if_splits)
  with ask inv device_inv [OF inv] show ?thesis by auto
next
  case (begin_encoding cl cost dev costs G r)
  note t = AcquireEncoding_take [OF begin_encoding(2)]
  have "gov_inv (S\<lparr>gt_gov := G\<rparr>)" using t(4) inv device_inv [OF inv] by auto
  from begin_inv [OF this, of r "class_rank cl" costs] begin_encoding t show ?thesis by simp
next
  case (begin_light cl costs r)
  note t = AcquireLight_take [OF begin_light(2)]
  from begin_inv [OF inv, of r "class_rank cl" costs] begin_light t show ?thesis by simp
next
  case (take_lane r v i x c l l')
  have ok: "rsv_ok (gt_gov S) v" by (rule gov_invD(3) [OF inv take_lane(2)])
  note c = rsv_ok_cost [OF ok take_lane(4,5,6)]
  have poss: "lane_possible q d l' = lane_possible q d l" for q d
    using lanes.possible_acquire [of q d "rv_priority v" c l] take_lane(7) by simp
  have sh: "rsv_share y p (v\<lparr>rv_phase := Taking (Suc i)\<rparr>) = rsv_share y p v + (if y = x \<and> p = rv_priority v then c else 0)" for y p
    by (rule share_step [of v i]) (use take_lane in \<open>simp_all add: rsv_taken_def\<close>)
  have "gov_inv (S\<lparr>gt_gov := put_lane x l' (gt_gov S), gt_rsv := set_rsv r v (Taking (Suc i)) (gt_rsv S),
      gt_H := (gt_H S)(x := (gt_H S x)(rv_priority v := gt_H S x (rv_priority v) + c)), gt_W := gt_W S\<rparr>)"
  proof (rule gov_inv_step [OF inv take_lane(2)])
    show "lanes.lanes_ok (gov_lane (put_lane x l' (gt_gov S)))
        ((gt_H S)(x := (gt_H S x)(rv_priority v := gt_H S x (rv_priority v) + c))) (gt_W S)"
      unfolding gov_lane_put by (rule lanes.lanes_admitted [OF gov_invD(1) [OF inv] take_lane(6,7) c])
    show "lanes_kept (gt_gov S) (put_lane x l' (gt_gov S))" by (rule lanes_kept_put [OF take_lane(6) poss])
    show "asleep_ok (set_rsv r v (Taking (Suc i)) (gt_rsv S)) (gt_W S)"
      by (rule not_asleep_same [OF inv take_lane(2)]) (simp_all add: take_lane(3))
  qed (use take_lane in \<open>auto simp: sh rsv_taken_def rsv_active_def rsv_waiting_def\<close>)
  then show ?thesis by (simp add: take_lane(1))
next
  case (fall_asleep r v i x c l a l')
  have ok: "rsv_ok (gt_gov S) v" by (rule gov_invD(3) [OF inv fall_asleep(2)])
  note c = rsv_ok_cost [OF ok fall_asleep(4,5,6)]
  have poss: "lane_possible q d l' = lane_possible q d l" for q d
    using lanes.possible_acquire [of q d "rv_priority v" c l] fall_asleep(7) by simp
  note w = lanes.lanes_waits [OF gov_invD(1) [OF inv] fall_asleep(6,7) c]
  have "gov_inv (S\<lparr>gt_gov := put_lane x l' (gt_gov S), gt_rsv := set_rsv r v (Asleep i a) (gt_rsv S),
      gt_H := gt_H S, gt_W := (gt_W S)(x := (gt_W S x)(a \<mapsto> (rv_priority v, c)))\<rparr>)"
  proof (rule gov_inv_step [OF inv fall_asleep(2)])
    show "lanes.lanes_ok (gov_lane (put_lane x l' (gt_gov S))) (gt_H S) ((gt_W S)(x := (gt_W S x)(a \<mapsto> (rv_priority v, c))))"
      unfolding gov_lane_put by (rule w(1))
    show "lanes_kept (gt_gov S) (put_lane x l' (gt_gov S))" by (rule lanes_kept_put [OF fall_asleep(6) poss])
    show "asleep_ok (set_rsv r v (Asleep i a) (gt_rsv S)) ((gt_W S)(x := (gt_W S x)(a \<mapsto> (rv_priority v, c))))"
      by (rule asleep_enter [OF gov_invD(5) [OF inv] fall_asleep(2) _ fall_asleep(4,5) w(2)]) (simp add: fall_asleep(3))
  qed (use fall_asleep in \<open>auto simp: rsv_share_def rsv_taken_def rsv_active_def rsv_waiting_def\<close>)
  then show ?thesis by (simp add: fall_asleep(1))
next
  case (wake_up r v i a x c l)
  have len: "i < length (rv_costs v)" by (rule asleepD(1) [OF gov_invD(5) [OF inv] wake_up(2,3)])
  have W: "gt_W S x a = Some (rv_priority v, c)"
    by (rule asleepD(2) [OF gov_invD(5) [OF inv] wake_up(2)]) (use wake_up(3,4) len in \<open>auto simp: asleep_at_def\<close>)
  have sh: "rsv_share y p (v\<lparr>rv_phase := Taking (Suc i)\<rparr>) = rsv_share y p v + (if y = x \<and> p = rv_priority v then c else 0)" for y p
    by (rule share_step [of v i]) (use wake_up len in \<open>simp_all add: rsv_taken_def\<close>)
  have "gov_inv (S\<lparr>gt_gov := gt_gov S, gt_rsv := set_rsv r v (Taking (Suc i)) (gt_rsv S),
      gt_H := (gt_H S)(x := (gt_H S x)(rv_priority v := gt_H S x (rv_priority v) + c)),
      gt_W := (gt_W S)(x := (gt_W S x)(a := None))\<rparr>)"
  proof (rule gov_inv_step [OF inv wake_up(2)])
    show "lanes.lanes_ok (gov_lane (gt_gov S)) ((gt_H S)(x := (gt_H S x)(rv_priority v := gt_H S x (rv_priority v) + c)))
        ((gt_W S)(x := (gt_W S x)(a := None)))"
      by (rule lanes.lanes_woke [OF gov_invD(1) [OF inv] wake_up(5) W wake_up(6)])
    show "lanes_kept (gt_gov S) (gt_gov S)" by (rule lanes_kept_refl) simp
    show "asleep_ok (set_rsv r v (Taking (Suc i)) (gt_rsv S)) ((gt_W S)(x := (gt_W S x)(a := None)))"
      by (rule asleep_leave [OF gov_invD(5) [OF inv] wake_up(2,3,4)]) simp
  qed (use wake_up len in \<open>auto simp: sh rsv_taken_def rsv_active_def rsv_waiting_def\<close>)
  then show ?thesis by (simp add: wake_up(1))
next
  case (give_up r v i a x c l)
  have len: "i < length (rv_costs v)" by (rule asleepD(1) [OF gov_invD(5) [OF inv] give_up(2,3)])
  have W: "gt_W S x a = Some (rv_priority v, c)"
    by (rule asleepD(2) [OF gov_invD(5) [OF inv] give_up(2)]) (use give_up(3,4) len in \<open>auto simp: asleep_at_def\<close>)
  let ?l = "lane_cancel (rv_priority v) \<lparr>lw_cost = c, lw_ready = a\<rparr> l"
  have "gov_inv (S\<lparr>gt_gov := put_lane x ?l (gt_gov S), gt_rsv := set_rsv r v (Failing i) (gt_rsv S),
      gt_H := gt_H S, gt_W := (gt_W S)(x := (gt_W S x)(a := None))\<rparr>)"
  proof (rule gov_inv_step [OF inv give_up(2)])
    show "lanes.lanes_ok (gov_lane (put_lane x ?l (gt_gov S))) (gt_H S) ((gt_W S)(x := (gt_W S x)(a := None)))"
      unfolding gov_lane_put by (rule lanes.lanes_cancelled [OF gov_invD(1) [OF inv] give_up(5) W])
    show "lanes_kept (gt_gov S) (put_lane x ?l (gt_gov S))"
      by (rule lanes_kept_put [OF give_up(5)]) (rule lanes.possible_cancel)
    show "asleep_ok (set_rsv r v (Failing i) (gt_rsv S)) ((gt_W S)(x := (gt_W S x)(a := None)))"
      by (rule asleep_leave [OF gov_invD(5) [OF inv] give_up(2,3,4)]) simp
  qed (use give_up len in \<open>auto simp: rsv_share_def rsv_taken_def rsv_active_def rsv_waiting_def\<close>)
  then show ?thesis by (simp add: give_up(1))
next
  case (succeed r v)
  have "gov_inv (S\<lparr>gt_gov := count_active (rv_priority v) 1 (count_waiting (rv_priority v) (-1) (gt_gov S)),
      gt_rsv := set_rsv r v Held (gt_rsv S), gt_H := gt_H S, gt_W := gt_W S\<rparr>)"
  proof (rule gov_inv_step [OF inv succeed(2)])
    show "asleep_ok (set_rsv r v Held (gt_rsv S)) (gt_W S)"
      by (rule not_asleep_same [OF inv succeed(2)]) (simp_all add: succeed(3))
  qed (use succeed gov_invD(1) [OF inv] in \<open>auto simp: rsv_share_def rsv_taken_def rsv_active_def rsv_waiting_def lanes_kept_refl\<close>)
  then show ?thesis by (simp add: succeed(1))
next
  case (release r v)
  have "gov_inv (S\<lparr>gt_gov := count_active (rv_priority v) (-1) (gt_gov S),
      gt_rsv := set_rsv r v (Dropping (length (rv_costs v))) (gt_rsv S), gt_H := gt_H S, gt_W := gt_W S\<rparr>)"
  proof (rule gov_inv_step [OF inv release(2)])
    show "asleep_ok (set_rsv r v (Dropping (length (rv_costs v))) (gt_rsv S)) (gt_W S)"
      by (rule not_asleep_same [OF inv release(2)]) (simp_all add: release(3))
  qed (use release gov_invD(1) [OF inv] in \<open>auto simp: rsv_share_def rsv_taken_def rsv_active_def rsv_waiting_def lanes_kept_refl\<close>)
  then show ?thesis by (simp add: release(1))
next
  case (give_back r v i ph x c l)
  have ok: "rsv_ok (gt_gov S) v" by (rule gov_invD(3) [OF inv give_back(2)])
  have tk: "rsv_taken v = Suc i" "rsv_taken (v\<lparr>rv_phase := ph\<rparr>) = i" using give_back(3) by (auto simp: rsv_taken_def)
  have len: "i < length (rv_costs v)" using ok tk by (simp add: rsv_ok_def)
  note c = rsv_ok_cost [OF ok len give_back(4,5)]
  have le: "c \<le> gt_H S x (rv_priority v)" by (rule taken_lane [OF inv give_back(2) _ give_back(4)]) (simp add: tk)
  have "rsv_taken ((v\<lparr>rv_phase := ph\<rparr>)\<lparr>rv_phase := rv_phase v\<rparr>) = Suc i" using tk by simp
  from share_step [OF tk(2) this] len give_back(4)
  have sh: "rsv_share y p v = rsv_share y p (v\<lparr>rv_phase := ph\<rparr>) + (if y = x \<and> p = rv_priority v then c else 0)" for y p
    by (simp add: len)
  let ?l = "lane_release (rv_priority v) c l"
  have "gov_inv (S\<lparr>gt_gov := put_lane x ?l (gt_gov S), gt_rsv := set_rsv r v ph (gt_rsv S),
      gt_H := (gt_H S)(x := (gt_H S x)(rv_priority v := gt_H S x (rv_priority v) - c)), gt_W := gt_W S\<rparr>)"
  proof (rule gov_inv_step [OF inv give_back(2)])
    show "lanes.lanes_ok (gov_lane (put_lane x ?l (gt_gov S)))
        ((gt_H S)(x := (gt_H S x)(rv_priority v := gt_H S x (rv_priority v) - c))) (gt_W S)"
      unfolding gov_lane_put
      by (rule lanes.lanes_released [OF gov_invD(1) [OF inv] give_back(5) c(1) _ le]) (use c(2) in simp)
    show "lanes_kept (gt_gov S) (put_lane x ?l (gt_gov S))"
      by (rule lanes_kept_put [OF give_back(5)]) (rule lanes.possible_release)
    show "asleep_ok (set_rsv r v ph (gt_rsv S)) (gt_W S)"
      by (rule not_asleep_same [OF inv give_back(2)]) (use give_back(3) in auto)
    show "rsv_taken (v\<lparr>rv_phase := ph\<rparr>) \<le> length (rv_costs v)" using tk len by simp
  qed (use give_back(3) in \<open>auto simp: sh rsv_active_def rsv_waiting_def\<close>)
  then show ?thesis by (simp add: give_back(1))
next
  case (failed r v)
  note del = rsv_total_del [OF gov_invD(2) [OF inv] failed(2)]
  have "asleep_ok ((gt_rsv S)(r := None)) (gt_W S)"
    by (rule asleep_same [OF gov_invD(5) [OF inv]]) (use failed asleep_at_phase [of v] in auto)
  moreover have "rsv_ok (count_waiting (rv_priority v) (-1) (gt_gov S)) u" if "gt_rsv S q = Some u" for q u
    by (rule rsv_ok_kept [OF lanes_kept_refl gov_invD(3) [OF inv that]]) simp
  ultimately show ?thesis
    using gov_invD(1,2) [OF inv] gov_invD(4,6,7) [OF inv] failed(3)
    by (simp add: failed(1) gov_inv_def del rsv_share_def rsv_active_def rsv_waiting_def rsv_taken_def cost_sum_def)
next
  case (finished r v)
  note del = rsv_total_del [OF gov_invD(2) [OF inv] finished(2)]
  have "asleep_ok ((gt_rsv S)(r := None)) (gt_W S)"
    by (rule asleep_same [OF gov_invD(5) [OF inv]]) (use finished asleep_at_phase [of v] in auto)
  then show ?thesis
    using gov_invD(1,2,3) [OF inv] gov_invD(4,6,7) [OF inv] finished(3)
    by (simp add: finished(1) gov_inv_def del rsv_share_def rsv_active_def rsv_waiting_def rsv_taken_def cost_sum_def)
qed

lemma gov_init_inv: "gov_inv (gov_init capacity sessions)"
proof -
  have "lane_inv (gv_cpu (gov_New capacity sessions)) (\<lambda>_. 0) Map.empty"
    "lane_inv (gv_light (gov_New capacity sessions)) (\<lambda>_. 0) Map.empty"
    unfolding gov_New_def Let_def by (simp_all, (rule newLane_inv, simp_all)+)
  then have "lanes.lanes_ok (gov_lane (gov_New capacity sessions)) (\<lambda>_ _. 0) (\<lambda>_. Map.empty)"
    by (auto simp: lanes.lanes_ok_def gov_lane_def gov_New_def Let_def split: lane_id.splits)
  then show ?thesis
    by (simp add: gov_inv_def gov_init_def rsv_total_def asleep_ok_def) (simp add: gov_New_def Let_def)
qed

lemma gov_reach_inv: "gov_reach capacity sessions S \<Longrightarrow> gov_inv S"
  by (induction rule: gov_reach.induct) (auto intro: gov_init_inv gov_step_inv)

section \<open>Deadlock freedom\<close>

text \<open>A reservation that can go on by itself: not asleep, or asleep on a channel that was closed.\<close>

definition can_go_on :: "gov_state \<Rightarrow> reservation \<Rightarrow> bool" where
  "can_go_on S v \<longleftrightarrow> (\<forall>i a. rv_phase v = Asleep i a \<longrightarrow>
     (\<exists>x c l. rv_costs v ! i = (x, c) \<and> gov_lane (gt_gov S) x = Some l \<and> \<not> ch_open (ln_heap l) a))"

lemma rsv_total_pos:
  assumes "0 < rsv_total f rs"
  shows "\<exists>r v. rs r = Some v \<and> 0 < f v"
proof (rule ccontr)
  assume no: "\<not> ?thesis"
  have "rsv_total f rs \<le> 0"
    unfolding rsv_total_def by (rule sum_nonpos) (use no in \<open>auto simp: not_less\<close>)
  with assms show False by simp
qed

lemma granted_sum_pos:
  assumes "0 < granted_sum h W p"
  shows "\<exists>a c. W a = Some (p, c) \<and> \<not> ch_open h a"
proof (rule ccontr)
  assume "\<not> ?thesis"
  then have none: "W a = Some (p, c) \<Longrightarrow> ch_open h a" for a c by blast
  have "{a \<in> dom W. fst (the (W a)) = p \<and> \<not> ch_open h a} = {}"
  proof (rule equals0I)
    fix a
    assume "a \<in> {a \<in> dom W. fst (the (W a)) = p \<and> \<not> ch_open h a}"
    then obtain c where "W a = Some (p, c)" "\<not> ch_open h a" by auto
    with none show False by blast
  qed
  with assms show False by (simp add: granted_sum_def)
qed

lemma sleeper_blocked_by:
  assumes inv: "gov_inv S" and r: "gt_rsv S r = Some v" "asleep_at v x a c"
  shows "(\<exists>r v. gt_rsv S r = Some v \<and> can_go_on S v)
    \<or> (\<exists>r u q. gt_rsv S r = Some u \<and> 0 < rsv_share x q u)"
proof -
  have W: "gt_W S x a = Some (rv_priority v, c)" by (rule asleepD(2) [OF gov_invD(5) [OF inv] r])
  have mem: "(x, c) \<in> set (rv_costs v)" using r(2) nth_mem by (fastforce simp: asleep_at_def)
  then obtain l where l: "gov_lane (gt_gov S) x = Some l"
    using gov_invD(3) [OF inv r(1)] by (auto simp: rsv_ok_def)
  have li: "lane_inv l (gt_H S x) (gt_W S x)" by (rule lanes.lanes_okD [OF gov_invD(1) [OF inv] l])
  show ?thesis
  proof (cases "ch_open (ln_heap l) a")
    case False
    with r l have "can_go_on S v" by (auto simp: can_go_on_def asleep_at_def)
    with r(1) show ?thesis by blast
  next
    case True
    from lane_waiter_blocked [OF li W True] obtain q where "0 < ln_used l q" by blast
    then have "0 < gt_H S x q \<or> 0 < granted_sum (ln_heap l) (gt_W S x) q"
      using li by (auto simp: lane_inv_def lane_account_def)
    then show ?thesis
    proof
      assume "0 < gt_H S x q"
      then show ?thesis using rsv_total_pos unfolding gov_invD(4) [OF inv] by blast
    next
      assume "0 < granted_sum (ln_heap l) (gt_W S x) q"
      then obtain b d where b: "gt_W S x b = Some (q, d)" "\<not> ch_open (ln_heap l) b" using granted_sum_pos by blast
      then obtain s u where u: "gt_rsv S s = Some u" "asleep_at u x b d"
        using asleepD(3) [OF gov_invD(5) [OF inv]] by blast
      with b l have "can_go_on S u" by (auto simp: can_go_on_def asleep_at_def)
      with u(1) show ?thesis by blast
    qed
  qed
qed

lemma asleep_share:
  assumes ok: "rsv_shape (rv_costs v)" and a: "rv_phase v = Asleep i a" "i < length (rv_costs v)" and s: "0 < rsv_share x q v"
  shows "x \<noteq> LightLane \<and> rv_costs v ! i = (LightLane, 1)"
  using assms by (auto simp: rsv_shape_def rsv_share_def rsv_taken_def cost_sum_def less_Suc_eq split: if_splits)

lemma holder_goes_on:
  assumes inv: "gov_inv S" and u: "gt_rsv S r = Some u" "0 < rsv_share x q u"
  shows "\<exists>r v. gt_rsv S r = Some v \<and> can_go_on S v"
proof (cases "\<exists>i a. rv_phase u = Asleep i a")
  case False
  then have "can_go_on S u" by (auto simp: can_go_on_def)
  with u(1) show ?thesis by blast
next
  case True
  then obtain i a where ia: "rv_phase u = Asleep i a" by blast
  have len: "i < length (rv_costs u)" by (rule asleepD(1) [OF gov_invD(5) [OF inv] u(1) ia])
  have "rsv_shape (rv_costs u)" using gov_invD(3) [OF inv u(1)] by (simp add: rsv_ok_def)
  from asleep_share [OF this ia len u(2)] have "asleep_at u LightLane a 1" using ia len by (auto simp: asleep_at_def)
  from sleeper_blocked_by [OF inv u(1) this] show ?thesis
  proof (elim disjE exE conjE)
    fix s w p
    assume w: "gt_rsv S s = Some w" "0 < rsv_share LightLane p w"
    have "can_go_on S w"
      unfolding can_go_on_def
    proof (intro allI impI)
      fix j b
      assume jb: "rv_phase w = Asleep j b"
      have "j < length (rv_costs w)" by (rule asleepD(1) [OF gov_invD(5) [OF inv] w(1) jb])
      moreover have "rsv_shape (rv_costs w)" using gov_invD(3) [OF inv w(1)] by (simp add: rsv_ok_def)
      ultimately show "\<exists>x c l. rv_costs w ! j = (x, c) \<and> gov_lane (gt_gov S) x = Some l \<and> \<not> ch_open (ln_heap l) b"
        using asleep_share [OF _ jb _ w(2)] by blast
    qed
    with w(1) show ?thesis by blast
  qed blast
qed

section \<open>Properties\<close>

text \<open>
  C16.  The governor's books balance in every interleaving: the counters of active and waiting
  reservations are exact, every lane's use is what the reservations have taken from it (with what was
  granted to sleepers) and within the lane's bounds, and with no reservation left nothing is in use.
\<close>

theorem gov_books_balance:
  assumes "gov_reach capacity sessions S"
  shows "(\<forall>p. gv_active (gt_gov S) p = rsv_total (rsv_active p) (gt_rsv S)
      \<and> gv_waiting (gt_gov S) p = rsv_total (rsv_waiting p) (gt_rsv S))
    \<and> (\<forall>x l. gov_lane (gt_gov S) x = Some l \<longrightarrow> \<not> hp_panicked (ln_heap l) \<and> lane_bounds l
        \<and> (\<forall>p. ln_used l p = rsv_total (rsv_share x p) (gt_rsv S) + granted_sum (ln_heap l) (gt_W S x) p)
        \<and> (gt_rsv S = Map.empty \<longrightarrow> (\<forall>p. ln_used l p = 0)))"
proof -
  have inv: "gov_inv S" by (rule gov_reach_inv [OF assms])
  have "\<not> hp_panicked (ln_heap l) \<and> lane_bounds l
        \<and> (\<forall>p. ln_used l p = rsv_total (rsv_share x p) (gt_rsv S) + granted_sum (ln_heap l) (gt_W S x) p)
        \<and> (gt_rsv S = Map.empty \<longrightarrow> (\<forall>p. ln_used l p = 0))" if l: "gov_lane (gt_gov S) x = Some l" for x l
  proof -
    have li: "lane_inv l (gt_H S x) (gt_W S x)" by (rule lanes.lanes_okD [OF gov_invD(1) [OF inv] l])
    then have acc: "ln_used l p = rsv_total (rsv_share x p) (gt_rsv S) + granted_sum (ln_heap l) (gt_W S x) p" for p
      using gov_invD(4) [OF inv, of x p] by (simp add: lane_inv_def lane_account_def)
    have "granted_sum (ln_heap l) (gt_W S x) p = 0" if "gt_rsv S = Map.empty" for p
    proof -
      have "gt_W S x a = None" for a
        using asleepD(3) [OF gov_invD(5) [OF inv], of x a] that by (cases "gt_W S x a") auto
      then have "gt_W S x = Map.empty" by blast
      then show ?thesis by (simp add: granted_sum_def)
    qed
    moreover have "\<not> hp_panicked (ln_heap l)"
      using queue_heap(1) [of l "gt_W S x"] li heap_ok_no_panic by (auto simp: lane_inv_def)
    ultimately show ?thesis using acc li by (auto simp: lane_inv_def rsv_total_def)
  qed
  then show ?thesis using gov_invD(6,7) [OF inv] by blast
qed

text \<open>
  C17.  The governor cannot deadlock: a reservation takes the device lane first and the light lane last,
  so whenever there is a reservation at all, there is one that can go on by itself.
\<close>

theorem gov_deadlock_free:
  assumes "gov_reach capacity sessions S" and "gt_rsv S r = Some v"
  shows "\<exists>r v. gt_rsv S r = Some v \<and> can_go_on S v"
proof -
  have inv: "gov_inv S" by (rule gov_reach_inv [OF assms(1)])
  show ?thesis
  proof (cases "\<exists>x a c. asleep_at v x a c")
    case True
    then obtain x a c where "asleep_at v x a c" by blast
    from sleeper_blocked_by [OF inv assms(2) this] show ?thesis using holder_goes_on [OF inv] by blast
  next
    case False
    have "can_go_on S v"
      unfolding can_go_on_def
    proof (intro allI impI)
      fix i a
      assume ia: "rv_phase v = Asleep i a"
      obtain x c where "rv_costs v ! i = (x, c)" by (cases "rv_costs v ! i")
      with ia asleepD(1) [OF gov_invD(5) [OF inv] assms(2) ia] have "asleep_at v x a c" by (auto simp: asleep_at_def)
      with False show "\<exists>x c l. rv_costs v ! i = (x, c) \<and> gov_lane (gt_gov S) x = Some l \<and> \<not> ch_open (ln_heap l) a" by blast
    qed
    with assms(2) show ?thesis by blast
  qed
qed

text \<open>A governor on which one light reservation has begun.\<close>

definition gov_begun :: gov_state where
  "gov_begun = (gov_init 4 default_sessions)\<lparr>gt_gov := count_waiting 0 1 (gov_New 4 default_sessions),
     gt_rsv := Map.empty(0 \<mapsto> \<lparr>rv_priority = 0, rv_costs = [(LightLane, 1)], rv_phase = Taking 0\<rparr>)\<rparr>"

lemma gov_begun_reach: "gov_reach 4 default_sessions gov_begun"
proof -
  have "gov_step (gov_init 4 default_sessions) gov_begun"
    using gov_step.begin_light [of Playback "gov_init 4 default_sessions" "[(LightLane, 1)]" 0]
    by (simp add: gov_begun_def gov_init_def AcquireLight_def validClass_def reserve_possible_def gov_lane_def gov_New_def Let_def
        lane_possible_def newLane_def)
  then show ?thesis by (rule gov_reach.more [OF gov_reach.start])
qed

theorem gov_books_balance_witness: "gv_waiting (gt_gov gov_begun) 0 = rsv_total (rsv_waiting 0) (gt_rsv gov_begun)"
  using gov_books_balance [OF gov_begun_reach] by blast

theorem gov_deadlock_free_witness: "\<exists>r v. gt_rsv gov_begun r = Some v \<and> can_go_on gov_begun v"
  by (rule gov_deadlock_free [OF gov_begun_reach, of 0 "\<lparr>rv_priority = 0, rv_costs = [(LightLane, 1)], rv_phase = Taking 0\<rparr>"])
    (simp add: gov_begun_def)

end
