(* ===== verification/IsoBmff.thy ===== *)
theory IsoBmff
  imports Text
begin

text \<open>
  The reader of MP4 initialization segments: packages/isobmff/codecs.go, initialization.go and
  sample_entry.go, all of it but the opening of the file.  Data is a byte string.  A read outside a
  slice is the result \<open>Panic\<close>, so that the safety theorem is about every index and slice expression
  of the source.  Bit operations on bytes are written with \<open>div\<close> and \<open>mod\<close>: \<open>b >> 6\<close> is
  \<open>b div 64\<close>, \<open>b & 127\<close> is \<open>b mod 128\<close>, \<open>b & 32 != 0\<close> is \<open>flag b 32\<close>.
\<close>

section \<open>Results and reads\<close>

datatype 'a res = Ok 'a | ErrInvalid | Panic

fun bind_res :: "'a res \<Rightarrow> ('a \<Rightarrow> 'b res) \<Rightarrow> 'b res" where
  "bind_res (Ok x) f = f x"
| "bind_res ErrInvalid f = ErrInvalid"
| "bind_res Panic f = Panic"

definition octet :: "string \<Rightarrow> nat \<Rightarrow> nat res" where
  "octet d i = (if i < length d then Ok (byte (d ! i)) else Panic)"

definition slice_from :: "string \<Rightarrow> nat \<Rightarrow> string res" where
  "slice_from d i = (if i \<le> length d then Ok (drop i d) else Panic)"

definition slice :: "string \<Rightarrow> nat \<Rightarrow> nat \<Rightarrow> string res" where
  "slice d i j = (if i \<le> j \<and> j \<le> length d then Ok (take (j - i) (drop i d)) else Panic)"

definition pick :: "'a list \<Rightarrow> nat \<Rightarrow> 'a res" where
  "pick xs i = (if i < length xs then Ok (xs ! i) else Panic)"

definition be :: "nat \<Rightarrow> string \<Rightarrow> nat \<Rightarrow> nat res" where
  "be n d i = (if i + n \<le> length d then Ok (foldl (\<lambda>v c. v * 256 + byte c) 0 (take n (drop i d))) else Panic)"

definition flag :: "nat \<Rightarrow> nat \<Rightarrow> bool" where
  "flag b m \<longleftrightarrow> b div m mod 2 = 1"

section \<open>Formatting\<close>

definition upper_digit :: "nat \<Rightarrow> char" where
  "upper_digit d = char_of (if d < 10 then 48 + d else 55 + d)"

definition hex2 :: "nat \<Rightarrow> string" where
  "hex2 b = [upper_digit (b div 16), upper_digit (b mod 16)]"

fun hex_trim :: "nat \<Rightarrow> nat \<Rightarrow> string" where
  "hex_trim 0 n = []"
| "hex_trim (Suc k) n = (if n < 16 then [upper_digit n] else hex_trim k (n div 16) @ [upper_digit (n mod 16)])"

definition dec :: "nat \<Rightarrow> string" where
  "dec n = show_base 10 20 n"

definition dec2 :: "nat \<Rightarrow> string" where
  "dec2 n = (if n < 10 then ''0'' @ dec n else dec n)"

definition reverse32 :: "nat \<Rightarrow> nat" where
  "reverse32 n = foldl (\<lambda>acc i. acc * 2 + n div 2 ^ i mod 2) 0 [0..<32]"

section \<open>Codec strings\<close>

definition avcCodec :: "string \<Rightarrow> string \<Rightarrow> string res" where
  "avcCodec format d = (if length d < 7 then ErrInvalid
     else bind_res (octet d 0) (\<lambda>v. if v \<noteq> 1 then ErrInvalid
     else bind_res (octet d 1) (\<lambda>a. bind_res (octet d 2) (\<lambda>b. bind_res (octet d 3) (\<lambda>c.
       Ok (format @ ''.'' @ hex2 a @ hex2 b @ hex2 c))))))"

text \<open>The end of the constraint bytes, without the trailing zeros: the loop from 12 down to 6.\<close>

fun constraint_end :: "string \<Rightarrow> nat \<Rightarrow> nat" where
  "constraint_end d 0 = 0"
| "constraint_end d (Suc e) = (if Suc e > 6 \<and> byte (d ! e) = 0 then constraint_end d e else Suc e)"

definition hevcCodec :: "string \<Rightarrow> string \<Rightarrow> string res" where
  "hevcCodec format d =
     (if format = ''dvh1'' \<or> format = ''dvhe'' then Ok ''''
      else if length d < 23 then ErrInvalid
      else bind_res (octet d 0) (\<lambda>v. if v \<noteq> 1 then ErrInvalid
      else bind_res (octet d 1) (\<lambda>p. bind_res (be 4 d 2) (\<lambda>flags. bind_res (octet d 12) (\<lambda>level.
        bind_res (slice d 6 (constraint_end d 12)) (\<lambda>cs. bind_res (pick ['''', ''A'', ''B'', ''C''] (p div 64)) (\<lambda>space.
          let tier = (if flag p 32 then ''H'' else ''L'')
          in Ok (format @ ''.'' @ space @ dec (p mod 32) @ ''.'' @ hex_trim 8 (reverse32 flags) @ ''.'' @ tier @ dec level
                 @ concat (map (\<lambda>c. ''.'' @ hex2 (byte c)) cs)))))))))"

definition av1BitDepth :: "nat \<Rightarrow> nat" where
  "av1BitDepth flags = (if flag flags 32 then 12 else if flag flags 64 then 10 else 8)"

definition av1Codec :: "string \<Rightarrow> string res" where
  "av1Codec d = (if length d < 4 then ErrInvalid
     else bind_res (octet d 0) (\<lambda>v. if v \<noteq> 0x81 then ErrInvalid
     else bind_res (octet d 1) (\<lambda>p. bind_res (octet d 2) (\<lambda>f.
       Ok (''av01.'' @ dec (p div 32) @ ''.'' @ dec2 (p mod 32) @ (if flag f 128 then ''H'' else ''M'') @ ''.'' @ dec2 (av1BitDepth f))))))"

definition vp9Codec :: "string \<Rightarrow> string res" where
  "vp9Codec d = (if length d < 12 then ErrInvalid
     else bind_res (octet d 4) (\<lambda>a. bind_res (octet d 5) (\<lambda>b. bind_res (octet d 6) (\<lambda>c.
       Ok (''vp09.'' @ dec2 a @ ''.'' @ dec2 b @ ''.'' @ dec2 (c div 16))))))"

definition dolbyCodec :: "string \<Rightarrow> string \<Rightarrow> string res" where
  "dolbyCodec format d =
     (if length d < 4 then ErrInvalid
      else if format \<noteq> ''dvh1'' \<and> format \<noteq> ''dvhe'' then Ok ''''
      else bind_res (octet d 2) (\<lambda>a. bind_res (octet d 3) (\<lambda>b.
        Ok (format @ ''.'' @ dec2 (a div 2) @ ''.'' @ dec2 (a mod 2 * 32 + b div 8)))))"

text \<open>
  A descriptor of ISO/IEC 14496-1: a tag, a length in up to four bytes of seven bits, and the payload.
  \<open>n\<close> is how many length bytes may still come.
\<close>

fun descriptor_length :: "nat \<Rightarrow> string \<Rightarrow> nat \<Rightarrow> nat \<Rightarrow> (nat \<times> nat) res" where
  "descriptor_length 0 d length' offset = ErrInvalid"
| "descriptor_length (Suc n) d length' offset =
     (if offset \<ge> length d then ErrInvalid
      else bind_res (octet d offset) (\<lambda>v.
        let len = length' * 128 + v mod 128; off = Suc offset
        in if flag v 128 then descriptor_length n d len off
           else if len > length d - off then ErrInvalid else Ok (len, off)))"

definition descriptor :: "string \<Rightarrow> (nat \<times> string) res" where
  "descriptor d = (if length d < 2 then ErrInvalid
     else bind_res (octet d 0) (\<lambda>tag. bind_res (descriptor_length 4 d 0 1) (\<lambda>(len, off).
       bind_res (slice d off (off + len)) (\<lambda>payload. Ok (tag, payload)))))"

definition audioDescriptorOffset :: "string \<Rightarrow> nat res" where
  "audioDescriptorOffset p = bind_res (octet p 2) (\<lambda>flags.
     let o1 = (if flag flags 128 then 3 + 2 else 3)
     in bind_res (if flag flags 64 then (if o1 \<ge> length p then ErrInvalid else bind_res (octet p o1) (\<lambda>n. Ok (o1 + 1 + n))) else Ok o1)
       (\<lambda>o2. let o3 = (if flag flags 32 then o2 + 2 else o2) in if o3 > length p then ErrInvalid else Ok o3))"

definition aacDescriptor :: "string \<Rightarrow> string res" where
  "aacDescriptor d = (case descriptor d of Panic \<Rightarrow> Panic | ErrInvalid \<Rightarrow> ErrInvalid
   | Ok (tag, config) \<Rightarrow> if tag \<noteq> 5 \<or> length config < 2 then ErrInvalid
     else bind_res (octet config 0) (\<lambda>c0. bind_res (octet config 1) (\<lambda>c1.
       let audioType = (if c0 div 8 = 31 then 32 + c0 mod 8 * 8 + c1 div 32 else c0 div 8)
       in if audioType = 0 then ErrInvalid else Ok (''mp4a.40.'' @ dec audioType))))"

definition audioDescriptor :: "string \<Rightarrow> string res" where
  "audioDescriptor d = (case descriptor d of Panic \<Rightarrow> Panic | ErrInvalid \<Rightarrow> ErrInvalid
   | Ok (tag, payload) \<Rightarrow> if tag \<noteq> 3 \<or> length payload < 3 then ErrInvalid
     else bind_res (audioDescriptorOffset payload) (\<lambda>offset. bind_res (slice_from payload offset) (\<lambda>rest.
       (case descriptor rest of Panic \<Rightarrow> Panic | ErrInvalid \<Rightarrow> ErrInvalid
        | Ok (tag', payload') \<Rightarrow> if tag' \<noteq> 4 \<or> length payload' < 13 then ErrInvalid
          else bind_res (octet payload' 0) (\<lambda>object.
            if object = 0x6b \<or> object = 0x69 then Ok (''mp4a.'' @ hex2 object)
            else if object \<noteq> 0x40 then ErrInvalid
            else bind_res (slice_from payload' 13) aacDescriptor)))))"

definition esdsCodec :: "string \<Rightarrow> string res" where
  "esdsCodec d = (if length d < 4 then ErrInvalid else bind_res (slice_from d 4) audioDescriptor)"

definition codecConfiguration :: "string \<Rightarrow> string \<Rightarrow> string \<Rightarrow> string res" where
  "codecConfiguration format kind d =
     (if kind = ''avcC'' then avcCodec format d
      else if kind = ''hvcC'' then hevcCodec format d
      else if kind = ''av1C'' then av1Codec d
      else if kind = ''vpcC'' then vp9Codec d
      else if kind = ''dvcC'' \<or> kind = ''dvvC'' then dolbyCodec format d
      else if kind = ''esds'' then esdsCodec d
      else Ok '''')"

section \<open>Boxes\<close>

record track =
  tk_Codec :: string
  tk_Range :: string
  tk_Width :: nat
  tk_Height :: nat
  tk_BitDepth :: nat

definition zero_track :: track where
  "zero_track = \<lparr>tk_Codec = '''', tk_Range = '''', tk_Width = 0, tk_Height = 0, tk_BitDepth = 0\<rparr>"

record initialization =
  in_Tracks :: "track list"

definition MaximumInitializationBytes :: nat where "MaximumInitializationBytes = 2 * 2 ^ 20"

text \<open>Size and header length of the first box; the caller has checked that 8 bytes are there.\<close>

definition boxSize :: "string \<Rightarrow> (nat \<times> nat) res" where
  "boxSize d = bind_res (be 4 d 0) (\<lambda>size0.
     bind_res (if size0 = 1 then (if length d < 16 then ErrInvalid else bind_res (be 8 d 8) (\<lambda>s. Ok (s, 16))) else Ok (size0, 8))
       (\<lambda>(size1, header). let size = (if size1 = 0 then length d else size1)
         in if size < header \<or> size > length d then ErrInvalid else Ok (size, header)))"

text \<open>
  The loop of \<open>boxes\<close>: the first argument is how many boxes may still come, 4096 at the start.  The
  state \<open>s\<close> is what the visitor writes.
\<close>

fun boxes_loop :: "nat \<Rightarrow> (string \<Rightarrow> string \<Rightarrow> 's \<Rightarrow> 's res) \<Rightarrow> string \<Rightarrow> 's \<Rightarrow> 's res" where
  "boxes_loop n visit [] s = Ok s"
| "boxes_loop 0 visit (c # cs) s = ErrInvalid"
| "boxes_loop (Suc n) visit (c # cs) s = (let d = c # cs in
     if length d < 8 then ErrInvalid
     else bind_res (boxSize d) (\<lambda>(size, header). bind_res (slice d 4 8) (\<lambda>kind. bind_res (slice d header size) (\<lambda>payload.
       bind_res (visit kind payload s) (\<lambda>s'. bind_res (slice_from d size) (\<lambda>rest. boxes_loop n visit rest s'))))))"

definition boxes :: "(string \<Rightarrow> string \<Rightarrow> 's \<Rightarrow> 's res) \<Rightarrow> string \<Rightarrow> 's \<Rightarrow> 's res" where
  "boxes visit d s = boxes_loop 4096 visit d s"

section \<open>Sample entries\<close>

definition readBitDepth :: "string \<Rightarrow> string \<Rightarrow> track \<Rightarrow> track res" where
  "readBitDepth kind p t =
     (if kind = ''avcC'' then bind_res (octet p 1) (\<lambda>b.
        Ok (if b = 66 \<or> b = 77 \<or> b = 88 \<or> b = 100 then t\<lparr>tk_BitDepth := 8\<rparr> else t))
      else if kind = ''hvcC'' then (if length p \<ge> 19 then bind_res (octet p 17) (\<lambda>b. Ok (t\<lparr>tk_BitDepth := 8 + b mod 8\<rparr>)) else Ok t)
      else if kind = ''av1C'' then bind_res (octet p 2) (\<lambda>b. Ok (t\<lparr>tk_BitDepth := av1BitDepth b\<rparr>))
      else if kind = ''vpcC'' then bind_res (octet p 6) (\<lambda>b. Ok (t\<lparr>tk_BitDepth := b div 16\<rparr>))
      else Ok t)"

definition max_int32 :: nat where "max_int32 = 2 ^ 31 - 1"

definition pixelAspect :: "string \<Rightarrow> track \<Rightarrow> track res" where
  "pixelAspect p t = (if length p \<noteq> 8 \<or> tk_Width t > max_int32 then ErrInvalid
     else bind_res (be 4 p 0) (\<lambda>numerator. bind_res (be 4 p 4) (\<lambda>denominator.
       if numerator = 0 \<or> denominator = 0 \<or> numerator > 10000 \<or> denominator > 10000 then ErrInvalid
       else let width = (tk_Width t * numerator + denominator div 2) div denominator
            in if width > max_int32 then ErrInvalid else Ok (t\<lparr>tk_Width := width\<rparr>))))"

definition readColor :: "string \<Rightarrow> track \<Rightarrow> track res" where
  "readColor p t = (if length p < 10 \<or> take 4 p \<noteq> ''nclx'' \<and> take 4 p \<noteq> ''nclc'' then Ok t
     else bind_res (be 2 p 6) (\<lambda>v. Ok (if v = 16 then t\<lparr>tk_Range := ''PQ''\<rparr> else if v = 18 then t\<lparr>tk_Range := ''HLG''\<rparr> else t)))"

definition track_configuration :: "string \<Rightarrow> string \<Rightarrow> string \<Rightarrow> track \<Rightarrow> track res" where
  "track_configuration format kind p t =
     (if kind \<in> set [''avcC'', ''hvcC'', ''av1C'', ''vpcC'', ''esds'', ''dvcC'', ''dvvC''] then
        bind_res (codecConfiguration format kind p) (\<lambda>codec.
          readBitDepth kind p (if codec \<noteq> '''' then t\<lparr>tk_Codec := codec\<rparr> else t))
      else if kind = ''pasp'' then pixelAspect p t
      else if kind = ''colr'' then readColor p t
      else Ok t)"

definition audio_codec :: "string \<Rightarrow> string" where
  "audio_codec format = (if format = ''Opus'' then ''opus'' else if format = ''ac-3'' then ''ac-3''
     else if format = ''ec-3'' then ''ec-3'' else if format = ''fLaC'' then ''fLaC''
     else if format = ''.mp3'' then ''mp4a.6B'' else '''')"

text \<open>The fixed part of a sample entry: the track so far and where its boxes start.\<close>

definition entry_start :: "string \<Rightarrow> string \<Rightarrow> (track \<times> nat) res" where
  "entry_start format entry =
     (if format \<in> set [''avc1'', ''avc3'', ''hvc1'', ''hev1'', ''av01'', ''vp09'', ''dvh1'', ''dvhe''] then
        (if length entry < 78 then ErrInvalid
         else bind_res (be 2 entry 24) (\<lambda>w. bind_res (be 2 entry 26) (\<lambda>h.
           if w = 0 \<or> h = 0 then ErrInvalid else Ok (zero_track\<lparr>tk_Width := w, tk_Height := h, tk_Range := ''SDR''\<rparr>, 78))))
      else if format \<in> set [''mp4a'', ''Opus'', ''ac-3'', ''ec-3'', ''fLaC'', ''.mp3''] then
        (if length entry < 28 then ErrInvalid
         else bind_res (be 2 entry 8) (\<lambda>v. if v \<noteq> 0 then ErrInvalid else Ok (zero_track\<lparr>tk_Codec := audio_codec format\<rparr>, 28)))
      else ErrInvalid)"

definition sampleEntry :: "string \<Rightarrow> string \<Rightarrow> track res" where
  "sampleEntry format entry = bind_res (entry_start format entry) (\<lambda>(t, offset). bind_res (slice_from entry offset) (\<lambda>rest.
       (case boxes (track_configuration format) rest t of
          Panic \<Rightarrow> Panic
        | ErrInvalid \<Rightarrow> ErrInvalid
        | Ok t' \<Rightarrow> if tk_Codec t' = '''' then ErrInvalid else Ok t')))"

section \<open>The tree of boxes\<close>

text \<open>The state of the visitor is the number of entries seen and the result.\<close>

definition readSampleDescription :: "string \<Rightarrow> initialization \<Rightarrow> initialization res" where
  "readSampleDescription p r =
     (if length p < 8 then ErrInvalid
      else bind_res (be 4 p 4) (\<lambda>entries.
        if entries \<noteq> 1 \<or> length (in_Tracks r) \<ge> 32 then ErrInvalid
        else bind_res (slice_from p 8) (\<lambda>rest.
          (case boxes (\<lambda>format entry (count, r'). if count + 1 \<noteq> (1::nat) then ErrInvalid
                 else bind_res (sampleEntry format entry) (\<lambda>t. Ok (count + 1, r'\<lparr>in_Tracks := in_Tracks r' @ [t]\<rparr>)))
               rest (0, r) of
             Panic \<Rightarrow> Panic
           | ErrInvalid \<Rightarrow> ErrInvalid
           | Ok (count, r') \<Rightarrow> if count \<noteq> 1 then ErrInvalid else Ok r'))))"

definition trackRotation :: "string \<Rightarrow> bool res" where
  "trackRotation p = (if length p < 4 then ErrInvalid
     else bind_res (octet p 0) (\<lambda>version.
       if version \<noteq> 1 \<and> version \<noteq> 0 then ErrInvalid
       else let offset = (if version = 1 then 52 else 40) in
         if length p < offset + 36 then ErrInvalid
         else bind_res (be 4 p offset) (\<lambda>a. bind_res (be 4 p (offset + 4)) (\<lambda>b.
              bind_res (be 4 p (offset + 12)) (\<lambda>c. bind_res (be 4 p (offset + 16)) (\<lambda>d.
                Ok (a = 0 \<and> d = 0 \<and> (b = 0x00010000 \<and> c = 0xffff0000 \<or> b = 0xffff0000 \<and> c = 0x00010000))))))))"

definition rotate_track :: "bool \<Rightarrow> track \<Rightarrow> track" where
  "rotate_track turn t = (if turn \<and> tk_Width t > 0 then t\<lparr>tk_Width := tk_Height t, tk_Height := tk_Width t\<rparr> else t)"

text \<open>\<open>walkTrack\<close> calls \<open>walk\<close> at its own depth, which is the argument \<open>walker\<close>.\<close>

definition walkTrack :: "(string \<Rightarrow> initialization \<Rightarrow> initialization res) \<Rightarrow> string \<Rightarrow> initialization \<Rightarrow> initialization res" where
  "walkTrack walker d r = bind_res (walker d \<lparr>in_Tracks = []\<rparr>) (\<lambda>t.
     bind_res (boxes (\<lambda>kind p turn. if kind \<noteq> ''tkhd'' then Ok turn else trackRotation p) d False) (\<lambda>turn.
       if length (in_Tracks r) + length (in_Tracks t) > 32 then ErrInvalid
       else Ok (r\<lparr>in_Tracks := in_Tracks r @ map (rotate_track turn) (in_Tracks t)\<rparr>)))"

function walk :: "nat \<Rightarrow> string \<Rightarrow> initialization \<Rightarrow> initialization res" where
  "walk depth d r = (if depth > 8 then ErrInvalid
     else boxes (\<lambda>kind p r'.
       if kind = ''trak'' then walkTrack (\<lambda>d' r''. walk (depth + 1) d' r'') p r'
       else if kind \<in> set [''moov'', ''mdia'', ''minf'', ''stbl''] then walk (depth + 1) p r'
       else if kind = ''stsd'' then readSampleDescription p r'
       else Ok r') d r)"
  by pat_completeness auto
termination
  by (relation "measure (\<lambda>(depth, _, _). 9 - depth)") auto

declare walk.simps [simp del]

definition Parse :: "string \<Rightarrow> initialization res" where
  "Parse d = (if length d = 0 \<or> length d > MaximumInitializationBytes then ErrInvalid
     else (case walk 0 d \<lparr>in_Tracks = []\<rparr> of
       Panic \<Rightarrow> Panic
     | ErrInvalid \<Rightarrow> ErrInvalid
     | Ok r \<Rightarrow> if length (in_Tracks r) = 0 then ErrInvalid else Ok r))"

text \<open>\<open>Read\<close> hands \<open>Parse\<close> at most one byte more than the maximum of the file's content.\<close>

definition Read_data :: "string \<Rightarrow> initialization res" where
  "Read_data content = Parse (take (MaximumInitializationBytes + 1) content)"

definition Codecs :: "initialization \<Rightarrow> string" where
  "Codecs r = concat (map (\<lambda>(i, t). (if i = 0 then '''' else '','') @ tk_Codec t) (zip [0..<length (in_Tracks r)] (in_Tracks r)))"

definition init_Video :: "initialization \<Rightarrow> track option" where
  "init_Video r = List.find (\<lambda>t. tk_Width t > 0) (in_Tracks r)"

definition HasCodec :: "initialization \<Rightarrow> string \<Rightarrow> bool" where
  "HasCodec r codec = (let prefix = (if codec = ''h264'' then ''avc'' else if codec = ''hevc'' then ''hv''
       else if codec = ''av1'' then ''av01'' else if codec = ''vp9'' then ''vp09'' else '''') in
     (case init_Video r of None \<Rightarrow> False | Some video \<Rightarrow> prefix \<noteq> '''' \<and> has_prefix (tk_Codec video) prefix))"

section \<open>Reasoning about results\<close>

text \<open>\<open>yields m Q\<close>: \<open>m\<close> does not panic, and if it succeeds the value satisfies \<open>Q\<close>.\<close>

fun yields :: "'a res \<Rightarrow> ('a \<Rightarrow> bool) \<Rightarrow> bool" where
  "yields (Ok x) Q = Q x"
| "yields ErrInvalid Q = True"
| "yields Panic Q = False"

lemma yields_bind: "yields m Q \<Longrightarrow> (\<And>x. Q x \<Longrightarrow> yields (f x) R) \<Longrightarrow> yields (bind_res m f) R"
  by (cases m) auto

lemma yields_mono: "yields m Q \<Longrightarrow> (\<And>x. Q x \<Longrightarrow> R x) \<Longrightarrow> yields m R"
  by (cases m) auto

lemma yields_if: "(b \<Longrightarrow> yields m Q) \<Longrightarrow> (\<not> b \<Longrightarrow> yields n Q) \<Longrightarrow> yields (if b then m else n) Q"
  by simp

lemma yields_case:
  "yields m Q \<Longrightarrow> (\<And>x. Q x \<Longrightarrow> yields (f x) R) \<Longrightarrow>
     yields (case m of Panic \<Rightarrow> Panic | ErrInvalid \<Rightarrow> ErrInvalid | Ok x \<Rightarrow> f x) R"
  by (cases m) auto

lemma yields_octet: "i < length d \<Longrightarrow> yields (octet d i) (\<lambda>b. b < 256)"
  by (simp add: octet_def byte_less)

lemma yields_be: "i + n \<le> length d \<Longrightarrow> yields (be n d i) (\<lambda>v. v < 256 ^ n)"
proof -
  have "foldl (\<lambda>v c. v * 256 + byte c) v cs < (v + 1) * 256 ^ length cs" for v and cs :: string
  proof (induction cs arbitrary: v)
    case Nil
    then show ?case by simp
  next
    case (Cons c cs)
    have "foldl (\<lambda>v c. v * 256 + byte c) (v * 256 + byte c) cs < (v * 256 + byte c + 1) * 256 ^ length cs" by (rule Cons.IH)
    also have "\<dots> \<le> ((v + 1) * 256) * 256 ^ length cs"
      using byte_less [of c] by (intro mult_right_mono) simp_all
    finally show ?case by (simp add: algebra_simps)
  qed
  note less = this [of 0 "take n (drop i d)"]
  assume len: "i + n \<le> length d"
  then have "length (take n (drop i d)) = n" by simp
  with less len show "yields (be n d i) (\<lambda>v. v < 256 ^ n)" by (simp add: be_def del: length_take)
qed

lemma yields_slice: "i \<le> j \<Longrightarrow> j \<le> length d \<Longrightarrow> yields (slice d i j) (\<lambda>p. length p = j - i)"
  by (simp add: slice_def)

lemma yields_slice_from: "i \<le> length d \<Longrightarrow> yields (slice_from d i) (\<lambda>p. length p = length d - i)"
  by (simp add: slice_from_def)

lemmas yields_reads = yields_octet yields_be yields_slice yields_slice_from

section \<open>Codecs never read outside\<close>

lemma yields_avc: "yields (avcCodec f d) (\<lambda>_. 7 \<le> length d)"
  unfolding avcCodec_def
  by (auto intro!: yields_bind [OF yields_octet] simp: not_less)

lemma constraint_end_le: "constraint_end d e \<le> e"
  by (induction e) (auto intro: le_SucI)

lemma constraint_end_ge: "6 \<le> e \<Longrightarrow> 6 \<le> constraint_end d e"
proof (induction e)
  case 0
  then show ?case by simp
next
  case (Suc e)
  then show ?case by (cases "6 \<le> e") auto
qed

lemma yields_hevc: "yields (hevcCodec f d) (\<lambda>_. True)"
proof (cases "length d < 23")
  case False
  then have len: "0 < length d" "Suc 0 < length d" "12 < length d" "2 + 4 \<le> length d" by linarith+
  have sl: "yields (slice d 6 (constraint_end d 12)) (\<lambda>p. length p = constraint_end d 12 - 6)"
    using False constraint_end_le [of d 12] constraint_end_ge [of 12 d] by (intro yields_slice) simp_all
  have sp: "yields (pick ['''', ''A'', ''B'', ''C''] (p div 64)) (\<lambda>_. True)" if "p < 256" for p
    using that by (simp add: pick_def less_mult_imp_div_less)
  show ?thesis unfolding hevcCodec_def Let_def
    by (auto intro!: yields_bind [OF yields_octet [OF len(1)]] yields_bind [OF yields_octet [OF len(2)]]
        yields_bind [OF yields_octet [OF len(3)]] yields_bind [OF yields_be [OF len(4)]] yields_bind [OF sl] yields_bind [OF sp])
qed (simp add: hevcCodec_def)

lemma yields_av1: "yields (av1Codec d) (\<lambda>_. 4 \<le> length d)"
  unfolding av1Codec_def by (auto intro!: yields_bind [OF yields_octet] simp: not_less)

lemma yields_vp9: "yields (vp9Codec d) (\<lambda>_. 12 \<le> length d)"
  unfolding vp9Codec_def by (auto intro!: yields_bind [OF yields_octet] simp: not_less)

lemma yields_dolby: "yields (dolbyCodec f d) (\<lambda>_. True)"
  unfolding dolbyCodec_def by (auto intro!: yields_bind [OF yields_octet] simp: not_less)

lemma yields_descriptor_length:
  "yields (descriptor_length n d len offset) (\<lambda>(l, off). off + l \<le> length d)"
proof (induction n arbitrary: len offset)
  case 0
  then show ?case by simp
next
  case (Suc n)
  show ?case
  proof (cases "offset \<ge> length d")
    case True
    then show ?thesis by simp
  next
    case False
    then have "octet d offset = Ok (byte (d ! offset))" by (simp add: octet_def)
    with False Suc.IH [of "len * 128 + byte (d ! offset) mod 128" "Suc offset"] show ?thesis by (auto simp: Let_def)
  qed
qed

lemma yields_descriptor: "yields (descriptor d) (\<lambda>_. True)"
  unfolding descriptor_def
  by (auto intro!: yields_bind [OF yields_octet] yields_bind [OF yields_descriptor_length] yields_bind [OF yields_slice])

lemma yields_offset: "3 \<le> length p \<Longrightarrow> yields (audioDescriptorOffset p) (\<lambda>o'. o' \<le> length p)"
  unfolding audioDescriptorOffset_def Let_def
  by (rule yields_bind [OF yields_octet], simp, rule yields_bind [where Q = "\<lambda>_. True"])
    (auto intro!: yields_if yields_bind [OF yields_octet])

lemma yields_aac: "yields (aacDescriptor d) (\<lambda>_. True)"
  unfolding aacDescriptor_def Let_def
  by (rule yields_case [OF yields_descriptor]) (auto intro!: yields_bind [OF yields_octet] split: prod.splits)

lemma yields_audio: "yields (audioDescriptor d) (\<lambda>_. True)"
  unfolding audioDescriptor_def
  by (rule yields_case [OF yields_descriptor])
    (auto intro!: yields_bind [OF yields_offset] yields_bind [OF yields_slice_from] yields_case [OF yields_descriptor]
      yields_bind [OF yields_octet] yields_aac split: prod.splits)

lemma yields_esds: "yields (esdsCodec d) (\<lambda>_. True)"
  unfolding esdsCodec_def by (auto intro!: yields_bind [OF yields_slice_from] yields_audio)

section \<open>Boxes, tracks and the tree\<close>

lemma yields_boxSize:
  assumes "8 \<le> length d"
  shows "yields (boxSize d) (\<lambda>(size, header). 8 \<le> header \<and> header \<le> size \<and> size \<le> length d)"
proof -
  have h: "yields (if s = 1 then if length d < 16 then ErrInvalid else bind_res (be 8 d 8) (\<lambda>s. Ok (s, 16)) else Ok (s, 8))
      (\<lambda>(s, header). (8::nat) \<le> header)" for s :: nat
    by (auto intro!: yields_bind [OF yields_be] yields_if)
  have z: "0 + 4 \<le> length d" using assms by simp
  show ?thesis
    unfolding boxSize_def Let_def
    by (rule yields_bind [OF yields_be [OF z]], rule yields_bind [OF h]) (use assms in \<open>auto split: prod.splits\<close>)
qed

lemma yields_boxes_loop:
  assumes visit: "\<And>kind p s. I s \<Longrightarrow> yields (visit kind p s) I"
  shows "I s \<Longrightarrow> yields (boxes_loop n visit d s) I"
proof (induction n arbitrary: d s)
  case 0
  then show ?case by (cases d) simp_all
next
  case (Suc n)
  show ?case
  proof (cases d)
    case Nil
    with Suc.prems show ?thesis by simp
  next
    case (Cons c cs)
    show ?thesis
    proof (cases "length d < 8")
      case True
      with Cons show ?thesis by (simp add: Let_def)
    next
      case False
      then have len: "8 \<le> length d" by simp
      have "yields (bind_res (boxSize d) (\<lambda>(size, header). bind_res (slice d 4 8) (\<lambda>kind. bind_res (slice d header size) (\<lambda>payload.
          bind_res (visit kind payload s) (\<lambda>s'. bind_res (slice_from d size) (\<lambda>rest. boxes_loop n visit rest s')))))) I"
      proof (rule yields_bind [OF yields_boxSize [OF len]])
        fix x
        assume x: "(\<lambda>(size, header). 8 \<le> header \<and> header \<le> size \<and> size \<le> length d) x"
        show "yields ((\<lambda>(size, header). bind_res (slice d 4 8) (\<lambda>kind. bind_res (slice d header size) (\<lambda>payload.
          bind_res (visit kind payload s) (\<lambda>s'. bind_res (slice_from d size) (\<lambda>rest. boxes_loop n visit rest s'))))) x) I"
          using x len Suc.prems
          by (cases x) (auto intro!: yields_bind [OF yields_slice] yields_bind [OF visit] yields_bind [OF yields_slice_from] Suc.IH)
      qed
      with False Cons show ?thesis by (simp add: Let_def)
    qed
  qed
qed

lemma yields_boxes:
  "(\<And>kind p s. I s \<Longrightarrow> yields (visit kind p s) I) \<Longrightarrow> I s \<Longrightarrow> yields (boxes visit d s) I"
  unfolding boxes_def by (rule yields_boxes_loop)

definition track_sane :: "track \<Rightarrow> bool" where
  "track_sane t \<longleftrightarrow> tk_Width t \<le> max_int32 \<and> tk_Height t \<le> max_int32 \<and> tk_BitDepth t \<le> 15
     \<and> tk_Range t \<in> {'''', ''SDR'', ''PQ'', ''HLG''}"

definition init_sane :: "initialization \<Rightarrow> bool" where
  "init_sane r \<longleftrightarrow> length (in_Tracks r) \<le> 32 \<and> (\<forall>t \<in> set (in_Tracks r). track_sane t \<and> tk_Codec t \<noteq> '''')"

lemma yields_codecConfiguration:
  "yields (codecConfiguration format kind p) (\<lambda>_. (kind = ''avcC'' \<longrightarrow> 7 \<le> length p) \<and> (kind = ''av1C'' \<longrightarrow> 4 \<le> length p)
     \<and> (kind = ''vpcC'' \<longrightarrow> 12 \<le> length p))"
  unfolding codecConfiguration_def
  by (intro yields_if yields_mono [OF yields_avc] yields_mono [OF yields_hevc] yields_mono [OF yields_av1] yields_mono [OF yields_vp9]
      yields_mono [OF yields_dolby] yields_mono [OF yields_esds]) simp_all

lemma yields_readBitDepth:
  assumes "(kind = ''avcC'' \<longrightarrow> 7 \<le> length p) \<and> (kind = ''av1C'' \<longrightarrow> 4 \<le> length p) \<and> (kind = ''vpcC'' \<longrightarrow> 12 \<le> length p)"
    and "track_sane t"
  shows "yields (readBitDepth kind p t) track_sane"
  unfolding readBitDepth_def
  by (intro yields_if yields_bind [OF yields_octet])
    (use assms in \<open>simp_all add: track_sane_def av1BitDepth_def less_mult_imp_div_less\<close>)

lemma yields_pixelAspect: "track_sane t \<Longrightarrow> yields (pixelAspect p t) track_sane"
  unfolding pixelAspect_def Let_def
  by (auto intro!: yields_bind [OF yields_be] simp: track_sane_def)

lemma yields_readColor: "track_sane t \<Longrightarrow> yields (readColor p t) track_sane"
  unfolding readColor_def by (auto intro!: yields_bind [OF yields_be] simp: track_sane_def)

lemma yields_configuration: "track_sane t \<Longrightarrow> yields (track_configuration format kind p t) track_sane"
proof -
  assume t: "track_sane t"
  have t': "track_sane (if c \<noteq> '''' then t\<lparr>tk_Codec := c\<rparr> else t)" for c using t by (simp add: track_sane_def)
  show ?thesis unfolding track_configuration_def
    by (intro yields_if yields_bind [OF yields_codecConfiguration] yields_readBitDepth yields_pixelAspect yields_readColor t t') (simp_all add: t)
qed

lemma yields_sampleEntry: "yields (sampleEntry format entry) (\<lambda>t. track_sane t \<and> tk_Codec t \<noteq> '''')"
proof -
  have start: "yields (entry_start format entry) (\<lambda>(t, offset). track_sane t \<and> offset \<le> length entry)"
    unfolding entry_start_def
    by (intro yields_if yields_bind [OF yields_be]) (simp_all add: track_sane_def zero_track_def max_int32_def)
  have rest: "yields (case boxes (track_configuration format) rest t of Panic \<Rightarrow> Panic | ErrInvalid \<Rightarrow> ErrInvalid
        | Ok t' \<Rightarrow> if tk_Codec t' = '''' then ErrInvalid else Ok t') (\<lambda>t. track_sane t \<and> tk_Codec t \<noteq> '''')"
    if "track_sane t" for rest t
    by (rule yields_case [OF yields_boxes [where I = track_sane, OF yields_configuration that]]) simp_all
  show ?thesis unfolding sampleEntry_def
  proof (rule yields_bind [OF start])
    fix x
    assume x: "(\<lambda>(t, offset). track_sane t \<and> offset \<le> length entry) x"
    obtain t offset where t: "x = (t, offset)" by (cases x)
    with x have sane: "track_sane t" and le: "offset \<le> length entry" by simp_all
    show "yields (case x of (t, offset) \<Rightarrow> bind_res (slice_from entry offset) (\<lambda>rest.
        case boxes (track_configuration format) rest t of Panic \<Rightarrow> Panic | ErrInvalid \<Rightarrow> ErrInvalid
        | Ok t' \<Rightarrow> if tk_Codec t' = '''' then ErrInvalid else Ok t')) (\<lambda>t. track_sane t \<and> tk_Codec t \<noteq> '''')"
      unfolding t prod.case by (rule yields_bind [OF yields_slice_from [OF le]]) (rule rest [OF sane])
  qed
qed

lemma yields_readSampleDescription:
  assumes "init_sane r"
  shows "yields (readSampleDescription p r) init_sane"
proof -
  let ?I = "\<lambda>(count::nat, r'). (count = 0 \<longrightarrow> length (in_Tracks r') < 32) \<and> init_sane r'"
  have visit: "yields ((\<lambda>format entry (count, r'). if count + 1 \<noteq> (1::nat) then ErrInvalid
      else bind_res (sampleEntry format entry) (\<lambda>t. Ok (count + 1, r'\<lparr>in_Tracks := in_Tracks r' @ [t]\<rparr>))) format entry s) ?I"
    if "?I s" for format entry s
    using that by (cases s) (auto intro!: yields_if yields_bind [OF yields_sampleEntry] simp: init_sane_def)
  have all: "yields (case boxes (\<lambda>format entry (count, r'). if count + 1 \<noteq> (1::nat) then ErrInvalid
      else bind_res (sampleEntry format entry) (\<lambda>t. Ok (count + 1, r'\<lparr>in_Tracks := in_Tracks r' @ [t]\<rparr>))) rest (0, r) of
      Panic \<Rightarrow> Panic | ErrInvalid \<Rightarrow> ErrInvalid | Ok (count, r') \<Rightarrow> if count \<noteq> 1 then ErrInvalid else Ok r') init_sane"
    if "length (in_Tracks r) < 32" for rest
  proof (rule yields_case [OF yields_boxes [where I = ?I, OF visit]])
    show "?I (0, r)" using that assms by simp
  qed (auto split: prod.splits)
  show ?thesis unfolding readSampleDescription_def
    by (intro yields_if yields_bind [OF yields_be] yields_bind [OF yields_slice_from] all) simp_all
qed

lemma yields_trackRotation: "yields (trackRotation p) (\<lambda>_. True)"
  unfolding trackRotation_def Let_def
  by (intro yields_if yields_bind [OF yields_octet] yields_bind [OF yields_be]) (auto split: if_splits)

lemma yields_walkTrack:
  assumes walker: "\<And>d r. init_sane r \<Longrightarrow> yields (walker d r) init_sane" and r: "init_sane r"
  shows "yields (walkTrack walker d r) init_sane"
proof -
  have empty: "init_sane \<lparr>in_Tracks = []\<rparr>" by (simp add: init_sane_def)
  have rot: "yields (boxes (\<lambda>kind p turn. if kind \<noteq> ''tkhd'' then Ok turn else trackRotation p) d False) (\<lambda>_. True)"
    by (rule yields_boxes) (auto intro: yields_trackRotation)
  have "track_sane (rotate_track turn t) \<and> tk_Codec (rotate_track turn t) \<noteq> ''''" if "track_sane t \<and> tk_Codec t \<noteq> ''''" for turn t
    using that by (simp add: track_sane_def rotate_track_def)
  then show ?thesis unfolding walkTrack_def using r
    by (intro yields_bind [OF walker [OF empty]] yields_bind [OF rot] yields_if) (auto simp: init_sane_def)
qed

lemma yields_walk: "init_sane r \<Longrightarrow> yields (walk depth d r) init_sane"
proof (induction "9 - depth" arbitrary: depth d r rule: less_induct)
  case less
  show ?case
  proof (cases "depth > 8")
    case True
    then show ?thesis by (subst walk.simps) simp
  next
    case False
    have ih: "yields (walk (depth + 1) p r') init_sane" if "init_sane r'" for p r'
      by (rule less(1)) (use False that in auto)
    show ?thesis
      using False less(2)
      by (subst walk.simps) (auto intro!: yields_boxes yields_if yields_walkTrack ih yields_readSampleDescription simp del: One_nat_def)
  qed
qed

lemma yields_Parse: "yields (Parse d) (\<lambda>r. init_sane r \<and> in_Tracks r \<noteq> [])"
proof -
  have "init_sane \<lparr>in_Tracks = []\<rparr>" by (simp add: init_sane_def)
  then show ?thesis unfolding Parse_def
    by (intro yields_if yields_case [OF yields_walk]) simp_all
qed

section \<open>Writing boxes and descriptors\<close>

definition be_bytes :: "nat \<Rightarrow> nat \<Rightarrow> string" where
  "be_bytes n v = map (\<lambda>i. char_of (v div 256 ^ (n - 1 - i) mod 256)) [0..<n]"

definition box :: "string \<times> string \<Rightarrow> string" where
  "box kp = be_bytes 4 (8 + length (snd kp)) @ fst kp @ snd kp"

fun visit_all :: "(string \<Rightarrow> string \<Rightarrow> 's \<Rightarrow> 's res) \<Rightarrow> (string \<times> string) list \<Rightarrow> 's \<Rightarrow> 's res" where
  "visit_all visit [] s = Ok s"
| "visit_all visit ((kind, payload) # bs) s = bind_res (visit kind payload s) (visit_all visit bs)"

definition box_ok :: "string \<times> string \<Rightarrow> bool" where
  "box_ok kp \<longleftrightarrow> length (fst kp) = 4 \<and> 8 + length (snd kp) < 2 ^ 32"

lemma be_bytes_length [simp]: "length (be_bytes n v) = n"
  by (simp add: be_bytes_def)

lemma be_bytes4: "be_bytes 4 v = [char_of (v div 2 ^ 24 mod 256), char_of (v div 2 ^ 16 mod 256), char_of (v div 2 ^ 8 mod 256), char_of (v mod 256)]"
  by (simp add: be_bytes_def upt_rec)

lemma be_read: "v < 2 ^ 32 \<Longrightarrow> be 4 (be_bytes 4 v @ rest) 0 = Ok v"
proof -
  assume v: "v < 2 ^ 32"
  let ?x = "v div 256" and ?y = "v div 256 div 256" and ?z = "v div 256 div 256 div 256"
  have d: "v div 2 ^ 8 = ?x" "v div 2 ^ 16 = ?y" "v div 2 ^ 24 = ?z" by (simp_all add: div_mult2_eq [symmetric])
  have "?z < 256" using v by (simp add: div_mult2_eq [symmetric] less_mult_imp_div_less)
  then have "?z mod 256 = ?z" by (rule mod_less)
  then have "((?z mod 256 * 256 + ?y mod 256) * 256 + ?x mod 256) * 256 + v mod 256 = v"
    by (simp only: div_mult_mod_eq)
  then have "((v div 2 ^ 24 mod 256 * 256 + v div 2 ^ 16 mod 256) * 256 + v div 2 ^ 8 mod 256) * 256 + v mod 256 = v"
    by (simp only: d)
  then have "foldl (\<lambda>v c. v * 256 + byte c) 0 (be_bytes 4 v) = v" by (simp only: be_bytes4 foldl.simps byte_char_of mod_mod_trivial mult_0 add_0)
  then show ?thesis by (simp add: be_def)
qed

lemma boxSize_box:
  assumes "box_ok kp"
  shows "boxSize (box kp @ rest) = Ok (8 + length (snd kp), 8)"
proof -
  have "be 4 (box kp @ rest) 0 = Ok (8 + length (snd kp))"
    using assms be_read [of "8 + length (snd kp)" "fst kp @ snd kp @ rest"] by (simp add: box_def box_ok_def)
  then show ?thesis using assms by (simp add: boxSize_def box_def box_ok_def Let_def)
qed

lemma boxes_loop_step:
  assumes "box_ok (kind, payload)"
  shows "boxes_loop (Suc n) visit (box (kind, payload) @ rest) s =
    bind_res (visit kind payload s) (\<lambda>s'. boxes_loop n visit rest s')"
proof -
  let ?d = "box (kind, payload) @ rest"
  have len: "length kind = 4" "length (box (kind, payload)) = 8 + length payload" using assms by (simp_all add: box_ok_def box_def)
  then have "?d \<noteq> []" by auto
  then obtain c cs where d: "?d = c # cs" by (cases ?d) auto
  have "slice ?d 4 8 = Ok kind" "slice ?d 8 (8 + length payload) = Ok payload" "slice_from ?d (8 + length payload) = Ok rest"
    using len by (simp_all add: slice_def slice_from_def box_def)
  then show ?thesis
    using boxSize_box [OF assms, of rest] len
    unfolding d boxes_loop.simps Let_def unfolding d [symmetric] by simp
qed

lemma boxes_loop_all:
  "\<forall>kp \<in> set bs. box_ok kp \<Longrightarrow> length bs \<le> n \<Longrightarrow> boxes_loop n visit (concat (map box bs)) s = visit_all visit bs s"
proof (induction bs arbitrary: n s)
  case Nil
  then show ?case by simp
next
  case (Cons kp bs)
  obtain kind payload where kp: "kp = (kind, payload)" by (cases kp)
  obtain m where n: "n = Suc m" using Cons.prems(2) by (cases n) auto
  have "boxes_loop n visit (concat (map box (kp # bs))) s =
      bind_res (visit kind payload s) (\<lambda>s'. boxes_loop m visit (concat (map box bs)) s')"
    using boxes_loop_step [of kind payload m visit "concat (map box bs)" s] Cons.prems(1) by (simp add: n kp)
  also have "\<dots> = bind_res (visit kind payload s) (visit_all visit bs)"
    using Cons by (intro arg_cong [where f = "bind_res _"]) (simp add: n fun_eq_iff)
  finally show ?case by (simp add: kp)
qed

text \<open>A descriptor with its length in \<open>Suc k\<close> bytes.\<close>

fun length_bytes :: "nat \<Rightarrow> nat \<Rightarrow> string" where
  "length_bytes 0 v = [char_of (v mod 128)]"
| "length_bytes (Suc k) v = char_of (128 + v div 128 ^ Suc k mod 128) # length_bytes k v"

lemma length_bytes_length [simp]: "length (length_bytes k v) = Suc k"
  by (induction k) simp_all

lemma flag_byte: "flag (128 + b) 128" "\<not> flag b 128" if "b < 128" for b
  using that by (simp_all add: flag_def)

lemma descriptor_length_bytes:
  assumes "k < n"
  shows "descriptor_length n (pre @ length_bytes k v @ rest) acc (length pre) =
    (if acc * 128 ^ Suc k + v mod 128 ^ Suc k \<le> length rest
     then Ok (acc * 128 ^ Suc k + v mod 128 ^ Suc k, length pre + Suc k) else ErrInvalid)"
  using assms
proof (induction k arbitrary: n acc pre)
  case 0
  then obtain m where n: "n = Suc m" by (cases n) auto
  have "\<not> flag (v mod 128) 128" by (rule flag_byte) simp
  then show ?case by (simp add: n octet_def Let_def mod_less not_le)
next
  case (Suc k)
  then obtain m where n: "n = Suc m" "k < m" by (cases n) auto
  let ?b = "v div 128 ^ Suc k mod 128"
  have less: "?b < 128" by simp
  have byte: "byte (char_of (128 + ?b)) = 128 + ?b" using less by (simp add: mod_less)
  have low: "(128 + ?b) mod 128 = ?b" by simp
  have val: "(acc * 128 + ?b) * 128 ^ Suc k + v mod 128 ^ Suc k = acc * 128 ^ Suc (Suc k) + v mod 128 ^ Suc (Suc k)"
    using mod_mult2_eq [of v "128 ^ Suc k" 128] by (simp add: algebra_simps)
  have "descriptor_length n (pre @ length_bytes (Suc k) v @ rest) acc (length pre) =
      descriptor_length m ((pre @ [char_of (128 + ?b)]) @ length_bytes k v @ rest) (acc * 128 + ?b) (length (pre @ [char_of (128 + ?b)]))"
    using flag_byte(1) [OF less] byte low by (simp add: n octet_def Let_def del: byte_char_of)
  also have "\<dots> = (if acc * 128 ^ Suc (Suc k) + v mod 128 ^ Suc (Suc k) \<le> length rest
     then Ok (acc * 128 ^ Suc (Suc k) + v mod 128 ^ Suc (Suc k), length pre + Suc (Suc k)) else ErrInvalid)"
    unfolding Suc.IH [OF n(2)] val by simp
  finally show ?case .
qed

definition write_descriptor :: "nat \<Rightarrow> nat \<Rightarrow> string \<Rightarrow> string" where
  "write_descriptor k tag payload = char_of tag # length_bytes k (length payload) @ payload"

lemma descriptor_write:
  assumes "tag < 256" "k < 4" "length payload < 128 ^ Suc k"
  shows "descriptor (write_descriptor k tag payload @ rest) = Ok (tag, payload)"
proof -
  let ?d = "write_descriptor k tag payload @ rest"
  have "descriptor_length 4 ([char_of tag] @ length_bytes k (length payload) @ payload @ rest) 0 (length [char_of tag]) =
      Ok (length payload, length [char_of tag] + Suc k)"
    unfolding descriptor_length_bytes [OF assms(2)] using assms(3) by (simp add: mod_less)
  then have "descriptor_length 4 ?d 0 1 = Ok (length payload, Suc (Suc k))" by (simp add: write_descriptor_def)
  moreover have "octet ?d 0 = Ok tag" using assms(1) by (simp add: write_descriptor_def octet_def mod_less)
  moreover have "slice ?d (Suc (Suc k)) (Suc (Suc k) + length payload) = Ok payload"
    by (simp add: slice_def write_descriptor_def)
  moreover have "\<not> length ?d < 2" by (simp add: write_descriptor_def)
  ultimately show ?thesis by (simp add: descriptor_def)
qed

section \<open>Properties\<close>

lemma visit_all_skip:
  "\<forall>kp \<in> set bs. visit (fst kp) (snd kp) s = Ok s \<Longrightarrow> visit_all visit (bs @ cs) s = visit_all visit cs s"
  by (induction bs) auto

lemma boxes_written: "\<forall>kp \<in> set bs. box_ok kp \<Longrightarrow> length bs \<le> 4096 \<Longrightarrow> boxes visit (concat (map box bs)) s = visit_all visit bs s"
  unfolding boxes_def by (rule boxes_loop_all)

lemma boxes_one: "box_ok (kind, p) \<Longrightarrow> boxes visit (box (kind, p)) s = visit kind p s"
  using boxes_written [of "[(kind, p)]" visit s] by (cases "visit kind p s") simp_all

lemma box_length: "length (fst kp) = 4 \<Longrightarrow> length (box kp) = 8 + length (snd kp)"
  by (simp add: box_def)

text \<open>C18. Parsing a segment never reads outside the data, whatever the bytes are: no index and no slice expression
  of the reader fails.  And when it succeeds, the result has between one and 32 tracks, every track has a codec, no
  width or height exceeds an \<open>int32\<close>, the bit depth is at most 15 and the range is one of the four known ones.\<close>

theorem isobmff_parse_safe:
  "case Parse d of Panic \<Rightarrow> False | ErrInvalid \<Rightarrow> True
   | Ok r \<Rightarrow> in_Tracks r \<noteq> [] \<and> length (in_Tracks r) \<le> 32 \<and>
     list_all (\<lambda>t. tk_Codec t \<noteq> '''' \<and> tk_Width t \<le> max_int32 \<and> tk_Height t \<le> max_int32 \<and> tk_BitDepth t \<le> 15
        \<and> tk_Range t \<in> {'''', ''SDR'', ''PQ'', ''HLG''}) (in_Tracks r)"
proof (cases "Parse d")
  case (Ok r)
  with yields_Parse [of d] show ?thesis by (simp add: init_sane_def track_sane_def list_all_iff)
next
  case ErrInvalid
  then show ?thesis by simp
next
  case Panic
  with yields_Parse [of d] show ?thesis by simp
qed

text \<open>Reading back what was written: the box reader visits exactly the boxes of a well-formed sequence of at
  most 4096 boxes, each with its kind and its whole payload, in order, and stops at the first error of the visitor.\<close>

theorem isobmff_boxes_roundtrip:
  assumes "\<forall>kp \<in> set bs. length (fst kp) = 4 \<and> 8 + length (snd kp) < 2 ^ 32" "length bs \<le> 4096"
  shows "boxes visit (concat (map box bs)) s = visit_all visit bs s"
  using assms boxes_written [of bs visit s] by (simp add: box_ok_def)

lemma isobmff_boxes_roundtrip_witness:
  "boxes (\<lambda>kind p s. Ok (s @ [(kind, p)])) (concat (map box [(''free'', ''''), (''mdat'', ''abc'')])) [] =
     Ok [(''free'', ''''), (''mdat'', ''abc'')]"
proof -
  have "boxes (\<lambda>kind p s. Ok (s @ [(kind, p)])) (concat (map box [(''free'', ''''), (''mdat'', ''abc'')])) [] =
      visit_all (\<lambda>kind p s. Ok (s @ [(kind, p)])) [(''free'', ''''), (''mdat'', ''abc'')] []"
    by (rule isobmff_boxes_roundtrip) simp_all
  then show ?thesis by simp
qed

text \<open>A movie with one video track, with other boxes before the track.\<close>

definition avc_entry :: "nat \<Rightarrow> nat \<Rightarrow> string \<Rightarrow> string" where
  "avc_entry w h cfg = replicate 24 (char_of (0::nat)) @ be_bytes 2 w @ be_bytes 2 h @ replicate 50 (char_of (0::nat)) @ box (''avcC'', cfg)"

definition avc_stsd :: "nat \<Rightarrow> nat \<Rightarrow> string \<Rightarrow> string" where
  "avc_stsd w h cfg = replicate 4 (char_of (0::nat)) @ be_bytes 4 1 @ box (''avc1'', avc_entry w h cfg)"

definition avc_movie :: "(string \<times> string) list \<Rightarrow> nat \<Rightarrow> nat \<Rightarrow> string \<Rightarrow> string" where
  "avc_movie others w h cfg = box (''moov'', concat (map box (others @ [(''trak'', box (''mdia'', box (''minf'', box (''stbl'',
     box (''stsd'', avc_stsd w h cfg)))))])))"

lemma be_bytes2: "be_bytes 2 v = [char_of (v div 256 mod 256), char_of (v mod 256)]"
  by (simp add: be_bytes_def upt_rec)

lemma be2_read: "v < 2 ^ 16 \<Longrightarrow> length pre = i \<Longrightarrow> be 2 (pre @ be_bytes 2 v @ rest) i = Ok v"
proof -
  assume v: "v < 2 ^ 16" and len: "length pre = i"
  have "v div 256 mod 256 = v div 256" using v by (intro mod_less) (simp add: less_mult_imp_div_less)
  then have "foldl (\<lambda>v c. v * 256 + byte c) 0 (be_bytes 2 v) = v"
    by (simp only: be_bytes2 foldl.simps byte_char_of mod_mod_trivial mult_0 add_0 div_mult_mod_eq)
  with len show ?thesis by (simp add: be_def)
qed

lemma be4_read: "v < 2 ^ 32 \<Longrightarrow> length pre = i \<Longrightarrow> be 4 (pre @ be_bytes 4 v @ rest) i = Ok v"
  using be_read [of v rest] by (simp add: be_def split: if_splits)

lemma avc_configuration:
  assumes "7 \<le> length cfg" "byte (cfg ! 0) = 1"
  shows "track_configuration ''avc1'' ''avcC'' cfg t = Ok (t\<lparr>tk_Codec := ''avc1.'' @ hex2 (byte (cfg ! 1)) @ hex2 (byte (cfg ! 2)) @ hex2 (byte (cfg ! 3)),
     tk_BitDepth := (if byte (cfg ! 1) \<in> {66, 77, 88, 100} then 8 else tk_BitDepth t)\<rparr>)"
proof -
  have "octet cfg i = Ok (byte (cfg ! i))" if "i < 4" for i using that assms(1) by (simp add: octet_def)
  from this [of 0] this [of 1] this [of 2] this [of 3] assms show ?thesis
    by (simp add: track_configuration_def codecConfiguration_def avcCodec_def readBitDepth_def)
qed

definition avc_track :: "nat \<Rightarrow> nat \<Rightarrow> string \<Rightarrow> track" where
  "avc_track w h cfg = \<lparr>tk_Codec = ''avc1.'' @ hex2 (byte (cfg ! 1)) @ hex2 (byte (cfg ! 2)) @ hex2 (byte (cfg ! 3)), tk_Range = ''SDR'',
     tk_Width = w, tk_Height = h, tk_BitDepth = (if byte (cfg ! 1) \<in> {66, 77, 88, 100} then 8 else 0)\<rparr>"

lemma avc_entry_start:
  assumes "0 < w" "w < 2 ^ 16" "0 < h" "h < 2 ^ 16"
  shows "entry_start ''avc1'' (avc_entry w h cfg) = Ok (zero_track\<lparr>tk_Width := w, tk_Height := h, tk_Range := ''SDR''\<rparr>, 78)"
proof -
  have "be 2 (avc_entry w h cfg) 24 = Ok w" unfolding avc_entry_def by (rule be2_read) (use assms in simp_all)
  moreover have "be 2 (avc_entry w h cfg) 26 = Ok h"
    using be2_read [of h "replicate 24 (char_of (0::nat)) @ be_bytes 2 w" 26] assms by (simp add: avc_entry_def)
  moreover have "\<not> length (avc_entry w h cfg) < 78" by (simp add: avc_entry_def)
  ultimately show ?thesis using assms by (simp add: entry_start_def)
qed

lemma avc_sampleEntry:
  assumes "0 < w" "w < 2 ^ 16" "0 < h" "h < 2 ^ 16" "7 \<le> length cfg" "byte (cfg ! 0) = 1" "length cfg < 2 ^ 20"
  shows "sampleEntry ''avc1'' (avc_entry w h cfg) = Ok (avc_track w h cfg)"
proof -
  have "slice_from (avc_entry w h cfg) 78 = Ok (box (''avcC'', cfg))" by (simp add: slice_from_def avc_entry_def)
  moreover have "boxes (track_configuration ''avc1'') (box (''avcC'', cfg)) t = track_configuration ''avc1'' ''avcC'' cfg t" for t
    using assms by (intro boxes_one) (simp add: box_ok_def)
  ultimately show ?thesis
    using assms by (simp add: sampleEntry_def avc_entry_start avc_configuration avc_track_def zero_track_def)
qed

lemma avc_description:
  assumes "0 < w" "w < 2 ^ 16" "0 < h" "h < 2 ^ 16" "7 \<le> length cfg" "byte (cfg ! 0) = 1" "length cfg < 2 ^ 20"
  shows "readSampleDescription (avc_stsd w h cfg) \<lparr>in_Tracks = []\<rparr> = Ok \<lparr>in_Tracks = [avc_track w h cfg]\<rparr>"
proof -
  have "be 4 (avc_stsd w h cfg) 4 = Ok 1" unfolding avc_stsd_def by (rule be4_read) simp_all
  moreover have "slice_from (avc_stsd w h cfg) 8 = Ok (box (''avc1'', avc_entry w h cfg))" by (simp add: slice_from_def avc_stsd_def)
  moreover have "boxes visit (box (''avc1'', avc_entry w h cfg)) s = visit ''avc1'' (avc_entry w h cfg) s"
    for visit and s :: "nat \<times> initialization"
    using assms by (intro boxes_one) (simp add: box_ok_def avc_entry_def box_def)
  moreover have "\<not> length (avc_stsd w h cfg) < 8" by (simp add: avc_stsd_def)
  ultimately show ?thesis by (simp add: readSampleDescription_def avc_sampleEntry [OF assms])
qed

lemma walk_container:
  "box_ok (kind, p) \<Longrightarrow> kind \<in> set [''moov'', ''mdia'', ''minf'', ''stbl''] \<Longrightarrow> depth \<le> 8 \<Longrightarrow> walk depth (box (kind, p)) r = walk (Suc depth) p r"
  by (subst walk.simps) (auto simp: boxes_one)

lemma walk_stsd: "box_ok (''stsd'', p) \<Longrightarrow> depth \<le> 8 \<Longrightarrow> walk depth (box (''stsd'', p)) r = readSampleDescription p r"
  by (subst walk.simps) (simp add: boxes_one)

definition other_box :: "string \<times> string \<Rightarrow> bool" where
  "other_box kp \<longleftrightarrow> box_ok kp \<and> fst kp \<notin> {''trak'', ''moov'', ''mdia'', ''minf'', ''stbl'', ''stsd''}"

lemma walk_others:
  assumes "\<forall>kp \<in> set others. other_box kp" "length others < 4096" "box_ok (kind, p)" "depth \<le> 8"
  shows "walk depth (concat (map box (others @ [(kind, p)]))) r = walk depth (box (kind, p)) r"
proof -
  let ?v = "\<lambda>kind p r'. if kind = ''trak'' then walkTrack (\<lambda>d' r''. walk (depth + 1) d' r'') p r'
       else if kind \<in> set [''moov'', ''mdia'', ''minf'', ''stbl''] then walk (depth + 1) p r'
       else if kind = ''stsd'' then readSampleDescription p r' else Ok r'"
  have w: "walk depth d r = boxes ?v d r" for d using assms(4) by (subst walk.simps) simp
  have skip: "\<forall>kp \<in> set others. ?v (fst kp) (snd kp) r = Ok r" using assms(1) by (simp add: other_box_def)
  have ok: "\<forall>kp \<in> set (others @ [(kind, p)]). box_ok kp" "length (others @ [(kind, p)]) \<le> 4096"
    using assms by (auto simp: other_box_def)
  have ok': "\<forall>kp \<in> set [(kind, p)]. box_ok kp" "length [(kind, p)] \<le> 4096" using assms(3) by simp_all
  have "walk depth (concat (map box (others @ [(kind, p)]))) r = visit_all ?v (others @ [(kind, p)]) r"
    unfolding w by (rule boxes_written [OF ok])
  also have "\<dots> = visit_all ?v [(kind, p)] r" by (rule visit_all_skip [where visit = ?v]) (rule skip)
  also have "\<dots> = boxes ?v (concat (map box [(kind, p)])) r" by (rule boxes_written [OF ok', symmetric])
  finally show ?thesis by (simp add: w)
qed

text \<open>C19. Reading back a whole file: a movie whose \<open>moov\<close> box holds any boxes of other kinds and then one AVC track,
  nested as MP4 requires, is parsed to exactly this track: its size from the sample entry, the codec string
  \<open>avc1.PPCCLL\<close> from the configuration record and the bit depth of the profile.\<close>

theorem isobmff_reads_written_avc:
  assumes "0 < w" "w < 2 ^ 16" "0 < h" "h < 2 ^ 16" "7 \<le> length cfg" "byte (cfg ! 0) = 1" "length cfg < 2 ^ 20"
    and "\<forall>kp \<in> set others. other_box kp" "length others < 4096" "length (concat (map box others)) < 2 ^ 19"
  shows "Parse (avc_movie others w h cfg) = Ok \<lparr>in_Tracks = [avc_track w h cfg]\<rparr>"
proof -
  let ?stbl = "box (''stsd'', avc_stsd w h cfg)" and ?e = "\<lparr>in_Tracks = []\<rparr>"
  let ?mdia = "box (''minf'', box (''stbl'', ?stbl))"
  let ?trak = "box (''mdia'', ?mdia)"
  have stsd: "length (avc_stsd w h cfg) = length cfg + 102" by (simp add: avc_stsd_def avc_entry_def box_def)
  have len: "length ?trak = length cfg + 134" by (simp add: box_length stsd)
  have ok: "box_ok (''stsd'', avc_stsd w h cfg)" "box_ok (''stbl'', ?stbl)" "box_ok (''minf'', box (''stbl'', ?stbl))"
    "box_ok (''mdia'', ?mdia)" "box_ok (''trak'', ?trak)"
    using assms(7) by (simp_all add: box_ok_def box_length stsd)
  let ?moov = "concat (map box (others @ [(''trak'', ?trak)]))"
  have moov: "length ?moov = length (concat (map box others)) + length cfg + 142" using len by (simp add: box_length)
  have okm: "box_ok (''moov'', ?moov)" using moov assms(7,10) by (simp add: box_ok_def)
  have inner: "walk 2 ?trak ?e = Ok \<lparr>in_Tracks = [avc_track w h cfg]\<rparr>"
    using ok by (simp add: walk_container walk_stsd avc_description [OF assms(1-7)])
  have turn: "boxes (\<lambda>kind p turn. if kind \<noteq> ''tkhd'' then Ok turn else trackRotation p) ?trak False = Ok False"
    by (subst boxes_one [OF ok(4)]) simp
  have "walk 0 (avc_movie others w h cfg) ?e = walk 1 ?moov ?e"
    unfolding avc_movie_def using walk_container [OF okm, of 0 ?e] by simp
  also have "\<dots> = walk 1 (box (''trak'', ?trak)) ?e" by (rule walk_others [OF assms(8,9) ok(5)]) simp
  also have "\<dots> = walkTrack (\<lambda>d' r''. walk 2 d' r'') ?trak ?e"
    by (subst walk.simps) (simp add: boxes_one [OF ok(5)] numeral_2_eq_2)
  also have "\<dots> = Ok \<lparr>in_Tracks = [avc_track w h cfg]\<rparr>" by (simp add: walkTrack_def inner turn rotate_track_def)
  finally have walked: "walk 0 (avc_movie others w h cfg) ?e = Ok \<lparr>in_Tracks = [avc_track w h cfg]\<rparr>" .
  have "length (avc_movie others w h cfg) = length ?moov + 8" unfolding avc_movie_def by (subst box_length) simp_all
  with moov assms(7,10) have "length (avc_movie others w h cfg) \<noteq> 0" "\<not> length (avc_movie others w h cfg) > MaximumInitializationBytes"
    by (simp_all add: MaximumInitializationBytes_def)
  then show ?thesis by (simp add: Parse_def walked)
qed

lemma isobmff_reads_written_avc_witness:
  "Parse (avc_movie [(''free'', '''')] 1920 1080 (map char_of [1, 100, 0, 40, 255, 225, 0 :: nat])) =
     Ok \<lparr>in_Tracks = [\<lparr>tk_Codec = ''avc1.640028'', tk_Range = ''SDR'', tk_Width = 1920, tk_Height = 1080, tk_BitDepth = 8\<rparr>]\<rparr>"
proof -
  let ?cfg = "map char_of [1, 100, 0, 40, 255, 225, 0 :: nat]"
  have "Parse (avc_movie [(''free'', '''')] 1920 1080 ?cfg) = Ok \<lparr>in_Tracks = [avc_track 1920 1080 ?cfg]\<rparr>"
    by (rule isobmff_reads_written_avc) (simp_all add: other_box_def box_ok_def box_length)
  moreover have "avc_track 1920 1080 ?cfg = \<lparr>tk_Codec = ''avc1.640028'', tk_Range = ''SDR'', tk_Width = 1920, tk_Height = 1080, tk_BitDepth = 8\<rparr>"
    by code_simp
  ultimately show ?thesis by simp
qed

text \<open>The pixel aspect ratio can round a width to zero, which \<open>Video\<close> then no longer takes for a video track.\<close>

lemma pixel_aspect_can_vanish:
  "pixelAspect (be_bytes 4 1 @ be_bytes 4 10000) (zero_track\<lparr>tk_Codec := ''avc1'', tk_Width := 1, tk_Height := 1\<rparr>) =
     Ok (zero_track\<lparr>tk_Codec := ''avc1'', tk_Width := 0, tk_Height := 1\<rparr>)"
proof -
  have "be 4 (be_bytes 4 1 @ be_bytes 4 10000) 0 = Ok 1" by (rule be_read) simp
  moreover have "be 4 (be_bytes 4 1 @ be_bytes 4 10000 @ []) 4 = Ok 10000" by (rule be4_read) simp_all
  ultimately show ?thesis by (simp add: pixelAspect_def zero_track_def max_int32_def)
qed

end
