(* ===== verification/Storage.thy ===== *)
theory Storage
  imports Prelude
begin

text \<open>
  The write of a private file that the stores share: \<open>write\<close> of packages/privatefile/privatefile.go.  The data goes to a
  temporary file beside the old one, which a rename then replaces, and after that the directory is synced.  Each system call
  succeeds or fails; an error of the last one is reported although the file is already the new one.

  The stores that write such files take the outcome of a write as an input, and \<open>file_write\<close> gives what it leaves behind;
  \<open>private_write_outcome\<close> shows that the three outcomes are all there are.
\<close>

section \<open>The calls of a write\<close>

record write_calls =
  wc_mkdir :: bool
  wc_temporary :: bool
  wc_chmod :: bool
  wc_write :: bool
  wc_sync :: bool
  wc_close :: bool
  wc_rename :: bool
  wc_syncDirectory :: bool

text \<open>The new file, and whether the write reports success.  \<open>old\<close> and \<open>new\<close> are the contents, \<open>None\<close> where there is no file.\<close>

definition private_write :: "write_calls \<Rightarrow> bool \<Rightarrow> string \<Rightarrow> string \<Rightarrow> string option \<Rightarrow> string option \<times> bool" where
  "private_write c durable path data old =
     (if path = [] then (old, False)
      else if \<not> wc_mkdir c then (old, False)
      else if \<not> wc_temporary c then (old, False)
      else let written = wc_chmod c \<and> wc_write c;
               synced = written \<and> (durable \<longrightarrow> wc_sync c);
               closed = synced \<and> wc_close c
           in if \<not> closed then (old, False)
              else if \<not> wc_rename c then (old, False)
              else if durable then (Some data, wc_syncDirectory c)
              else (Some data, True))"

section \<open>The outcomes\<close>

text \<open>
  Refused: an error, and the file is as it was.  Replaced: an error, and the file is the new one.  Written: no error.  A crash
  during a write leaves the file as one of the first two does.
\<close>

datatype write_outcome = Refused | Replaced | Written

definition file_write :: "write_outcome \<Rightarrow> 'a \<Rightarrow> 'a \<Rightarrow> 'a \<times> bool" where
  "file_write outcome new old = (case outcome of
     Refused \<Rightarrow> (old, False) | Replaced \<Rightarrow> (new, False) | Written \<Rightarrow> (new, True))"

lemma file_write_simps [simp]:
  "file_write Refused new old = (old, False)" "file_write Replaced new old = (new, False)" "file_write Written new old = (new, True)"
  by (simp_all add: file_write_def)

lemma file_write_cases: "fst (file_write outcome new old) = new \<or> fst (file_write outcome new old) = old \<and> \<not> snd (file_write outcome new old)"
  by (cases outcome) simp_all

definition calls_outcome :: "write_calls \<Rightarrow> bool \<Rightarrow> write_outcome" where
  "calls_outcome c durable =
     (if wc_mkdir c \<and> wc_temporary c \<and> wc_chmod c \<and> wc_write c \<and> (durable \<longrightarrow> wc_sync c) \<and> wc_close c \<and> wc_rename c
      then (if durable \<and> \<not> wc_syncDirectory c then Replaced else Written) else Refused)"

lemma private_write_outcome: "path \<noteq> [] \<Longrightarrow> private_write c durable path data old = file_write (calls_outcome c durable) (Some data) old"
  by (auto simp: private_write_def calls_outcome_def Let_def)

lemma every_outcome: "\<exists>c. calls_outcome c True = outcome"
proof (cases outcome)
  case Refused
  then show ?thesis by (intro exI [of _ "\<lparr>wc_mkdir = False, wc_temporary = True, wc_chmod = True, wc_write = True, wc_sync = True,
      wc_close = True, wc_rename = True, wc_syncDirectory = True\<rparr>"]) (simp add: calls_outcome_def)
next
  case Replaced
  then show ?thesis by (intro exI [of _ "\<lparr>wc_mkdir = True, wc_temporary = True, wc_chmod = True, wc_write = True, wc_sync = True,
      wc_close = True, wc_rename = True, wc_syncDirectory = False\<rparr>"]) (simp add: calls_outcome_def)
next
  case Written
  then show ?thesis by (intro exI [of _ "\<lparr>wc_mkdir = True, wc_temporary = True, wc_chmod = True, wc_write = True, wc_sync = True,
      wc_close = True, wc_rename = True, wc_syncDirectory = True\<rparr>"]) (simp add: calls_outcome_def)
qed

end
