(* ===== verification/Sessions.thy ===== *)
theory Sessions
  imports Text Storage "HOL-Library.Signed_Division" "HOL-Library.Char_ord" "HOL-Library.List_Lexorder"
begin

text \<open>
  Sign-in sessions: packages/identitycore/sessions.go, sessions_admin.go, sessions_persist.go,
  session_timeouts.go, the session helpers of session_http.go and \<open>ValidSessionToken\<close> of
  session_requests.go.

  The table of sessions is a Go map from the hash of the token to the session; the hash
  (\<open>SessionKey\<close>, hexadecimal SHA-256) is the argument \<open>H\<close>.  What the process reads from outside, the clock,
  the profiles and the settings, is the record \<open>session_config\<close>, one per call.  Every change of the
  table is made in three steps that other calls can come between: the change under the lock, the write
  of the whole table, whose outcome is an input (theory Storage), and, when the write failed, the undo
  under the lock (\<open>session_exec\<close>).
  Sums of \<open>int64\<close> seconds wrap (\<open>i64\<close>).
\<close>

section \<open>Machine integers\<close>

definition i64 :: "int \<Rightarrow> int" where
  "i64 x = (x + 2 ^ 63) mod 2 ^ 64 - 2 ^ 63"

lemma i64_id: "min_i64 \<le> x \<Longrightarrow> x \<le> max_i64 \<Longrightarrow> i64 x = x"
  by (simp add: i64_def min_i64_def max_i64_def)

text \<open>\<open>int64(d / time.Second)\<close>, which rounds towards zero.\<close>

definition secs :: "duration \<Rightarrow> int" where
  "secs d = d sdiv second"

lemma secs_nonneg: "0 \<le> d \<Longrightarrow> secs d = d div second"
  by (simp add: secs_def signed_divide_int_def second_def sgn_if)

lemma secs_min: "0 \<le> a \<Longrightarrow> 0 \<le> b \<Longrightarrow> secs (min a b) = min (secs a) (secs b)"
  by (cases "a \<le> b") (simp_all add: secs_nonneg min_def second_def zdiv_mono1 order_antisym)

section \<open>Data\<close>

record session =
  ss_ManagementDevice :: string
  ss_ProfileID :: string
  ss_ExpiresAt :: int
  ss_Name :: string
  ss_CreatedAt :: int
  ss_LastSeen :: int
  ss_InactiveSeconds :: int
  ss_Browser :: bool
  ss_StrongAt :: int
  ss_Channel :: string
  ss_ProfileRevision :: nat

definition zero_session :: session where
  "zero_session = \<lparr>ss_ManagementDevice = '''', ss_ProfileID = '''', ss_ExpiresAt = 0, ss_Name = '''', ss_CreatedAt = 0,
     ss_LastSeen = 0, ss_InactiveSeconds = 0, ss_Browser = False, ss_StrongAt = 0, ss_Channel = '''', ss_ProfileRevision = 0\<rparr>"

record session_profile =
  sp_ID :: string
  sp_Name :: string
  sp_Owner :: bool
  sp_Remote :: bool
  sp_Secured :: bool
  sp_Disabled :: bool
  sp_Deleted :: bool
  sp_Revision :: nat

text \<open>
  \<open>sc_Valid\<close> is \<open>valid()\<close>: the store and its required functions are there.  A function that may be
  \<open>nil\<close> is an option.
\<close>

record session_config =
  sc_Valid :: bool
  sc_Profiles :: "session_profile list"
  sc_Timeouts :: "(duration \<times> duration) option"
  sc_PublicTimeouts :: "(duration \<times> duration) option"
  sc_PublicLifetime :: "duration option"
  sc_Now :: instant

datatype identity_error = ErrProfileNotFound | ErrPublicProfile | ErrPublicLimit | ErrCurrentSession | ErrDeviceNotFound
  | ErrSessionKind | ErrSessionToken | ErrInvalidConfig | ErrPersist

type_synonym session_map = "(string, session) gomap"

definition DefaultSessionInactive :: duration where "DefaultSessionInactive = 900000000000"
definition DefaultSessionAbsolute :: duration where "DefaultSessionAbsolute = 28800000000000"
definition publicSessionLimit :: nat where "publicSessionLimit = 10"
definition MaxSessionTokenBytes :: nat where "MaxSessionTokenBytes = 256"

text \<open>\<open>NewSessions\<close> puts the default timeouts where there are none.\<close>

definition NewSessions :: "session_config \<Rightarrow> session_config" where
  "NewSessions cfg = (case sc_Timeouts cfg of
     None \<Rightarrow> cfg\<lparr>sc_Timeouts := Some (DefaultSessionInactive, DefaultSessionAbsolute)\<rparr>
   | Some _ \<Rightarrow> cfg)"

section \<open>Timeouts and expiry\<close>

definition SessionTimeouts ::
  "session \<Rightarrow> (duration \<times> duration) option \<Rightarrow> (duration \<times> duration) option \<Rightarrow> duration \<times> duration" where
  "SessionTimeouts s timeouts publicTimeouts =
     (case (if ss_Channel s = ''public'' then publicTimeouts else None) of
        Some t \<Rightarrow> t
      | None \<Rightarrow> (case timeouts of None \<Rightarrow> (DefaultSessionInactive, DefaultSessionAbsolute) | Some t \<Rightarrow> t))"

definition TimeoutsFor :: "session_config \<Rightarrow> session \<Rightarrow> duration \<times> duration" where
  "TimeoutsFor cfg s = SessionTimeouts s (sc_Timeouts cfg) (sc_PublicTimeouts cfg)"

definition browserInactiveSeconds :: "bool \<Rightarrow> duration \<Rightarrow> int" where
  "browserInactiveSeconds browser inactive = (if \<not> browser then 0 else secs inactive)"

definition SessionExpired :: "session \<Rightarrow> int \<Rightarrow> duration \<Rightarrow> duration \<Rightarrow> bool" where
  "SessionExpired s now inactive absolute =
     (if ss_ExpiresAt s \<le> now then True
      else if \<not> ss_Browser s then False
      else let seconds = (if ss_InactiveSeconds s > 0 then min (secs inactive) (ss_InactiveSeconds s) else secs inactive)
        in if i64 (ss_LastSeen s + seconds) \<le> now then True
           else i64 (ss_CreatedAt s + secs absolute) \<le> now)"

definition LimitSession ::
  "session \<Rightarrow> int \<Rightarrow> duration \<Rightarrow> duration \<Rightarrow> duration \<Rightarrow> duration \<Rightarrow> session \<times> bool" where
  "LimitSession s now oldInactive oldAbsolute inactive absolute =
     (if SessionExpired s now oldInactive oldAbsolute then (s, False)
      else let s' =
        (if ss_Browser s then
           (let seconds0 = secs (min oldInactive inactive);
                seconds = (if ss_InactiveSeconds s > 0 then min seconds0 (ss_InactiveSeconds s) else seconds0)
            in s\<lparr>ss_InactiveSeconds := seconds,
                 ss_ExpiresAt := min (ss_ExpiresAt s) (i64 (ss_CreatedAt s + secs (min oldAbsolute absolute)))\<rparr>)
         else if ss_Channel s = ''public'' then
           s\<lparr>ss_ExpiresAt := min (ss_ExpiresAt s) (i64 (ss_CreatedAt s + secs absolute))\<rparr>
         else s)
        in (s', \<not> SessionExpired s' now inactive absolute))"

definition RecentlyStrong :: "session \<Rightarrow> duration \<Rightarrow> instant \<Rightarrow> bool" where
  "RecentlyStrong s maximumAge now \<longleftrightarrow> ss_StrongAt s \<noteq> 0 \<and> from_unix (ss_StrongAt s) + maximumAge > now"

section \<open>Names, tokens and keys\<close>

definition contains_text :: "string \<Rightarrow> string \<Rightarrow> bool" where
  "contains_text s p \<longleftrightarrow> list_ex (\<lambda>i. has_prefix (drop i s) p) [0..<Suc (length s)]"

definition CleanDeviceName :: "string \<Rightarrow> string" where
  "CleanDeviceName raw = (let name = trim_space raw in
     if name = '''' then ''Web browser''
     else (case List.find (\<lambda>(marker, _). contains_text name marker)
             [(''Firefox/'', ''Firefox''), (''Edg/'', ''Microsoft Edge''), (''Chrome/'', ''Chrome''), (''Safari/'', ''Safari'')] of
         Some (_, browser) \<Rightarrow> browser
       | None \<Rightarrow> take 80 name))"

definition ValidSessionToken :: "string \<Rightarrow> bool" where
  "ValidSessionToken token \<longleftrightarrow> token \<noteq> '''' \<and> length token \<le> MaxSessionTokenBytes
     \<and> list_all (\<lambda>c. 32 < byte c \<and> byte c \<le> 126) token"

definition SessionKeyIfNeeded :: "(string \<Rightarrow> string) \<Rightarrow> string \<Rightarrow> string" where
  "SessionKeyIfNeeded H key = (if length key = 64 \<and> list_all (\<lambda>c. hex_digit c \<noteq> None) key then key else H key)"

definition normalize_entry :: "(string \<Rightarrow> string) \<Rightarrow> int \<Rightarrow> string \<times> session \<Rightarrow> session_map \<Rightarrow> session_map" where
  "normalize_entry H created = (\<lambda>(key, s) m.
     (let normalized = SessionKeyIfNeeded H key;
          m1 = (if normalized \<noteq> key then mdel key m else m);
          s1 = (if ss_Name s = '''' then s\<lparr>ss_Name := ''Legacy device''\<rparr> else s);
          s2 = (if ss_CreatedAt s1 = 0 then s1\<lparr>ss_CreatedAt := created\<rparr> else s1)
      in mput normalized s2 m1))"

text \<open>The loop runs over the entries in the order of the list.\<close>

definition NormalizeSessions :: "(string \<Rightarrow> string) \<Rightarrow> instant \<Rightarrow> session_map \<Rightarrow> session_map" where
  "NormalizeSessions H now m = fold (normalize_entry H (time_unix now)) m m"

text \<open>A table stored before sessions had fields: the raw token and the profile.\<close>

definition legacy_sessions :: "(string \<Rightarrow> string) \<Rightarrow> instant \<Rightarrow> (string, string) gomap \<Rightarrow> session_map" where
  "legacy_sessions H now legacy = fold (\<lambda>(token, profileID). mput (H token)
     (zero_session\<lparr>ss_ProfileID := profileID, ss_ExpiresAt := time_unix (now + 30 * 24 * hour), ss_Name := ''Legacy device'',
        ss_CreatedAt := time_unix now\<rparr>)) legacy []"

text \<open>
  A management key is the canonical base64 text of 32 bytes: the decoded bytes must encode to the
  text again, so of the decoder only the strict reading matters.
\<close>

definition b64_value :: "char \<Rightarrow> nat option" where
  "b64_value c = (let b = byte c in
     if 65 \<le> b \<and> b \<le> 90 then Some (b - 65)
     else if 97 \<le> b \<and> b \<le> 122 then Some (b - 71)
     else if 48 \<le> b \<and> b \<le> 57 then Some (b + 4)
     else if b = 43 then Some 62 else if b = 47 then Some 63 else None)"

definition validManagementKey :: "string \<Rightarrow> bool" where
  "validManagementKey raw \<longleftrightarrow> length raw = 44 \<and> raw ! 43 = CHR ''='' \<and> list_all (\<lambda>c. b64_value c \<noteq> None) (take 43 raw)
     \<and> (case b64_value (raw ! 42) of None \<Rightarrow> False | Some v \<Rightarrow> v mod 4 = 0)"

section \<open>Who may have a session\<close>

definition findSessionProfile :: "session_profile list \<Rightarrow> string \<Rightarrow> session_profile option" where
  "findSessionProfile profiles pid = List.find (\<lambda>p. sp_ID p = pid) profiles"

definition validManagementSession :: "session_profile \<Rightarrow> string \<Rightarrow> string \<Rightarrow> bool" where
  "validManagementSession p channel deviceKey \<longleftrightarrow> validManagementKey deviceKey \<and> sp_Owner p \<and> sp_Secured p \<and> channel = ''''"

definition validateSessionAuthority :: "session_profile \<Rightarrow> string \<Rightarrow> nat option \<Rightarrow> string \<Rightarrow> identity_error option" where
  "validateSessionAuthority p channel revision deviceKey =
     (if deviceKey \<noteq> '''' \<and> \<not> validManagementSession p channel deviceKey then Some ErrSessionKind
      else if revision \<noteq> None \<and> sp_Revision p \<noteq> the revision then Some ErrPublicProfile
      else if channel = ''public'' \<and> (sp_Owner p \<or> \<not> sp_Remote p \<or> \<not> sp_Secured p) then Some ErrPublicProfile
      else None)"

definition activePublic :: "session_map \<Rightarrow> string \<Rightarrow> int \<Rightarrow> duration \<Rightarrow> duration \<Rightarrow> nat" where
  "activePublic m pid now inactive absolute =
     length (filter (\<lambda>(_, s). ss_ProfileID s = pid \<and> ss_Channel s = ''public'' \<and> \<not> SessionExpired s now inactive absolute) m)"

section \<open>Changes\<close>

record session_change =
  ch_set :: session_map
  ch_before :: session_map
  ch_removed :: session_map
  ch_existed :: "(string, bool) gomap"

definition apply_set :: "string \<times> session \<Rightarrow> session_change \<times> session_map \<Rightarrow> session_change \<times> session_map" where
  "apply_set = (\<lambda>(key, s) (change, values).
     (change\<lparr>ch_before := mput key (mget0 zero_session values key) (ch_before change),
             ch_existed := mput key (map_of values key \<noteq> None) (ch_existed change)\<rparr>,
      mput key s values))"

definition apply_remove :: "string \<Rightarrow> session_change \<times> session_map \<Rightarrow> session_change \<times> session_map" where
  "apply_remove = (\<lambda>key (change, values). (case map_of values key of
     None \<Rightarrow> (change, values)
   | Some s \<Rightarrow> (change\<lparr>ch_removed := mput key s (ch_removed change)\<rparr>, mdel key values)))"

definition applySessionChange :: "session_map \<Rightarrow> session_map \<Rightarrow> string list \<Rightarrow> session_change \<times> session_map" where
  "applySessionChange values sets remove =
     fold apply_remove remove (fold apply_set sets
       (\<lparr>ch_set = sets, ch_before = [], ch_removed = [], ch_existed = []\<rparr>, values))"

definition change_empty :: "session_change \<Rightarrow> bool" where
  "change_empty change \<longleftrightarrow> length (ch_set change) = 0 \<and> length (ch_removed change) = 0"

definition undo_set :: "session_change \<Rightarrow> string \<times> session \<Rightarrow> session_map \<Rightarrow> session_map" where
  "undo_set change = (\<lambda>(key, s) values.
     if map_of values key \<noteq> Some s then values
     else if mget0 False (ch_existed change) key then mput key (mget0 zero_session (ch_before change) key) values
     else mdel key values)"

definition undo_removed :: "string \<times> session \<Rightarrow> session_map \<Rightarrow> session_map" where
  "undo_removed = (\<lambda>(key, s) values. if map_of values key = None then mput key s values else values)"

definition session_undo :: "session_change \<Rightarrow> session_map \<Rightarrow> session_map" where
  "session_undo change values = fold undo_removed (ch_removed change) (fold (undo_set change) (ch_set change) values)"

section \<open>The operations\<close>

definition session_lifetime :: "session_config \<Rightarrow> bool \<Rightarrow> string \<Rightarrow> duration" where
  "session_lifetime cfg browser channel =
     (if channel = ''public'' then (case sc_PublicLifetime cfg of Some d \<Rightarrow> d | None \<Rightarrow> 8 * hour)
      else if browser then snd (TimeoutsFor cfg zero_session)
      else 30 * 24 * hour)"

definition new_session :: "session_config \<Rightarrow> session_profile \<Rightarrow> string \<Rightarrow> bool \<Rightarrow> bool \<Rightarrow> string \<Rightarrow> string \<Rightarrow> session" where
  "new_session cfg p name browser strong channel deviceKey = (let now = time_unix (sc_Now cfg) in
     \<lparr>ss_ManagementDevice = deviceKey, ss_ProfileID = sp_ID p,
      ss_ExpiresAt = time_unix (sc_Now cfg + session_lifetime cfg browser channel), ss_Name = CleanDeviceName name,
      ss_CreatedAt = now, ss_LastSeen = now,
      ss_InactiveSeconds = browserInactiveSeconds browser (fst (TimeoutsFor cfg (zero_session\<lparr>ss_Channel := channel\<rparr>))),
      ss_Browser = browser, ss_StrongAt = (if strong then now else 0), ss_Channel = channel, ss_ProfileRevision = sp_Revision p\<rparr>)"

definition prepareSession ::
  "(string \<Rightarrow> string) \<Rightarrow> session_config \<Rightarrow> string \<Rightarrow> string \<Rightarrow> string \<Rightarrow> bool \<Rightarrow> bool \<Rightarrow> string \<Rightarrow> nat option \<Rightarrow> string \<Rightarrow> session_map
     \<Rightarrow> identity_error + (session_change \<times> session_map)" where
  "prepareSession H cfg token profileID name browser strong channel revision deviceKey values =
     (case findSessionProfile (sc_Profiles cfg) profileID of
        None \<Rightarrow> Inl ErrProfileNotFound
      | Some p \<Rightarrow>
          if sp_Disabled p \<or> sp_Deleted p then Inl ErrProfileNotFound
          else (case validateSessionAuthority p channel revision deviceKey of
            Some err \<Rightarrow> Inl err
          | None \<Rightarrow> (case TimeoutsFor cfg (zero_session\<lparr>ss_Channel := ''public''\<rparr>) of (inactive, absolute) \<Rightarrow>
              if channel = ''public'' \<and> activePublic values profileID (time_unix (sc_Now cfg)) inactive absolute \<ge> publicSessionLimit
              then Inl ErrPublicLimit
              else if \<not> ValidSessionToken token then Inl ErrSessionToken
              else Inr (applySessionChange values
                     [(H token, new_session cfg p name browser strong channel deviceKey)] []))))"

text \<open>The part of \<open>create\<close> before the write: \<open>token\<close> is what \<open>NewToken\<close> returns.\<close>

definition create_begin ::
  "(string \<Rightarrow> string) \<Rightarrow> session_config \<Rightarrow> string \<Rightarrow> string \<Rightarrow> string \<Rightarrow> bool \<Rightarrow> bool \<Rightarrow> string \<Rightarrow> nat option \<Rightarrow> string \<Rightarrow> session_map
     \<Rightarrow> identity_error + (session_change \<times> session_map)" where
  "create_begin H cfg token profileID name browser strong channel revision deviceKey values =
     (if \<not> sc_Valid cfg then Inl ErrProfileNotFound
      else if channel \<noteq> '''' \<and> channel \<noteq> ''compatibility'' \<and> channel \<noteq> ''public'' then Inl ErrSessionKind
      else prepareSession H cfg token profileID name browser strong channel revision deviceKey values)"

definition mark_begin :: "(string \<Rightarrow> string) \<Rightarrow> session_config \<Rightarrow> string \<Rightarrow> session_map \<Rightarrow> identity_error + (session_change \<times> session_map)" where
  "mark_begin H cfg token values =
     (if \<not> sc_Valid cfg then Inl ErrCurrentSession
      else (case map_of values (H token) of
        None \<Rightarrow> Inl ErrCurrentSession
      | Some current \<Rightarrow> Inr (applySessionChange values [(H token, current\<lparr>ss_StrongAt := time_unix (sc_Now cfg)\<rparr>)] [])))"

definition remove_begin :: "session_config \<Rightarrow> (session_map \<Rightarrow> identity_error + string list) \<Rightarrow> session_map
     \<Rightarrow> identity_error + (session_change \<times> session_map)" where
  "remove_begin cfg selectKeys values =
     (if \<not> sc_Valid cfg then Inl ErrCurrentSession
      else (case selectKeys values of
        Inl err \<Rightarrow> Inl err
      | Inr keys \<Rightarrow> Inr (applySessionChange values [] keys)))"

definition select_signout :: "(string \<Rightarrow> string) \<Rightarrow> string \<Rightarrow> session_map \<Rightarrow> identity_error + string list" where
  "select_signout H token values = Inr [H token]"

definition select_device :: "string \<Rightarrow> session_map \<Rightarrow> identity_error + string list" where
  "select_device key values = (if map_of values key = None then Inl ErrDeviceNotFound else Inr [key])"

text \<open>The table and its file after \<open>replace\<close>; \<open>written\<close> is the outcome of its write.\<close>

definition session_replace :: "session_config \<Rightarrow> (session_map \<Rightarrow> identity_error + session_map) \<Rightarrow> write_outcome \<Rightarrow> session_map \<Rightarrow> session_map
     \<Rightarrow> identity_error option \<times> session_map \<times> session_map" where
  "session_replace cfg next' written values old =
     (if \<not> sc_Valid cfg then (Some ErrCurrentSession, values, old)
      else (case next' values of
        Inl err \<Rightarrow> (Some err, values, old)
      | Inr values' \<Rightarrow> (case file_write written values' old of
            (new, True) \<Rightarrow> (None, values', new)
          | (new, False) \<Rightarrow> (Some ErrPersist, values, new))))"

definition next_others :: "(string \<Rightarrow> string) \<Rightarrow> string \<Rightarrow> session_map \<Rightarrow> identity_error + session_map" where
  "next_others H token values = (case map_of values (H token) of
     None \<Rightarrow> Inl ErrCurrentSession | Some current \<Rightarrow> Inr [(H token, current)])"

definition next_all :: "session_map \<Rightarrow> identity_error + session_map" where
  "next_all values = Inr []"

text \<open>The reads.\<close>

definition RecentlyAuthenticated :: "(string \<Rightarrow> string) \<Rightarrow> session_config \<Rightarrow> string \<Rightarrow> duration \<Rightarrow> session_map \<Rightarrow> bool" where
  "RecentlyAuthenticated H cfg token maximumAge values \<longleftrightarrow> sc_Valid cfg \<and>
     (case map_of values (H token) of None \<Rightarrow> False | Some s \<Rightarrow> RecentlyStrong s maximumAge (sc_Now cfg))"

definition session_Public :: "(string \<Rightarrow> string) \<Rightarrow> session_config \<Rightarrow> string \<Rightarrow> session_map \<Rightarrow> bool" where
  "session_Public H cfg token values \<longleftrightarrow> sc_Valid cfg \<and> ss_Channel (mget0 zero_session values (H token)) = ''public''"

definition unexpired :: "session_config \<Rightarrow> session \<Rightarrow> bool" where
  "unexpired cfg s \<longleftrightarrow> (case TimeoutsFor cfg s of (inactive, absolute) \<Rightarrow> \<not> SessionExpired s (time_unix (sc_Now cfg)) inactive absolute)"

definition session_Active :: "session_config \<Rightarrow> session_map \<Rightarrow> nat" where
  "session_Active cfg values = (if \<not> sc_Valid cfg then 0 else length (filter (\<lambda>(_, s). unexpired cfg s) values))"

record device =
  dv_ID :: string
  dv_Name :: string
  dv_Profile :: string
  dv_Created :: string

text \<open>\<open>fmt\<close> is the local date format.  The sort is not stable, so the order of equal dates is that of the list.\<close>

definition Devices :: "(int \<Rightarrow> string) \<Rightarrow> session_config \<Rightarrow> session_map \<Rightarrow> device list" where
  "Devices fmt cfg values = (if \<not> sc_Valid cfg then []
     else let names = fold (\<lambda>p. mput (sp_ID p) (sp_Name p)) (sc_Profiles cfg) [];
              shown = map (\<lambda>(key, s). \<lparr>dv_ID = key, dv_Name = ss_Name s,
                  dv_Profile = (let name = mget0 '''' names (ss_ProfileID s) in if name = '''' then ''Viewer'' else name),
                  dv_Created = fmt (ss_CreatedAt s)\<rparr>) (filter (\<lambda>(_, s). unexpired cfg s) values)
          in rev (sort_key dv_Created shown))"

definition WithoutProfile :: "session_map \<Rightarrow> string \<Rightarrow> bool \<Rightarrow> session_map" where
  "WithoutProfile m pid publicOnly =
     mfilter (\<lambda>_ s. \<not> (ss_ProfileID s = pid \<and> (\<not> publicOnly \<or> ss_Channel s = ''public''))) m"

definition WithoutPublicSessions :: "session_map \<Rightarrow> session_map" where
  "WithoutPublicSessions m = mfilter (\<lambda>_ s. ss_Channel s \<noteq> ''public'') m"

section \<open>Interleaved calls\<close>

text \<open>
  \<open>sy_flight\<close> holds the changes whose call has not returned: \<open>(change, False)\<close> before its write,
  \<open>(change, True)\<close> between a failed write and the undo.
\<close>

record sessions_system =
  sy_values :: session_map
  sy_file :: session_map
  sy_flight :: "(session_change \<times> bool) list"

datatype session_op =
    OpCreate string string string bool bool string "nat option" string
  | OpMarkStrong string
  | OpSignOut string
  | OpRevokeDevice string
  | OpRevokeOthers string write_outcome
  | OpRevokeAll write_outcome
  | OpPersist nat write_outcome
  | OpUndo nat

definition start_change :: "identity_error + (session_change \<times> session_map) \<Rightarrow> sessions_system \<Rightarrow> identity_error option \<times> sessions_system" where
  "start_change r S = (case r of
     Inl err \<Rightarrow> (Some err, S)
   | Inr (change, values) \<Rightarrow> (None, S\<lparr>sy_values := values, sy_flight := sy_flight S @ (if change_empty change then [] else [(change, False)])\<rparr>))"

definition replace_all :: "identity_error option \<times> session_map \<times> session_map \<Rightarrow> sessions_system \<Rightarrow> identity_error option \<times> sessions_system" where
  "replace_all r S = (case r of (err, values, new) \<Rightarrow> (err, S\<lparr>sy_values := values, sy_file := new\<rparr>))"

definition drop_flight :: "nat \<Rightarrow> sessions_system \<Rightarrow> sessions_system" where
  "drop_flight i S = S\<lparr>sy_flight := take i (sy_flight S) @ drop (Suc i) (sy_flight S)\<rparr>"

text \<open>The write of \<open>persistChange\<close> and its undo, of the call number \<open>i\<close>.  A write that fails after it has replaced the
  file leaves there the change that is undone in memory.\<close>

definition persist_step :: "nat \<Rightarrow> write_outcome \<Rightarrow> sessions_system \<Rightarrow> sessions_system" where
  "persist_step i written S = (if i < length (sy_flight S) \<and> \<not> snd (sy_flight S ! i) then
       (case file_write written (sy_values S) (sy_file S) of
          (new, True) \<Rightarrow> drop_flight i (S\<lparr>sy_file := new\<rparr>)
        | (new, False) \<Rightarrow> S\<lparr>sy_file := new, sy_flight := (sy_flight S)[i := (fst (sy_flight S ! i), True)]\<rparr>)
     else S)"

definition undo_step :: "nat \<Rightarrow> sessions_system \<Rightarrow> sessions_system" where
  "undo_step i S = (if i < length (sy_flight S) \<and> snd (sy_flight S ! i)
     then drop_flight i (S\<lparr>sy_values := session_undo (fst (sy_flight S ! i)) (sy_values S)\<rparr>) else S)"

fun session_exec :: "(string \<Rightarrow> string) \<Rightarrow> session_config \<Rightarrow> session_op \<Rightarrow> sessions_system \<Rightarrow> identity_error option \<times> sessions_system" where
  "session_exec H cfg (OpCreate token pid name browser strong channel revision deviceKey) S =
     start_change (create_begin H cfg token pid name browser strong channel revision deviceKey (sy_values S)) S"
| "session_exec H cfg (OpMarkStrong token) S = start_change (mark_begin H cfg token (sy_values S)) S"
| "session_exec H cfg (OpSignOut token) S = (if token = '''' then (None, S)
     else start_change (remove_begin cfg (select_signout H token) (sy_values S)) S)"
| "session_exec H cfg (OpRevokeDevice key) S = start_change (remove_begin cfg (select_device key) (sy_values S)) S"
| "session_exec H cfg (OpRevokeOthers token written) S = replace_all (session_replace cfg (next_others H token) written (sy_values S) (sy_file S)) S"
| "session_exec H cfg (OpRevokeAll written) S = replace_all (session_replace cfg next_all written (sy_values S) (sy_file S)) S"
| "session_exec H cfg (OpPersist i written) S = (None, persist_step i written S)"
| "session_exec H cfg (OpUndo i) S = (None, undo_step i S)"

section \<open>Rolling back\<close>

text \<open>
  A change can be undone when nothing else has happened since; states that hold the same are \<open>same\<close>.
  Then any number of started changes can be undone from the last to the first.
\<close>

locale reversible =
  fixes same :: "'s \<Rightarrow> 's \<Rightarrow> bool"
    and start :: "'op \<Rightarrow> 's \<Rightarrow> ('c \<times> 's) option"
    and revert :: "'c \<Rightarrow> 's \<Rightarrow> 's"
  assumes same_refl: "same s s"
    and same_trans: "same s t \<Longrightarrow> same t u \<Longrightarrow> same s u"
    and revert_same: "same s t \<Longrightarrow> same (revert c s) (revert c t)"
    and revert_start: "start x s = Some (c, t) \<Longrightarrow> same (revert c t) s"
begin

fun start_all :: "'op list \<Rightarrow> 's \<Rightarrow> 'c list \<times> 's" where
  "start_all [] s = ([], s)"
| "start_all (x # xs) s = (case start x s of
     None \<Rightarrow> start_all xs s
   | Some (c, t) \<Rightarrow> (case start_all xs t of (cs, u) \<Rightarrow> (c # cs, u)))"

lemma rollback: "start_all xs s = (cs, t) \<Longrightarrow> same (foldr revert cs t) s"
proof (induction xs arbitrary: s cs)
  case Nil
  then show ?case by (simp add: same_refl)
next
  case (Cons x xs)
  show ?case
  proof (cases "start x s")
    case None
    with Cons show ?thesis by simp
  next
    case (Some ct)
    obtain c u where ct: "ct = (c, u)" by (cases ct)
    obtain ds where ds: "start_all xs u = (ds, t)" "cs = c # ds"
      using Cons.prems Some ct by (auto split: prod.splits)
    have "same (foldr revert ds t) u" by (rule Cons.IH) (rule ds)
    then have "same (revert c (foldr revert ds t)) (revert c u)" by (rule revert_same)
    moreover have "same (revert c u) s" using revert_start Some ct by simp
    ultimately show ?thesis by (simp add: ds same_trans)
  qed
qed

end

definition same_map :: "('k, 'v) gomap \<Rightarrow> ('k, 'v) gomap \<Rightarrow> bool" where
  "same_map m n \<longleftrightarrow> map_of m = map_of n"

text \<open>The calls that change the table and can be undone, with their configuration.\<close>

definition session_begin :: "(string \<Rightarrow> string) \<Rightarrow> session_config \<times> session_op \<Rightarrow> session_map \<Rightarrow> (session_change \<times> session_map) option" where
  "session_begin H co values = (let cfg = fst co; started = (\<lambda>r. case r of Inl _ \<Rightarrow> None | Inr x \<Rightarrow> Some x) in
     (case snd co of
        OpCreate token pid name browser strong channel revision deviceKey \<Rightarrow>
          started (create_begin H cfg token pid name browser strong channel revision deviceKey values)
      | OpMarkStrong token \<Rightarrow> started (mark_begin H cfg token values)
      | OpSignOut token \<Rightarrow> started (remove_begin cfg (select_signout H token) values)
      | OpRevokeDevice key \<Rightarrow> started (remove_begin cfg (select_device key) values)
      | _ \<Rightarrow> None))"

lemma fold_apply_remove:
  assumes "fold apply_remove keys (ch, v) = (ch', v')"
    and "mwf (ch_removed ch)" "\<forall>k. map_of (ch_removed ch) k \<noteq> None \<longrightarrow> map_of v k = None"
  shows "mwf (ch_removed ch') \<and> ch_set ch' = ch_set ch
    \<and> (\<forall>k. (case map_of v' k of Some s \<Rightarrow> Some s | None \<Rightarrow> map_of (ch_removed ch') k) =
           (case map_of v k of Some s \<Rightarrow> Some s | None \<Rightarrow> map_of (ch_removed ch) k))"
  using assms
proof (induction keys arbitrary: ch v)
  case Nil
  then show ?case by auto
next
  case (Cons key keys)
  show ?case
  proof (cases "map_of v key")
    case None
    with Cons.prems(1) have "fold apply_remove keys (ch, v) = (ch', v')" by (simp add: apply_remove_def)
    from Cons.IH [OF this Cons.prems(2,3)] show ?thesis .
  next
    case (Some s)
    let ?ch = "ch\<lparr>ch_removed := mput key s (ch_removed ch)\<rparr>"
    have step: "fold apply_remove keys (?ch, mdel key v) = (ch', v')"
      using Cons.prems(1) Some by (simp add: apply_remove_def)
    have wf: "mwf (ch_removed ?ch)" "\<forall>k. map_of (ch_removed ?ch) k \<noteq> None \<longrightarrow> map_of (mdel key v) k = None"
      using Cons.prems(2,3) by auto
    have "(case map_of (mdel key v) k of Some s \<Rightarrow> Some s | None \<Rightarrow> map_of (ch_removed ?ch) k) =
        (case map_of v k of Some s \<Rightarrow> Some s | None \<Rightarrow> map_of (ch_removed ch) k)" for k
      using Some by (auto split: option.splits)
    with Cons.IH [OF step wf] show ?thesis by simp
  qed
qed

lemma fold_undo_removed:
  "mwf r \<Longrightarrow> map_of (fold undo_removed r v) k = (case map_of v k of Some s \<Rightarrow> Some s | None \<Rightarrow> map_of r k)"
proof (induction r arbitrary: v)
  case Nil
  then show ?case by (simp split: option.splits)
next
  case (Cons x r)
  obtain a s where x: "x = (a, s)" by (cases x)
  with Cons.prems have r: "mwf r" "map_of r a = None" by simp_all
  show ?case
  proof (cases "map_of v a")
    case None
    then have "map_of (fold undo_removed (x # r) v) k = map_of (fold undo_removed r (mput a s v)) k"
      by (simp add: x undo_removed_def)
    also have "\<dots> = (case map_of (mput a s v) k of Some s \<Rightarrow> Some s | None \<Rightarrow> map_of r k)" by (rule Cons.IH [OF r(1)])
    finally show ?thesis using None by (auto simp: x split: option.splits)
  next
    case (Some t)
    then have "map_of (fold undo_removed (x # r) v) k = map_of (fold undo_removed r v) k" by (simp add: x undo_removed_def)
    also have "\<dots> = (case map_of v k of Some s \<Rightarrow> Some s | None \<Rightarrow> map_of r k)" by (rule Cons.IH [OF r(1)])
    finally show ?thesis using Some by (auto simp: x split: option.splits)
  qed
qed

lemma undo_one_set: "map_of (session_undo (fst (applySessionChange v [(k, s)] [])) (snd (applySessionChange v [(k, s)] []))) = map_of v"
  by (cases "map_of v k") (auto simp: session_undo_def applySessionChange_def apply_set_def undo_set_def fun_eq_iff mget0_def)

lemma undo_removes:
  assumes "applySessionChange v [] keys = (ch, v')"
  shows "map_of (session_undo ch v') = map_of v"
proof -
  let ?e = "\<lparr>ch_set = [], ch_before = [], ch_removed = [], ch_existed = []\<rparr>"
  have "fold apply_remove keys (?e, v) = (ch, v')" using assms by (simp add: applySessionChange_def)
  from fold_apply_remove [OF this] have "mwf (ch_removed ch)" "ch_set ch = []"
    "(case map_of v' k of Some s \<Rightarrow> Some s | None \<Rightarrow> map_of (ch_removed ch) k) = map_of v k" for k
    by (simp_all split: option.splits)
  then show ?thesis by (simp add: session_undo_def fold_undo_removed fun_eq_iff)
qed

lemma undo_set_same: "map_of v = map_of w \<Longrightarrow> map_of (undo_set ch x v) = map_of (undo_set ch x w)"
  by (cases x) (simp add: undo_set_def)

lemma undo_removed_same: "map_of v = map_of w \<Longrightarrow> map_of (undo_removed x v) = map_of (undo_removed x w)"
  by (cases x) (simp add: undo_removed_def)

lemma fold_same:
  assumes f: "\<And>x v w. map_of v = map_of w \<Longrightarrow> map_of (f x v) = map_of (f x w)"
  shows "map_of v = map_of w \<Longrightarrow> map_of (fold f xs v) = map_of (fold f xs w)"
proof (induction xs arbitrary: v w)
  case (Cons x xs)
  show ?case unfolding fold_simps by (rule Cons.IH, rule f, rule Cons.prems)
qed simp

lemma undo_same: "map_of v = map_of w \<Longrightarrow> map_of (session_undo ch v) = map_of (session_undo ch w)"
  unfolding session_undo_def by (intro fold_same undo_set_same undo_removed_same)

text \<open>Every change comes from one call of \<open>applySessionChange\<close>, with one new value or with keys to remove.\<close>

lemma create_begin_change:
  assumes "create_begin H cfg token pid name browser strong channel revision deviceKey v = Inr (ch, v')"
  obtains p where "applySessionChange v [(H token, new_session cfg p name browser strong channel deviceKey)] [] = (ch, v')"
    "findSessionProfile (sc_Profiles cfg) pid = Some p" "\<not> sp_Disabled p" "\<not> sp_Deleted p"
    "validateSessionAuthority p channel revision deviceKey = None" "ValidSessionToken token"
    "channel \<in> {'''', ''compatibility'', ''public''}"
    "channel = ''public'' \<longrightarrow> (case TimeoutsFor cfg (zero_session\<lparr>ss_Channel := ''public''\<rparr>) of (inactive, absolute) \<Rightarrow>
        activePublic v pid (time_unix (sc_Now cfg)) inactive absolute < publicSessionLimit)"
proof -
  have c: "channel \<in> {'''', ''compatibility'', ''public''}"
    and pre: "prepareSession H cfg token pid name browser strong channel revision deviceKey v = Inr (ch, v')"
    using assms unfolding create_begin_def by (simp_all split: if_splits)
  obtain p where p: "findSessionProfile (sc_Profiles cfg) pid = Some p" "\<not> sp_Disabled p" "\<not> sp_Deleted p"
    using pre unfolding prepareSession_def by (cases "findSessionProfile (sc_Profiles cfg) pid") (simp_all split: if_splits)
  obtain inactive absolute where t: "TimeoutsFor cfg (zero_session\<lparr>ss_Channel := ''public''\<rparr>) = (inactive, absolute)" by fastforce
  have v: "validateSessionAuthority p channel revision deviceKey = None"
    using pre p unfolding prepareSession_def by (cases "validateSessionAuthority p channel revision deviceKey") simp_all
  show ?thesis
    by (rule that [OF _ p v _ c]) (use pre p v t in \<open>simp_all add: prepareSession_def not_le split: if_splits\<close>)
qed

lemma mark_begin_change:
  assumes "mark_begin H cfg token v = Inr (ch, v')"
  obtains s where "applySessionChange v [(H token, s\<lparr>ss_StrongAt := time_unix (sc_Now cfg)\<rparr>)] [] = (ch, v')" "map_of v (H token) = Some s"
  using assms by (simp add: mark_begin_def split: if_splits option.splits)

lemma remove_begin_change:
  assumes "remove_begin cfg sel v = Inr (ch, v')"
  obtains keys where "applySessionChange v [] keys = (ch, v')"
  using assms by (simp add: remove_begin_def split: if_splits sum.splits)

lemma session_begin_change:
  assumes "session_begin H co v = Some (ch, v')"
  obtains (one) k s where "applySessionChange v [(k, s)] [] = (ch, v')" | (more) keys where "applySessionChange v [] keys = (ch, v')"
proof -
  have removes: ?thesis if r: "(case remove_begin (fst co) sel v of Inl _ \<Rightarrow> None | Inr x \<Rightarrow> Some x) = Some (ch, v')" for sel
  proof (cases "remove_begin (fst co) sel v")
    case (Inr x)
    with r have "remove_begin (fst co) sel v = Inr (ch, v')" by simp
    then show ?thesis by (rule remove_begin_change) (rule more)
  qed (use r in simp)
  show ?thesis
  proof (cases "snd co")
    case (OpCreate token pid name browser strong channel revision deviceKey)
    with assms have "create_begin H (fst co) token pid name browser strong channel revision deviceKey v = Inr (ch, v')"
      by (simp add: session_begin_def Let_def split: sum.splits)
    then show ?thesis by (rule create_begin_change) (rule one)
  next
    case (OpMarkStrong token)
    with assms have "mark_begin H (fst co) token v = Inr (ch, v')" by (simp add: session_begin_def Let_def split: sum.splits)
    then show ?thesis by (rule mark_begin_change) (rule one)
  qed (use assms removes in \<open>simp_all add: session_begin_def Let_def\<close>)
qed

interpretation session_changes: reversible same_map "session_begin H" session_undo
proof
  fix s t u :: session_map and c x
  show "same_map s s" by (simp add: same_map_def)
  show "same_map s t \<Longrightarrow> same_map t u \<Longrightarrow> same_map s u" by (simp add: same_map_def)
  show "same_map s t \<Longrightarrow> same_map (session_undo c s) (session_undo c t)" unfolding same_map_def by (rule undo_same)
  show "session_begin H x s = Some (c, t) \<Longrightarrow> same_map (session_undo c t) s"
  proof (erule session_begin_change)
    fix k y
    assume "applySessionChange s [(k, y)] [] = (c, t)"
    with undo_one_set [of s k y] show ?thesis by (simp add: same_map_def)
  next
    fix keys
    assume "applySessionChange s [] keys = (c, t)"
    then show ?thesis by (simp add: same_map_def undo_removes)
  qed
qed

text \<open>The same list of started changes, as a function of its own.\<close>

fun start_changes :: "(string \<Rightarrow> string) \<Rightarrow> (session_config \<times> session_op) list \<Rightarrow> session_map \<Rightarrow> session_change list \<times> session_map" where
  "start_changes H [] values = ([], values)"
| "start_changes H (co # rest) values = (case session_begin H co values of
     None \<Rightarrow> start_changes H rest values
   | Some (ch, values') \<Rightarrow> (case start_changes H rest values' of (chs, w) \<Rightarrow> (ch # chs, w)))"

lemma start_changes_eq: "start_changes H cops v = session_changes.start_all H cops v"
  by (induction cops arbitrary: v) (simp_all split: option.splits prod.splits)

section \<open>What the table holds\<close>

definition session_ok :: "session \<Rightarrow> bool" where
  "session_ok s \<longleftrightarrow> ss_Channel s \<in> {'''', ''compatibility'', ''public''}
     \<and> (ss_ManagementDevice s \<noteq> '''' \<longrightarrow> validManagementKey (ss_ManagementDevice s) \<and> ss_Channel s = '''')
     \<and> (\<not> ss_Browser s \<longrightarrow> ss_InactiveSeconds s = 0) \<and> length (ss_Name s) \<le> 80"

definition table_ok :: "session_map \<Rightarrow> bool" where
  "table_ok m \<longleftrightarrow> (\<forall>(k, s) \<in> set m. session_ok s)"

definition change_ok :: "session_change \<Rightarrow> bool" where
  "change_ok ch \<longleftrightarrow> table_ok (ch_set ch) \<and> table_ok (ch_before ch) \<and> table_ok (ch_removed ch)"

definition system_ok :: "sessions_system \<Rightarrow> bool" where
  "system_ok S \<longleftrightarrow> table_ok (sy_values S) \<and> table_ok (sy_file S) \<and> list_all (\<lambda>(ch, _). change_ok ch) (sy_flight S)"

lemma clean_name_length: "length (CleanDeviceName raw) \<le> 80"
  by (simp add: CleanDeviceName_def Let_def split: option.splits prod.splits)

lemma zero_session_ok: "session_ok zero_session"
  by (simp add: session_ok_def zero_session_def)

lemma new_session_ok:
  assumes "channel \<in> {'''', ''compatibility'', ''public''}" "validateSessionAuthority p channel revision deviceKey = None"
  shows "session_ok (new_session cfg p name browser strong channel deviceKey)"
  using assms
  by (auto simp: session_ok_def new_session_def Let_def clean_name_length browserInactiveSeconds_def validateSessionAuthority_def
      validManagementSession_def split: if_splits)

lemma table_ok_Nil [simp]: "table_ok []"
  by (simp add: table_ok_def)

lemma table_ok_Cons [simp]: "table_ok ((k, s) # m) \<longleftrightarrow> session_ok s \<and> table_ok m"
  by (simp add: table_ok_def)

lemma table_ok_mput: "table_ok m \<Longrightarrow> session_ok s \<Longrightarrow> table_ok (mput k s m)"
  unfolding table_ok_def by (induction m) (auto split: if_splits)

lemma table_ok_mdel: "table_ok m \<Longrightarrow> table_ok (mdel k m)"
  unfolding table_ok_def by (auto simp: AList.delete_eq)

lemma table_ok_get: "table_ok m \<Longrightarrow> map_of m k = Some s \<Longrightarrow> session_ok s"
  unfolding table_ok_def by (auto dest: map_of_SomeD)

lemma table_ok_get0: "table_ok m \<Longrightarrow> session_ok (mget0 zero_session m k)"
  by (auto simp: mget0_def zero_session_ok dest: table_ok_get split: option.splits)

lemmas table_ok_intros = table_ok_mput table_ok_mdel table_ok_get0 table_ok_Nil

lemma apply_remove_ok: "fold apply_remove keys (ch, v) = (ch', v') \<Longrightarrow> change_ok ch \<Longrightarrow> table_ok v \<Longrightarrow> change_ok ch' \<and> table_ok v'"
proof (induction keys arbitrary: ch v)
  case (Cons key keys)
  show ?case
  proof (cases "map_of v key")
    case None
    with Cons show ?thesis by (simp add: apply_remove_def)
  next
    case (Some s)
    with Cons.prems(2,3) have "change_ok (ch\<lparr>ch_removed := mput key s (ch_removed ch)\<rparr>)" "table_ok (mdel key v)"
      by (simp_all add: change_ok_def table_ok_mput table_ok_mdel table_ok_get)
    with Some Cons.prems(1) show ?thesis by (intro Cons.IH) (simp_all add: apply_remove_def)
  qed
qed simp

lemma apply_change_ok:
  assumes "applySessionChange v sets keys = (ch, v')" "table_ok v" "sets = [] \<or> (\<exists>k s. sets = [(k, s)] \<and> session_ok s)"
  shows "change_ok ch \<and> table_ok v'"
proof -
  obtain c w where cw: "fold apply_set sets (\<lparr>ch_set = sets, ch_before = [], ch_removed = [], ch_existed = []\<rparr>, v) = (c, w)"
    by fastforce
  have "change_ok c \<and> table_ok w"
    using assms(3)
  proof (elim disjE exE conjE)
    assume "sets = []"
    with cw assms(2) show ?thesis by (auto simp: change_ok_def)
  next
    fix k s
    assume s: "sets = [(k, s)]" "session_ok s"
    then have "table_ok [(k, s)]" by (simp add: table_ok_def)
    with cw s assms(2) show ?thesis
      using table_ok_mput [of v s k] table_ok_mput [of "[]" "mget0 zero_session v k" k] table_ok_get0 [of v k]
      by (auto simp: apply_set_def change_ok_def)
  qed
  then show ?thesis using apply_remove_ok [of keys c w ch v'] assms(1) by (simp add: applySessionChange_def cw)
qed

lemma undo_ok:
  assumes ch: "change_ok ch" and v: "table_ok v"
  shows "table_ok (session_undo ch v)"
proof -
  have one: "table_ok (undo_set ch x v)" if "table_ok v" for x v
    using that ch by (cases x) (simp add: undo_set_def change_ok_def table_ok_intros)
  have sets: "table_ok (fold (undo_set ch) xs v)" if "table_ok v" for xs v
    using that by (induction xs arbitrary: v) (simp_all add: one)
  have two: "table_ok (undo_removed x v)" if "table_ok v" "table_ok (x # xs)" for x xs v
    using that by (cases x) (simp add: undo_removed_def table_ok_mput)
  have "table_ok (fold undo_removed xs v)" if "table_ok v" "table_ok xs" for xs v
    using that
  proof (induction xs arbitrary: v)
    case (Cons x xs)
    have "table_ok xs" using Cons.prems(2) by (simp add: table_ok_def)
    then show ?case using Cons.IH [OF two [OF Cons.prems]] by simp
  qed simp
  with sets [OF v] show ?thesis using ch by (simp add: session_undo_def change_ok_def)
qed

lemma begin_ok:
  assumes "session_begin H co v = Some (ch, v')" "table_ok v"
  shows "change_ok ch \<and> table_ok v'"
proof -
  have create: ?thesis if "create_begin H cfg token pid name browser strong channel revision deviceKey v = Inr (ch, v')"
    for cfg token pid name browser strong channel revision deviceKey
    using that
  proof (rule create_begin_change)
    fix p
    assume a: "applySessionChange v [(H token, new_session cfg p name browser strong channel deviceKey)] [] = (ch, v')"
      "validateSessionAuthority p channel revision deviceKey = None" "channel \<in> {'''', ''compatibility'', ''public''}"
    show ?thesis by (rule apply_change_ok [OF a(1) assms(2)]) (use new_session_ok [OF a(3,2)] in auto)
  qed
  have mark: ?thesis if "mark_begin H cfg token v = Inr (ch, v')" for cfg token
    using that
  proof (rule mark_begin_change)
    fix s
    assume a: "applySessionChange v [(H token, s\<lparr>ss_StrongAt := time_unix (sc_Now cfg)\<rparr>)] [] = (ch, v')" "map_of v (H token) = Some s"
    have "session_ok s" by (rule table_ok_get [OF assms(2) a(2)])
    then have "session_ok (s\<lparr>ss_StrongAt := time_unix (sc_Now cfg)\<rparr>)" by (simp add: session_ok_def)
    then show ?thesis using apply_change_ok [OF a(1) assms(2)] by blast
  qed
  have rem: ?thesis if "remove_begin cfg sel v = Inr (ch, v')" for cfg sel
    using that by (rule remove_begin_change) (rule apply_change_ok [OF _ assms(2)], assumption, simp)
  from assms(1) show ?thesis
    by (cases "snd co") (auto simp: session_begin_def Let_def dest: create mark rem split: sum.splits)
qed

text \<open>Each call either starts a change as \<open>session_begin\<close> does, or fails and changes nothing.\<close>

definition starts_change :: "session_op \<Rightarrow> bool" where
  "starts_change op = (case op of
     OpCreate _ _ _ _ _ _ _ _ \<Rightarrow> True | OpMarkStrong _ \<Rightarrow> True | OpSignOut token \<Rightarrow> token \<noteq> '''' | OpRevokeDevice _ \<Rightarrow> True | _ \<Rightarrow> False)"

lemma exec_start:
  assumes "starts_change op"
  shows "session_exec H cfg op S = (case session_begin H (cfg, op) (sy_values S) of
     None \<Rightarrow> (fst (session_exec H cfg op S), S)
   | Some (ch, v) \<Rightarrow> (None, S\<lparr>sy_values := v, sy_flight := sy_flight S @ (if change_empty ch then [] else [(ch, False)])\<rparr>))"
  using assms by (cases op) (auto simp: starts_change_def session_begin_def start_change_def Let_def split: sum.splits)

text \<open>No write of the operation leaves the file and the table apart.\<close>

definition op_written :: "session_op \<Rightarrow> bool" where
  "op_written op = (case op of OpPersist _ written \<Rightarrow> written = Written
     | OpRevokeOthers _ written \<Rightarrow> written \<noteq> Replaced | OpRevokeAll written \<Rightarrow> written \<noteq> Replaced | _ \<Rightarrow> True)"

lemma replace_all_cases:
  "snd (replace_all (session_replace cfg next' written (sy_values S) (sy_file S)) S) = S
   \<or> (\<exists>v u. snd (replace_all (session_replace cfg next' written (sy_values S) (sy_file S)) S) = S\<lparr>sy_values := u, sy_file := v\<rparr>
        \<and> u \<in> (if written \<noteq> Replaced then {v} else {v, sy_values S}) \<and> next' (sy_values S) = Inr v)"
proof (cases "next' (sy_values S)")
  case (Inr v)
  then show ?thesis
    by (cases written) (auto simp: replace_all_def session_replace_def intro: exI [of _ v] exI [of _ "sy_values S"])
qed (simp add: replace_all_def session_replace_def)

lemma next_others_cases: "next_others H token values = Inr v \<Longrightarrow> \<exists>k s. map_of values k = Some s \<and> v = [(k, s)]"
  by (auto simp: next_others_def split: option.splits)

lemma exec_other:
  assumes "\<not> starts_change op"
  shows "snd (session_exec H cfg op S) = S \<or> (\<exists>v u. snd (session_exec H cfg op S) = S\<lparr>sy_values := u, sy_file := v\<rparr>
      \<and> u \<in> (if op_written op then {v} else {v, sy_values S})
      \<and> (v = [] \<or> (\<exists>k s. map_of (sy_values S) k = Some s \<and> v = [(k, s)])))
    \<or> (\<exists>i w. op = OpPersist i w) \<or> (\<exists>i. op = OpUndo i)"
proof (cases op)
  case (OpRevokeOthers token written)
  show ?thesis using replace_all_cases [of cfg "next_others H token" written S]
  proof (elim disjE exE conjE)
    fix v u
    assume "snd (replace_all (session_replace cfg (next_others H token) written (sy_values S) (sy_file S)) S) = S\<lparr>sy_values := u, sy_file := v\<rparr>"
      "u \<in> (if written \<noteq> Replaced then {v} else {v, sy_values S})" "next_others H token (sy_values S) = Inr v"
    then show ?thesis using next_others_cases by (intro disjI2 disjI1 exI [of _ v] exI [of _ u]) (simp add: OpRevokeOthers op_written_def)
  qed (simp add: OpRevokeOthers)
next
  case (OpRevokeAll written)
  show ?thesis using replace_all_cases [of cfg next_all written S]
  proof (elim disjE exE conjE)
    fix v u
    assume "snd (replace_all (session_replace cfg next_all written (sy_values S) (sy_file S)) S) = S\<lparr>sy_values := u, sy_file := v\<rparr>"
      "u \<in> (if written \<noteq> Replaced then {v} else {v, sy_values S})" "next_all (sy_values S) = Inr v"
    then show ?thesis by (intro disjI2 disjI1 exI [of _ v] exI [of _ u]) (simp add: OpRevokeAll op_written_def next_all_def)
  qed (simp add: OpRevokeAll)
qed (use assms in \<open>auto simp: starts_change_def\<close>)

lemma list_all_take_drop: "list_all P xs \<Longrightarrow> list_all P (take i xs @ drop j xs)"
  by (auto simp: list_all_iff dest: in_set_takeD in_set_dropD)

lemma list_all_update: "list_all P xs \<Longrightarrow> P y \<Longrightarrow> list_all P (xs[i := y])"
  by (auto simp: list_all_iff dest!: set_update_subset_insert [THEN subsetD])

lemma list_all_nth: "list_all P xs \<Longrightarrow> i < length xs \<Longrightarrow> P (xs ! i)"
  by (simp add: list_all_iff)

lemma system_ok_exec:
  assumes S: "system_ok S"
  shows "system_ok (snd (session_exec H cfg op S))"
proof (cases "starts_change op")
  case True
  show ?thesis
  proof (cases "session_begin H (cfg, op) (sy_values S)")
    case None
    with S show ?thesis by (subst exec_start [OF True]) simp
  next
    case (Some cv)
    obtain ch v where cv: "cv = (ch, v)" by (cases cv)
    with Some S have "change_ok ch \<and> table_ok v" using begin_ok [of H "(cfg, op)" "sy_values S" ch v] by (simp add: system_ok_def)
    with Some cv S show ?thesis by (subst exec_start [OF True]) (simp add: system_ok_def)
  qed
next
  case False
  from exec_other [OF False, of H cfg S] show ?thesis
  proof (elim disjE exE conjE)
    assume "snd (session_exec H cfg op S) = S"
    with S show ?thesis by simp
  next
    fix v u
    assume "snd (session_exec H cfg op S) = S\<lparr>sy_values := u, sy_file := v\<rparr>" "u \<in> (if op_written op then {v} else {v, sy_values S})" "v = []"
    with S show ?thesis by (auto simp: system_ok_def split: if_splits)
  next
    fix v u k s
    assume v: "snd (session_exec H cfg op S) = S\<lparr>sy_values := u, sy_file := v\<rparr>" "u \<in> (if op_written op then {v} else {v, sy_values S})" "map_of (sy_values S) k = Some s" "v = [(k, s)]"
    with S have "session_ok s" by (intro table_ok_get [of "sy_values S" k s]) (simp_all add: system_ok_def)
    with v S show ?thesis by (auto simp: system_ok_def split: if_splits)
  next
    fix i w
    assume op: "op = OpPersist i w"
    let ?Q = "\<lambda>(ch, _). change_ok ch"
    have flight: "list_all ?Q (sy_flight S)" using S by (simp add: system_ok_def)
    have "list_all ?Q ((sy_flight S)[i := (fst (sy_flight S ! i), True)])" if "i < length (sy_flight S)"
      using list_all_nth [OF flight that] by (intro list_all_update flight) (simp add: case_prod_beta)
    with S show ?thesis unfolding op
      by - (cases w; simp add: persist_step_def drop_flight_def system_ok_def list_all_take_drop del: list_all_append)
  next
    fix i
    assume op: "op = OpUndo i"
    show ?thesis
    proof (cases "i < length (sy_flight S) \<and> snd (sy_flight S ! i)")
      case True
      have "list_all (\<lambda>(ch, _). change_ok ch) (sy_flight S)" using S by (simp add: system_ok_def)
      from list_all_nth [OF this, of i] True have "change_ok (fst (sy_flight S ! i))" by (simp add: case_prod_beta)
      with S True show ?thesis unfolding op
        by (simp add: undo_step_def drop_flight_def system_ok_def list_all_take_drop undo_ok del: list_all_append)
    next
      case False
      with S op show ?thesis by (auto simp: undo_step_def)
    qed
  qed
qed

section \<open>Runs\<close>

definition session_run :: "(string \<Rightarrow> string) \<Rightarrow> (session_config \<times> session_op) list \<Rightarrow> sessions_system \<Rightarrow> sessions_system" where
  "session_run H ops S = fold (\<lambda>(cfg, op) S. snd (session_exec H cfg op S)) ops S"

lemma session_run_Nil [simp]: "session_run H [] S = S"
  by (simp add: session_run_def)

lemma session_run_Cons [simp]: "session_run H ((cfg, op) # ops) S = session_run H ops (snd (session_exec H cfg op S))"
  by (simp add: session_run_def)

lemma system_ok_run: "system_ok S \<Longrightarrow> system_ok (session_run H ops S)"
  by (induction ops arbitrary: S) (auto simp: system_ok_exec)

definition settled :: "sessions_system \<Rightarrow> bool" where
  "settled S \<longleftrightarrow> list_all (\<lambda>(_, failed). \<not> failed) (sy_flight S) \<and> (sy_flight S = [] \<longrightarrow> same_map (sy_file S) (sy_values S))"

lemma empty_change_same:
  assumes "session_begin H co v = Some (ch, v')" "change_empty ch"
  shows "map_of v' = map_of v"
proof -
  have empty: "ch_set ch = []" "ch_removed ch = []" using assms(2) by (simp_all add: change_empty_def)
  have "same_map (session_undo ch v') v" using session_changes.revert_start [OF assms(1)] .
  with empty show ?thesis by (simp add: session_undo_def same_map_def)
qed

lemma settled_exec:
  assumes S: "settled S" and w: "op_written op"
  shows "settled (snd (session_exec H cfg op S))"
proof (cases "starts_change op")
  case True
  show ?thesis
  proof (cases "session_begin H (cfg, op) (sy_values S)")
    case None
    with S show ?thesis by (subst exec_start [OF True]) simp
  next
    case (Some cv)
    obtain ch v where cv: "cv = (ch, v)" by (cases cv)
    have "map_of v = map_of (sy_values S)" if "change_empty ch" using empty_change_same Some that cv by blast
    with Some cv S show ?thesis by (subst exec_start [OF True]) (auto simp: settled_def same_map_def)
  qed
next
  case False
  from exec_other [OF False, of H cfg S] show ?thesis
  proof (elim disjE exE conjE)
    fix i x
    assume "op = OpPersist i x"
    with S w show ?thesis
      by (simp add: op_written_def persist_step_def drop_flight_def settled_def list_all_take_drop same_map_def del: list_all_append)
  next
    fix i
    assume op: "op = OpUndo i"
    have "\<not> snd (sy_flight S ! i)" if "i < length (sy_flight S)"
      using list_all_nth [OF _ that, of "\<lambda>(_, failed). \<not> failed"] S by (simp add: settled_def case_prod_beta)
    then show ?thesis using S op by (auto simp: undo_step_def)
  qed (use S w in \<open>auto simp: settled_def same_map_def\<close>)
qed

lemma settled_run: "settled S \<Longrightarrow> list_all (\<lambda>(_, op). op_written op) ops \<Longrightarrow> settled (session_run H ops S)"
  by (induction ops arbitrary: S) (auto simp: settled_exec)

section \<open>The limit on public sessions\<close>

abbreviation activity :: "string \<Rightarrow> int \<Rightarrow> duration \<Rightarrow> duration \<Rightarrow> session \<Rightarrow> bool" where
  "activity pid now inactive absolute s \<equiv> ss_ProfileID s = pid \<and> ss_Channel s = ''public'' \<and> \<not> SessionExpired s now inactive absolute"

definition tally :: "('v \<Rightarrow> bool) \<Rightarrow> ('k, 'v) gomap \<Rightarrow> nat" where
  "tally P m = length (filter (\<lambda>(_, s). P s) m)"

lemma activePublic_tally: "activePublic m pid now i a = tally (activity pid now i a) m"
  by (simp add: activePublic_def tally_def)

lemma tally_mput:
  "mwf m \<Longrightarrow> tally P (mput k s m) + (case map_of m k of Some t \<Rightarrow> if P t then 1 else 0 | None \<Rightarrow> 0) = tally P m + (if P s then 1 else 0)"
proof (induction m)
  case (Cons x m)
  then show ?case by (cases x) (auto simp: tally_def split: option.splits)
qed (simp add: tally_def)

lemma tally_mput_le: "mwf m \<Longrightarrow> tally P (mput k s m) \<le> Suc (tally P m)"
  using tally_mput [of m P k s] by (auto split: if_splits)

lemma tally_mdel: "tally P (mdel k m) \<le> tally P m"
  by (induction m) (auto simp: tally_def)

lemma tally_mono: "(\<And>s. P s \<Longrightarrow> Q s) \<Longrightarrow> tally P m \<le> tally Q m"
  by (induction m) (auto simp: tally_def)

lemma SessionExpired_mono: "SessionExpired s t i a \<Longrightarrow> t \<le> u \<Longrightarrow> SessionExpired s u i a"
  by (auto simp: SessionExpired_def Let_def split: if_splits)

lemma SessionExpired_strong [simp]: "SessionExpired (s\<lparr>ss_StrongAt := x\<rparr>) t i a = SessionExpired s t i a"
  by (simp add: SessionExpired_def Let_def)

text \<open>In flight is either one new value, which replaced nothing but an earlier mark of itself, or keys removed.\<close>

definition change_shape :: "session_change \<Rightarrow> bool" where
  "change_shape ch \<longleftrightarrow> ch_set ch = [] \<or> ch_removed ch = [] \<and> (\<exists>k s. ch_set ch = [(k, s)]
     \<and> (mget0 False (ch_existed ch) k \<longrightarrow> (\<exists>x. mget0 zero_session (ch_before ch) k = s\<lparr>ss_StrongAt := x\<rparr>)))"

lemma undo_tally:
  assumes "change_shape ch" "mwf v" and P: "\<And>s x. P (s\<lparr>ss_StrongAt := x\<rparr>) = P s"
  shows "mwf (session_undo ch v) \<and> tally P (session_undo ch v) \<le> tally P v + length (ch_removed ch)"
proof -
  have add: "mwf (fold undo_removed r w) \<and> tally P (fold undo_removed r w) \<le> tally P w + length r" if "mwf w" for r w
    using that
  proof (induction r arbitrary: w)
    case (Cons x r)
    have "mwf (undo_removed x w)" "tally P (undo_removed x w) \<le> Suc (tally P w)"
      using Cons.prems tally_mput_le [of w P "fst x" "snd x"] by (cases x; simp add: undo_removed_def)+
    with Cons.IH [of "undo_removed x w"] show ?case by auto
  qed simp
  from assms(1) show ?thesis unfolding change_shape_def
  proof (elim disjE exE conjE)
    assume "ch_set ch = []"
    with add [OF assms(2), of "ch_removed ch"] show ?thesis by (simp add: session_undo_def)
  next
    fix k s
    assume ch: "ch_set ch = [(k, s)]" "ch_removed ch = []"
      "mget0 False (ch_existed ch) k \<longrightarrow> (\<exists>x. mget0 zero_session (ch_before ch) k = s\<lparr>ss_StrongAt := x\<rparr>)"
    have "mwf (undo_set ch (k, s) v) \<and> tally P (undo_set ch (k, s) v) \<le> tally P v"
    proof (cases "map_of v k = Some s \<and> mget0 False (ch_existed ch) k")
      case True
      with ch(3) obtain x where x: "mget0 zero_session (ch_before ch) k = s\<lparr>ss_StrongAt := x\<rparr>" by blast
      with True tally_mput [OF assms(2), of P k "s\<lparr>ss_StrongAt := x\<rparr>"] assms(2) show ?thesis by (simp add: undo_set_def P)
    next
      case False
      with assms(2) tally_mdel [of P k v] show ?thesis by (auto simp: undo_set_def)
    qed
    with ch show ?thesis by (simp add: session_undo_def)
  qed
qed

definition op_fresh :: "(string \<Rightarrow> string) \<Rightarrow> session_op \<Rightarrow> sessions_system \<Rightarrow> bool" where
  "op_fresh H op S = (case op of OpCreate token _ _ _ _ _ _ _ \<Rightarrow> map_of (sy_values S) (H token) = None | _ \<Rightarrow> True)"

text \<open>How many removed sessions a step puts back because their removal could not be written.\<close>

definition restored :: "session_op \<Rightarrow> sessions_system \<Rightarrow> nat" where
  "restored op S = (case op of
     OpUndo i \<Rightarrow> if i < length (sy_flight S) \<and> snd (sy_flight S ! i) then length (ch_removed (fst (sy_flight S ! i))) else 0
   | _ \<Rightarrow> 0)"

text \<open>
  Runs with fixed timeouts of public sessions, a clock that does not go back, and new tokens that are not in use.
  The numbers are the time in seconds and how many removed sessions have been put back.
\<close>

inductive public_run :: "(string \<Rightarrow> string) \<Rightarrow> duration \<Rightarrow> duration \<Rightarrow> int \<Rightarrow> nat \<Rightarrow> sessions_system \<Rightarrow> bool"
  for H :: "string \<Rightarrow> string" and i a :: duration
where
  start: "public_run H i a t 0 \<lparr>sy_values = [], sy_file = [], sy_flight = []\<rparr>"
| step: "public_run H i a t n S \<Longrightarrow> t \<le> time_unix (sc_Now cfg) \<Longrightarrow> TimeoutsFor cfg (zero_session\<lparr>ss_Channel := ''public''\<rparr>) = (i, a)
    \<Longrightarrow> op_fresh H op S \<Longrightarrow> public_run H i a (time_unix (sc_Now cfg)) (n + restored op S) (snd (session_exec H cfg op S))"

lemma apply_one: "applySessionChange v [(k, s)] [] =
  (\<lparr>ch_set = [(k, s)], ch_before = [(k, mget0 zero_session v k)], ch_removed = [], ch_existed = [(k, map_of v k \<noteq> None)]\<rparr>, mput k s v)"
  by (simp add: applySessionChange_def apply_set_def)

lemma remove_tally:
  "fold apply_remove keys (ch, v) = (ch', v') \<Longrightarrow> mwf v \<Longrightarrow> mwf v' \<and> tally P v' \<le> tally P v \<and> ch_set ch' = ch_set ch"
proof (induction keys arbitrary: ch v)
  case (Cons key keys)
  show ?case
  proof (cases "map_of v key")
    case None
    with Cons show ?thesis by (simp add: apply_remove_def)
  next
    case (Some s)
    then have "fold apply_remove keys (ch\<lparr>ch_removed := mput key s (ch_removed ch)\<rparr>, mdel key v) = (ch', v')"
      using Cons.prems(1) by (simp add: apply_remove_def)
    from Cons.IH [OF this] Cons.prems(2) tally_mdel [of P key v] show ?thesis by auto
  qed
qed simp

lemma strong_self: "\<exists>x. s = s\<lparr>ss_StrongAt := x\<rparr>"
  by (rule exI [of _ "ss_StrongAt s"]) simp

lemma begin_tally:
  assumes b: "session_begin H (cfg, op) v = Some (ch, v')" and wf: "mwf v"
    and fresh: "op_fresh H op S" "sy_values S = v"
    and t: "TimeoutsFor cfg (zero_session\<lparr>ss_Channel := ''public''\<rparr>) = (i, a)"
  shows "change_shape ch \<and> mwf v' \<and> tally (activity p (time_unix (sc_Now cfg)) i a) v' \<le> max (tally (activity p (time_unix (sc_Now cfg)) i a) v) publicSessionLimit"
    (is "_ \<and> _ \<and> tally ?P v' \<le> _")
proof -
  have rem: ?thesis if "remove_begin cfg sel v = Inr (ch, v')" for sel
    using that
  proof (rule remove_begin_change)
    fix keys
    assume "applySessionChange v [] keys = (ch, v')"
    then have "fold apply_remove keys (\<lparr>ch_set = [], ch_before = [], ch_removed = [], ch_existed = []\<rparr>, v) = (ch, v')"
      by (simp add: applySessionChange_def)
    from remove_tally [OF this wf, of ?P] show ?thesis by (auto simp: change_shape_def le_max_iff_disj)
  qed
  have mark: ?thesis if "mark_begin H cfg token v = Inr (ch, v')" for token
    using that
  proof (rule mark_begin_change)
    fix s
    assume "applySessionChange v [(H token, s\<lparr>ss_StrongAt := time_unix (sc_Now cfg)\<rparr>)] [] = (ch, v')" "map_of v (H token) = Some s"
    then show ?thesis
      using tally_mput [OF wf, of ?P "H token" "s\<lparr>ss_StrongAt := time_unix (sc_Now cfg)\<rparr>"] wf
      by (auto simp: apply_one change_shape_def mget0_def strong_self)
  qed
  show ?thesis
  proof (cases op)
    case (OpCreate token pid name browser strong channel revision deviceKey)
    with b have "create_begin H cfg token pid name browser strong channel revision deviceKey v = Inr (ch, v')"
      by (simp add: session_begin_def Let_def split: sum.splits)
    then show ?thesis
    proof (rule create_begin_change)
      fix q
      let ?s = "new_session cfg q name browser strong channel deviceKey"
      assume q: "applySessionChange v [(H token, ?s)] [] = (ch, v')" "findSessionProfile (sc_Profiles cfg) pid = Some q"
        "channel = ''public'' \<longrightarrow> (case TimeoutsFor cfg (zero_session\<lparr>ss_Channel := ''public''\<rparr>) of (inactive, absolute) \<Rightarrow>
          activePublic v pid (time_unix (sc_Now cfg)) inactive absolute < publicSessionLimit)"
      have new: "map_of v (H token) = None" using fresh OpCreate by (simp add: op_fresh_def)
      have "sp_ID q = pid" using q(2) by (auto simp: findSessionProfile_def find_Some_iff)
      then have "tally ?P v < publicSessionLimit" if "?P ?s"
        using that q(3) t by (simp add: new_session_def Let_def activePublic_tally)
      then show ?thesis using tally_mput [OF wf, of ?P "H token" ?s] new q(1) wf
        by (auto simp: apply_one change_shape_def mget0_def)
    qed
  next
    case (OpMarkStrong token)
    with b mark show ?thesis by (simp add: session_begin_def Let_def split: sum.splits)
  next
    case (OpSignOut token)
    with b rem show ?thesis by (simp add: session_begin_def Let_def split: sum.splits)
  next
    case (OpRevokeDevice key)
    with b rem show ?thesis by (simp add: session_begin_def Let_def split: sum.splits)
  qed (use b in \<open>simp_all add: session_begin_def\<close>)
qed

definition public_inv :: "duration \<Rightarrow> duration \<Rightarrow> int \<Rightarrow> nat \<Rightarrow> sessions_system \<Rightarrow> bool" where
  "public_inv i a t n S \<longleftrightarrow> mwf (sy_values S) \<and> list_all (\<lambda>(ch, _). change_shape ch) (sy_flight S)
     \<and> (\<forall>p. tally (activity p t i a) (sy_values S) \<le> publicSessionLimit + n)"

lemma public_inv_later: "public_inv i a t n S \<Longrightarrow> t \<le> u \<Longrightarrow> public_inv i a u n S"
proof -
  assume S: "public_inv i a t n S" and tu: "t \<le> u"
  have "tally (activity p u i a) (sy_values S) \<le> tally (activity p t i a) (sy_values S)" for p
    by (rule tally_mono) (use SessionExpired_mono tu in blast)
  with S show ?thesis unfolding public_inv_def by (blast intro: order_trans)
qed

lemma public_inv_exec:
  assumes S: "public_inv i a (time_unix (sc_Now cfg)) n S" and fresh: "op_fresh H op S"
    and t: "TimeoutsFor cfg (zero_session\<lparr>ss_Channel := ''public''\<rparr>) = (i, a)"
  shows "public_inv i a (time_unix (sc_Now cfg)) (n + restored op S) (snd (session_exec H cfg op S))"
proof (cases "starts_change op")
  case True
  then have [simp]: "restored op S = 0" by (simp add: starts_change_def restored_def split: session_op.splits)
  show ?thesis
  proof (cases "session_begin H (cfg, op) (sy_values S)")
    case None
    with S show ?thesis by (subst exec_start [OF True]) simp
  next
    case (Some cv)
    obtain ch v where cv: "cv = (ch, v)" by (cases cv)
    have "mwf (sy_values S)" using S by (simp add: public_inv_def)
    note b = begin_tally [OF Some [unfolded cv] this fresh refl t]
    have "tally (activity p (time_unix (sc_Now cfg)) i a) v \<le> publicSessionLimit + n" for p
      using b [of p] S by (auto simp: public_inv_def max_def split: if_splits intro: order_trans)
    with b S Some cv show ?thesis by (subst exec_start [OF True]) (simp add: public_inv_def)
  qed
next
  case False
  from exec_other [OF False, of H cfg S] show ?thesis
  proof (elim disjE exE conjE)
    assume "snd (session_exec H cfg op S) = S"
    with S show ?thesis by (auto simp: public_inv_def intro: trans_le_add1 order_trans)
  next
    fix v u
    assume "snd (session_exec H cfg op S) = S\<lparr>sy_values := u, sy_file := v\<rparr>" "u \<in> (if op_written op then {v} else {v, sy_values S})" "v = []"
    with S show ?thesis by (auto simp: public_inv_def tally_def intro: order_trans [OF _ add_left_mono [OF le_add1]] split: if_splits)
  next
    fix v u k s
    assume v: "snd (session_exec H cfg op S) = S\<lparr>sy_values := u, sy_file := v\<rparr>" "u \<in> (if op_written op then {v} else {v, sy_values S})" "v = [(k, s)]"
    have "tally P [(k, s)] \<le> publicSessionLimit" for P by (simp add: tally_def publicSessionLimit_def)
    with v S show ?thesis by (auto simp: public_inv_def trans_le_add1 intro: order_trans [OF _ add_left_mono [OF le_add1]] split: if_splits)
  next
    fix j w
    assume op: "op = OpPersist j w"
    let ?Q = "\<lambda>(ch, _). change_shape ch"
    have flight: "list_all ?Q (sy_flight S)" using S by (simp add: public_inv_def)
    have "list_all ?Q ((sy_flight S)[j := (fst (sy_flight S ! j), True)])" if "j < length (sy_flight S)"
      using list_all_nth [OF flight that] by (intro list_all_update flight) (simp add: case_prod_beta)
    with S show ?thesis unfolding op
      by - (cases w; simp add: restored_def persist_step_def drop_flight_def public_inv_def list_all_take_drop del: list_all_append)
  next
    fix j
    assume op: "op = OpUndo j"
    show ?thesis
    proof (cases "j < length (sy_flight S) \<and> snd (sy_flight S ! j)")
      case True
      let ?ch = "fst (sy_flight S ! j)"
      have flight: "list_all (\<lambda>(ch, _). change_shape ch) (sy_flight S)" and wf: "mwf (sy_values S)" using S by (simp_all add: public_inv_def)
      from list_all_nth [OF flight, of j] True have shape: "change_shape ?ch" by (simp add: case_prod_beta)
      have "mwf (session_undo ?ch (sy_values S)) \<and> tally (activity p (time_unix (sc_Now cfg)) i a) (session_undo ?ch (sy_values S))
          \<le> tally (activity p (time_unix (sc_Now cfg)) i a) (sy_values S) + length (ch_removed ?ch)" for p
        by (rule undo_tally [OF shape wf]) simp
      then have u: "mwf (session_undo ?ch (sy_values S))"
        "tally (activity p (time_unix (sc_Now cfg)) i a) (session_undo ?ch (sy_values S)) \<le> publicSessionLimit + (n + length (ch_removed ?ch))" for p
        using S by (auto simp: public_inv_def intro: order_trans [of _ "tally (activity p (time_unix (sc_Now cfg)) i a) (sy_values S) + length (ch_removed ?ch)"])
      with True flight show ?thesis unfolding op
        by (simp add: restored_def undo_step_def drop_flight_def public_inv_def list_all_take_drop del: list_all_append)
    next
      case False
      with S op show ?thesis by (auto simp: undo_step_def restored_def)
    qed
  qed
qed

lemma public_run_inv: "public_run H i a t n S \<Longrightarrow> public_inv i a t n S"
proof (induction rule: public_run.induct)
  case (start t)
  show ?case by (simp add: public_inv_def tally_def)
next
  case (step t n S cfg op)
  show ?case by (rule public_inv_exec [OF public_inv_later [OF step.IH step.hyps(2)] step.hyps(4,3)])
qed

section \<open>Limiting a session\<close>

lemma secs_bounds: "second \<le> d \<Longrightarrow> d \<le> max_i64 \<Longrightarrow> 1 \<le> secs d \<and> secs d \<le> 2 ^ 61"
proof -
  assume d: "second \<le> d" "d \<le> max_i64"
  then have "1 \<le> d div second" using zdiv_mono1 [of second d second] by (simp add: second_def)
  moreover have "d div second \<le> 2 ^ 61" using zdiv_mono1 [OF d(2), of second] by (simp add: second_def max_i64_def)
  ultimately show ?thesis using d by (simp add: secs_nonneg second_def)
qed

definition small :: "int \<Rightarrow> bool" where
  "small x \<longleftrightarrow> \<bar>x\<bar> \<le> 2 ^ 61"

lemma small_add: "small x \<Longrightarrow> second \<le> d \<Longrightarrow> d \<le> max_i64 \<Longrightarrow> i64 (x + secs d) = x + secs d"
  using secs_bounds [of d] by (intro i64_id) (auto simp: small_def min_i64_def max_i64_def)

lemma small_add': "small x \<Longrightarrow> 0 \<le> y \<Longrightarrow> y \<le> 2 ^ 61 \<Longrightarrow> i64 (x + y) = x + y"
  by (intro i64_id) (auto simp: small_def min_i64_def max_i64_def)

text \<open>The seconds a browser session may be idle.\<close>

definition idle :: "session \<Rightarrow> duration \<Rightarrow> int" where
  "idle s d = (if ss_InactiveSeconds s > 0 then min (secs d) (ss_InactiveSeconds s) else secs d)"

lemma expired_browser:
  assumes "ss_Browser s" "small (ss_LastSeen s)" "small (ss_CreatedAt s)" "second \<le> i" "i \<le> max_i64" "second \<le> a" "a \<le> max_i64"
  shows "SessionExpired s t i a \<longleftrightarrow> ss_ExpiresAt s \<le> t \<or> ss_LastSeen s + idle s i \<le> t \<or> ss_CreatedAt s + secs a \<le> t"
proof -
  have "0 \<le> idle s i" "idle s i \<le> 2 ^ 61" using secs_bounds [OF assms(4,5)] by (auto simp: idle_def min_def)
  then have "i64 (ss_LastSeen s + idle s i) = ss_LastSeen s + idle s i" by (rule small_add' [OF assms(2)])
  moreover have "i64 (ss_CreatedAt s + secs a) = ss_CreatedAt s + secs a" by (rule small_add [OF assms(3,6,7)])
  ultimately show ?thesis using assms(1) unfolding SessionExpired_def Let_def idle_def by simp
qed

lemma min_add_dist: "c + min x y = min (c + x) (c + (y::int))"
  by (simp add: min_def)

section \<open>Properties\<close>

text \<open>C20. Whatever calls are interleaved, with writes that succeed or fail in any way, everything in the table, in the
  file and in the undo records is a well-formed session: a known channel, a management device only with a canonical
  32-byte key and never on another channel, an idle limit only in browsers, a name of at most 80 bytes.\<close>

theorem sessions_well_formed:
  assumes "system_ok S"
  shows "system_ok (session_run H ops S)"
  using assms by (rule system_ok_run)

definition demo_profile :: session_profile where
  "demo_profile = \<lparr>sp_ID = ''viewer'', sp_Name = ''Ann'', sp_Owner = False, sp_Remote = True, sp_Secured = True,
     sp_Disabled = False, sp_Deleted = False, sp_Revision = 3\<rparr>"

definition demo_config :: session_config where
  "demo_config = \<lparr>sc_Valid = True, sc_Profiles = [demo_profile], sc_Timeouts = Some (DefaultSessionInactive, DefaultSessionAbsolute),
     sc_PublicTimeouts = None, sc_PublicLifetime = None, sc_Now = from_unix 1000\<rparr>"

definition demo_create :: session_op where
  "demo_create = OpCreate ''tok'' ''viewer'' ''TV'' False True ''public'' (Some 3) ''''"

definition no_sessions :: sessions_system where
  "no_sessions = \<lparr>sy_values = [], sy_file = [], sy_flight = []\<rparr>"

lemma demo_created:
  "create_begin H demo_config ''tok'' ''viewer'' ''TV'' False True ''public'' (Some 3) '''' [] =
     Inr (applySessionChange [] [(H ''tok'', new_session demo_config demo_profile ''TV'' False True ''public'' '''')] [])"
proof -
  have "ValidSessionToken ''tok''" by code_simp
  moreover have "findSessionProfile (sc_Profiles demo_config) ''viewer'' = Some demo_profile"
    by (simp add: findSessionProfile_def demo_config_def demo_profile_def)
  moreover have "\<not> sp_Disabled demo_profile" "\<not> sp_Deleted demo_profile" "validateSessionAuthority demo_profile ''public'' (Some 3) '''' = None"
    by (simp_all add: demo_profile_def validateSessionAuthority_def)
  moreover have "activePublic [] ''viewer'' t i a = 0" for t i a by (simp add: activePublic_def)
  moreover have "sc_Valid demo_config" by (simp add: demo_config_def)
  ultimately show ?thesis
    by (cases "TimeoutsFor demo_config (zero_session\<lparr>ss_Channel := ''public''\<rparr>)") (simp add: create_begin_def prepareSession_def publicSessionLimit_def)
qed

lemma sessions_well_formed_witness:
  "system_ok (session_run (\<lambda>t. t) [(demo_config, demo_create), (demo_config, OpPersist 0 Refused), (demo_config, OpUndo 0)] no_sessions)"
  by (rule sessions_well_formed) (simp add: system_ok_def no_sessions_def)

text \<open>C21. A session that is created belongs to a profile that exists and is enabled, at the revision the grant was made
  for.  A public one is never an owner's, its profile is remote and secured and has fewer than ten public sessions;
  one bound to a management device is of a secured owner.  The table changes at the key of the new token only, and
  the session is expired at every moment from its lifetime on.\<close>

theorem session_create_authority:
  assumes "create_begin H cfg token pid name browser strong channel revision deviceKey values = Inr (ch, values')"
  shows "\<exists>p \<in> set (sc_Profiles cfg). sp_ID p = pid \<and> \<not> sp_Disabled p \<and> \<not> sp_Deleted p \<and> revision \<in> {None, Some (sp_Revision p)}
    \<and> (channel = ''public'' \<longrightarrow> \<not> sp_Owner p \<and> sp_Remote p \<and> sp_Secured p
         \<and> (case TimeoutsFor cfg (zero_session\<lparr>ss_Channel := ''public''\<rparr>) of (i, a) \<Rightarrow> activePublic values pid (time_unix (sc_Now cfg)) i a < 10))
    \<and> (deviceKey \<noteq> '''' \<longrightarrow> sp_Owner p \<and> sp_Secured p \<and> channel = '''' \<and> validManagementKey deviceKey)
    \<and> ValidSessionToken token
    \<and> map_of values' = (map_of values)(H token \<mapsto> new_session cfg p name browser strong channel deviceKey)
    \<and> (\<forall>t i a. time_unix (sc_Now cfg + session_lifetime cfg browser channel) \<le> t \<longrightarrow>
         SessionExpired (new_session cfg p name browser strong channel deviceKey) t i a)"
  using assms
proof (rule create_begin_change)
  fix p
  assume p: "applySessionChange values [(H token, new_session cfg p name browser strong channel deviceKey)] [] = (ch, values')"
    "findSessionProfile (sc_Profiles cfg) pid = Some p" "\<not> sp_Disabled p" "\<not> sp_Deleted p"
    "validateSessionAuthority p channel revision deviceKey = None" "ValidSessionToken token"
    "channel = ''public'' \<longrightarrow> (case TimeoutsFor cfg (zero_session\<lparr>ss_Channel := ''public''\<rparr>) of (inactive, absolute) \<Rightarrow>
        activePublic values pid (time_unix (sc_Now cfg)) inactive absolute < publicSessionLimit)"
  have "p \<in> set (sc_Profiles cfg)" "sp_ID p = pid" using p(2) by (auto simp: findSessionProfile_def find_Some_iff)
  moreover have "revision \<in> {None, Some (sp_Revision p)}" using p(5) by (cases revision) (auto simp: validateSessionAuthority_def split: if_splits)
  moreover have "channel = ''public'' \<longrightarrow> \<not> sp_Owner p \<and> sp_Remote p \<and> sp_Secured p"
    "deviceKey \<noteq> '''' \<longrightarrow> sp_Owner p \<and> sp_Secured p \<and> channel = '''' \<and> validManagementKey deviceKey"
    using p(5) by (auto simp: validateSessionAuthority_def validManagementSession_def split: if_splits)
  moreover have "map_of values' = (map_of values)(H token \<mapsto> new_session cfg p name browser strong channel deviceKey)"
    using p(1) by (auto simp: apply_one)
  moreover have "SessionExpired (new_session cfg p name browser strong channel deviceKey) t i a"
    if "time_unix (sc_Now cfg + session_lifetime cfg browser channel) \<le> t" for t i a
    using that by (simp add: SessionExpired_def new_session_def Let_def)
  ultimately show ?thesis using p(3,4,6,7) by (intro bexI [of _ p] conjI) (simp_all add: publicSessionLimit_def)
qed

lemma session_create_authority_witness:
  "\<exists>p \<in> set (sc_Profiles demo_config). sp_ID p = ''viewer'' \<and> \<not> sp_Owner p \<and> sp_Secured p
     \<and> ss_ProfileID (the (map_of (snd (projr (create_begin (\<lambda>t. t) demo_config ''tok'' ''viewer'' ''TV'' False True ''public'' (Some 3) '''' []))) ''tok'')) = ''viewer''"
proof -
  let ?r = "create_begin (\<lambda>t. t) demo_config ''tok'' ''viewer'' ''TV'' False True ''public'' (Some 3) '''' []"
  have "\<not> isl ?r" unfolding demo_created by simp
  then have "?r = Inr (fst (projr ?r), snd (projr ?r))" by (cases ?r) simp_all
  from session_create_authority [OF this] show ?thesis by (auto simp: new_session_def Let_def)
qed

text \<open>C22. A profile never has more than ten public sessions that are not expired, in any interleaving of the calls,
  except for sessions whose removal could not be written and that were put back.\<close>

theorem sessions_public_limit:
  assumes "public_run H inactive absolute now put_back S"
  shows "activePublic (sy_values S) pid now inactive absolute \<le> publicSessionLimit + put_back"
  using public_run_inv [OF assms] by (simp add: public_inv_def activePublic_tally)

lemma sessions_public_limit_witness:
  "activePublic (sy_values (snd (session_exec (\<lambda>t. t) demo_config demo_create no_sessions))) ''viewer'' 1000 DefaultSessionInactive DefaultSessionAbsolute
     \<le> publicSessionLimit + 0"
proof -
  have "public_run (\<lambda>t. t) DefaultSessionInactive DefaultSessionAbsolute 0 0 no_sessions" unfolding no_sessions_def by (rule start)
  from step [OF this, of demo_config demo_create]
  have "public_run (\<lambda>t. t) DefaultSessionInactive DefaultSessionAbsolute 1000 0 (snd (session_exec (\<lambda>t. t) demo_config demo_create no_sessions))"
    by (simp add: demo_config_def demo_create_def TimeoutsFor_def SessionTimeouts_def op_fresh_def restored_def no_sessions_def)
  then show ?thesis by (rule sessions_public_limit)
qed

text \<open>C23. A call whose write fails has no effect: any number of calls that have changed the table, undone from the last to
  the first, leave the table as it was before the first of them.\<close>

theorem sessions_rollback:
  "map_of (foldr session_undo (fst (start_changes H calls values)) (snd (start_changes H calls values))) = map_of values"
proof -
  obtain chs w where "start_changes H calls values = (chs, w)" by fastforce
  then show ?thesis using session_changes.rollback [of H calls "values" chs w] by (simp add: start_changes_eq same_map_def)
qed

text \<open>C24. Nothing is lost on disk: as long as no write fails, whenever no call is in progress the file holds exactly the
  table, however the calls and their writes were interleaved.\<close>

theorem sessions_durable:
  assumes "settled S" "list_all (\<lambda>(_, op). op_written op) ops" "sy_flight (session_run H ops S) = []"
  shows "map_of (sy_file (session_run H ops S)) = map_of (sy_values (session_run H ops S))"
  using settled_run [OF assms(1,2), of H] assms(3) by (simp add: settled_def same_map_def)

lemma sessions_durable_witness:
  "map_of (sy_file (session_run (\<lambda>t. t) [(demo_config, demo_create), (demo_config, OpPersist 0 Written)] no_sessions)) =
     map_of (sy_values (session_run (\<lambda>t. t) [(demo_config, demo_create), (demo_config, OpPersist 0 Written)] no_sessions))"
proof (rule sessions_durable)
  show "settled no_sessions" by (simp add: settled_def no_sessions_def same_map_def)
  show "list_all (\<lambda>(_, op). op_written op) [(demo_config, demo_create), (demo_config, OpPersist 0 Written)]"
    by (simp add: op_written_def demo_create_def)
  show "sy_flight (session_run (\<lambda>t. t) [(demo_config, demo_create), (demo_config, OpPersist 0 Written)] no_sessions) = []"
    by (simp add: demo_create_def no_sessions_def demo_created start_change_def apply_one change_empty_def persist_step_def drop_flight_def)
qed

text \<open>When the settings change, \<open>LimitSession\<close> makes of a browser session exactly the one that is expired, under the new
  timeouts, whenever the old session is expired under the old or under the new ones: shorter timeouts take effect at
  once and longer ones never revive or extend a session.\<close>

theorem limit_session_exact:
  assumes "ss_Browser s" "small (ss_LastSeen s)" "small (ss_CreatedAt s)"
    and "second \<le> oldInactive" "oldInactive \<le> max_i64" "second \<le> oldAbsolute" "oldAbsolute \<le> max_i64"
    and "second \<le> inactive" "inactive \<le> max_i64" "second \<le> absolute" "absolute \<le> max_i64"
    and "LimitSession s now oldInactive oldAbsolute inactive absolute = (s', alive)"
    and "\<not> SessionExpired s now oldInactive oldAbsolute"
  shows "(SessionExpired s' t inactive absolute \<longleftrightarrow> SessionExpired s t oldInactive oldAbsolute \<or> SessionExpired s t inactive absolute)
    \<and> (alive \<longleftrightarrow> \<not> SessionExpired s now inactive absolute)"
proof -
  let ?idle = "if ss_InactiveSeconds s > 0 then min (secs (min oldInactive inactive)) (ss_InactiveSeconds s) else secs (min oldInactive inactive)"
  have pos: "0 \<le> oldInactive" "0 \<le> inactive" "0 \<le> oldAbsolute" "0 \<le> absolute" using assms(4,6,8,10) by (simp_all add: second_def)
  have mins: "secs (min oldInactive inactive) = min (secs oldInactive) (secs inactive)"
    "secs (min oldAbsolute absolute) = min (secs oldAbsolute) (secs absolute)" using pos by (simp_all add: secs_min)
  have ones: "1 \<le> secs oldInactive" "1 \<le> secs inactive" using secs_bounds assms(4,5,8,9) by blast+
  have "i64 (ss_CreatedAt s + secs (min oldAbsolute absolute)) = ss_CreatedAt s + secs (min oldAbsolute absolute)"
    using assms(6,7,10,11) by (intro small_add [OF assms(3)]) (auto simp: min_def)
  then have s': "s' = s\<lparr>ss_InactiveSeconds := ?idle, ss_ExpiresAt := min (ss_ExpiresAt s) (ss_CreatedAt s + secs (min oldAbsolute absolute))\<rparr>"
    and alive: "alive \<longleftrightarrow> \<not> SessionExpired s' now inactive absolute"
    using assms(1,12,13) by (auto simp: LimitSession_def Let_def)
  have "0 < ?idle" using ones mins by auto
  then have idle: "idle s' inactive = min (idle s oldInactive) (idle s inactive)"
    using s' mins by (auto simp: idle_def min_def)
  have sel: "ss_Browser s'" "small (ss_LastSeen s')" "small (ss_CreatedAt s')" "ss_LastSeen s' = ss_LastSeen s" "ss_CreatedAt s' = ss_CreatedAt s"
    using s' assms(1-3) by simp_all
  have eq: "SessionExpired s' u inactive absolute \<longleftrightarrow> SessionExpired s u oldInactive oldAbsolute \<or> SessionExpired s u inactive absolute" for u
    unfolding expired_browser [OF sel(1,2,3) assms(8-11)] expired_browser [OF assms(1,2,3,8-11)] expired_browser [OF assms(1-7)] idle sel(4,5)
    using s' mins by (auto simp: min_le_iff_disj)
  then show ?thesis using alive eq [of now] assms(13) by simp
qed

lemma limit_session_exact_witness:
  "SessionExpired (fst (LimitSession (zero_session\<lparr>ss_Browser := True, ss_ExpiresAt := 5000, ss_CreatedAt := 100, ss_LastSeen := 100\<rparr>) 200
       (20 * minute) (8 * hour) (10 * minute) hour)) 800 (10 * minute) hour
     \<longleftrightarrow> SessionExpired (zero_session\<lparr>ss_Browser := True, ss_ExpiresAt := 5000, ss_CreatedAt := 100, ss_LastSeen := 100\<rparr>) 800 (20 * minute) (8 * hour)
       \<or> SessionExpired (zero_session\<lparr>ss_Browser := True, ss_ExpiresAt := 5000, ss_CreatedAt := 100, ss_LastSeen := 100\<rparr>) 800 (10 * minute) hour"
proof -
  let ?s = "zero_session\<lparr>ss_Browser := True, ss_ExpiresAt := 5000, ss_CreatedAt := 100, ss_LastSeen := 100\<rparr>"
  have alive: "\<not> SessionExpired ?s 200 (20 * minute) (8 * hour)" by code_simp
  have "LimitSession ?s 200 (20 * minute) (8 * hour) (10 * minute) hour =
      (fst (LimitSession ?s 200 (20 * minute) (8 * hour) (10 * minute) hour), snd (LimitSession ?s 200 (20 * minute) (8 * hour) (10 * minute) hour))"
    by simp
  from limit_session_exact [OF _ _ _ _ _ _ _ _ _ _ _ this alive] show ?thesis by (simp add: small_def duration_defs max_i64_def)
qed

text \<open>A session removed by a sign-out whose write fails comes back although all sessions were revoked, and their
  revocation written, in between.\<close>

lemma revoke_all_undone:
  assumes "map_of (sy_values S) (H token) = Some s" "sy_flight S = []" "token \<noteq> ''''" "sc_Valid cfg"
  shows "session_run H [(cfg, OpSignOut token), (cfg, OpPersist 0 Refused), (cfg, OpRevokeAll Written), (cfg, OpUndo 0)] S =
    S\<lparr>sy_values := [(H token, s)], sy_file := []\<rparr>"
  using assms
  by (simp add: start_change_def remove_begin_def select_signout_def applySessionChange_def apply_remove_def change_empty_def
      persist_step_def undo_step_def drop_flight_def replace_all_def session_replace_def next_all_def session_undo_def undo_removed_def)

end
