(* ===== verification/Runes.thy ===== *)
theory Runes
  imports Text
begin

text \<open>
  Strings as the runes Go reads from them: the segments of a string put together again, what trimming does to them, and
  strings that are valid UTF-8.  Nothing here models a file of the repository.
\<close>

section \<open>Segments of a string\<close>

lemma decode_short: "length bs < 2 \<Longrightarrow> decode2 bs = None" "length bs < 3 \<Longrightarrow> decode3 bs = None" "length bs < 4 \<Longrightarrow> decode4 bs = None"
  by (auto simp: decode2_def decode3_def decode4_def split: list.splits)

lemma decode2_take: "decode2 (take n bs) = (if n < 2 then None else decode2 bs)"
proof (cases "n < 2")
  case True
  then have "decode2 (take n bs) = None" by (intro decode_short) simp
  then show ?thesis using True by simp
next
  case False
  then obtain k where "n = Suc (Suc k)" by (metis add_2_eq_Suc le_Suc_ex not_less)
  then show ?thesis by (cases bs; cases "tl bs") (simp_all add: decode2_def)
qed

lemma decode3_take: "decode3 (take n bs) = (if n < 3 then None else decode3 bs)"
proof (cases "n < 3")
  case True
  then have "decode3 (take n bs) = None" by (intro decode_short) simp
  then show ?thesis using True by simp
next
  case False
  then have "n = Suc (Suc (Suc (n - 3)))" by simp
  then obtain k where "n = Suc (Suc (Suc k))" ..
  then show ?thesis by (cases bs; cases "tl bs"; cases "tl (tl bs)") (simp_all add: decode3_def)
qed

lemma decode4_take: "decode4 (take n bs) = (if n < 4 then None else decode4 bs)"
proof (cases "n < 4")
  case True
  then have "decode4 (take n bs) = None" by (intro decode_short) simp
  then show ?thesis using True by simp
next
  case False
  then have "n = Suc (Suc (Suc (Suc (n - 4))))" by simp
  then obtain k where "n = Suc (Suc (Suc (Suc k)))" ..
  then show ?thesis by (cases bs; cases "tl bs"; cases "tl (tl bs)"; cases "tl (tl (tl bs))") (simp_all add: decode4_def)
qed

lemma decode_widths: "decode2 bs = Some (r, w) \<Longrightarrow> w = 2" "decode3 bs = Some (r, w) \<Longrightarrow> w = 3" "decode4 bs = Some (r, w) \<Longrightarrow> w = 4"
  by (auto simp: decode2_def decode3_def decode4_def split: list.splits if_splits)

lemma decode_rune_prefix: "bs \<noteq> [] \<Longrightarrow> snd (decode_rune bs) \<le> n \<Longrightarrow> decode_rune (take n bs) = decode_rune bs"
proof -
  assume ne: "bs \<noteq> []" and n: "snd (decode_rune bs) \<le> n"
  then have "1 \<le> n" using decode_rune_width [of bs] by linarith
  with ne have hd: "hd (take n bs) = hd bs" by (cases bs; cases n) simp_all
  have w: "decode2 bs \<noteq> None \<Longrightarrow> \<not> hd bs < 0x80 \<Longrightarrow> 2 \<le> n"
    "decode2 bs = None \<Longrightarrow> decode3 bs \<noteq> None \<Longrightarrow> \<not> hd bs < 0x80 \<Longrightarrow> 3 \<le> n"
    "decode2 bs = None \<Longrightarrow> decode3 bs = None \<Longrightarrow> decode4 bs \<noteq> None \<Longrightarrow> \<not> hd bs < 0x80 \<Longrightarrow> 4 \<le> n"
    using n by (auto simp: decode_rune_def dest: decode_widths)
  show ?thesis
    unfolding decode_rune_def hd decode2_take decode3_take decode4_take
    using w by (auto split: option.splits)
qed

lemma decode_lengths: "decode2 bs = Some (r, w) \<Longrightarrow> w \<le> length bs" "decode3 bs = Some (r, w) \<Longrightarrow> w \<le> length bs" "decode4 bs = Some (r, w) \<Longrightarrow> w \<le> length bs"
  by (auto simp: decode2_def decode3_def decode4_def split: list.splits if_splits)

lemma decode_rune_bound: "bs \<noteq> [] \<Longrightarrow> snd (decode_rune bs) \<le> length bs"
proof -
  assume "bs \<noteq> []"
  then have "1 \<le> length bs" by (cases bs) auto
  then show ?thesis by (auto simp: decode_rune_def dest: decode_lengths split: option.splits)
qed

lemma segments_concat: "concat (map snd (rune_segments s)) = s"
proof (induction s rule: rune_segments.induct)
  case (2 c s)
  let ?r = "decode_rune (map byte (c # s))"
  have "1 \<le> snd ?r" by (rule decode_rune_width)
  then have "take (snd ?r) (c # s) @ drop (snd ?r - 1) s = c # s"
    by (cases "snd ?r") simp_all
  with 2 show ?case by (simp add: Let_def)
qed simp

lemma segments_suffix: "rune_segments s = xs @ ys \<Longrightarrow> rune_segments (concat (map snd ys)) = ys"
proof (induction xs arbitrary: s)
  case Nil
  then show ?case using segments_concat [of s] by simp
next
  case (Cons x xs)
  then show ?case by (cases s) (auto simp: Let_def)
qed

lemma segments_prefix: "rune_segments s = ys @ zs \<Longrightarrow> rune_segments (concat (map snd ys)) = ys"
proof (induction ys arbitrary: s)
  case (Cons y ys)
  then obtain c t where s: "s = c # t" by (cases s) auto
  let ?r = "decode_rune (map byte (c # t))" and ?rest = "concat (map snd ys)"
  have y: "y = (fst ?r, take (snd ?r) (c # t))" and rest: "rune_segments (drop (snd ?r - 1) t) = ys @ zs"
    using Cons.prems s by (simp_all add: Let_def)
  have w: "1 \<le> snd ?r" "snd ?r \<le> Suc (length t)"
    using decode_rune_width [of "map byte (c # t)"] decode_rune_bound [of "map byte (c # t)"] by simp_all
  have "drop (snd ?r - 1) t = concat (map snd (ys @ zs))" using segments_concat rest by metis
  then obtain u where u: "drop (snd ?r - 1) t = ?rest @ u" by simp
  have t: "c # t = take (snd ?r) (c # t) @ ?rest @ u"
    using w u by (cases "snd ?r") (simp_all add: u [symmetric])
  let ?n = "snd ?r + length ?rest"
  have "take ?n (c # t) = take (snd ?r) (c # t) @ ?rest"
    using w by (subst t) simp
  then have p: "map byte (take (snd ?r) (c # t) @ ?rest) = take ?n (map byte (c # t))"
    by (metis take_map)
  have d: "decode_rune (map byte (take (snd ?r) (c # t) @ ?rest)) = ?r"
    unfolding p by (rule decode_rune_prefix) simp_all
  obtain k where k: "snd ?r = Suc k" using w(1) by (cases "snd ?r") auto
  have "rune_segments (c # (take k t @ ?rest)) = (fst ?r, take (snd ?r) (c # (take k t @ ?rest))) # rune_segments (drop (snd ?r - 1) (take k t @ ?rest))"
    using d k by (simp add: Let_def)
  moreover have "drop (snd ?r - 1) (take k t @ ?rest) = ?rest" "take (snd ?r) (c # (take k t @ ?rest)) = take (snd ?r) (c # t)"
    using w k by simp_all
  ultimately show ?case using Cons.IH [OF rest] y k by simp
qed simp

lemma runes_segments: "runes s = map fst (rune_segments s)"
  unfolding runes_def
proof (induction s rule: rune_segments.induct)
  case (2 c s)
  have "map byte (drop n s) = drop n (map byte s)" for n by (simp add: drop_map)
  with 2 show ?case by (simp add: Let_def)
qed simp

lemma trim_segments:
  obtains xs zs where "rune_segments s = xs @ rune_segments (trim_space s) @ zs"
    "rune_segments (trim_space s) = [] \<or> \<not> is_space (fst (hd (rune_segments (trim_space s)))) \<and> \<not> is_space (fst (last (rune_segments (trim_space s))))"
proof -
  let ?sp = "\<lambda>(r, _ :: string). is_space r"
  let ?a = "dropWhile ?sp (rune_segments s)"
  let ?b = "rev (dropWhile ?sp (rev ?a))"
  obtain xs where xs: "rune_segments s = xs @ ?a" by (metis takeWhile_dropWhile_id)
  have "rev ?a = takeWhile ?sp (rev ?a) @ dropWhile ?sp (rev ?a)" by simp
  then have zs: "?a = ?b @ rev (takeWhile ?sp (rev ?a))" by (metis rev_append rev_rev_ident)
  have "rune_segments (concat (map snd ?a)) = ?a" by (rule segments_suffix [OF xs])
  then have "rune_segments (concat (map snd ?b)) = ?b" by (rule segments_prefix [OF trans [OF _ zs]])
  then have seg: "rune_segments (trim_space s) = ?b" by (simp add: trim_space_def Let_def)
  have l: "?b \<noteq> [] \<Longrightarrow> \<not> ?sp (last ?b)"
    by (metis (lifting) hd_dropWhile last_rev rev_is_Nil_conv)
  have h: "?b \<noteq> [] \<Longrightarrow> hd ?b = hd ?a" using zs by (metis hd_append2)
  have "?b \<noteq> [] \<Longrightarrow> \<not> ?sp (hd ?b)" unfolding h
    by (metis (lifting) dropWhile.simps(1) hd_dropWhile rev.simps(1))
  with l seg xs zs show ?thesis
    by (intro that [of xs "rev (takeWhile ?sp (rev ?a))"]) (auto simp: case_prod_beta)
qed

lemma trim_space_id:
  "rune_segments s = [] \<or> \<not> is_space (fst (hd (rune_segments s))) \<and> \<not> is_space (fst (last (rune_segments s))) \<Longrightarrow> trim_space s = s"
proof (cases "rune_segments s = []")
  case True
  then have "s = []" using segments_concat [of s] by simp
  then show ?thesis by (simp add: trim_space_def Let_def)
next
  case False
  assume "rune_segments s = [] \<or> \<not> is_space (fst (hd (rune_segments s))) \<and> \<not> is_space (fst (last (rune_segments s)))"
  with False have h: "dropWhile (\<lambda>(r, _). is_space r) (rune_segments s) = rune_segments s"
    and l: "dropWhile (\<lambda>(r, _). is_space r) (rev (rune_segments s)) = rev (rune_segments s)"
    by (auto simp: dropWhile_eq_self_iff case_prod_beta hd_rev)
  show ?thesis by (simp add: trim_space_def h l segments_concat Let_def)
qed

lemma trim_space_idem [simp]: "trim_space (trim_space s) = trim_space s"
  by (rule trim_segments [of s]) (rule trim_space_id)

lemma length_trim_space: "length (trim_space s) \<le> length s"
proof (rule trim_segments [of s])
  fix xs zs
  assume "rune_segments s = xs @ rune_segments (trim_space s) @ zs"
  then have "s = concat (map snd (xs @ rune_segments (trim_space s) @ zs))" using segments_concat by metis
  then have "length s = length (concat (map snd xs)) + length (trim_space s) + length (concat (map snd zs))"
    by (metis (no_types, lifting) add.assoc concat_append length_append map_append segments_concat)
  then show ?thesis by simp
qed


text \<open>Text of visible ASCII characters has nothing to trim.\<close>

lemma rune_segments_ascii: "list_all (\<lambda>c. byte c < 128) s \<Longrightarrow> rune_segments s = map (\<lambda>c. (byte c, [c])) s"
  by (induction s) (simp_all add: decode_rune_def Let_def)

lemma trim_space_visible: "list_all (\<lambda>c. 33 \<le> byte c \<and> byte c < 127) s \<Longrightarrow> trim_space s = s"
proof (rule trim_space_id)
  assume a: "list_all (\<lambda>c. 33 \<le> byte c \<and> byte c < 127) s"
  then have s: "rune_segments s = map (\<lambda>c. (byte c, [c])) s" by (intro rune_segments_ascii) (auto simp: list_all_iff)
  have "\<not> is_space (byte c)" if "c \<in> set s" for c using a that by (auto simp: list_all_iff is_space_def)
  then show "rune_segments s = [] \<or> \<not> is_space (fst (hd (rune_segments s))) \<and> \<not> is_space (fst (last (rune_segments s)))"
    unfolding s by (cases "s = []") (simp_all add: hd_map last_map)
qed

section \<open>Valid UTF-8\<close>

definition valid_utf8 :: "string \<Rightarrow> bool" where
  "valid_utf8 s \<longleftrightarrow> list_all (\<lambda>(r, bs). \<not> (r = 0xFFFD \<and> length bs = 1)) (rune_segments s)"

lemma valid_utf8_ascii: "list_all (\<lambda>c. byte c < 128) s \<Longrightarrow> valid_utf8 s"
  by (auto simp: valid_utf8_def rune_segments_ascii list_all_iff)

lemma valid_utf8_Nil [simp]: "valid_utf8 []"
  by (simp add: valid_utf8_def)

lemma valid_utf8_trim: "valid_utf8 s \<Longrightarrow> valid_utf8 (trim_space s)"
  unfolding valid_utf8_def by (rule trim_segments [of s]) (metis list_all_append)

lemma list_all_runes_trim: "list_all P (runes s) \<Longrightarrow> list_all P (runes (trim_space s))"
  unfolding runes_segments by (rule trim_segments [of s]) (metis list_all_append map_append)

end
