(* ===== verification/Scim.thy ===== *)
theory Scim
  imports Runes
begin

text \<open>
  The data of provisioned profiles: packages/scim/model.go (\<open>NormalizeProfileInput\<close>, \<open>scimString\<close>,
  \<open>SameUserName\<close>), \<open>normalizeEnterprise\<close> of scim_enterprise.go and \<open>ETagMatches\<close> of scim_resource.go.

  The user name profile of golang.org/x/text/secure/precis is not under src/: \<open>precis\<close> stands for
  \<open>UsernameCaseMapped.String\<close> and \<open>key\<close> for the key under which \<open>UsernameCaseMapped.Compare\<close> compares.
  What a lemma needs of them is a hypothesis of the lemma.
\<close>

section \<open>Provisioned data\<close>

record scim_name =
  sn_Formatted :: string
  sn_GivenName :: string
  sn_FamilyName :: string

record scim_email =
  em_Value :: string
  em_Type :: string
  em_Primary :: bool

record scim_manager =
  mg_Value :: string
  mg_Ref :: string
  mg_DisplayName :: string

record scim_enterprise =
  en_EmployeeNumber :: string
  en_CostCenter :: string
  en_Organization :: string
  en_Division :: string
  en_Department :: string
  en_Manager :: scim_manager

record profile_input =
  pi_UserName :: string
  pi_Name :: string
  pi_Formatted :: string
  pi_GivenName :: string
  pi_FamilyName :: string
  pi_ExternalID :: string
  pi_Emails :: "scim_email list"
  pi_Enterprise :: scim_enterprise
  pi_Active :: bool

datatype scim_error = ErrValidation | ErrProfileNotFound | ErrConflict | ErrPrecondition | ErrSetupRequired | ErrScimStorage

definition scimString :: "string \<Rightarrow> nat \<Rightarrow> bool \<Rightarrow> string option" where
  "scimString v maximum required =
     (if \<not> valid_utf8 v \<or> length v > maximum then None
      else if \<not> list_all (\<lambda>c. \<not> is_control c) (runes v) then None
      else let v' = trim_space v in if required \<and> v' = '''' then None else Some v')"

text \<open>The fields of a range over a map, in some order; a failure is a failure in every order.\<close>

definition normalizeEnterprise :: "scim_enterprise \<Rightarrow> scim_enterprise option" where
  "normalizeEnterprise e = Option.bind (scimString (en_EmployeeNumber e) 256 False) (\<lambda>employee.
     Option.bind (scimString (en_CostCenter e) 256 False) (\<lambda>cost.
     Option.bind (scimString (en_Organization e) 256 False) (\<lambda>organization.
     Option.bind (scimString (en_Division e) 256 False) (\<lambda>division.
     Option.bind (scimString (en_Department e) 256 False) (\<lambda>department.
     Option.bind (scimString (mg_Value (en_Manager e)) 256 False) (\<lambda>manager.
     Option.bind (scimString (mg_DisplayName (en_Manager e)) 256 False) (\<lambda>display.
     Option.bind (scimString (mg_Ref (en_Manager e)) 2048 False) (\<lambda>ref.
       Some \<lparr>en_EmployeeNumber = employee, en_CostCenter = cost, en_Organization = organization, en_Division = division,
         en_Department = department, en_Manager = \<lparr>mg_Value = manager, mg_Ref = ref, mg_DisplayName = display\<rparr>\<rparr>))))))))"

text \<open>The loop over the addresses; \<open>primary\<close> is whether one was primary before.\<close>

fun normalize_emails :: "bool \<Rightarrow> scim_email list \<Rightarrow> scim_email list option" where
  "normalize_emails primary [] = Some []"
| "normalize_emails primary (e # es) =
     Option.bind (scimString (em_Value e) 256 True) (\<lambda>v.
     Option.bind (scimString (em_Type e) 64 False) (\<lambda>t.
       if em_Primary e \<and> primary then None
       else Option.bind (normalize_emails (primary \<or> em_Primary e) es) (\<lambda>es'.
         Some (\<lparr>em_Value = v, em_Type = t, em_Primary = em_Primary e\<rparr> # es'))))"

definition NormalizeProfileInput :: "(string \<Rightarrow> string option) \<Rightarrow> profile_input \<Rightarrow> profile_input option" where
  "NormalizeProfileInput precis i = Option.bind (scimString (pi_UserName i) 256 True) (\<lambda>user.
     Option.bind (precis user) (\<lambda>prepared.
     Option.bind (scimString prepared 256 True) (\<lambda>user'.
     Option.bind (scimString (pi_Name i) 64 True) (\<lambda>name.
     Option.bind (scimString (pi_Formatted i) 256 False) (\<lambda>formatted.
     Option.bind (scimString (pi_GivenName i) 256 False) (\<lambda>given.
     Option.bind (scimString (pi_FamilyName i) 256 False) (\<lambda>family.
     Option.bind (scimString (pi_ExternalID i) 256 False) (\<lambda>external.
     Option.bind (normalizeEnterprise (pi_Enterprise i)) (\<lambda>enterprise.
       if length (pi_Emails i) > 16 then None
       else Option.bind (normalize_emails False (pi_Emails i)) (\<lambda>emails.
         Some \<lparr>pi_UserName = user', pi_Name = name, pi_Formatted = formatted, pi_GivenName = given, pi_FamilyName = family,
           pi_ExternalID = external, pi_Emails = emails, pi_Enterprise = enterprise, pi_Active = pi_Active i\<rparr>))))))))))"

definition SameUserName :: "(string \<Rightarrow> string option) \<Rightarrow> string \<Rightarrow> string \<Rightarrow> bool" where
  "SameUserName key left right \<longleftrightarrow> key left \<noteq> None \<and> key left = key right"

definition ETagMatches :: "string \<Rightarrow> string \<Rightarrow> bool" where
  "ETagMatches header current \<longleftrightarrow> header = ''*'' \<or> list_ex (\<lambda>candidate. trim_space candidate = current) (split_on CHR '','' header)"

section \<open>Normalized data stays as it is\<close>

lemma scimString_normal: "scimString v n r = Some v' \<Longrightarrow> scimString v' n r = Some v'"
  using length_trim_space [of v]
  by (auto simp: scimString_def Let_def valid_utf8_trim list_all_runes_trim split: if_splits)

lemma scimString_bounds:
  "scimString v n r = Some v' \<Longrightarrow> length v' \<le> n \<and> valid_utf8 v' \<and> trim_space v' = v' \<and> (r \<longrightarrow> v' \<noteq> '''')"
  using length_trim_space [of v] by (auto simp: scimString_def Let_def valid_utf8_trim split: if_splits)

lemma normalize_emails_normal: "normalize_emails p es = Some es' \<Longrightarrow> normalize_emails p es' = Some es' \<and> length es' = length es"
  by (induction p es arbitrary: es' rule: normalize_emails.induct)
    (auto simp: bind_eq_Some_conv scimString_normal split: if_splits)

lemma normalizeEnterprise_normal: "normalizeEnterprise e = Some e' \<Longrightarrow> normalizeEnterprise e' = Some e'"
  by (auto simp: normalizeEnterprise_def bind_eq_Some_conv scimString_normal)

text \<open>What a user name profile does by its specification: prepared names are prepared already and have no space around.\<close>

definition precis_stable :: "(string \<Rightarrow> string option) \<Rightarrow> bool" where
  "precis_stable precis \<longleftrightarrow> (\<forall>u v. precis u = Some v \<longrightarrow> precis v = Some v \<and> trim_space v = v)"

lemma NormalizeProfileInput_normal:
  assumes "precis_stable precis" "NormalizeProfileInput precis i = Some j"
  shows "NormalizeProfileInput precis j = Some j"
proof -
  from assms(2) obtain user prepared where u: "scimString (pi_UserName i) 256 True = Some user" "precis user = Some prepared"
    "scimString prepared 256 True = Some (pi_UserName j)"
    by (auto simp: NormalizeProfileInput_def bind_eq_Some_conv split: if_splits)
  have p: "precis prepared = Some prepared" "trim_space prepared = prepared" using assms(1) u(2) by (auto simp: precis_stable_def)
  then have j: "pi_UserName j = prepared" using u(3) by (auto simp: scimString_def Let_def split: if_splits)
  show ?thesis using assms(2) u p j
    by (cases j) (auto simp: NormalizeProfileInput_def bind_eq_Some_conv scimString_normal normalizeEnterprise_normal
        dest: normalize_emails_normal split: if_splits)
qed

end
