(* ===== verification/Access.thy ===== *)
theory Access
  imports Sessions Scim
begin

text \<open>
  Who may do what: packages/identitycore/access.go (the access policy and the scopes of API keys), profile.go
  (profiles and their viewing schedule), api_keys.go, access_use.go and access_token.go (what a token is worth now),
  access_persistence.go and management_session.go (requests bound to a management device).

  A request is what these files read of it (\<open>request_view\<close>).  Of a profile the fields the files use are kept; a list
  of passkeys is its length.  Writes of the stores are the list of operations that \<open>Persist\<close> was called with.
\<close>

section \<open>The access policy\<close>

datatype denial = Allowed | OwnerRemoteDenied | StrongAuthenticationRequired | PublicSessionRequired | RemoteRouteDenied
  | ViewerScheduleDenied | APIKeyScopeDenied | MFAEnrollmentRequired | OwnerRequired | OwnerStepUpRequired

record access_input =
  ai_Public :: bool
  ai_Owner :: bool
  ai_APIKey :: bool
  ai_RecentlyAuthenticated :: bool
  ai_PublicSession :: bool
  ai_RemoteRouteAllowed :: bool
  ai_ScheduleAllowed :: bool
  ai_APIKeyAllowed :: bool
  ai_LocalOwner :: bool
  ai_MFARequired :: bool
  ai_Secured :: bool
  ai_EnrollmentRoute :: bool

definition EvaluateAccess :: "access_input \<Rightarrow> denial" where
  "EvaluateAccess x =
     (if ai_Public x \<and> ai_Owner x then OwnerRemoteDenied
      else if ai_Public x \<and> ai_APIKey x then OwnerRemoteDenied
      else if ai_Public x \<and> \<not> ai_RecentlyAuthenticated x then StrongAuthenticationRequired
      else if ai_Public x \<and> \<not> ai_PublicSession x then PublicSessionRequired
      else if ai_Public x \<and> \<not> ai_RemoteRouteAllowed x then RemoteRouteDenied
      else if \<not> ai_ScheduleAllowed x then ViewerScheduleDenied
      else if ai_APIKey x \<and> \<not> ai_APIKeyAllowed x then APIKeyScopeDenied
      else if ai_LocalOwner x then Allowed
      else if ai_Secured x then Allowed
      else if ai_EnrollmentRoute x then Allowed
      else if ai_Owner x then MFAEnrollmentRequired
      else if ai_MFARequired x then MFAEnrollmentRequired
      else Allowed)"

definition EvaluateOwner :: "bool \<Rightarrow> bool \<Rightarrow> bool \<Rightarrow> bool \<Rightarrow> bool \<Rightarrow> denial" where
  "EvaluateOwner owner localOwner managed safeMethod recentlyAuthenticated =
     (if \<not> owner then OwnerRequired
      else if \<not> localOwner \<and> \<not> managed \<and> \<not> safeMethod \<and> \<not> recentlyAuthenticated then OwnerStepUpRequired
      else Allowed)"

fun denial_Reason :: "denial \<Rightarrow> string" where
  "denial_Reason OwnerRemoteDenied = ''Owner and API key access unavailable remotely''"
| "denial_Reason StrongAuthenticationRequired = ''strong authentication required remotely''"
| "denial_Reason PublicSessionRequired = ''public session required remotely''"
| "denial_Reason RemoteRouteDenied = ''route unavailable remotely''"
| "denial_Reason ViewerScheduleDenied = ''viewer access unavailable''"
| "denial_Reason APIKeyScopeDenied = ''API key scope''"
| "denial_Reason MFAEnrollmentRequired = ''MFA enrollment required''"
| "denial_Reason _ = ''Owner access required''"

fun denial_Message :: "denial \<Rightarrow> string" where
  "denial_Message OwnerRemoteDenied = ''Owner access is available only on the local network or WireGuard''"
| "denial_Message StrongAuthenticationRequired = ''strong authentication is required for public access''"
| "denial_Message PublicSessionRequired = ''public sign-in is required for public access''"
| "denial_Message ViewerScheduleDenied = ''Viewer access is not available''"
| "denial_Message APIKeyScopeDenied = ''API key scope does not allow this request''"
| "denial_Message MFAEnrollmentRequired = ''MFA enrollment required''"
| "denial_Message _ = ''Owner access required''"

definition denial_Status :: "denial \<Rightarrow> nat" where
  "denial_Status d = (if d \<in> {OwnerStepUpRequired, OwnerRemoteDenied, StrongAuthenticationRequired, PublicSessionRequired,
     ViewerScheduleDenied, APIKeyScopeDenied, MFAEnrollmentRequired, OwnerRequired} then 403 else 404)"

definition Secured :: "string \<Rightarrow> nat \<Rightarrow> bool" where
  "Secured secret passkeyCount \<longleftrightarrow> secret \<noteq> '''' \<or> passkeyCount > 0"

definition MFAEnrollmentRoute :: "string \<Rightarrow> bool" where
  "MFAEnrollmentRoute pattern \<longleftrightarrow> pattern \<in> set
     [''GET /account'', ''POST /account/mfa/setup'', ''POST /account/mfa/enable'', ''POST /auth/passkeys/register/begin'',
      ''POST /auth/passkeys/register/finish'', ''POST /logout'', ''DELETE /api/v1/session'', ''GET /api/v1/me'',
      ''POST /api/v1/me/mfa/setup'', ''PUT /api/v1/me/mfa'', ''POST /api/v1/passkeys/register/begin'',
      ''POST /api/v1/passkeys/register/finish'']"

section \<open>Scopes of API keys\<close>

text \<open>A set \<open>map[string]bool\<close> of patterns, as \<open>RouteSet\<close> makes it, is the list of them.\<close>

record api_routes =
  rt_SessionOnly :: "string list"
  rt_JellyfinLibrary :: "string list"
  rt_Library :: "string list"
  rt_Write :: "string list"
  rt_Stream :: "string list"
  rt_Download :: "string list"

definition hasScope :: "string list \<Rightarrow> string \<Rightarrow> bool" where
  "hasScope scopes scope \<longleftrightarrow> scope \<in> set scopes"

definition routeScope :: "string \<Rightarrow> api_routes \<Rightarrow> string" where
  "routeScope pattern routes =
     (if pattern \<in> set (rt_Library routes) then ''library''
      else if pattern \<in> set (rt_Write routes) then ''write''
      else if pattern \<in> set (rt_Stream routes) then ''stream''
      else if pattern \<in> set (rt_Download routes) then ''download''
      else if contains_text pattern '' /api/v1/'' then ''admin''
      else '''')"

definition AllowsAPI :: "string list \<Rightarrow> string \<Rightarrow> api_routes \<Rightarrow> bool" where
  "AllowsAPI scopes pattern routes =
     (if hasScope scopes ''home-assistant'' then contains_text pattern '' /api/v1/home-assistant/''
      else if pattern \<in> set (rt_SessionOnly routes) then False
      else if pattern = ''GET /api/v1/me'' \<or> pattern = ''PUT /api/v1/me/language'' then hasScope scopes ''library'' \<or> hasScope scopes ''admin''
      else if pattern \<in> set (rt_JellyfinLibrary routes) then hasScope scopes ''library''
      else let scope = routeScope pattern routes in scope \<noteq> '''' \<and> hasScope scopes scope)"

section \<open>Profiles\<close>

record profile =
  pr_ID :: string
  pr_Name :: string
  pr_Owner :: bool
  pr_Downloads :: bool
  pr_Transcode :: bool
  pr_Remote :: bool
  pr_Rating :: string
  pr_Libraries :: "string list"
  pr_AccessStart :: string
  pr_AccessEnd :: string
  pr_Disabled :: bool
  pr_SCIMDeleted :: bool
  pr_TOTPSecret :: string
  pr_Passkeys :: nat
  pr_APIKey :: bool
  pr_Scopes :: "string list"
  pr_Revision :: nat
  pr_Credential :: string
  pr_OIDCSubject :: string
  pr_OIDCIssuer :: string
  pr_SAMLSubject :: string
  pr_SAMLIssuer :: string
  pr_SCIMUserName :: string
  pr_SCIMExternalID :: string
  pr_SCIMName :: scim_name
  pr_SCIMEmails :: "scim_email list"
  pr_SCIMEnterprise :: scim_enterprise
  pr_SCIMManaged :: bool
  pr_SCIMCreatedAt :: instant
  pr_SCIMUpdatedAt :: instant
  pr_TOTPCounter :: int
  pr_Recovery :: "string list"

definition zero_profile :: profile where
  "zero_profile = \<lparr>pr_ID = '''', pr_Name = '''', pr_Owner = False, pr_Downloads = False, pr_Transcode = False, pr_Remote = False,
     pr_Rating = '''', pr_Libraries = [], pr_AccessStart = '''', pr_AccessEnd = '''', pr_Disabled = False, pr_SCIMDeleted = False,
     pr_TOTPSecret = '''', pr_Passkeys = 0, pr_APIKey = False, pr_Scopes = [], pr_Revision = 0, pr_Credential = '''',
     pr_OIDCSubject = '''', pr_OIDCIssuer = '''', pr_SAMLSubject = '''', pr_SAMLIssuer = '''', pr_SCIMUserName = '''',
     pr_SCIMExternalID = '''', pr_SCIMName = \<lparr>sn_Formatted = '''', sn_GivenName = '''', sn_FamilyName = ''''\<rparr>, pr_SCIMEmails = [],
     pr_SCIMEnterprise = \<lparr>en_EmployeeNumber = '''', en_CostCenter = '''', en_Organization = '''', en_Division = '''', en_Department = '''',
       en_Manager = \<lparr>mg_Value = '''', mg_Ref = '''', mg_DisplayName = ''''\<rparr>\<rparr>,
     pr_SCIMManaged = False, pr_SCIMCreatedAt = 0, pr_SCIMUpdatedAt = 0, pr_TOTPCounter = 0, pr_Recovery = []\<rparr>"

definition FindProfile :: "profile list \<Rightarrow> string \<Rightarrow> profile option" where
  "FindProfile profiles pid = List.find (\<lambda>p. pr_ID p = pid) profiles"

definition profile_Secured :: "profile \<Rightarrow> bool" where
  "profile_Secured p = Secured (pr_TOTPSecret p) (pr_Passkeys p)"

definition profile_Permits :: "profile \<Rightarrow> string \<Rightarrow> bool \<Rightarrow> bool" where
  "profile_Permits p scope allowed \<longleftrightarrow> allowed \<and> (\<not> pr_APIKey p \<or> scope \<in> set (pr_Scopes p))"

definition profile_AllowsAPI :: "profile \<Rightarrow> string \<Rightarrow> api_routes \<Rightarrow> bool" where
  "profile_AllowsAPI p pattern routes = AllowsAPI (pr_Scopes p) pattern routes"

text \<open>
  \<open>time.Parse("15:04", s)\<close> as the minute of the day: one or two digits below 24, a colon, two digits below 60.
\<close>

definition parse_clock :: "string \<Rightarrow> nat option" where
  "parse_clock s = (case cut CHR '':'' s of (h, m, found) \<Rightarrow>
     if found \<and> h \<noteq> '''' \<and> length h \<le> 2 \<and> list_all is_digit h \<and> length m = 2 \<and> list_all is_digit m \<and> dec_value h < 24 \<and> dec_value m < 60
     then Some (dec_value h * 60 + dec_value m) else None)"

text \<open>\<open>clock\<close> is the local hour and minute of the time; a time that does not parse is midnight.\<close>

definition profile_Allowed :: "profile \<Rightarrow> bool \<Rightarrow> nat \<times> nat \<Rightarrow> bool" where
  "profile_Allowed p public clock =
     (if pr_Owner p then True
      else if public \<and> \<not> pr_Remote p then False
      else if pr_AccessStart p = '''' \<or> pr_AccessEnd p = '''' then True
      else let first = (case parse_clock (pr_AccessStart p) of Some m \<Rightarrow> m | None \<Rightarrow> 0);
               last' = (case parse_clock (pr_AccessEnd p) of Some m \<Rightarrow> m | None \<Rightarrow> 0);
               minute' = fst clock * 60 + snd clock
        in if first \<le> last' then minute' \<ge> first \<and> minute' < last' else minute' \<ge> first \<or> minute' < last')"

record profile_policy =
  pp_Downloads :: bool
  pp_Transcode :: bool
  pp_Remote :: bool
  pp_Rating :: string
  pp_AccessStart :: string
  pp_AccessEnd :: string
  pp_Libraries :: "string list"

definition policy_Valid :: "profile_policy \<Rightarrow> bool" where
  "policy_Valid q \<longleftrightarrow> (pp_AccessStart q = '''') = (pp_AccessEnd q = '''')
     \<and> list_all (\<lambda>v. v = '''' \<or> parse_clock v \<noteq> None) [pp_AccessStart q, pp_AccessEnd q]"

definition normalizeRating :: "string \<Rightarrow> string" where
  "normalizeRating rating = (if rating = ''teen'' \<or> rating = ''all'' then rating else ''family'')"

definition ApplyProfilePolicy :: "profile_policy \<Rightarrow> profile \<Rightarrow> profile" where
  "ApplyProfilePolicy q p = p\<lparr>pr_Downloads := pp_Downloads q, pr_Transcode := pp_Transcode q, pr_Remote := pp_Remote q,
     pr_Rating := normalizeRating (pp_Rating q), pr_Libraries := pp_Libraries q,
     pr_AccessStart := pp_AccessStart q, pr_AccessEnd := pp_AccessEnd q\<rparr>"

definition splitLibraries :: "string \<Rightarrow> string list" where
  "splitLibraries v = sort (remdups (filter (\<lambda>name. name \<noteq> '''') (map trim_space (split_on CHR '','' v))))"

definition CompatibilityProfile :: "profile \<Rightarrow> profile" where
  "CompatibilityProfile p = (if \<not> pr_Owner p then p
     else p\<lparr>pr_Owner := False, pr_Downloads := True, pr_Transcode := True, pr_Remote := False,
            pr_Rating := ''all'', pr_Libraries := [''all'']\<rparr>)"

section \<open>API keys\<close>

record api_key =
  ak_Name :: string
  ak_ProfileID :: string
  ak_Scopes :: "string list"
  ak_CreatedAt :: int
  ak_ExpiresAt :: int
  ak_LastUsed :: int
  ak_Persistent :: bool

definition zero_api_key :: api_key where
  "zero_api_key = \<lparr>ak_Name = '''', ak_ProfileID = '''', ak_Scopes = [], ak_CreatedAt = 0, ak_ExpiresAt = 0, ak_LastUsed = 0, ak_Persistent = False\<rparr>"

text \<open>\<open>int64((30*24*time.Hour)/time.Second)\<close> is 2592000.\<close>

definition LoadedAPIKeys :: "(string, api_key) gomap \<Rightarrow> bool \<Rightarrow> bool \<Rightarrow> (string, api_key) gomap \<times> bool" where
  "LoadedAPIKeys keys found failed =
     (if failed then (keys, True)
      else if \<not> found then (keys, False)
      else (map (\<lambda>(key, k). (key, if ak_ExpiresAt k = 0 \<and> \<not> ak_Persistent k
              then k\<lparr>ak_ExpiresAt := i64 (ak_CreatedAt k + secs (30 * 24 * hour))\<rparr> else k)) keys, False))"

definition maxIdentityLength :: nat where "maxIdentityLength = 100"

definition validAPIKeyInput :: "string \<Rightarrow> string \<Rightarrow> string list \<Rightarrow> bool" where
  "validAPIKeyInput profileID name scopes \<longleftrightarrow> profileID \<noteq> '''' \<and> length profileID \<le> maxIdentityLength \<and> name \<noteq> '''' \<and> length name \<le> 80
     \<and> length scopes > 0 \<and> length scopes \<le> 5"

definition issue_scopes :: "string list" where
  "issue_scopes = [''library'', ''write'', ''stream'', ''download'', ''admin'', ''home-assistant'']"

text \<open>\<open>text\<close> is \<open>rand.Text()\<close>, \<open>commit\<close> whether the commit succeeds; the result is the secret and the key.\<close>

definition IssueAPIKey :: "string \<Rightarrow> instant \<Rightarrow> string \<Rightarrow> string \<Rightarrow> string list \<Rightarrow> bool \<Rightarrow> (string \<Rightarrow> api_key \<Rightarrow> bool) \<Rightarrow> (string \<times> api_key) option" where
  "IssueAPIKey rand_text now profileID name scopes persistent commit =
     (if \<not> validAPIKeyInput profileID name scopes then None
      else if \<not> list_all (\<lambda>s. s \<in> set issue_scopes) scopes then None
      else let secret = ''ks_'' @ rand_text;
               key = \<lparr>ak_Name = name, ak_ProfileID = profileID, ak_Scopes = scopes, ak_CreatedAt = time_unix now,
                 ak_ExpiresAt = (if persistent then 0 else time_unix (now + 30 * 24 * hour)), ak_LastUsed = 0, ak_Persistent = persistent\<rparr>
        in if commit secret key then Some (secret, key) else None)"

text \<open>\<open>strings.FieldsFunc\<close> at commas and spaces: the non-empty pieces.\<close>

fun scope_fields :: "string \<Rightarrow> string \<Rightarrow> string list" where
  "scope_fields acc [] = (if acc = [] then [] else [rev acc])"
| "scope_fields acc (c # s) = (if c = CHR '','' \<or> c = CHR '' '' then (if acc = [] then [] else [rev acc]) @ scope_fields [] s
     else scope_fields (c # acc) s)"

definition parse_scopes_allowed :: "string list" where
  "parse_scopes_allowed = [''library'', ''write'', ''stream'', ''download'', ''admin'']"

definition ParseAPIScopes :: "string \<Rightarrow> string list option" where
  "ParseAPIScopes v = (if length v > 256 then None
     else let fields = scope_fields [] v in
       if list_all (\<lambda>s. s \<in> set parse_scopes_allowed) fields then Some (sort (remdups fields)) else None)"

section \<open>When a token was last used\<close>

record access_use =
  au_sessions :: "(string, int) gomap"
  au_apiKeys :: "(string, int) gomap"

definition SessionUseInterval :: int where "SessionUseInterval = 60"
definition APIKeyUseInterval :: int where "APIKeyUseInterval = 3600"

definition apiKeyUseDue :: "api_key \<Rightarrow> int \<Rightarrow> bool" where
  "apiKeyUseDue k now \<longleftrightarrow> ak_LastUsed k = 0 \<or> i64 (ak_LastUsed k + APIKeyUseInterval) \<le> now"

definition use_Session :: "access_use \<Rightarrow> string \<Rightarrow> session \<Rightarrow> int \<Rightarrow> session" where
  "use_Session use key s now = (if \<not> ss_Browser s \<or> i64 (ss_LastSeen s + SessionUseInterval) > now then s
     else s\<lparr>ss_LastSeen := max (ss_LastSeen s) (mget0 0 (au_sessions use) key)\<rparr>)"

definition use_APIKey :: "access_use \<Rightarrow> string \<Rightarrow> api_key \<Rightarrow> int \<Rightarrow> api_key" where
  "use_APIKey use key k now = (if \<not> apiKeyUseDue k now then k
     else k\<lparr>ak_LastUsed := max (ak_LastUsed k) (mget0 0 (au_apiKeys use) key)\<rparr>)"

definition use_Record :: "string \<Rightarrow> session \<Rightarrow> bool \<Rightarrow> api_key \<Rightarrow> bool \<Rightarrow> int \<Rightarrow> access_use \<Rightarrow> access_use" where
  "use_Record key s sessionFound k apiFound now use =
     (let sessionDue = sessionFound \<and> ss_Browser s \<and> i64 (ss_LastSeen s + SessionUseInterval) \<le> now;
          apiDue = apiFound \<and> apiKeyUseDue k now;
          use1 = (if sessionDue then use\<lparr>au_sessions := mput key now (au_sessions use)\<rparr> else use)
      in if apiDue then use1\<lparr>au_apiKeys := mput key now (au_apiKeys use1)\<rparr> else use1)"

definition merge_session :: "string \<times> int \<Rightarrow> session_map \<times> bool \<Rightarrow> session_map \<times> bool" where
  "merge_session = (\<lambda>(key, seen) (sessions, changed). (case map_of sessions key of
     None \<Rightarrow> (sessions, changed)
   | Some s \<Rightarrow> if seen > ss_LastSeen s then (mput key (s\<lparr>ss_LastSeen := seen\<rparr>) sessions, True) else (sessions, changed)))"

definition merge_key :: "string \<times> int \<Rightarrow> (string, api_key) gomap \<times> bool \<Rightarrow> (string, api_key) gomap \<times> bool" where
  "merge_key = (\<lambda>(key, used) (keys, changed). (case map_of keys key of
     None \<Rightarrow> (keys, changed)
   | Some k \<Rightarrow> if used > ak_LastUsed k then (mput key (k\<lparr>ak_LastUsed := used\<rparr>) keys, True) else (keys, changed)))"

text \<open>\<open>Merge\<close> also empties the record of uses.\<close>

definition use_Merge :: "session_map \<Rightarrow> (string, api_key) gomap \<Rightarrow> access_use
     \<Rightarrow> (session_map \<times> bool) \<times> ((string, api_key) gomap \<times> bool) \<times> access_use" where
  "use_Merge sessions keys use =
     (fold merge_session (au_sessions use) (sessions, False), fold merge_key (au_apiKeys use) (keys, False),
      \<lparr>au_sessions = [], au_apiKeys = []\<rparr>)"

definition use_APIKeys :: "access_use \<Rightarrow> (string, api_key) gomap \<Rightarrow> (string, api_key) gomap" where
  "use_APIKeys use keys = (if length (au_apiKeys use) = 0 then keys else fst (fold merge_key (au_apiKeys use) (keys, False)))"

section \<open>Requests and tokens\<close>

text \<open>A request that is not \<open>nil\<close>: the management device of its context and whether it is remote.\<close>

record request_view =
  rv_device_profile :: string
  rv_device_key :: string
  rv_remote :: bool

definition ManagementProfileID :: "request_view option \<Rightarrow> string" where
  "ManagementProfileID r = (case r of None \<Rightarrow> '''' | Some v \<Rightarrow> rv_device_profile v)"

definition ManagementDeviceKey :: "request_view option \<Rightarrow> string" where
  "ManagementDeviceKey r = (case r of None \<Rightarrow> '''' | Some v \<Rightarrow> rv_device_key v)"

definition SessionMatchesRequest :: "session \<Rightarrow> request_view option \<Rightarrow> bool" where
  "SessionMatchesRequest s r = (case r of None \<Rightarrow> False | Some v \<Rightarrow>
     let key = ManagementDeviceKey r in
     if ss_ManagementDevice s = '''' then key = ''''
     else \<not> rv_remote v \<and> validManagementKey (ss_ManagementDevice s) \<and> ss_ManagementDevice s = key \<and> ss_ProfileID s = ManagementProfileID r)"

text \<open>\<open>CreateForRequest\<close> of a session store that is there: the part before the write.\<close>

definition CreateForRequest ::
  "(string \<Rightarrow> string) \<Rightarrow> session_config \<Rightarrow> string \<Rightarrow> request_view option \<Rightarrow> string \<Rightarrow> string \<Rightarrow> bool \<Rightarrow> bool \<Rightarrow> string \<Rightarrow> session_map
     \<Rightarrow> identity_error + (session_change \<times> session_map)" where
  "CreateForRequest H cfg token r pid name browser strong channel sessions =
     (case r of None \<Rightarrow> Inl ErrInvalidConfig | Some _ \<Rightarrow>
       let key = ManagementDeviceKey r in
       if key \<noteq> '''' then
         (if channel \<noteq> '''' \<or> pid \<noteq> ManagementProfileID r \<or> \<not> validManagementKey key then Inl ErrSessionKind
          else create_begin H cfg token pid name browser strong '''' None key sessions)
       else create_begin H cfg token pid name browser strong channel None '''' sessions)"

record token_access =
  ta_Profile :: profile
  ta_Session :: session
  ta_Resolved :: bool
  ta_SessionFound :: bool

datatype token_outcome = TokenDenied | TokenAccepted | TokenSettle

record token_state =
  tk_Sessions :: session_map
  tk_APIKeys :: "(string, api_key) gomap"
  tk_Use :: access_use
  tk_Persisted :: "(string \<times> bool) list"

definition persist_op :: "string \<Rightarrow> bool \<Rightarrow> token_state \<Rightarrow> token_state" where
  "persist_op operation apiKeys S = S\<lparr>tk_Persisted := tk_Persisted S @ [(operation, apiKeys)]\<rparr>"

definition tokenProfile ::
  "profile list \<Rightarrow> int \<Rightarrow> string \<Rightarrow> string \<Rightarrow> session \<Rightarrow> bool \<Rightarrow> api_key \<Rightarrow> bool \<Rightarrow> bool \<Rightarrow> token_state
     \<Rightarrow> (token_access option \<times> token_outcome) \<times> token_state" where
  "tokenProfile profiles now profileID key s sessionFound k apiFound settle S =
     (case FindProfile profiles profileID of None \<Rightarrow> ((None, TokenDenied), S)
      | Some p \<Rightarrow>
        if pr_Disabled p \<or> pr_SCIMDeleted p then ((None, TokenDenied), S)
        else if sessionFound \<and> (ss_Channel s = ''public'' \<or> ss_ManagementDevice s \<noteq> '''') \<and> ss_ProfileRevision s \<noteq> pr_Revision p then
          (if \<not> settle then ((None, TokenSettle), S)
           else ((None, TokenDenied), persist_op ''session-revoke'' False (S\<lparr>tk_Sessions := mdel key (tk_Sessions S)\<rparr>)))
        else
          (let S1 = S\<lparr>tk_Use := use_Record key s sessionFound k apiFound now (tk_Use S)\<rparr>;
               p1 = p\<lparr>pr_APIKey := apiFound, pr_Scopes := ak_Scopes k\<rparr>;
               p2 = (if sessionFound \<and> ss_Channel s = ''compatibility'' then CompatibilityProfile p1 else p1)
           in ((Some \<lparr>ta_Profile = p2, ta_Session = s, ta_Resolved = True, ta_SessionFound = sessionFound\<rparr>, TokenAccepted), S1)))"

definition EvaluateToken ::
  "(session \<Rightarrow> int \<Rightarrow> bool) \<Rightarrow> profile list \<Rightarrow> request_view \<Rightarrow> string \<Rightarrow> int \<Rightarrow> bool \<Rightarrow> token_state
     \<Rightarrow> (token_access option \<times> token_outcome) \<times> token_state" where
  "EvaluateToken expired profiles r key now settle S =
     (let found = map_of (tk_Sessions S) key \<noteq> None; s0 = mget0 zero_session (tk_Sessions S) key in
      if found \<and> \<not> SessionMatchesRequest s0 (Some r) \<or> \<not> found \<and> ManagementDeviceKey (Some r) \<noteq> '''' then ((None, TokenDenied), S)
      else
        let s = use_Session (tk_Use S) key s0 now;
            k0 = mget0 zero_api_key (tk_APIKeys S) key; apiFound0 = (map_of (tk_APIKeys S) key \<noteq> None);
            apiExpired = (apiFound0 \<and> ak_ExpiresAt k0 \<noteq> 0 \<and> ak_ExpiresAt k0 \<le> now)
        in if apiExpired \<and> \<not> settle then ((None, TokenSettle), S)
           else
             let S1 = (if apiExpired then persist_op ''api-key-expire'' True (S\<lparr>tk_APIKeys := mdel key (tk_APIKeys S)\<rparr>) else S);
                 apiFound = (apiFound0 \<and> \<not> apiExpired)
             in if \<not> apiFound \<and> (\<not> found \<or> expired s now) then
                  (if found \<and> \<not> settle then ((None, TokenSettle), S1)
                   else ((None, TokenDenied), if found then persist_op ''session-expire'' False (S1\<lparr>tk_Sessions := mdel key (tk_Sessions S1)\<rparr>) else S1))
                else
                  let k = use_APIKey (tk_Use S1) key k0 now;
                      profileID = (if apiFound then ak_ProfileID k else ss_ProfileID s)
                  in tokenProfile profiles now profileID key s found k apiFound settle S1)"

section \<open>Retrying writes\<close>

definition AccessRetrySeconds :: int where "AccessRetrySeconds = 30"

definition retry_Save :: "string \<Rightarrow> bool \<Rightarrow> int \<Rightarrow> (string, int) gomap \<Rightarrow> (string, int) gomap" where
  "retry_Save file failed now retry = (if failed then mput file (i64 (now + AccessRetrySeconds)) retry
     else if map_of retry file \<noteq> None then mdel file retry else retry)"

definition retry_Due :: "int \<Rightarrow> string \<Rightarrow> string \<Rightarrow> bool \<Rightarrow> bool \<Rightarrow> (string, int) gomap \<Rightarrow> (string, string) gomap" where
  "retry_Due now sessionFile apiFile sessionsUsed keysUsed retry =
     (let w0 = map (\<lambda>(file, _). (file, ''retry'')) (mfilter (\<lambda>_ t. t \<le> now) retry);
          w1 = (if sessionsUsed \<and> mget0 '''' w0 sessionFile = '''' then mput sessionFile ''session-use'' w0 else w0)
      in if keysUsed \<and> mget0 '''' w1 apiFile = '''' then mput apiFile ''api-key-use'' w1 else w1)"

definition retry_Expire :: "int \<Rightarrow> (string, int) gomap \<Rightarrow> (string, int) gomap" where
  "retry_Expire now retry = map (\<lambda>(file, _). (file, now)) retry"

section \<open>What an accepted token stands for\<close>

lemma find_profile: "FindProfile profiles pid = Some p \<Longrightarrow> p \<in> set profiles \<and> pr_ID p = pid"
  by (auto simp: FindProfile_def find_Some_iff)

lemma compatibility_profile [simp]:
  "pr_ID (CompatibilityProfile p) = pr_ID p" "pr_APIKey (CompatibilityProfile p) = pr_APIKey p" "pr_Scopes (CompatibilityProfile p) = pr_Scopes p"
  "pr_TOTPSecret (CompatibilityProfile p) = pr_TOTPSecret p" "pr_Passkeys (CompatibilityProfile p) = pr_Passkeys p"
  "\<not> pr_Owner (CompatibilityProfile p)"
  by (simp_all add: CompatibilityProfile_def)

lemma tokenProfile_accepted:
  assumes "tokenProfile profiles now pid key s sessionFound k apiFound settle S = ((Some acc, outcome), S')"
  obtains p where "FindProfile profiles pid = Some p" "\<not> pr_Disabled p" "\<not> pr_SCIMDeleted p"
    "\<not> (sessionFound \<and> (ss_Channel s = ''public'' \<or> ss_ManagementDevice s \<noteq> '''') \<and> ss_ProfileRevision s \<noteq> pr_Revision p)"
    "acc = \<lparr>ta_Profile = (if sessionFound \<and> ss_Channel s = ''compatibility'' then CompatibilityProfile (p\<lparr>pr_APIKey := apiFound, pr_Scopes := ak_Scopes k\<rparr>)
        else p\<lparr>pr_APIKey := apiFound, pr_Scopes := ak_Scopes k\<rparr>), ta_Session = s, ta_Resolved = True, ta_SessionFound = sessionFound\<rparr>"
    "outcome = TokenAccepted"
  using assms unfolding tokenProfile_def Let_def
  by (cases "FindProfile profiles pid") (simp_all split: if_splits)

text \<open>The three facts an accepted token rests on: the session found under its key, the API key found, the profile.\<close>

definition token_session_ok :: "(session \<Rightarrow> int \<Rightarrow> bool) \<Rightarrow> request_view \<Rightarrow> string \<Rightarrow> int \<Rightarrow> token_state \<Rightarrow> profile \<Rightarrow> token_access \<Rightarrow> bool" where
  "token_session_ok expired r key now S p acc \<longleftrightarrow>
     (\<exists>s. map_of (tk_Sessions S) key = Some s \<and> SessionMatchesRequest s (Some r) \<and> ta_Session acc = use_Session (tk_Use S) key s now
        \<and> (ss_Channel s = ''public'' \<or> ss_ManagementDevice s \<noteq> '''' \<longrightarrow> ss_ProfileRevision s = pr_Revision p)
        \<and> (ss_Channel s = ''compatibility'' \<longrightarrow> \<not> pr_Owner (ta_Profile acc)))"

definition token_key_ok :: "string \<Rightarrow> int \<Rightarrow> token_state \<Rightarrow> profile \<Rightarrow> token_access \<Rightarrow> bool" where
  "token_key_ok key now S p acc \<longleftrightarrow>
     (\<exists>k. map_of (tk_APIKeys S) key = Some k \<and> (ak_ExpiresAt k = 0 \<or> now < ak_ExpiresAt k) \<and> ak_ProfileID k = pr_ID p
        \<and> pr_APIKey (ta_Profile acc) \<and> pr_Scopes (ta_Profile acc) = ak_Scopes k)"

lemma use_APIKey_fields [simp]:
  "ak_ProfileID (use_APIKey use key k now) = ak_ProfileID k" "ak_Scopes (use_APIKey use key k now) = ak_Scopes k"
  by (simp_all add: use_APIKey_def)

lemma use_Session_fields [simp]:
  "ss_ProfileID (use_Session use key s now) = ss_ProfileID s" "ss_Channel (use_Session use key s now) = ss_Channel s"
  "ss_ManagementDevice (use_Session use key s now) = ss_ManagementDevice s" "ss_ProfileRevision (use_Session use key s now) = ss_ProfileRevision s"
  "ss_StrongAt (use_Session use key s now) = ss_StrongAt s" "ss_ExpiresAt (use_Session use key s now) = ss_ExpiresAt s"
  by (simp_all add: use_Session_def)

text \<open>The shape of \<open>EvaluateToken\<close>: where it ends without the profile, and what it hands to \<open>tokenProfile\<close>.\<close>

definition token_expired_key :: "string \<Rightarrow> int \<Rightarrow> token_state \<Rightarrow> bool" where
  "token_expired_key key now S \<longleftrightarrow> (\<exists>k. map_of (tk_APIKeys S) key = Some k \<and> ak_ExpiresAt k \<noteq> 0 \<and> ak_ExpiresAt k \<le> now)"

definition token_live_key :: "string \<Rightarrow> int \<Rightarrow> token_state \<Rightarrow> bool" where
  "token_live_key key now S \<longleftrightarrow> map_of (tk_APIKeys S) key \<noteq> None \<and> \<not> token_expired_key key now S"

definition token_mismatch :: "request_view \<Rightarrow> string \<Rightarrow> token_state \<Rightarrow> bool" where
  "token_mismatch r key S \<longleftrightarrow> (case map_of (tk_Sessions S) key of
     Some s \<Rightarrow> \<not> SessionMatchesRequest s (Some r) | None \<Rightarrow> ManagementDeviceKey (Some r) \<noteq> '''')"

definition token_dead :: "(session \<Rightarrow> int \<Rightarrow> bool) \<Rightarrow> string \<Rightarrow> int \<Rightarrow> token_state \<Rightarrow> bool" where
  "token_dead expired key now S \<longleftrightarrow> \<not> token_live_key key now S \<and> (case map_of (tk_Sessions S) key of
     None \<Rightarrow> True | Some s \<Rightarrow> expired (use_Session (tk_Use S) key s now) now)"

definition drop_key :: "string \<Rightarrow> int \<Rightarrow> token_state \<Rightarrow> token_state" where
  "drop_key key now S = (if token_expired_key key now S
     then persist_op ''api-key-expire'' True (S\<lparr>tk_APIKeys := mdel key (tk_APIKeys S)\<rparr>) else S)"

lemma EvaluateToken_eq:
  "EvaluateToken expired profiles r key now settle S =
     (let found = map_of (tk_Sessions S) key \<noteq> None; s = use_Session (tk_Use S) key (mget0 zero_session (tk_Sessions S) key) now;
          S1 = drop_key key now S; live = token_live_key key now S; k = use_APIKey (tk_Use S) key (mget0 zero_api_key (tk_APIKeys S) key) now
      in if token_mismatch r key S then ((None, TokenDenied), S)
         else if token_expired_key key now S \<and> \<not> settle then ((None, TokenSettle), S)
         else if token_dead expired key now S then
           (if found \<and> \<not> settle then ((None, TokenSettle), S1)
            else ((None, TokenDenied), if found then persist_op ''session-expire'' False (S1\<lparr>tk_Sessions := mdel key (tk_Sessions S1)\<rparr>) else S1))
         else tokenProfile profiles now (if live then ak_ProfileID k else ss_ProfileID s) key s found k live settle S1)"
proof -
  have use: "tk_Use (drop_key key now S) = tk_Use S" by (simp add: drop_key_def persist_op_def)
  have "(mget0 zero_api_key (tk_APIKeys S) key) = k" if "map_of (tk_APIKeys S) key = Some k" for k using that by (simp add: mget0_def)
  then have ex: "(map_of (tk_APIKeys S) key \<noteq> None \<and> ak_ExpiresAt (mget0 zero_api_key (tk_APIKeys S) key) \<noteq> 0
      \<and> ak_ExpiresAt (mget0 zero_api_key (tk_APIKeys S) key) \<le> now) = token_expired_key key now S"
    by (auto simp: token_expired_key_def)
  have mis: "(map_of (tk_Sessions S) key \<noteq> None \<and> \<not> SessionMatchesRequest (mget0 zero_session (tk_Sessions S) key) (Some r)
      \<or> \<not> map_of (tk_Sessions S) key \<noteq> None \<and> ManagementDeviceKey (Some r) \<noteq> '''') = token_mismatch r key S"
    by (cases "map_of (tk_Sessions S) key") (simp_all add: token_mismatch_def mget0_def)
  have dead: "(\<not> token_live_key key now S \<and> (\<not> map_of (tk_Sessions S) key \<noteq> None
      \<or> expired (use_Session (tk_Use S) key (mget0 zero_session (tk_Sessions S) key) now) now)) = token_dead expired key now S"
    by (cases "map_of (tk_Sessions S) key") (simp_all add: token_dead_def mget0_def)
  show ?thesis
    unfolding EvaluateToken_def Let_def ex mis token_live_key_def [symmetric] drop_key_def [symmetric] dead use by (rule refl)
qed

lemma token_accepted:
  assumes "EvaluateToken expired profiles r key now settle S = ((Some acc, outcome), S')"
  obtains p where "p \<in> set profiles" "\<not> pr_Disabled p" "\<not> pr_SCIMDeleted p"
    "ta_Resolved acc" "ta_SessionFound acc \<longleftrightarrow> map_of (tk_Sessions S) key \<noteq> None"
    "ta_SessionFound acc \<Longrightarrow> token_session_ok expired r key now S p acc"
    "pr_APIKey (ta_Profile acc) \<Longrightarrow> token_key_ok key now S p acc"
    "\<not> pr_APIKey (ta_Profile acc) \<Longrightarrow> ta_SessionFound acc \<and> \<not> expired (ta_Session acc) now \<and> ss_ProfileID (ta_Session acc) = pr_ID p"
    "ta_Profile acc = CompatibilityProfile (p\<lparr>pr_APIKey := pr_APIKey (ta_Profile acc), pr_Scopes := pr_Scopes (ta_Profile acc)\<rparr>)
      \<or> ta_Profile acc = p\<lparr>pr_APIKey := pr_APIKey (ta_Profile acc), pr_Scopes := pr_Scopes (ta_Profile acc)\<rparr>"
    "ta_Profile acc = (let q = p\<lparr>pr_APIKey := pr_APIKey (ta_Profile acc), pr_Scopes := pr_Scopes (ta_Profile acc)\<rparr>
       in if ta_SessionFound acc \<and> ss_Channel (ta_Session acc) = ''compatibility'' then CompatibilityProfile q else q)"
    "pr_Scopes (ta_Profile acc) = ak_Scopes (mget0 zero_api_key (tk_APIKeys S) key)"
    "outcome = TokenAccepted"
proof -
  let ?raw = "mget0 zero_session (tk_Sessions S) key" and ?found = "map_of (tk_Sessions S) key \<noteq> None"
  let ?s = "use_Session (tk_Use S) key ?raw now" and ?live = "token_live_key key now S"
  let ?k = "use_APIKey (tk_Use S) key (mget0 zero_api_key (tk_APIKeys S) key) now"
  have go: "\<not> token_mismatch r key S" "\<not> token_dead expired key now S"
    and tp: "tokenProfile profiles now (if ?live then ak_ProfileID ?k else ss_ProfileID ?s) key ?s ?found ?k ?live settle (drop_key key now S)
      = ((Some acc, outcome), S')"
    using assms unfolding EvaluateToken_eq Let_def by (simp_all split: if_splits)
  from tp obtain p where p: "FindProfile profiles (if ?live then ak_ProfileID ?k else ss_ProfileID ?s) = Some p"
      "\<not> pr_Disabled p" "\<not> pr_SCIMDeleted p"
      "\<not> (?found \<and> (ss_Channel ?s = ''public'' \<or> ss_ManagementDevice ?s \<noteq> '''') \<and> ss_ProfileRevision ?s \<noteq> pr_Revision p)"
      "acc = \<lparr>ta_Profile = (if ?found \<and> ss_Channel ?s = ''compatibility'' then CompatibilityProfile (p\<lparr>pr_APIKey := ?live, pr_Scopes := ak_Scopes ?k\<rparr>)
        else p\<lparr>pr_APIKey := ?live, pr_Scopes := ak_Scopes ?k\<rparr>), ta_Session = ?s, ta_Resolved = True, ta_SessionFound = ?found\<rparr>"
      "outcome = TokenAccepted"
    by (rule tokenProfile_accepted)
  have fields: "pr_APIKey (ta_Profile acc) = ?live" "ta_SessionFound acc = ?found" "ta_Session acc = ?s" "ta_Resolved acc"
    "pr_Scopes (ta_Profile acc) = ak_Scopes ?k"
    by (simp_all add: p(5))
  note pid = find_profile [OF p(1)]
  show ?thesis
  proof (rule that [of p])
    show "p \<in> set profiles" using pid by simp
    show "ta_SessionFound acc \<Longrightarrow> token_session_ok expired r key now S p acc"
    proof -
      assume "ta_SessionFound acc"
      then obtain s where s: "map_of (tk_Sessions S) key = Some s" using fields(2) by auto
      then have "?raw = s" by (simp add: mget0_def)
      moreover have "SessionMatchesRequest s (Some r)" using go(1) s by (simp add: token_mismatch_def)
      moreover have "ss_Channel s = ''compatibility'' \<longrightarrow> \<not> pr_Owner (ta_Profile acc)" using s by (simp add: p(5) mget0_def)
      ultimately show ?thesis using s p(4) fields(3) by (auto simp: token_session_ok_def)
    qed
    show "pr_APIKey (ta_Profile acc) \<Longrightarrow> token_key_ok key now S p acc"
    proof -
      assume key: "pr_APIKey (ta_Profile acc)"
      then have live: ?live using fields(1) by simp
      then obtain k where k: "map_of (tk_APIKeys S) key = Some k" "ak_ExpiresAt k = 0 \<or> now < ak_ExpiresAt k"
        by (force simp: token_live_key_def token_expired_key_def)
      then show ?thesis using live pid fields key by (simp add: token_key_ok_def mget0_def)
    qed
    show "\<not> pr_APIKey (ta_Profile acc) \<Longrightarrow> ta_SessionFound acc \<and> \<not> expired (ta_Session acc) now \<and> ss_ProfileID (ta_Session acc) = pr_ID p"
    proof -
      assume "\<not> pr_APIKey (ta_Profile acc)"
      then have "\<not> ?live" using fields(1) by simp
      with go(2) pid show ?thesis using fields by (cases "map_of (tk_Sessions S) key") (auto simp: token_dead_def mget0_def)
    qed
    show "ta_Profile acc = CompatibilityProfile (p\<lparr>pr_APIKey := pr_APIKey (ta_Profile acc), pr_Scopes := pr_Scopes (ta_Profile acc)\<rparr>)
      \<or> ta_Profile acc = p\<lparr>pr_APIKey := pr_APIKey (ta_Profile acc), pr_Scopes := pr_Scopes (ta_Profile acc)\<rparr>"
      unfolding fields(1,5) by (simp add: p(5))
    show "ta_Profile acc = (let q = p\<lparr>pr_APIKey := pr_APIKey (ta_Profile acc), pr_Scopes := pr_Scopes (ta_Profile acc)\<rparr>
       in if ta_SessionFound acc \<and> ss_Channel (ta_Session acc) = ''compatibility'' then CompatibilityProfile q else q)"
      unfolding fields(1,5) by (simp add: p(5))
  qed (use p fields in simp_all)
qed

section \<open>The record of uses\<close>

lemma fold_merge_session:
  "mwf u \<Longrightarrow> map_of (fst (fold merge_session u (m, c))) key = (case map_of m key of None \<Rightarrow> None
     | Some s \<Rightarrow> Some (case map_of u key of None \<Rightarrow> s | Some seen \<Rightarrow> if seen > ss_LastSeen s then s\<lparr>ss_LastSeen := seen\<rparr> else s))"
proof (induction u arbitrary: m c)
  case Nil
  then show ?case by (simp split: option.splits)
next
  case (Cons x u)
  obtain a seen where x: "x = (a, seen)" by (cases x)
  obtain m' c' where m': "merge_session x (m, c) = (m', c')" by fastforce
  have u: "mwf u" "map_of u a = None" using Cons.prems by (simp_all add: x)
  have "map_of m' key = (if key = a then (case map_of m a of None \<Rightarrow> None | Some s \<Rightarrow> Some (if seen > ss_LastSeen s then s\<lparr>ss_LastSeen := seen\<rparr> else s))
      else map_of m key)"
    using m' by (auto simp: x merge_session_def split: option.splits if_splits)
  then show ?case using Cons.IH [OF u(1), of m' c'] m' u(2) by (auto simp: x split: option.splits)
qed

lemma fold_merge_key:
  "mwf u \<Longrightarrow> map_of (fst (fold merge_key u (m, c))) key = (case map_of m key of None \<Rightarrow> None
     | Some k \<Rightarrow> Some (case map_of u key of None \<Rightarrow> k | Some used \<Rightarrow> if used > ak_LastUsed k then k\<lparr>ak_LastUsed := used\<rparr> else k))"
proof (induction u arbitrary: m c)
  case Nil
  then show ?case by (simp split: option.splits)
next
  case (Cons x u)
  obtain a used where x: "x = (a, used)" by (cases x)
  obtain m' c' where m': "merge_key x (m, c) = (m', c')" by fastforce
  have u: "mwf u" "map_of u a = None" using Cons.prems by (simp_all add: x)
  have "map_of m' key = (if key = a then (case map_of m a of None \<Rightarrow> None | Some k \<Rightarrow> Some (if used > ak_LastUsed k then k\<lparr>ak_LastUsed := used\<rparr> else k))
      else map_of m key)"
    using m' by (auto simp: x merge_key_def split: option.splits if_splits)
  then show ?case using Cons.IH [OF u(1), of m' c'] m' u(2) by (auto simp: x split: option.splits)
qed

section \<open>Schedules\<close>

lemma parse_clock_less: "parse_clock s = Some m \<Longrightarrow> m < 1440"
  by (auto simp: parse_clock_def split: prod.splits if_splits)

lemma cyclic_window:
  assumes "first < 1440" "last' < 1440" "m < (1440::nat)"
  shows "(if first \<le> last' then first \<le> m \<and> m < last' else first \<le> m \<or> m < last') \<longleftrightarrow>
    (m + 1440 - first) mod 1440 < (last' + 1440 - first) mod 1440"
proof -
  have wrap: "(x + 1440 - first) mod 1440 = (if first \<le> x then x - first else x + 1440 - first)" if "x < 1440" for x
  proof (cases "first \<le> x")
    case True
    then have "x + 1440 - first = (x - first) + 1440" by simp
    then have "(x + 1440 - first) mod 1440 = (x - first) mod 1440" by (simp only: mod_add_self2)
    with True that show ?thesis by (simp add: mod_less)
  qed (use assms(1) in simp)
  show ?thesis unfolding wrap [OF assms(2)] wrap [OF assms(3)] using assms by auto
qed

section \<open>Properties\<close>

lemma settle_false_keeps:
  "tokenProfile profiles now pid key s f k live False S = (res, S') \<Longrightarrow>
     tk_Sessions S' = tk_Sessions S \<and> tk_APIKeys S' = tk_APIKeys S \<and> tk_Persisted S' = tk_Persisted S"
  by (auto simp: tokenProfile_def Let_def split: option.splits if_splits)

lemma settle_profile_agree:
  "snd (fst (tokenProfile profiles now pid key s f k live False S)) = TokenSettle
   \<or> tokenProfile profiles now pid key s f k live True S = tokenProfile profiles now pid key s f k live False S"
  by (auto simp: tokenProfile_def Let_def split: option.splits if_splits)

lemma settle_profile_true: "snd (fst (tokenProfile profiles now pid key s f k live True S)) \<noteq> TokenSettle"
  by (auto simp: tokenProfile_def Let_def split: option.splits if_splits)

text \<open>C25. An accepted token is worth what it stands for.  The profile exists and is neither disabled nor deleted.  A session
  under the key matches the device of the request, and a public one or one of a management device is of the profile's
  current revision.  Either an API key is found under the key, which is of this profile, not expired, and whose scopes the
  request has, or the session is of this profile and not expired.  The profile the request acts as is the stored one in
  every field but the mark of an API key and the scopes, which are those of the key; only when the session is a
  compatibility session of an owner is it reduced: no owner, no remote access, every rating and library.\<close>

theorem token_accepted_sound:
  assumes "EvaluateToken expired profiles r key now settle S = ((Some acc, outcome), S')"
  shows "outcome = TokenAccepted \<and> ta_Resolved acc \<and> (\<exists>p \<in> set profiles. \<not> pr_Disabled p \<and> \<not> pr_SCIMDeleted p
    \<and> ta_Profile acc = (let q = p\<lparr>pr_APIKey := pr_APIKey (ta_Profile acc), pr_Scopes := ak_Scopes (mget0 zero_api_key (tk_APIKeys S) key)\<rparr>
         in if ta_SessionFound acc \<and> ss_Channel (ta_Session acc) = ''compatibility'' \<and> pr_Owner p
            then q\<lparr>pr_Owner := False, pr_Downloads := True, pr_Transcode := True, pr_Remote := False,
                   pr_Rating := ''all'', pr_Libraries := [''all'']\<rparr>
            else q)
    \<and> pr_ID (ta_Profile acc) = pr_ID p \<and> (pr_Owner (ta_Profile acc) \<longrightarrow> pr_Owner p)
    \<and> (if pr_APIKey (ta_Profile acc) then token_key_ok key now S p acc
       else ta_SessionFound acc \<and> \<not> expired (ta_Session acc) now \<and> ss_ProfileID (ta_Session acc) = pr_ID p)
    \<and> (if ta_SessionFound acc then token_session_ok expired r key now S p acc else map_of (tk_Sessions S) key = None))"
  using assms
proof (rule token_accepted)
  fix p
  assume p: "p \<in> set profiles" "\<not> pr_Disabled p" "\<not> pr_SCIMDeleted p" "ta_Resolved acc"
    "ta_SessionFound acc \<longleftrightarrow> map_of (tk_Sessions S) key \<noteq> None"
    "ta_SessionFound acc \<Longrightarrow> token_session_ok expired r key now S p acc"
    "pr_APIKey (ta_Profile acc) \<Longrightarrow> token_key_ok key now S p acc"
    "\<not> pr_APIKey (ta_Profile acc) \<Longrightarrow> ta_SessionFound acc \<and> \<not> expired (ta_Session acc) now \<and> ss_ProfileID (ta_Session acc) = pr_ID p"
    and as: "ta_Profile acc = (let q = p\<lparr>pr_APIKey := pr_APIKey (ta_Profile acc), pr_Scopes := pr_Scopes (ta_Profile acc)\<rparr>
       in if ta_SessionFound acc \<and> ss_Channel (ta_Session acc) = ''compatibility'' then CompatibilityProfile q else q)"
    and scopes: "pr_Scopes (ta_Profile acc) = ak_Scopes (mget0 zero_api_key (tk_APIKeys S) key)" and ok: "outcome = TokenAccepted"
  obtain api where api: "pr_APIKey (ta_Profile acc) = api" by simp
  obtain compat where compat: "(ta_SessionFound acc \<and> ss_Channel (ta_Session acc) = ''compatibility'') = compat" by simp
  have full: "ta_Profile acc = (let q = p\<lparr>pr_APIKey := pr_APIKey (ta_Profile acc), pr_Scopes := ak_Scopes (mget0 zero_api_key (tk_APIKeys S) key)\<rparr>
         in if ta_SessionFound acc \<and> ss_Channel (ta_Session acc) = ''compatibility'' \<and> pr_Owner p
            then q\<lparr>pr_Owner := False, pr_Downloads := True, pr_Transcode := True, pr_Remote := False,
                   pr_Rating := ''all'', pr_Libraries := [''all'']\<rparr>
            else q)"
    using as unfolding scopes api conj_assoc [symmetric] compat Let_def by (simp add: CompatibilityProfile_def split: if_splits)
  have "pr_ID (ta_Profile acc) = pr_ID p" by (subst full) (simp add: Let_def)
  moreover have "pr_Owner (ta_Profile acc) \<longrightarrow> pr_Owner p" by (subst full) (simp add: Let_def)
  moreover have "if pr_APIKey (ta_Profile acc) then token_key_ok key now S p acc
       else ta_SessionFound acc \<and> \<not> expired (ta_Session acc) now \<and> ss_ProfileID (ta_Session acc) = pr_ID p" using p(7,8) by simp
  moreover have "if ta_SessionFound acc then token_session_ok expired r key now S p acc else map_of (tk_Sessions S) key = None"
    using p(5,6) by simp
  ultimately show ?thesis using p(1-4) ok full by blast
qed

definition demo_viewer :: profile where
  "demo_viewer = zero_profile\<lparr>pr_ID := ''viewer'', pr_Name := ''Ann'', pr_Downloads := True, pr_Transcode := True, pr_Remote := True,
     pr_Rating := ''family'', pr_AccessStart := ''21:30'', pr_AccessEnd := ''6:00'', pr_Passkeys := 1, pr_Revision := 3\<rparr>"

definition demo_request :: request_view where
  "demo_request = \<lparr>rv_device_profile = '''', rv_device_key = '''', rv_remote = True\<rparr>"

definition demo_session :: session where
  "demo_session = zero_session\<lparr>ss_ProfileID := ''viewer'', ss_ExpiresAt := 9000, ss_CreatedAt := 100, ss_LastSeen := 100, ss_Browser := True,
     ss_StrongAt := 100, ss_Channel := ''public'', ss_ProfileRevision := 3\<rparr>"

definition demo_tokens :: token_state where
  "demo_tokens = \<lparr>tk_Sessions = [(''k'', demo_session)], tk_APIKeys = [], tk_Use = \<lparr>au_sessions = [], au_apiKeys = []\<rparr>, tk_Persisted = []\<rparr>"

lemma demo_access:
  "fst (EvaluateToken (\<lambda>s now. ss_ExpiresAt s \<le> now) [demo_viewer] demo_request ''k'' 200 False demo_tokens) =
     (Some \<lparr>ta_Profile = demo_viewer, ta_Session = demo_session, ta_Resolved = True, ta_SessionFound = True\<rparr>, TokenAccepted)"
  by (simp add: EvaluateToken_def tokenProfile_def demo_tokens_def demo_viewer_def zero_profile_def demo_session_def demo_request_def zero_session_def zero_api_key_def
      mget0_def SessionMatchesRequest_def ManagementDeviceKey_def use_Session_def FindProfile_def i64_id min_i64_def max_i64_def SessionUseInterval_def
      use_APIKey_def Let_def)

lemma token_accepted_sound_witness:
  "\<exists>p \<in> set [demo_viewer]. pr_ID p = ''viewer''
     \<and> token_session_ok (\<lambda>s now. ss_ExpiresAt s \<le> now) demo_request ''k'' 200 demo_tokens p
        \<lparr>ta_Profile = demo_viewer, ta_Session = demo_session, ta_Resolved = True, ta_SessionFound = True\<rparr>"
proof -
  let ?acc = "\<lparr>ta_Profile = demo_viewer, ta_Session = demo_session, ta_Resolved = True, ta_SessionFound = True\<rparr>"
  obtain S' where "EvaluateToken (\<lambda>s now. ss_ExpiresAt s \<le> now) [demo_viewer] demo_request ''k'' 200 False demo_tokens = ((Some ?acc, TokenAccepted), S')"
    using demo_access by (metis prod.collapse)
  from token_accepted_sound [OF this] show ?thesis by (auto simp: demo_viewer_def zero_profile_def)
qed

text \<open>C26. The check under the read lock and the one under the write lock agree: the first never changes the stores, and unless it
  asks for the second, the second would give the same answer and the same state; the second never asks again.\<close>

theorem token_settle_agrees:
  "(case EvaluateToken expired profiles r key now False S of (res, S') \<Rightarrow>
      tk_Sessions S' = tk_Sessions S \<and> tk_APIKeys S' = tk_APIKeys S \<and> tk_Persisted S' = tk_Persisted S
      \<and> (snd res = TokenSettle \<or> EvaluateToken expired profiles r key now True S = (res, S')))
   \<and> snd (fst (EvaluateToken expired profiles r key now True S)) \<noteq> TokenSettle"
proof -
  have keep: "drop_key key now S = S" if "\<not> token_expired_key key now S" using that by (simp add: drop_key_def)
  obtain res S' where F: "EvaluateToken expired profiles r key now False S = (res, S')" by fastforce
  have "tk_Sessions S' = tk_Sessions S \<and> tk_APIKeys S' = tk_APIKeys S \<and> tk_Persisted S' = tk_Persisted S"
    using F keep unfolding EvaluateToken_eq Let_def by (auto split: if_splits dest: settle_false_keeps)
  moreover have "snd res = TokenSettle \<or> EvaluateToken expired profiles r key now True S = (res, S')"
    using F settle_profile_agree unfolding EvaluateToken_eq Let_def by (auto split: if_splits) (metis fst_conv)+
  moreover have "snd (fst (EvaluateToken expired profiles r key now True S)) \<noteq> TokenSettle"
    unfolding EvaluateToken_eq Let_def by (simp add: settle_profile_true)
  ultimately show ?thesis by (simp add: F)
qed

text \<open>The record of uses is a faithful delay of the writes: merging it into the sessions gives exactly the session that
  requests saw in the meantime, and into the API keys exactly what the owner was shown.\<close>

theorem use_merge_exact:
  assumes "mwf (au_sessions use)" "mwf (au_apiKeys use)" "map_of sessions key = Some s" "ss_Browser s"
    and "i64 (ss_LastSeen s + SessionUseInterval) \<le> now" "0 \<le> ss_LastSeen s"
  shows "map_of (fst (fst (use_Merge sessions keys use))) key = Some (use_Session use key s now)
    \<and> map_of (fst (fst (snd (use_Merge sessions keys use)))) = map_of (use_APIKeys use keys)
    \<and> snd (snd (use_Merge sessions keys use)) = \<lparr>au_sessions = [], au_apiKeys = []\<rparr>"
proof -
  have "map_of (fst (fst (use_Merge sessions keys use))) key = Some (use_Session use key s now)"
    using assms by (simp add: use_Merge_def fold_merge_session use_Session_def mget0_def max_def split: option.splits)
  moreover have "map_of (fst (fst (snd (use_Merge sessions keys use)))) = map_of (use_APIKeys use keys)"
    by (simp add: use_Merge_def use_APIKeys_def)
  ultimately show ?thesis by (simp add: use_Merge_def)
qed

lemma use_merge_exact_witness:
  "map_of (fst (fst (use_Merge [(''k'', demo_session)] [] \<lparr>au_sessions = [(''k'', 180)], au_apiKeys = []\<rparr>))) ''k'' =
     Some (demo_session\<lparr>ss_LastSeen := 180\<rparr>)"
proof -
  have i: "i64 (100 + SessionUseInterval) = 160" by (simp add: SessionUseInterval_def i64_id min_i64_def max_i64_def)
  let ?u = "\<lparr>au_sessions = [(''k'', 180)], au_apiKeys = []\<rparr>"
  have "map_of (fst (fst (use_Merge [(''k'', demo_session)] [] ?u))) ''k'' = Some (use_Session ?u ''k'' demo_session 200)"
    by (rule use_merge_exact [THEN conjunct1]) (simp_all add: demo_session_def i)
  also have "use_Session ?u ''k'' demo_session 200 = demo_session\<lparr>ss_LastSeen := 180\<rparr>"
    by (simp add: use_Session_def demo_session_def i mget0_def)
  finally show ?thesis .
qed

text \<open>The viewing schedule is the cyclic window of the day: a viewer is let in exactly when the time is, counted from the start
  around the clock, before the end, also across midnight; and never over the internet without remote access.\<close>

theorem schedule_cyclic:
  assumes "\<not> pr_Owner p" "parse_clock (pr_AccessStart p) = Some first" "parse_clock (pr_AccessEnd p) = Some last'" "h < 24" "m < 60"
  shows "profile_Allowed p public (h, m) \<longleftrightarrow> (\<not> public \<or> pr_Remote p)
    \<and> (h * 60 + m + 1440 - first) mod 1440 < (last' + 1440 - first) mod 1440"
proof -
  have less: "first < 1440" "last' < 1440" "h * 60 + m < 1440" using assms parse_clock_less by auto
  have "pr_AccessStart p \<noteq> ''''" "pr_AccessEnd p \<noteq> ''''" using assms(2,3) by (auto simp: parse_clock_def cut_def)
  then show ?thesis using assms(1) unfolding cyclic_window [OF less, symmetric] profile_Allowed_def assms(2,3) Let_def by simp
qed

lemma schedule_cyclic_witness:
  "profile_Allowed demo_viewer True (23, 15)"
proof -
  have "parse_clock (pr_AccessStart demo_viewer) = Some 1290" "parse_clock (pr_AccessEnd demo_viewer) = Some 360" by code_simp+
  from schedule_cyclic [OF _ this, of 23 15 True] show ?thesis by (simp add: demo_viewer_def zero_profile_def)
qed

end
