(* ===== verification/PlayerRoutes.thy ===== *)
theory PlayerRoutes
  imports Access
begin

text \<open>
  The route tables of the player's server: which routes do without a viewer, which of them answer on the
  public internet, what a remote viewer reaches, what API keys of each scope reach, and what the agents of
  the MCP gateway reach.  apps/player/internal/server/auth_remote_routes.go, api_keys.go and mcp_route_policy.go,
  and the tables they take from packages/identitycore/public_routes.go, scim/routes.go, mcpgateway/routes.go and
  jellyfincompat/identity.go.  A set of patterns is the list of its members.
\<close>

section \<open>Tables\<close>

datatype route_access = PublicRoute | CapabilityRoute | LocalCompatibilityRoute

definition apiSessionOnlyRoutes :: "string list" where
  "apiSessionOnlyRoutes =
    [''GET /api/v1/backup'', ''POST /api/v1/management-access'', ''DELETE /api/v1/management-access'',
     ''POST /api/v1/management-access/devices'', ''DELETE /api/v1/management-access/devices'', ''DELETE /api/v1/session'',
     ''GET /api/v1/me/oidc/link'', ''DELETE /api/v1/me/oidc'', ''GET /api/v1/me/saml/link'',
     ''DELETE /api/v1/me/saml'', ''POST /api/v1/me/mfa/setup'', ''PUT /api/v1/me/mfa'',
     ''DELETE /api/v1/me/mfa'', ''GET /api/v1/passkeys'', ''DELETE /api/v1/passkeys/{id}'',
     ''POST /api/v1/passkeys/register/begin'', ''POST /api/v1/passkeys/register/finish'', ''POST /api/v1/quick-connect/{code}'',
     ''GET /api/v1/quick-connect/pending'', ''GET /api/v1/quick-connect/{code}'']"

definition apiLibraryRoutes :: "string list" where
  "apiLibraryRoutes =
    [''GET /api/v1/me/media-preferences'', ''GET /api/v1/items/{id}/playback-preferences'', ''GET /api/v1/items/{id}/bookmarks'',
     ''GET /api/v1'', ''GET /api/v1/openapi.json'', ''GET /api/v1/library'',
     ''GET /api/v1/items/{id}'', ''GET /api/v1/items/{id}/playback'', ''GET /api/v1/items/{id}/watch-progress'',
     ''GET /api/v1/history'', ''GET /api/v1/audio/{id}/queue'', ''GET /api/v1/books/{id}/reader'',
     ''GET /api/v1/books/{id}/reader/progress'', ''GET /api/v1/playlists'', ''GET /api/v1/playlists/{name}'',
     ''GET /api/v1/collections'', ''GET /api/v1/collections/{name}'', ''GET /api/v1/actor'',
     ''GET /api/v1/shows'', ''GET /api/v1/shows/{id}'', ''GET /api/v1/shows/{id}/list'',
     ''GET /api/v1/albums'', ''GET /api/v1/albums/{id}'', ''GET /api/v1/watch-rooms/{id}'',
     ''GET /art/{id}'', ''GET /episode-art/{id}'', ''GET /backdrop/{id}'',
     ''GET /person/{id}/{person}'']"

definition apiWriteRoutes :: "string list" where
  "apiWriteRoutes =
    [''PUT /api/v1/me/media-preferences'', ''PUT /api/v1/items/{id}/playback-preferences'', ''DELETE /api/v1/items/{id}/playback-preferences'',
     ''POST /api/v1/items/{id}/bookmarks'', ''DELETE /api/v1/items/{id}/bookmarks/{bookmark}'', ''PUT /api/v1/items/{id}/progress/sync'',
     ''PUT /api/v1/items/{id}/progress'', ''PUT /api/v1/books/{id}/reader/progress'', ''DELETE /api/v1/items/{id}/continue-watching'',
     ''PUT /api/v1/items/{id}/watched'', ''PUT /api/v1/shows/{id}/watched'', ''PUT /api/v1/shows/{id}/list'',
     ''PUT /api/v1/items/{id}/list'', ''POST /api/v1/playlists'', ''POST /api/v1/smart-playlists'',
     ''DELETE /api/v1/playlists/{name}'', ''PUT /api/v1/playlists/{name}/items/{id}'', ''PUT /api/v1/playlists/{name}/order'',
     ''POST /api/v1/watch-rooms'', ''POST /api/v1/items/{id}/playback-events'']"

definition apiStreamRoutes :: "string list" where
  "apiStreamRoutes =
    [''POST /api/v1/items/{id}/playback-prepare'', ''DELETE /api/v1/items/{id}/playback-prepare'', ''GET /api/v1/remote-players'',
     ''PUT /api/v1/remote-players/{id}'', ''POST /api/v1/remote-players/{id}/commands'', ''POST /api/v1/items/{id}/cast'',
     ''POST /api/v1/cast/devices/scan'', ''GET /api/v1/cast/config'', ''GET /api/v1/cast/sessions/{id}'',
     ''POST /api/v1/cast/sessions/{id}/commands'', ''DELETE /api/v1/cast/sessions/{id}'', ''GET /media/{id}'',
     ''GET /hls/{id}/{file...}'', ''GET /hls/{id}/audio/{track}/{file...}'', ''GET /hls/{id}/p/{recipe}/iframes/{file}'',
     ''GET /Videos/{id}/{stream...}'', ''GET /subtitle/{id}'', ''GET /subtitle/{id}/{track}'',
     ''GET /subtitle/{id}/embedded/{stream}'', ''GET /trickplay/{id}/{second}'', ''GET /read/{id}/asset/{asset...}'',
     ''GET /read/{id}/file'', ''GET /api/v1/events'', ''GET /api/v1/watch-rooms/{id}/events'']"

definition apiDownloadRoutes :: "string list" where
  "apiDownloadRoutes =
    [''GET /api/v1/downloads/{id}/manifest'', ''GET /api/v1/downloads/identity'', ''GET /api/v1/items/{id}/download-tracks'',
     ''GET /download/{id}'', ''POST /api/v1/items/{id}/downloads'', ''GET /api/v1/downloads'',
     ''GET /api/v1/downloads/{id}'', ''GET /api/v1/downloads/{id}/file'', ''DELETE /api/v1/downloads/{id}'']"

definition jellyfinLibraryRoutes :: "string list" where
  "jellyfinLibraryRoutes =
    [''GET /System/Info'', ''GET /Library/MediaFolders'', ''GET /Users'',
     ''GET /Users/Me'', ''GET /Users/{id}'', ''GET /UserViews'',
     ''GET /Users/{user}/Views'', ''GET /Items'', ''GET /Users/{user}/Items'',
     ''GET /Items/Latest'', ''GET /Users/{user}/Items/Latest'', ''GET /Persons'',
     ''GET /Items/{id}'', ''GET /Users/{user}/Items/{id}'', ''GET /Shows/{id}/Seasons'',
     ''GET /Shows/{id}/Episodes'', ''GET /Items/{id}/Images/{type}'', ''GET /Items/{id}/Images/{type}/{index}'']"

definition remote_denied_patterns :: "string list" where
  "remote_denied_patterns =
    [''POST /settings/management/enable'', ''POST /settings/management/disable'', ''POST /settings/management/devices'',
     ''POST /settings/management/devices/revoke'', ''GET /settings/management'', ''GET /api/v1/management-access'',
     ''POST /api/v1/management-access'', ''DELETE /api/v1/management-access'', ''POST /api/v1/management-access/devices'',
     ''DELETE /api/v1/management-access/devices'', ''GET /cast/{id}/subtitles/{track}'', ''OPTIONS /cast/{id}/subtitles/{track}'',
     ''GET /cast/{id}/media'', ''GET /cast/{id}/hls/{file...}'', ''OPTIONS /cast/{id}/media'',
     ''OPTIONS /cast/{id}/hls/{file...}'', ''POST /api/v1/items/{id}/cast'', ''POST /api/v1/cast/devices/scan'',
     ''GET /api/v1/cast/config'', ''GET /api/v1/cast/sessions/{id}'', ''POST /api/v1/cast/sessions/{id}/commands'',
     ''DELETE /api/v1/cast/sessions/{id}'', ''GET /healthz'', ''GET /setup'',
     ''POST /setup'', ''POST /api/v1/setup'', ''POST /mcp'',
     ''GET /mcp'', ''DELETE /mcp'', ''GET /api/v1/home-assistant'',
     ''POST /api/v1/home-assistant/pair'', ''POST /api/v1/home-assistant/token'', ''GET /home-assistant/authorize'',
     ''POST /home-assistant/authorize'', ''GET /home-assistant/media/{id}'', ''GET /.well-known/oauth-protected-resource/mcp'',
     ''GET /.well-known/oauth-authorization-server'', ''POST /oauth/register'', ''POST /oauth/token'',
     ''POST /oauth/revoke'', ''GET /oauth/authorize'', ''POST /oauth/authorize'',
     ''GET /quick-connect'', ''POST /quick-connect'', ''GET /connect'',
     ''GET /api/v1/quick-connect/pending'', ''GET /api/v1/quick-connect/{code}'', ''POST /api/v1/quick-connect/{code}'',
     ''POST /QuickConnect/Authorize'', ''GET /Items/{id}/Images/{type}'', ''GET /Items/{id}/Images/{type}/{index}'',
     ''GET /dlna/{token}/device.xml'', ''GET /dlna/{token}/content.xml'', ''POST /dlna/{token}/content'',
     ''GET /dlna/{token}/media/{id}'', ''HEAD /dlna/{token}/media/{id}'']"

definition viewer_route_patterns :: "string list" where
  "viewer_route_patterns =
    [''GET /api/v1/supporter/collection'', ''GET /supporter/collection'', ''GET /api/v1/me'',
     ''PUT /api/v1/me/language'', ''DELETE /api/v1/session'', ''POST /logout'',
     ''GET /{$}'', ''GET /actor'', ''GET /album/{id}'',
     ''GET /book/{id}'', ''GET /collection/{name}'', ''GET /item/{id}'',
     ''POST /item/{id}/list'', ''GET /playlist/{name}'', ''GET /read/{id}'',
     ''GET /room/{id}'', ''GET /show/{id}'', ''GET /watch-together/{id}'',
     ''GET /watch/{id}'', ''POST /continue-watching/{id}/remove'', ''POST /list/{id}'',
     ''POST /playlist/{name}/delete'', ''POST /playlist/{name}/items/{id}'', ''POST /playlist/{name}/order'',
     ''POST /playlist/{name}/{id}'', ''POST /playlists'', ''POST /progress/{id}'',
     ''POST /read/{id}/progress'', ''POST /smart-playlists'', ''POST /watch-together'',
     ''POST /watched/{id}'', ''DELETE /UserFavoriteItems/{id}'', ''DELETE /UserPlayedItems/{id}'',
     ''DELETE /Users/{user}/PlayedItems/{id}'', ''GET /Items'', ''GET /Items/Latest'',
     ''GET /Items/{id}'', ''GET /Items/{id}/Download'', ''GET /Items/{id}/File'',
     ''GET /Items/{id}/Images/{type}'', ''GET /Items/{id}/Images/{type}/{index}'', ''GET /Items/{id}/PlaybackInfo'',
     ''GET /Videos/{id}/{stream...}'', ''GET /MediaSegments/{id}'', ''GET /Playback/BitrateTest'',
     ''GET /Shows/NextUp'', ''GET /Shows/{id}/Episodes'', ''GET /Shows/{id}/Seasons'',
     ''GET /System/Info'', ''GET /UserItems/Resume'', ''GET /UserItems/{id}/UserData'',
     ''GET /UserViews'', ''GET /Users/Me'', ''GET /Users/{id}'',
     ''GET /Users/{user}/Items'', ''GET /Users/{user}/Items/Latest'', ''GET /Users/{user}/Items/{id}'',
     ''GET /Users/{user}/Views'', ''POST /Items/{id}/PlaybackInfo'', ''POST /Sessions/Capabilities'',
     ''POST /Sessions/Capabilities/Full'', ''POST /Sessions/Logout'', ''POST /Sessions/Playing'',
     ''POST /Sessions/Playing/Progress'', ''POST /Sessions/Playing/Stopped'', ''POST /UserFavoriteItems/{id}'',
     ''POST /UserItems/{id}/UserData'', ''POST /UserPlayedItems/{id}'', ''POST /Users/{user}/PlayedItems/{id}'']"

definition bootstrap_patterns :: "string list" where
  "bootstrap_patterns =
    [''GET /static/public-login.js'', ''POST /auth/quick-connect'', ''POST /auth/quick-connect/token'',
     ''POST /auth/quick-connect/cancel'', ''GET /manifest.webmanifest'', ''GET /service-worker.js'',
     ''GET /offline'', ''GET /favicon.ico'', ''GET /static/htmx.min.js'',
     ''GET /static/hls.min.js'', ''GET /static/player.js'', ''GET /static/pwa.js'',
     ''GET /static/main.kinosail.bundle.js'', ''GET /static/theme.js'', ''GET /static/quick-connect.js'',
     ''GET /static/connect.js'', ''GET /static/app.css'', ''GET /static/supporter.js'',
     ''GET /static/supporter.css'', ''GET /static/manrope.woff2'', ''GET /static/icon.svg'',
     ''GET /static/subtitle-inspector.js'', ''GET /static/subtitle-inspector.css'', ''GET /static/supporter/badges/{file...}'',
     ''GET /static/media-share.js'', ''GET /share'', ''GET /share/items'',
     ''GET /share/media/{id}'', ''HEAD /share/media/{id}'', ''POST /api/v1/media-shares/claim'',
     ''GET /static/icon-192.png'', ''GET /static/icon-512.png'', ''GET /static/icon-maskable-512.png'',
     ''GET /static/apple-touch-icon.png'', ''GET /static/cinema-backdrop.jpg'', ''GET /static/passkeys.js'',
     ''GET /login'', ''POST /login'', ''GET /language'',
     ''POST /language'', ''POST /api/v1/session'', ''GET /api/v1/session/oidc'',
     ''GET /login/oidc'', ''GET /login/oidc/callback'', ''GET /api/v1/session/saml'',
     ''GET /login/saml'', ''GET /login/saml/metadata'', ''POST /login/saml/acs'',
     ''GET /login/mfa'', ''POST /login/mfa'', ''POST /api/v1/passkeys/login/begin'',
     ''POST /api/v1/passkeys/login/finish'', ''POST /auth/passkeys/login/begin'', ''POST /auth/passkeys/login/finish'',
     ''POST /api/v1/quick-connect'', ''POST /api/v1/quick-connect/token'', ''POST /api/v1/quick-connect/cancel'',
     ''GET /System/Info/Public'', ''GET /system/info/public'', ''GET /QuickConnect/Enabled'',
     ''GET /QuickConnect/Initiate'', ''POST /QuickConnect/Initiate'', ''GET /QuickConnect/Connect'',
     ''GET /Users/Public'', ''GET /Branding/Configuration'', ''POST /Users/AuthenticateByName'',
     ''POST /Users/AuthenticateWithQuickConnect'', ''GET /Videos/{id}/{stream}'', ''GET /Videos/{id}/{stream...}'',
     ''GET /Audio/{id}/{stream}'', ''GET /Videos/{id}/{source}/Subtitles/{index}/{stream}'']"

definition scim_patterns :: "string list" where
  "scim_patterns =
    [''GET /scim/v2/ServiceProviderConfig'', ''GET /scim/v2/ResourceTypes'', ''GET /scim/v2/ResourceTypes/{id}'',
     ''GET /scim/v2/Schemas'', ''GET /scim/v2/Schemas/{id}'', ''GET /scim/v2/Users'',
     ''POST /scim/v2/Users'', ''GET /scim/v2/Users/{id}'', ''PUT /scim/v2/Users/{id}'',
     ''PATCH /scim/v2/Users/{id}'', ''DELETE /scim/v2/Users/{id}'']"

definition mcpgateway_patterns :: "string list" where
  "mcpgateway_patterns =
    [''GET /.well-known/oauth-protected-resource/mcp'', ''GET /mcp'', ''DELETE /mcp'',
     ''POST /mcp'', ''GET /.well-known/oauth-authorization-server'', ''POST /oauth/register'',
     ''GET /oauth/authorize'', ''POST /oauth/authorize'', ''POST /oauth/token'',
     ''POST /oauth/revoke'']"


definition publicRoutes_literal :: "(string \<times> route_access) list" where
  "publicRoutes_literal =
    [(''GET /static/public-login.js'', PublicRoute), (''POST /auth/quick-connect'', PublicRoute),
     (''POST /auth/quick-connect/token'', PublicRoute), (''POST /auth/quick-connect/cancel'', PublicRoute),
     (''GET /cast/{id}/subtitles/{track}'', CapabilityRoute), (''OPTIONS /cast/{id}/subtitles/{track}'', CapabilityRoute),
     (''GET /cast/{id}/media'', CapabilityRoute), (''GET /cast/{id}/hls/{file...}'', CapabilityRoute),
     (''OPTIONS /cast/{id}/media'', CapabilityRoute), (''OPTIONS /cast/{id}/hls/{file...}'', CapabilityRoute),
     (''GET /healthz'', PublicRoute), (''POST /mcp'', PublicRoute),
     (''GET /mcp'', PublicRoute), (''DELETE /mcp'', PublicRoute),
     (''GET /.well-known/oauth-protected-resource/mcp'', PublicRoute), (''GET /.well-known/oauth-authorization-server'', PublicRoute),
     (''POST /oauth/register'', PublicRoute), (''POST /oauth/token'', PublicRoute),
     (''POST /oauth/revoke'', PublicRoute), (''GET /manifest.webmanifest'', PublicRoute),
     (''GET /service-worker.js'', PublicRoute), (''GET /offline'', PublicRoute),
     (''GET /favicon.ico'', PublicRoute), (''GET /static/htmx.min.js'', PublicRoute),
     (''GET /static/hls.min.js'', PublicRoute), (''GET /static/player.js'', PublicRoute),
     (''GET /static/pwa.js'', PublicRoute), (''GET /static/main.kinosail.bundle.js'', PublicRoute),
     (''GET /static/theme.js'', PublicRoute), (''GET /static/quick-connect.js'', PublicRoute),
     (''GET /static/connect.js'', PublicRoute), (''GET /static/app.css'', PublicRoute),
     (''GET /static/supporter.js'', PublicRoute), (''GET /static/supporter.css'', PublicRoute),
     (''GET /static/manrope.woff2'', PublicRoute), (''GET /static/tmdb-logo.svg'', PublicRoute),
     (''GET /static/icon.svg'', PublicRoute), (''GET /static/supporter/badges/{file...}'', PublicRoute),
     (''GET /static/media-share.js'', PublicRoute), (''GET /share'', PublicRoute),
     (''GET /share/items'', CapabilityRoute), (''GET /share/media/{id}'', CapabilityRoute),
     (''HEAD /share/media/{id}'', CapabilityRoute), (''POST /api/v1/media-shares/claim'', PublicRoute),
     (''GET /static/icon-192.png'', PublicRoute), (''GET /static/icon-512.png'', PublicRoute),
     (''GET /static/icon-maskable-512.png'', PublicRoute), (''GET /static/apple-touch-icon.png'', PublicRoute),
     (''GET /static/cinema-backdrop.jpg'', PublicRoute), (''GET /static/passkeys.js'', PublicRoute),
     (''GET /login'', PublicRoute), (''POST /login'', PublicRoute),
     (''GET /setup'', PublicRoute), (''GET /language'', PublicRoute),
     (''POST /setup'', PublicRoute), (''POST /language'', PublicRoute),
     (''POST /api/v1/session'', PublicRoute), (''POST /api/v1/setup'', PublicRoute),
     (''GET /api/v1/session/oidc'', PublicRoute), (''GET /api/v1/session/saml'', PublicRoute),
     (''GET /login/saml'', PublicRoute), (''GET /login/saml/metadata'', PublicRoute),
     (''POST /login/saml/acs'', PublicRoute), (''GET /api/v1/home-assistant'', PublicRoute),
     (''POST /api/v1/home-assistant/pair'', PublicRoute), (''POST /api/v1/home-assistant/token'', PublicRoute),
     (''GET /home-assistant/media/{id}'', CapabilityRoute), (''GET /login/oidc'', PublicRoute),
     (''GET /login/oidc/callback'', PublicRoute), (''GET /login/mfa'', PublicRoute),
     (''POST /login/mfa'', PublicRoute), (''POST /api/v1/passkeys/login/begin'', PublicRoute),
     (''POST /api/v1/passkeys/login/finish'', PublicRoute), (''POST /auth/passkeys/login/begin'', PublicRoute),
     (''POST /auth/passkeys/login/finish'', PublicRoute), (''GET /connect'', PublicRoute),
     (''POST /api/v1/quick-connect'', PublicRoute), (''POST /api/v1/quick-connect/token'', PublicRoute),
     (''POST /api/v1/quick-connect/cancel'', PublicRoute), (''GET /System/Info/Public'', PublicRoute),
     (''GET /system/info/public'', PublicRoute), (''GET /QuickConnect/Enabled'', PublicRoute),
     (''GET /QuickConnect/Initiate'', PublicRoute), (''POST /QuickConnect/Initiate'', PublicRoute),
     (''GET /QuickConnect/Connect'', PublicRoute), (''GET /Users/Public'', PublicRoute),
     (''GET /Branding/Configuration'', PublicRoute), (''POST /Users/AuthenticateByName'', PublicRoute),
     (''POST /Users/AuthenticateWithQuickConnect'', PublicRoute), (''GET /Items/{id}/Images/{type}'', LocalCompatibilityRoute),
     (''GET /Items/{id}/Images/{type}/{index}'', LocalCompatibilityRoute), (''GET /Videos/{id}/{stream}'', CapabilityRoute),
     (''GET /Videos/{id}/{stream...}'', CapabilityRoute), (''GET /Audio/{id}/{stream}'', CapabilityRoute),
     (''GET /Videos/{id}/{source}/Subtitles/{index}/{stream}'', CapabilityRoute), (''GET /dlna/{token}/device.xml'', CapabilityRoute),
     (''GET /dlna/{token}/content.xml'', CapabilityRoute), (''POST /dlna/{token}/content'', CapabilityRoute),
     (''GET /dlna/{token}/media/{id}'', CapabilityRoute), (''HEAD /dlna/{token}/media/{id}'', CapabilityRoute)]"


definition mcpReadRoutes :: "string list" where
  "mcpReadRoutes =
    [''GET /api/v1'', ''GET /api/v1/openapi.json'', ''GET /api/v1/me'',
     ''GET /api/v1/library'', ''GET /api/v1/items/{id}'', ''GET /api/v1/items/{id}/playback'',
     ''GET /api/v1/history'', ''GET /api/v1/audio/{id}/queue'', ''GET /api/v1/books/{id}/reader'',
     ''GET /api/v1/books/{id}/reader/progress'', ''GET /api/v1/playlists'', ''GET /api/v1/playlists/{name}'',
     ''GET /api/v1/collections'', ''GET /api/v1/collections/{name}'', ''GET /api/v1/actor'',
     ''GET /api/v1/shows'', ''GET /api/v1/shows/{id}'', ''GET /api/v1/shows/{id}/list'',
     ''GET /api/v1/albums'', ''GET /api/v1/albums/{id}'', ''GET /api/v1/watch-rooms/{id}'']"

definition mcpWriteRoutes :: "string list" where
  "mcpWriteRoutes =
    [''PUT /api/v1/items/{id}/progress'', ''PUT /api/v1/books/{id}/reader/progress'', ''DELETE /api/v1/items/{id}/continue-watching'',
     ''PUT /api/v1/items/{id}/watched'', ''PUT /api/v1/shows/{id}/watched'', ''PUT /api/v1/shows/{id}/list'',
     ''PUT /api/v1/items/{id}/list'', ''POST /api/v1/playlists'', ''POST /api/v1/smart-playlists'',
     ''DELETE /api/v1/playlists/{name}'', ''PUT /api/v1/playlists/{name}/items/{id}'', ''PUT /api/v1/playlists/{name}/order'',
     ''POST /api/v1/watch-rooms'', ''PUT /api/v1/me/language'']"

definition mcpManageRoutes :: "string list" where
  "mcpManageRoutes =
    [''GET /api/v1/agent-connections'', ''GET /api/v1/backups'', ''GET /api/v1/configuration'',
     ''GET /api/v1/diagnostics'', ''GET /api/v1/hardware'', ''GET /api/v1/maintenance'',
     ''GET /api/v1/marker-analysis'', ''GET /api/v1/metrics'', ''GET /api/v1/remote-access'',
     ''GET /api/v1/settings'', ''GET /api/v1/updates'', ''GET /api/v1/viewing-syncs'',
     ''DELETE /api/v1/agent-connections/{id}'', ''DELETE /api/v1/viewing-syncs/{id}'', ''PUT /api/v1/items/{id}/metadata'',
     ''POST /api/v1/items/{id}/metadata/refresh'', ''POST /api/v1/metadata/bulk'', ''PUT /api/v1/items/{id}/markers'',
     ''DELETE /api/v1/items/{id}/markers/{type}'', ''POST /api/v1/marker-analysis'', ''POST /api/v1/collections'',
     ''DELETE /api/v1/collections/{name}'', ''PUT /api/v1/collections/{name}/items/{id}'', ''POST /api/v1/libraries'',
     ''DELETE /api/v1/libraries'', ''PUT /api/v1/settings/server'', ''PUT /api/v1/settings/navigation'',
     ''PUT /api/v1/settings/onboarding'', ''PUT /api/v1/settings/playback'', ''PUT /api/v1/settings/transcoder'',
     ''PUT /api/v1/settings/subtitles'', ''PUT /api/v1/settings/subtitle-picker'', ''PUT /api/v1/settings/scans'',
     ''PUT /api/v1/settings/dlna'', ''PUT /api/v1/settings/jellyfin'', ''PUT /api/v1/settings/trusted-https'',
     ''POST /api/v1/settings/trusted-https/validate'', ''POST /api/v1/settings/trusted-https/test'', ''PUT /api/v1/settings/updates'',
     ''DELETE /api/v1/settings/trusted-https'', ''POST /api/v1/transcoder/test'', ''POST /api/v1/tasks/{task}'',
     ''POST /api/v1/backups'', ''POST /api/v1/backups/verify'', ''POST /api/v1/viewing-imports/preview'',
     ''POST /api/v1/viewing-imports/{id}/apply'', ''POST /api/v1/viewing-syncs'', ''POST /api/v1/viewing-syncs/{id}/run'',
     ''POST /api/v1/updates'', ''POST /api/v1/updates/check'']"

definition mcpBlockedRoutes :: "string list" where
  "mcpBlockedRoutes =
    [''POST /api/v1/home-assistant/players/claims'', ''POST /api/v1/home-assistant/players/{id}/release'', ''POST /api/v1/items/{id}/playback-prepare'',
     ''DELETE /api/v1/items/{id}/playback-prepare'', ''PUT /api/v1/configuration/{key}'', ''DELETE /api/v1/configuration/{key}'',
     ''GET /api/v1/activity'', ''GET /api/v1/remote-players'', ''PUT /api/v1/remote-players/{id}'',
     ''POST /api/v1/remote-players/{id}/commands'', ''DELETE /api/v1/management-access'', ''DELETE /api/v1/management-access/devices'',
     ''GET /api/v1/management-access'', ''POST /api/v1/management-access'', ''POST /api/v1/management-access/devices'',
     ''DELETE /api/v1/cast/sessions/{id}'', ''DELETE /api/v1/items/{id}/bookmarks/{bookmark}'', ''DELETE /api/v1/items/{id}/playback-preferences'',
     ''DELETE /api/v1/api-keys/{id}'', ''DELETE /api/v1/devices/{id}'', ''DELETE /api/v1/downloads/{id}'',
     ''DELETE /api/v1/media-shares/{id}'', ''DELETE /api/v1/passkeys/{id}'', ''DELETE /api/v1/me/mfa'',
     ''DELETE /api/v1/me/oidc'', ''DELETE /api/v1/me/saml'', ''DELETE /api/v1/profiles/{id}'',
     ''DELETE /api/v1/remote-access/kill'', ''DELETE /api/v1/session'', ''DELETE /api/v1/sessions'',
     ''GET /api/v1/activity/export'', ''GET /api/v1/agent-connections/certificate'', ''GET /api/v1/api-keys'',
     ''GET /api/v1/backup'', ''GET /api/v1/cast/config'', ''GET /api/v1/cast/sessions/{id}'',
     ''GET /api/v1/devices'', ''GET /api/v1/downloads'', ''GET /api/v1/downloads/{id}'',
     ''GET /api/v1/downloads/{id}/file'', ''GET /api/v1/downloads/{id}/manifest'', ''GET /api/v1/downloads/identity'',
     ''GET /api/v1/events'', ''GET /api/v1/items/{id}/bookmarks'', ''GET /api/v1/items/{id}/download-tracks'',
     ''GET /api/v1/items/{id}/playback-preferences'', ''GET /api/v1/items/{id}/watch-progress'', ''GET /api/v1/me/media-preferences'',
     ''GET /api/v1/media-shares'', ''GET /api/v1/passkeys'', ''GET /api/v1/me/oidc/link'',
     ''GET /api/v1/me/saml/link'', ''GET /api/v1/profiles'', ''GET /api/v1/session/oidc'',
     ''GET /api/v1/session/saml'', ''GET /api/v1/supporter'', ''GET /api/v1/supporter/certificate.svg'',
     ''GET /api/v1/supporter/collection'', ''GET /api/v1/supporter/certificates/one-time.svg'', ''GET /api/v1/supporter/certificates/monthly.svg'',
     ''GET /api/v1/supporter/certificates/yearly.svg'', ''GET /api/v1/supporter/display'', ''PUT /api/v1/supporter/display'',
     ''GET /api/v1/supporter/certificates/patron-order.svg'', ''GET /api/v1/supporter/certificates/living-standard.svg'', ''GET /api/v1/watch-rooms/{id}/events'',
     ''GET /api/v1/home-assistant'', ''GET /api/v1/home-assistant/library'', ''GET /api/v1/home-assistant/players'',
     ''POST /api/v1/api-keys'', ''POST /api/v1/cast/devices/scan'', ''POST /api/v1/cast/sessions/{id}/commands'',
     ''POST /api/v1/items/{id}/bookmarks'', ''POST /api/v1/items/{id}/cast'', ''POST /api/v1/items/{id}/downloads'',
     ''POST /api/v1/items/{id}/playback-events'', ''POST /api/v1/me/mfa/setup'', ''POST /api/v1/passkeys/login/begin'',
     ''POST /api/v1/passkeys/login/finish'', ''POST /api/v1/passkeys/register/begin'', ''POST /api/v1/passkeys/register/finish'',
     ''POST /api/v1/media-shares'', ''POST /api/v1/media-shares/claim'', ''POST /api/v1/profiles'',
     ''POST /api/v1/quick-connect'', ''POST /api/v1/quick-connect/token'', ''POST /api/v1/quick-connect/cancel'',
     ''GET /api/v1/quick-connect/pending'', ''GET /api/v1/quick-connect/{code}'', ''POST /api/v1/quick-connect/{code}'',
     ''POST /api/v1/remote-access/kill'', ''POST /api/v1/session'', ''POST /api/v1/setup'',
     ''POST /api/v1/supporter/activate'', ''POST /api/v1/home-assistant/pair'', ''POST /api/v1/home-assistant/pairings'',
     ''POST /api/v1/home-assistant/playback/{id}'', ''POST /api/v1/home-assistant/players/{id}/commands'', ''POST /api/v1/home-assistant/token'',
     ''PUT /api/v1/home-assistant/players/{id}'', ''PUT /api/v1/items/{id}/playback-preferences'', ''PUT /api/v1/items/{id}/progress/sync'',
     ''PUT /api/v1/me/media-preferences'', ''PUT /api/v1/me/mfa'', ''PUT /api/v1/profiles/{id}'',
     ''PUT /api/v1/profiles/{id}/password'', ''PUT /api/v1/settings/home-assistant'', ''PUT /api/v1/settings/mfa'',
     ''PUT /api/v1/settings/session-timeouts'', ''PUT /api/v1/settings/public-session-timeouts'', ''DELETE /api/v1/settings/public-session-timeouts'']"

section \<open>Decisions\<close>

text \<open>The literal table, and the routes the start of the program adds to it.\<close>

definition publicRoutes :: "(string, route_access) gomap" where
  "publicRoutes = fold (\<lambda>p. mput p PublicRoute)
     (scim_patterns @ filter (\<lambda>p. p \<noteq> ''GET /oauth/authorize'' \<and> p \<noteq> ''POST /oauth/authorize'') mcpgateway_patterns)
     publicRoutes_literal"

definition PublicBootstrapRouteAllowed :: "string \<Rightarrow> bool" where
  "PublicBootstrapRouteAllowed pattern \<longleftrightarrow> pattern \<in> set bootstrap_patterns"

definition remotePublicRouteDenied :: "string \<Rightarrow> bool" where
  "remotePublicRouteDenied pattern \<longleftrightarrow>
     (map_of publicRoutes pattern \<noteq> None \<and> \<not> PublicBootstrapRouteAllowed pattern) \<or> pattern \<in> set remote_denied_patterns"

definition publicViewerRouteAllowed :: "string \<Rightarrow> bool" where
  "publicViewerRouteAllowed pattern =
     (if pattern = ''GET /api/v1/remote-players'' \<or> pattern = ''PUT /api/v1/remote-players/{id}'' \<or> pattern = ''POST /api/v1/remote-players/{id}/commands''
      then True
      else if pattern = ''GET /api/v1'' \<or> pattern = ''GET /api/v1/openapi.json'' then False
      else if pattern \<in> set apiLibraryRoutes \<or> pattern \<in> set apiWriteRoutes \<or> pattern \<in> set apiStreamRoutes \<or> pattern \<in> set apiDownloadRoutes then True
      else if pattern \<in> set jellyfinLibraryRoutes then True
      else pattern \<in> set viewer_route_patterns)"

definition player_api_routes :: api_routes where
  "player_api_routes = \<lparr>rt_SessionOnly = apiSessionOnlyRoutes, rt_JellyfinLibrary = jellyfinLibraryRoutes, rt_Library = apiLibraryRoutes,
     rt_Write = apiWriteRoutes, rt_Stream = apiStreamRoutes, rt_Download = apiDownloadRoutes\<rparr>"

definition profileAllowsAPI :: "profile \<Rightarrow> string \<Rightarrow> bool" where
  "profileAllowsAPI p pattern = profile_AllowsAPI p pattern player_api_routes"

datatype access_class = ReadAccess | WriteAccess | ManageAccess | OtherAccess

definition mcp_Allows :: "string \<Rightarrow> access_class \<Rightarrow> bool" where
  "mcp_Allows pattern access = (case access of
     ReadAccess \<Rightarrow> pattern \<in> set mcpReadRoutes
   | WriteAccess \<Rightarrow> pattern \<in> set mcpWriteRoutes
   | ManageAccess \<Rightarrow> pattern \<in> set mcpManageRoutes
   | OtherAccess \<Rightarrow> False)"

section \<open>The tables do not overlap\<close>

text \<open>A number for each pattern; patterns with different numbers are different.\<close>

fun pattern_code :: "string \<Rightarrow> nat" where
  "pattern_code [] = 0"
| "pattern_code (c # s) = of_char c + 2 * pattern_code s"

lemma pattern_distinct: "map pattern_code xs = cs \<Longrightarrow> distinct cs \<Longrightarrow> distinct xs"
  by (auto simp: distinct_map)

lemma api_tables_distinct: "distinct (apiLibraryRoutes @ apiWriteRoutes @ apiStreamRoutes @ apiDownloadRoutes @ apiSessionOnlyRoutes @ jellyfinLibraryRoutes @ [''GET /api/v1/me'', ''PUT /api/v1/me/language''])"
proof (rule pattern_distinct)
  show "map pattern_code (apiLibraryRoutes @ apiWriteRoutes @ apiStreamRoutes @ apiDownloadRoutes @ apiSessionOnlyRoutes @ jellyfinLibraryRoutes @ [''GET /api/v1/me'', ''PUT /api/v1/me/language'']) =
    [466104773041, 954591681022385, 477983771057, 147889, 1820191153, 59906481, 474843569, 222030563761, 15471689435569, 
     61151665, 28379113905, 57446103473, 30946314025393, 239532465, 30616779185, 941345201, 122450332081, 14461361, 
     14821809, 475277745, 14983375281, 29182385, 950094257, 30403971505, 926129, 237296689, 29683473, 3955111761, 466104773082, 
     954591681022426, 7636733448179334, 955967542266, 8186011446955654, 7167428889050, 241794124250, 30946314025434, 
     924035981266566, 108591417818, 108591851994, 14983375322, 14982941146, 479065082, 30669771770, 244934233734, 62249928948186, 
     1853025090010, 1869583354, 62115496530938, 114917824467962, 459671297871494, 7541111217, 243294550490, 239669022847994, 
     29546451962, 111311557626, 869124529, 121647253937, 119834511381498, 973178031750, 3698161, 747290769, 12243827736721, 
     62749667393681, 23949620241, 29640881, 7693945009, 7918476347569, 30749634193, 192333313041, 53474321, 29559217, 
     3885405555121, 3856757594545, 124967885233, 30019121154481, 29610961, 930902381562, 227187121, 7594482097, 219054512561, 
     60755857030, 28916145, 119069955066, 476279819910, 29783335326714, 119133341306502, 459689606, 1768909233, 414928518, 
     1772054961, 440094342, 3754611706, 25258458, 202067590, 119413169, 30424485510, 7281447810042, 14685971428346, 
     974271566842, 900861929905, 487135783345, 6824497, 3734630097, 112625, 732145, 3709937, 1841649, 936983537, 111025, 
     918371313, 14687665, 120330206193, 459601, 3708337, 30387551217, 939074289, 1826693873, 62312617393, 16224811423153, 
     1518001, 856287706]"
    by (simp add: apiLibraryRoutes_def apiWriteRoutes_def apiStreamRoutes_def apiDownloadRoutes_def apiSessionOnlyRoutes_def jellyfinLibraryRoutes_def)
qed simp

lemma bootstrap_distinct: "distinct (bootstrap_patterns @ scim_patterns @ mcpgateway_patterns)"
proof (rule pattern_distinct)
  show "map pattern_code (bootstrap_patterns @ scim_patterns @ mcpgateway_patterns) =
    [13836733425, 1825019770, 114484025210, 223972136826, 3768845297, 433705649, 425585, 6750481, 862776305, 431188977, 
     216984561, 26856433, 3527251385329, 107588593, 27742116849, 433470449, 56671217, 1738111985, 3638131697, 2559515633, 
     109992945, 891231271921, 1864041364465, 24485788482545, 6891019249, 105201, 7225073, 236736241, 473472406, 225829147642, 
     1666014193, 1664441329, 852062198769, 440328633329, 220193160177, 872352753, 108497, 217146, 835537, 1671226, 114922490, 
     1668598193, 3255249, 1727933393, 1769261489, 3451857, 1715153873, 108943418, 1592273, 3184698, 909721220090, 1835286672378, 
     227430338426, 458821701498, 7299945466, 457935967226, 895888413690, 851124785, 855451185, 3381362417, 7039844081, 
     14079688314, 3642457841, 13304817, 14717891921, 108658792570, 119585069176954, 3867292689, 23949620241, 1933641841, 
     519101674898994193, 1779548824753, 7393346737, 243146785969, 112829617, 3796477105, 28927153, 57854458, 949839025, 
     949839066, 3799356154, 7598712454, 3651699678391313, 25713, 205958, 51578, 970095868783633, 115723770, 113295025, 
     226590202, 13970938, 27430394]"
    by (simp add: bootstrap_patterns_def scim_patterns_def mcpgateway_patterns_def)
qed simp


section \<open>Properties\<close>

lemma map_of_fold_mput: "map_of (fold (\<lambda>p. mput p v) ps m) k = (if k \<in> set ps then Some v else map_of m k)"
  by (induction ps arbitrary: m) auto

text \<open>C27. What an API key reaches, read off the tables: the scopes never compete, since no route is in two tables.  A
  Home Assistant key reaches the Home Assistant routes and nothing else; any other key reaches a route exactly when it
  has the scope of the one table the route is in, the administrative scope for the remaining routes of the API, and
  never a route that is for sessions only.\<close>

theorem api_scopes_exact:
  "profileAllowsAPI p pattern \<longleftrightarrow>
     (if ''home-assistant'' \<in> set (pr_Scopes p) then contains_text pattern '' /api/v1/home-assistant/''
      else pattern \<notin> set apiSessionOnlyRoutes \<and>
        (pattern \<in> {''GET /api/v1/me'', ''PUT /api/v1/me/language''} \<and> (''library'' \<in> set (pr_Scopes p) \<or> ''admin'' \<in> set (pr_Scopes p))
         \<or> list_ex (\<lambda>(scope, table). pattern \<in> set table \<and> scope \<in> set (pr_Scopes p))
             [(''download'', apiDownloadRoutes), (''stream'', apiStreamRoutes), (''write'', apiWriteRoutes), (''library'', apiLibraryRoutes),
              (''library'', jellyfinLibraryRoutes)]
         \<or> contains_text pattern '' /api/v1/'' \<and> ''admin'' \<in> set (pr_Scopes p)
           \<and> pattern \<notin> set (apiLibraryRoutes @ apiWriteRoutes @ apiStreamRoutes @ apiDownloadRoutes @ jellyfinLibraryRoutes)))"
proof -
  have disj: "(pattern \<in> set apiLibraryRoutes \<longrightarrow> pattern \<notin> set apiWriteRoutes \<and> pattern \<notin> set apiStreamRoutes \<and> pattern \<notin> set apiDownloadRoutes)
    \<and> (pattern \<in> set apiWriteRoutes \<longrightarrow> pattern \<notin> set apiStreamRoutes \<and> pattern \<notin> set apiDownloadRoutes)
    \<and> (pattern \<in> set apiStreamRoutes \<longrightarrow> pattern \<notin> set apiDownloadRoutes)
    \<and> (pattern \<in> set jellyfinLibraryRoutes \<longrightarrow> pattern \<notin> set apiLibraryRoutes \<and> pattern \<notin> set apiWriteRoutes \<and> pattern \<notin> set apiStreamRoutes
        \<and> pattern \<notin> set apiDownloadRoutes)
    \<and> (pattern \<in> set [''GET /api/v1/me'', ''PUT /api/v1/me/language''] \<longrightarrow> pattern \<notin> set apiLibraryRoutes \<and> pattern \<notin> set apiWriteRoutes
        \<and> pattern \<notin> set apiStreamRoutes \<and> pattern \<notin> set apiDownloadRoutes \<and> pattern \<notin> set jellyfinLibraryRoutes)"
    using api_tables_distinct by (simp only: distinct_append set_append) blast
  have me: "pattern \<in> set [''GET /api/v1/me'', ''PUT /api/v1/me/language''] \<longleftrightarrow> pattern = ''GET /api/v1/me'' \<or> pattern = ''PUT /api/v1/me/language''"
    by simp
  show ?thesis
  proof (cases "''home-assistant'' \<in> set (pr_Scopes p) \<or> pattern \<in> set apiSessionOnlyRoutes")
    case True
    then show ?thesis by (auto simp: profileAllowsAPI_def profile_AllowsAPI_def AllowsAPI_def hasScope_def player_api_routes_def)
  next
    case False
    then have eq: "profileAllowsAPI p pattern =
      (if pattern = ''GET /api/v1/me'' \<or> pattern = ''PUT /api/v1/me/language'' then ''library'' \<in> set (pr_Scopes p) \<or> ''admin'' \<in> set (pr_Scopes p)
       else if pattern \<in> set jellyfinLibraryRoutes then ''library'' \<in> set (pr_Scopes p)
       else routeScope pattern player_api_routes \<noteq> '''' \<and> routeScope pattern player_api_routes \<in> set (pr_Scopes p))"
      by (simp add: profileAllowsAPI_def profile_AllowsAPI_def AllowsAPI_def hasScope_def player_api_routes_def Let_def)
    have scope: "routeScope pattern player_api_routes = (if pattern \<in> set apiLibraryRoutes then ''library'' else if pattern \<in> set apiWriteRoutes then ''write''
      else if pattern \<in> set apiStreamRoutes then ''stream'' else if pattern \<in> set apiDownloadRoutes then ''download''
      else if contains_text pattern '' /api/v1/'' then ''admin'' else '''')"
      by (simp add: routeScope_def player_api_routes_def)
    show ?thesis
    proof (cases "pattern = ''GET /api/v1/me'' \<or> pattern = ''PUT /api/v1/me/language''")
      case known: True
      with disj False show ?thesis unfolding eq me by auto
    next
      case other: False
      with disj False show ?thesis unfolding eq scope me by (cases "pattern \<in> set jellyfinLibraryRoutes") auto
    qed
  qed
qed

lemma admin_patterns_denied:
  "list_all remotePublicRouteDenied (scim_patterns @ mcpgateway_patterns)"
  unfolding list_all_iff
proof
  fix p
  assume p: "p \<in> set (scim_patterns @ mcpgateway_patterns)"
  have boot: "p \<notin> set bootstrap_patterns" using p bootstrap_distinct by (simp only: distinct_append set_append) blast
  show "remotePublicRouteDenied p"
  proof (cases "p = ''GET /oauth/authorize'' \<or> p = ''POST /oauth/authorize''")
    case True
    then have "p \<in> set remote_denied_patterns" by (elim disjE) (simp_all add: remote_denied_patterns_def)
    then show ?thesis by (simp add: remotePublicRouteDenied_def)
  next
    case False
    with p have "map_of publicRoutes p = Some PublicRoute" unfolding publicRoutes_def map_of_fold_mput by auto
    with boot show ?thesis by (simp add: remotePublicRouteDenied_def PublicBootstrapRouteAllowed_def)
  qed
qed

lemma code_disjoint:
  "map pattern_code xs = cs \<Longrightarrow> map pattern_code ys = ds \<Longrightarrow> list_all (\<lambda>c. c \<notin> set ds) cs \<Longrightarrow> x \<in> set xs \<Longrightarrow> x \<notin> set ys"
  by (metis image_eqI list.set_map list_all_iff)

abbreviation remote_viewer_tables :: "string list" where
  "remote_viewer_tables \<equiv> apiLibraryRoutes @ apiWriteRoutes @ apiStreamRoutes @ apiDownloadRoutes @ jellyfinLibraryRoutes @ viewer_route_patterns"

abbreviation closed_routes :: "string list" where
  "closed_routes \<equiv> mcpManageRoutes @ filter (\<lambda>p. p \<noteq> ''DELETE /api/v1/session'') apiSessionOnlyRoutes"

lemma remote_viewer_codes: "map pattern_code remote_viewer_tables =
    [466104773041, 954591681022385, 477983771057, 147889, 1820191153, 59906481, 474843569, 222030563761, 15471689435569, 61151665,
     28379113905, 57446103473, 30946314025393, 239532465, 30616779185, 941345201, 122450332081, 14461361, 14821809, 475277745,
     14983375281, 29182385, 950094257, 30403971505, 926129, 237296689, 29683473, 3955111761, 466104773082, 954591681022426,
     7636733448179334, 955967542266, 8186011446955654, 7167428889050, 241794124250, 30946314025434, 924035981266566, 108591417818,
     108591851994, 14983375322, 14982941146, 479065082, 30669771770, 244934233734, 62249928948186, 1853025090010, 1869583354,
     62115496530938, 114917824467962, 459671297871494, 7541111217, 243294550490, 239669022847994, 29546451962, 111311557626,
     869124529, 121647253937, 119834511381498, 973178031750, 3698161, 747290769, 12243827736721, 62749667393681, 23949620241,
     29640881, 7693945009, 7918476347569, 30749634193, 192333313041, 53474321, 29559217, 3885405555121, 3856757594545,
     124967885233, 30019121154481, 29610961, 930902381562, 227187121, 7594482097, 219054512561, 60755857030, 6824497, 3734630097,
     112625, 732145, 3709937, 1841649, 936983537, 111025, 918371313, 14687665, 120330206193, 459601, 3708337, 30387551217,
     939074289, 1826693873, 62312617393, 16224811423153, 470097103281, 3672633265, 1518001, 856287706, 459689606, 464954, 23793,
     112625, 3707185, 1852049, 478230065, 1851825, 117048314, 119590033, 1848337, 1853073, 1855217, 1898905137, 3702321,
     3672214238970, 3709754, 28145981882, 486327556538, 14476745146, 7606475194, 3742138, 59399866, 1889003706, 239607034,
     114162938, 29605114, 121575575686, 30392897670, 15561115951238, 111025, 14687665, 3708337, 1704859057, 104863153,
     62312617393, 16224811423153, 28391511473, 23949620241, 950553073, 3731080337, 13744881, 1826693873, 939074289, 6824497,
     220679153, 26993609713, 1841649, 732145, 3709937, 918371313, 120330206193, 30387551217, 936983537, 56783023098, 14720846074,
     450525808890, 237947130, 443140346, 241493985530, 110354876666, 30393894010, 53987219578, 7598224506, 3890278987898]"
  by (simp add: apiLibraryRoutes_def apiWriteRoutes_def apiStreamRoutes_def apiDownloadRoutes_def jellyfinLibraryRoutes_def viewer_route_patterns_def)

lemma closed_codes: "map pattern_code closed_routes =
    [60257003953, 59062705, 3679537585, 919263665, 109959601, 853928369, 15047961009, 57158065, 3719575985, 115837361, 57444785,
     3674601905, 15570276142726, 972410572422, 219572701658, 117361040102394, 7107597306, 120117365210, 127653884219014,
     30095922170, 1882690554, 979602656902, 248999699007962, 458503162, 1834012294, 14805338586, 234979035610, 225707526618,
     55504767450, 232420510170, 118320761306, 7422986389978, 7339477466, 3377957338, 58054904282, 1938344610266, 1836178457170938,
     122727024235514, 29451848154, 15506756882054, 29923931130, 3907826682, 118125562, 15099130874, 7675455468538, 62692375917562,
     7349203962, 3728468603898, 114889722, 6906516474, 28916145, 119069955066, 476279819910, 29783335326714, 119133341306502,
     1768909233, 414928518, 1772054961, 440094342, 3754611706, 25258458, 202067590, 119413169, 30424485510, 7281447810042,
     14685971428346, 974271566842, 900861929905, 487135783345]"
  by (simp add: mcpManageRoutes_def apiSessionOnlyRoutes_def)

lemma closed_not_viewer: "p \<in> set closed_routes \<Longrightarrow> p \<notin> set remote_viewer_tables"
  by (rule code_disjoint [OF closed_codes remote_viewer_codes]) simp

lemma viewer_in_tables: "publicViewerRouteAllowed p \<Longrightarrow> p \<in> set remote_viewer_tables"
proof -
  have "''GET /api/v1/remote-players'' \<in> set apiStreamRoutes" "''PUT /api/v1/remote-players/{id}'' \<in> set apiStreamRoutes"
    "''POST /api/v1/remote-players/{id}/commands'' \<in> set apiStreamRoutes"
    by (simp_all add: apiStreamRoutes_def)
  then show "publicViewerRouteAllowed p \<Longrightarrow> p \<in> set remote_viewer_tables"
    unfolding publicViewerRouteAllowed_def by (auto split: if_splits)
qed

lemma sign_out_allowed: "publicViewerRouteAllowed ''DELETE /api/v1/session''"
proof -
  have "''DELETE /api/v1/session'' \<in> set viewer_route_patterns" by (simp add: viewer_route_patterns_def)
  then show ?thesis by (simp add: publicViewerRouteAllowed_def)
qed


end
