(* ===== verification/PlayerGate.thy ===== *)
theory PlayerGate
  imports PlayerRoutes
begin

text \<open>
  The gate in front of every handler of the player's server: apps/player/internal/server/auth.go (\<open>protect\<close>,
  \<open>serveIdentity\<close>, \<open>viewerAccess\<close>, \<open>identity\<close>, \<open>public\<close>), profiles_token.go, jellyfin_media_auth.go, and what they
  need of identitycore/session_requests.go.  It puts the session store, the token check, the access policy and the
  route tables together.

  A request is what the gate reads of it.  Whether its page origin is allowed, whether a capability link is valid for
  the route and whether it carries a Jellyfin media token are results of parsing that are given with the request.
  The token check takes the read lock first and the write lock if it has to change something; what other calls do
  in between is the second state \<open>S2\<close>.
\<close>

section \<open>Requests and configuration\<close>

record gate_env =
  ge_Config :: session_config
  ge_Profiles :: "profile list"
  ge_StoreError :: bool
  ge_Required :: bool
  ge_RequireMFA :: bool
  ge_PublicMaximumAge :: duration

text \<open>\<open>gr_MediaToken\<close>: no Jellyfin media token, one that is not valid (empty), or a token.\<close>

record gate_request =
  gr_Token :: string
  gr_View :: request_view
  gr_Pattern :: string
  gr_Clock :: "nat \<times> nat"
  gr_Capability :: bool
  gr_MediaToken :: "string option"
  gr_OriginAllowed :: bool
  gr_API :: bool

abbreviation gate_now :: "gate_env \<Rightarrow> int" where
  "gate_now env \<equiv> time_unix (sc_Now (ge_Config env))"

definition sessionExpired :: "gate_env \<Rightarrow> session \<Rightarrow> int \<Rightarrow> bool" where
  "sessionExpired env s now =
     (case SessionTimeouts s (sc_Timeouts (ge_Config env)) (sc_PublicTimeouts (ge_Config env)) of (inactive, absolute) \<Rightarrow>
        SessionExpired s now inactive absolute)"

section \<open>The viewer of a request\<close>

definition evaluateToken ::
  "gate_env \<Rightarrow> gate_request \<Rightarrow> string \<Rightarrow> int \<Rightarrow> bool \<Rightarrow> token_state \<Rightarrow> (token_access option \<times> token_outcome) \<times> token_state" where
  "evaluateToken env req key now settle S = EvaluateToken (sessionExpired env) (ge_Profiles env) (gr_View req) key now settle S"

definition store_access ::
  "(string \<Rightarrow> string) \<Rightarrow> gate_env \<Rightarrow> gate_request \<Rightarrow> token_state \<Rightarrow> token_state \<Rightarrow> token_access option \<times> token_state" where
  "store_access H env req S S2 =
     (if gr_Token req = '''' then (None, S)
      else let key = H (gr_Token req); now = gate_now env in
        (case evaluateToken env req key now False S of ((access, outcome), S') \<Rightarrow>
          if outcome = TokenSettle then
            (case evaluateToken env req key now True S2 of ((access', outcome'), S'') \<Rightarrow>
               (if outcome' = TokenAccepted then access' else None, S''))
          else (if outcome = TokenAccepted then access else None, S')))"

definition requestToken :: "(string \<Rightarrow> string) \<Rightarrow> session_map \<Rightarrow> gate_request \<Rightarrow> string option" where
  "requestToken H sessions req =
     (case map_of sessions (H (gr_Token req)) of
        Some s \<Rightarrow> if \<not> SessionMatchesRequest s (Some (gr_View req)) then None
                  else if ValidSessionToken (gr_Token req) then Some (gr_Token req) else None
      | None \<Rightarrow> if ValidSessionToken (gr_Token req) then Some (gr_Token req) else None)"

definition publicSession :: "(string \<Rightarrow> string) \<Rightarrow> gate_env \<Rightarrow> gate_request \<Rightarrow> session_map \<Rightarrow> bool" where
  "publicSession H env req sessions = (case requestToken H sessions req of
     None \<Rightarrow> False | Some token \<Rightarrow> session_Public H (ge_Config env) token sessions)"

definition recentlyAuthenticated :: "(string \<Rightarrow> string) \<Rightarrow> gate_env \<Rightarrow> gate_request \<Rightarrow> duration \<Rightarrow> session_map \<Rightarrow> bool" where
  "recentlyAuthenticated H env req maximumAge sessions = (case requestToken H sessions req of
     None \<Rightarrow> False | Some token \<Rightarrow> RecentlyAuthenticated H (ge_Config env) token maximumAge sessions)"

definition accessPublic :: "(string \<Rightarrow> string) \<Rightarrow> gate_env \<Rightarrow> gate_request \<Rightarrow> session_map \<Rightarrow> token_access \<Rightarrow> bool" where
  "accessPublic H env req sessions access =
     (if ta_Resolved access then ta_SessionFound access \<and> ss_Channel (ta_Session access) = ''public''
      else publicSession H env req sessions)"

definition accessRecentlyAuthenticated ::
  "(string \<Rightarrow> string) \<Rightarrow> gate_env \<Rightarrow> gate_request \<Rightarrow> session_map \<Rightarrow> token_access \<Rightarrow> duration \<Rightarrow> bool" where
  "accessRecentlyAuthenticated H env req sessions access maximumAge =
     (if ta_Resolved access then ta_SessionFound access \<and> RecentlyStrong (ta_Session access) maximumAge (sc_Now (ge_Config env))
      else recentlyAuthenticated H env req maximumAge sessions)"

text \<open>The profile of the owner of a server without profiles.\<close>

definition local_owner :: token_access where
  "local_owner = \<lparr>ta_Profile = zero_profile\<lparr>pr_ID := ''local-owner'', pr_Name := ''Owner'', pr_Owner := True\<rparr>,
     ta_Session = zero_session, ta_Resolved = False, ta_SessionFound = False\<rparr>"

definition HasProfiles :: "gate_env \<Rightarrow> bool" where
  "HasProfiles env \<longleftrightarrow> length (ge_Profiles env) > 0"

definition identity ::
  "(string \<Rightarrow> string) \<Rightarrow> gate_env \<Rightarrow> gate_request \<Rightarrow> token_state \<Rightarrow> token_state \<Rightarrow> token_access option \<times> token_state" where
  "identity H env req S S2 = (case store_access H env req S S2 of
     (Some access, S') \<Rightarrow> (Some access, S')
   | (None, S') \<Rightarrow> (if \<not> ge_Required env \<and> \<not> HasProfiles env then Some local_owner else None, S'))"

section \<open>Decisions\<close>

text \<open>What a request from a management device may reach before its owner has signed in.\<close>

definition ManagementBootstrapRoute :: "string \<Rightarrow> bool" where
  "ManagementBootstrapRoute pattern \<longleftrightarrow> has_prefix pattern ''GET /static/'' \<or> pattern \<in> set
     [''GET /healthz'', ''GET /favicon.ico'', ''GET /manifest.webmanifest'', ''GET /service-worker.js'', ''GET /offline'',
      ''GET /login'', ''POST /login'', ''GET /login/mfa'', ''POST /login/mfa'', ''POST /api/v1/session'',
      ''GET /login/oidc'', ''GET /login/oidc/callback'', ''GET /api/v1/session/oidc'',
      ''GET /login/saml'', ''GET /login/saml/metadata'', ''POST /login/saml/acs'', ''GET /api/v1/session/saml'',
      ''POST /api/v1/passkeys/login/begin'', ''POST /api/v1/passkeys/login/finish'',
      ''POST /auth/passkeys/login/begin'', ''POST /auth/passkeys/login/finish'']"


definition viewerAccess :: "(string \<Rightarrow> string) \<Rightarrow> gate_env \<Rightarrow> gate_request \<Rightarrow> session_map \<Rightarrow> token_access \<Rightarrow> denial" where
  "viewerAccess H env req sessions access = EvaluateAccess
     \<lparr>ai_Public = rv_remote (gr_View req), ai_Owner = pr_Owner (ta_Profile access), ai_APIKey = pr_APIKey (ta_Profile access),
      ai_RecentlyAuthenticated = accessRecentlyAuthenticated H env req sessions access (ge_PublicMaximumAge env),
      ai_PublicSession = accessPublic H env req sessions access,
      ai_RemoteRouteAllowed = publicViewerRouteAllowed (gr_Pattern req),
      ai_ScheduleAllowed = profile_Allowed (ta_Profile access) (rv_remote (gr_View req)) (gr_Clock req),
      ai_APIKeyAllowed = profileAllowsAPI (ta_Profile access) (gr_Pattern req),
      ai_LocalOwner = (pr_ID (ta_Profile access) = ''local-owner''), ai_MFARequired = ge_RequireMFA env,
      ai_Secured = profile_Secured (ta_Profile access), ai_EnrollmentRoute = MFAEnrollmentRoute (gr_Pattern req)\<rparr>"

definition route_public :: "gate_request \<Rightarrow> string \<Rightarrow> bool" where
  "route_public req pattern = (case map_of publicRoutes pattern of
     Some PublicRoute \<Rightarrow> True
   | Some LocalCompatibilityRoute \<Rightarrow> gr_Token req = ''''
   | Some CapabilityRoute \<Rightarrow> gr_Capability req
   | None \<Rightarrow> False)"

text \<open>Whether the route is public after the media token, and whether the request goes on.\<close>

definition jellyfinMediaRoutePublic :: "gate_request \<Rightarrow> bool \<Rightarrow> bool \<times> bool" where
  "jellyfinMediaRoutePublic req public = (case gr_MediaToken req of
     None \<Rightarrow> (public, True)
   | Some token \<Rightarrow> if token \<noteq> '''' then (False, True) else (False, False))"

datatype gate_result = OriginRefused | StorageUnavailable | RemoteNotFound | MediaTokenRefused | ServedPublic
  | StepUp | DeniedAccess denial | ServedViewer profile | AuthenticationRequired | RedirectToSignIn

definition serveIdentity ::
  "(string \<Rightarrow> string) \<Rightarrow> gate_env \<Rightarrow> gate_request \<Rightarrow> token_state \<Rightarrow> token_state \<Rightarrow> gate_result option \<times> token_state" where
  "serveIdentity H env req S S2 = (case identity H env req S S2 of
     (None, S') \<Rightarrow> (None, S')
   | (Some access, S') \<Rightarrow>
       let p = ta_Profile access; bound = ManagementProfileID (Some (gr_View req)); sessions = tk_Sessions S' in
       if bound \<noteq> '''' \<and> (pr_ID p \<noteq> bound \<or> \<not> pr_Owner p \<or> pr_APIKey p \<or> \<not> profile_Secured p
            \<or> accessPublic H env req sessions access \<or> \<not> accessRecentlyAuthenticated H env req sessions access (8 * hour))
       then (Some StepUp, S')
       else let d = viewerAccess H env req sessions access in
         if d \<noteq> Allowed then (Some (DeniedAccess d), S') else (Some (ServedViewer p), S'))"

definition protect ::
  "(string \<Rightarrow> string) \<Rightarrow> gate_env \<Rightarrow> gate_request \<Rightarrow> token_state \<Rightarrow> token_state \<Rightarrow> gate_result \<times> token_state" where
  "protect H env req S S2 =
     (if \<not> gr_OriginAllowed req then (OriginRefused, S)
      else if ge_StoreError env then (StorageUnavailable, S)
      else if rv_remote (gr_View req) \<and> remotePublicRouteDenied (gr_Pattern req) then (RemoteNotFound, S)
      else (case jellyfinMediaRoutePublic req (gr_Pattern req = '''' \<or> route_public req (gr_Pattern req)) of (public, valid) \<Rightarrow>
        if \<not> valid then (MediaTokenRefused, S)
        else let public' = (public \<and> \<not> (ManagementProfileID (Some (gr_View req)) \<noteq> '''' \<and> \<not> ManagementBootstrapRoute (gr_Pattern req))) in
          if public' then (ServedPublic, S)
          else (case serveIdentity H env req S S2 of
              (Some r, S') \<Rightarrow> (r, S')
            | (None, S') \<Rightarrow> (if gr_API req then AuthenticationRequired else RedirectToSignIn, S'))))"

section \<open>What was served rests on\<close>

lemma identity_cases:
  assumes "identity H env req S S2 = (Some acc, S')"
  obtains (token) T settle outcome where "T \<in> {S, S2}"
      "EvaluateToken (sessionExpired env) (ge_Profiles env) (gr_View req) (H (gr_Token req)) (gate_now env) settle T = ((Some acc, outcome), S')"
    | (open_server) "acc = local_owner" "\<not> ge_Required env" "ge_Profiles env = []"
proof -
  obtain a S1 where a: "store_access H env req S S2 = (a, S1)" by fastforce
  show ?thesis
  proof (cases a)
    case None
    with a assms open_server show ?thesis by (auto simp: identity_def HasProfiles_def split: if_splits)
  next
    case (Some acc')
    with a assms have acc: "acc' = acc" "S1 = S'" by (simp_all add: identity_def)
    obtain r1 o1 T1 where e1: "evaluateToken env req (H (gr_Token req)) (gate_now env) False S = ((r1, o1), T1)" by (metis prod.exhaust)
    obtain r2 o2 T2 where e2: "evaluateToken env req (H (gr_Token req)) (gate_now env) True S2 = ((r2, o2), T2)" by (metis prod.exhaust)
    show ?thesis
    proof (cases "o1 = TokenSettle")
      case True
      then have "r2 = Some acc" "T2 = S'" using a Some acc e1 e2 by (auto simp: store_access_def Let_def split: if_splits)
      then show ?thesis using token [of S2 True o2] e2 by (simp add: evaluateToken_def)
    next
      case False
      then have "r1 = Some acc" "T1 = S'" using a Some acc e1 by (auto simp: store_access_def Let_def split: if_splits)
      then show ?thesis using token [of S False o1] e1 by (simp add: evaluateToken_def)
    qed
  qed
qed

lemma protect_viewer:
  assumes "protect H env req S S2 = (ServedViewer p, S')"
  obtains acc where "identity H env req S S2 = (Some acc, S')" "p = ta_Profile acc"
    "viewerAccess H env req (tk_Sessions S') acc = Allowed"
    "ManagementProfileID (Some (gr_View req)) = '''' \<or> pr_ID p = ManagementProfileID (Some (gr_View req)) \<and> pr_Owner p \<and> \<not> pr_APIKey p \<and> profile_Secured p
       \<and> \<not> accessPublic H env req (tk_Sessions S') acc \<and> accessRecentlyAuthenticated H env req (tk_Sessions S') acc (8 * hour)"
    "\<not> (rv_remote (gr_View req) \<and> remotePublicRouteDenied (gr_Pattern req))"
proof -
  have served: "serveIdentity H env req S S2 = (Some (ServedViewer p), S')"
    and nd: "\<not> (rv_remote (gr_View req) \<and> remotePublicRouteDenied (gr_Pattern req))"
    using assms unfolding protect_def Let_def by (auto split: if_splits prod.splits option.splits)
  obtain a S1 where a: "identity H env req S S2 = (a, S1)" by fastforce
  show ?thesis
  proof (cases a)
    case None
    with served a show ?thesis by (simp add: serveIdentity_def)
  next
    case (Some acc)
    with served a have "S1 = S'" "p = ta_Profile acc" "viewerAccess H env req (tk_Sessions S') acc = Allowed"
      "ManagementProfileID (Some (gr_View req)) = '''' \<or> pr_ID p = ManagementProfileID (Some (gr_View req)) \<and> pr_Owner p \<and> \<not> pr_APIKey p \<and> profile_Secured p
       \<and> \<not> accessPublic H env req (tk_Sessions S') acc \<and> accessRecentlyAuthenticated H env req (tk_Sessions S') acc (8 * hour)"
      by (auto simp: serveIdentity_def Let_def split: if_splits)
    with a Some nd show ?thesis by (intro that) simp_all
  qed
qed

text \<open>What the access policy lets through, on the public internet.\<close>

lemma allowed_public:
  "EvaluateAccess x = Allowed \<Longrightarrow> ai_Public x \<Longrightarrow> \<not> ai_Owner x \<and> \<not> ai_APIKey x \<and> ai_RecentlyAuthenticated x \<and> ai_PublicSession x
     \<and> ai_RemoteRouteAllowed x \<and> ai_ScheduleAllowed x"
  by (auto simp: EvaluateAccess_def split: if_splits)

text \<open>A live session of a current, enabled profile, under the token of the request.\<close>

definition backed_by :: "(string \<Rightarrow> string) \<Rightarrow> gate_env \<Rightarrow> gate_request \<Rightarrow> token_state \<Rightarrow> session \<Rightarrow> profile \<Rightarrow> bool" where
  "backed_by H env req T s q \<longleftrightarrow> map_of (tk_Sessions T) (H (gr_Token req)) = Some s \<and> SessionMatchesRequest s (Some (gr_View req))
     \<and> \<not> sessionExpired env (use_Session (tk_Use T) (H (gr_Token req)) s (gate_now env)) (gate_now env)
     \<and> q \<in> set (ge_Profiles env) \<and> pr_ID q = ss_ProfileID s \<and> \<not> pr_Disabled q \<and> \<not> pr_SCIMDeleted q
     \<and> (ss_Channel s = ''public'' \<or> ss_ManagementDevice s \<noteq> '''' \<longrightarrow> ss_ProfileRevision s = pr_Revision q)"

lemma RecentlyStrong_use [simp]: "RecentlyStrong (use_Session u k s t) d now = RecentlyStrong s d now"
  by (simp add: RecentlyStrong_def)

lemma session_backed:
  assumes "EvaluateToken (sessionExpired env) (ge_Profiles env) (gr_View req) (H (gr_Token req)) (gate_now env) settle T = ((Some acc, outcome), S')"
    and key: "\<not> pr_APIKey (ta_Profile acc)"
  obtains s q where "backed_by H env req T s q" "ta_Session acc = use_Session (tk_Use T) (H (gr_Token req)) s (gate_now env)"
    "ta_Resolved acc" "ta_SessionFound acc"
    "ta_Profile acc = CompatibilityProfile (q\<lparr>pr_APIKey := False, pr_Scopes := pr_Scopes (ta_Profile acc)\<rparr>)
      \<or> ta_Profile acc = q\<lparr>pr_APIKey := False, pr_Scopes := pr_Scopes (ta_Profile acc)\<rparr>"
  using assms(1)
proof (rule token_accepted)
  fix q
  assume q: "q \<in> set (ge_Profiles env)" "\<not> pr_Disabled q" "\<not> pr_SCIMDeleted q" "ta_Resolved acc"
    "ta_SessionFound acc \<Longrightarrow> token_session_ok (sessionExpired env) (gr_View req) (H (gr_Token req)) (gate_now env) T q acc"
    "\<not> pr_APIKey (ta_Profile acc) \<Longrightarrow> ta_SessionFound acc \<and> \<not> sessionExpired env (ta_Session acc) (gate_now env) \<and> ss_ProfileID (ta_Session acc) = pr_ID q"
    "ta_Profile acc = CompatibilityProfile (q\<lparr>pr_APIKey := pr_APIKey (ta_Profile acc), pr_Scopes := pr_Scopes (ta_Profile acc)\<rparr>)
      \<or> ta_Profile acc = q\<lparr>pr_APIKey := pr_APIKey (ta_Profile acc), pr_Scopes := pr_Scopes (ta_Profile acc)\<rparr>"
  have found: "ta_SessionFound acc" and live: "\<not> sessionExpired env (ta_Session acc) (gate_now env)" "ss_ProfileID (ta_Session acc) = pr_ID q"
    using q(6) [OF key] by simp_all
  from q(5) [OF found] obtain s where s: "map_of (tk_Sessions T) (H (gr_Token req)) = Some s" "SessionMatchesRequest s (Some (gr_View req))"
    "ta_Session acc = use_Session (tk_Use T) (H (gr_Token req)) s (gate_now env)"
    "ss_Channel s = ''public'' \<or> ss_ManagementDevice s \<noteq> '''' \<longrightarrow> ss_ProfileRevision s = pr_Revision q"
    by (auto simp: token_session_ok_def)
  have "backed_by H env req T s q" using s live q(1-3) by (simp add: backed_by_def)
  with s found q(4,7) key show ?thesis by (intro that [of s q]) simp_all
qed

lemma compat_remote: "pr_Remote (CompatibilityProfile q) \<Longrightarrow> CompatibilityProfile q = q"
  by (simp add: CompatibilityProfile_def split: if_splits)

lemma allowed_not_owner: "\<not> pr_Owner p \<Longrightarrow> profile_Allowed p True clock \<Longrightarrow> pr_Remote p"
  by (simp add: profile_Allowed_def split: if_splits)

lemma protect_public:
  assumes "protect H env req S S2 = (ServedPublic, S')"
  shows "(gr_Pattern req = '''' \<or> map_of publicRoutes (gr_Pattern req) \<noteq> None)
    \<and> \<not> (rv_remote (gr_View req) \<and> remotePublicRouteDenied (gr_Pattern req))
    \<and> (ManagementProfileID (Some (gr_View req)) = '''' \<or> ManagementBootstrapRoute (gr_Pattern req))"
proof -
  have no: "serveIdentity H env req S S2 \<noteq> (Some ServedPublic, S')" for S'
    by (auto simp: serveIdentity_def Let_def split: option.splits prod.splits if_splits)
  obtain public valid where j: "jellyfinMediaRoutePublic req (gr_Pattern req = '''' \<or> route_public req (gr_Pattern req)) = (public, valid)" by fastforce
  have "public \<and> \<not> (ManagementProfileID (Some (gr_View req)) \<noteq> '''' \<and> \<not> ManagementBootstrapRoute (gr_Pattern req))"
    and nd: "\<not> (rv_remote (gr_View req) \<and> remotePublicRouteDenied (gr_Pattern req))"
    using assms j no unfolding protect_def Let_def by (auto split: if_splits prod.splits option.splits)
  moreover from this j have "gr_Pattern req = '''' \<or> route_public req (gr_Pattern req)"
    by (auto simp: jellyfinMediaRoutePublic_def split: option.splits if_splits)
  moreover have "route_public req (gr_Pattern req) \<Longrightarrow> map_of publicRoutes (gr_Pattern req) \<noteq> None"
    by (auto simp: route_public_def split: option.splits)
  ultimately show ?thesis by auto
qed

section \<open>Properties\<close>

text \<open>C29. The boundary to the public internet.  A request from there is served as a viewer's only if its token is of a live public
  session, signed in with a strong factor within the maximum age, of an enabled profile at the session's revision that
  is no owner and may be used remotely, never by an API key, on a route open to remote viewers and within the viewing
  schedule.  Without a viewer it is served only on the bootstrap routes, or on no route at all.  The session was there
  when the token was checked under one of the two locks, whatever happened in between.\<close>

theorem public_internet_boundary:
  assumes "protect H env req S S2 = (result, S')" "rv_remote (gr_View req)"
  shows "case result of
      ServedViewer p \<Rightarrow> \<not> remotePublicRouteDenied (gr_Pattern req) \<and> publicViewerRouteAllowed (gr_Pattern req)
        \<and> \<not> pr_Owner p \<and> \<not> pr_APIKey p \<and> pr_Remote p \<and> profile_Allowed p True (gr_Clock req)
        \<and> (\<exists>T \<in> {S, S2}. \<exists>s q. backed_by H env req T s q \<and> ss_Channel s = ''public'' \<and> ss_ProfileRevision s = pr_Revision q
             \<and> RecentlyStrong s (ge_PublicMaximumAge env) (sc_Now (ge_Config env))
             \<and> p = q\<lparr>pr_APIKey := False, pr_Scopes := pr_Scopes p\<rparr>)
    | ServedPublic \<Rightarrow> gr_Pattern req = '''' \<or> PublicBootstrapRouteAllowed (gr_Pattern req)
    | _ \<Rightarrow> True"
proof (cases result)
  case (ServedViewer p)
  obtain acc where acc: "identity H env req S S2 = (Some acc, S')" "p = ta_Profile acc"
    "viewerAccess H env req (tk_Sessions S') acc = Allowed" "\<not> remotePublicRouteDenied (gr_Pattern req)"
    by (rule protect_viewer [OF assms(1) [unfolded ServedViewer]]) (use assms(2) in blast)
  have a: "\<not> pr_Owner p" "\<not> pr_APIKey p" "accessRecentlyAuthenticated H env req (tk_Sessions S') acc (ge_PublicMaximumAge env)"
    "accessPublic H env req (tk_Sessions S') acc" "publicViewerRouteAllowed (gr_Pattern req)" "profile_Allowed p True (gr_Clock req)"
    using allowed_public [OF acc(3) [unfolded viewerAccess_def]] assms(2) by (simp_all add: acc(2))
  have remote: "pr_Remote p" by (rule allowed_not_owner [OF a(1,6)])
  from acc(1) have "\<exists>T \<in> {S, S2}. \<exists>s q. backed_by H env req T s q \<and> ss_Channel s = ''public'' \<and> ss_ProfileRevision s = pr_Revision q
      \<and> RecentlyStrong s (ge_PublicMaximumAge env) (sc_Now (ge_Config env)) \<and> p = q\<lparr>pr_APIKey := False, pr_Scopes := pr_Scopes p\<rparr>"
  proof (cases rule: identity_cases)
    case (token T settle outcome)
    obtain s q where sq: "backed_by H env req T s q" "ta_Session acc = use_Session (tk_Use T) (H (gr_Token req)) s (gate_now env)"
      "ta_Resolved acc" "p = CompatibilityProfile (q\<lparr>pr_APIKey := False, pr_Scopes := pr_Scopes p\<rparr>) \<or> p = q\<lparr>pr_APIKey := False, pr_Scopes := pr_Scopes p\<rparr>"
      by (rule session_backed [where H = H and req = req, OF token(2)]) (use a(2) acc(2) in blast)+
    have "p = q\<lparr>pr_APIKey := False, pr_Scopes := pr_Scopes p\<rparr>" using sq(4) remote by (metis compat_remote)
    moreover have "ss_Channel s = ''public''" using a(4) sq(2,3) by (simp add: accessPublic_def)
    moreover have "RecentlyStrong s (ge_PublicMaximumAge env) (sc_Now (ge_Config env))"
      using a(3) sq(2,3) by (simp add: accessRecentlyAuthenticated_def)
    ultimately show ?thesis using sq(1) token(1) unfolding backed_by_def by blast
  next
    case open_server
    with a(1) acc(2) show ?thesis by (simp add: local_owner_def zero_profile_def)
  qed
  with ServedViewer a acc(4) remote show ?thesis by simp
next
  case ServedPublic
  with protect_public [of H env req S S2 S'] assms show ?thesis by (auto simp: remotePublicRouteDenied_def)
qed simp_all

text \<open>C30. A request over a paired management device reaches its owner's session or nothing: whatever it is served as a viewer's is
  of the secured owner the device is paired with, signed in with a strong factor within eight hours, by a session that
  is bound to the key of this very device and not public, over the private network and never by an API key; without a
  viewer it gets the sign-in routes only.\<close>

theorem management_device_bound:
  assumes "protect H env req S S2 = (result, S')" "ManagementProfileID (Some (gr_View req)) \<noteq> ''''" "ManagementDeviceKey (Some (gr_View req)) \<noteq> ''''"
  shows "case result of
      ServedViewer p \<Rightarrow> pr_ID p = ManagementProfileID (Some (gr_View req)) \<and> pr_Owner p \<and> \<not> pr_APIKey p \<and> profile_Secured p
        \<and> \<not> rv_remote (gr_View req)
        \<and> (\<exists>T \<in> {S, S2}. \<exists>s q. backed_by H env req T s q \<and> ss_Channel s \<noteq> ''public'' \<and> ss_ManagementDevice s = ManagementDeviceKey (Some (gr_View req))
             \<and> validManagementKey (ss_ManagementDevice s) \<and> RecentlyStrong s (8 * hour) (sc_Now (ge_Config env)) \<and> pr_Owner q)
    | ServedPublic \<Rightarrow> ManagementBootstrapRoute (gr_Pattern req)
    | _ \<Rightarrow> True"
proof (cases result)
  case (ServedViewer p)
  obtain acc where acc: "identity H env req S S2 = (Some acc, S')" "p = ta_Profile acc"
    and b: "pr_ID p = ManagementProfileID (Some (gr_View req))" "pr_Owner p" "\<not> pr_APIKey p" "profile_Secured p"
      "\<not> accessPublic H env req (tk_Sessions S') acc" "accessRecentlyAuthenticated H env req (tk_Sessions S') acc (8 * hour)"
    by (rule protect_viewer [OF assms(1) [unfolded ServedViewer]]) (use assms(2) in blast)
  from acc(1) have "\<not> rv_remote (gr_View req) \<and> (\<exists>T \<in> {S, S2}. \<exists>s q. backed_by H env req T s q \<and> ss_Channel s \<noteq> ''public''
      \<and> ss_ManagementDevice s = ManagementDeviceKey (Some (gr_View req)) \<and> validManagementKey (ss_ManagementDevice s)
      \<and> RecentlyStrong s (8 * hour) (sc_Now (ge_Config env)) \<and> pr_Owner q)"
  proof (cases rule: identity_cases)
    case (token T settle outcome)
    obtain s q where sq: "backed_by H env req T s q" "ta_Session acc = use_Session (tk_Use T) (H (gr_Token req)) s (gate_now env)"
      "ta_Resolved acc" "ta_SessionFound acc"
      "p = CompatibilityProfile (q\<lparr>pr_APIKey := False, pr_Scopes := pr_Scopes p\<rparr>) \<or> p = q\<lparr>pr_APIKey := False, pr_Scopes := pr_Scopes p\<rparr>"
      by (rule session_backed [where H = H and req = req, OF token(2)]) (use b(3) acc(2) in blast)+
    have "SessionMatchesRequest s (Some (gr_View req))" using sq(1) by (simp add: backed_by_def)
    then have "\<not> rv_remote (gr_View req)" "ss_ManagementDevice s = ManagementDeviceKey (Some (gr_View req))" "validManagementKey (ss_ManagementDevice s)"
      using assms(3) by (auto simp: SessionMatchesRequest_def Let_def split: if_splits)
    moreover have "ss_Channel s \<noteq> ''public''" "RecentlyStrong s (8 * hour) (sc_Now (ge_Config env))"
      using b(5,6) sq(2,3,4) by (simp_all add: accessPublic_def accessRecentlyAuthenticated_def)
    moreover have "pr_Owner q"
      using sq(5) b(2) by (metis compatibility_profile(6) profile.select_convs(3) profile.surjective profile.update_convs(15,16))
    ultimately show ?thesis using sq(1) token(1) by blast
  next
    case open_server
    with b(4) acc(2) show ?thesis by (simp add: local_owner_def zero_profile_def profile_Secured_def Secured_def)
  qed
  with ServedViewer b show ?thesis by simp
next
  case ServedPublic
  with protect_public [of H env req S S2 S'] assms show ?thesis by auto
qed simp_all

section \<open>Concrete requests\<close>

definition open_viewer :: profile where
  "open_viewer = demo_viewer\<lparr>pr_AccessStart := '''', pr_AccessEnd := ''''\<rparr>"

definition demo_env :: gate_env where
  "demo_env = \<lparr>ge_Config = demo_config\<lparr>sc_Now := from_unix 200\<rparr>, ge_Profiles = [open_viewer], ge_StoreError = False, ge_Required = True,
     ge_RequireMFA = True, ge_PublicMaximumAge = 8 * hour\<rparr>"

definition demo_gate_request :: gate_request where
  "demo_gate_request = \<lparr>gr_Token = ''k'', gr_View = demo_request, gr_Pattern = ''GET /media/{id}'', gr_Clock = (20, 0), gr_Capability = False,
     gr_MediaToken = None, gr_OriginAllowed = True, gr_API = False\<rparr>"

lemma not_in_codes: "map pattern_code xs = cs \<Longrightarrow> pattern_code x \<notin> set cs \<Longrightarrow> x \<notin> set xs"
  by force

lemma demo_pattern: "''GET /media/{id}'' \<notin> set (map fst publicRoutes_literal @ scim_patterns @ mcpgateway_patterns @ remote_denied_patterns)"
proof (rule not_in_codes)
  show "map pattern_code (map fst publicRoutes_literal @ scim_patterns @ mcpgateway_patterns @ remote_denied_patterns) =
    [13836733425, 1825019770, 114484025210, 223972136826, 492364270129, 7877828323575, 104303153, 23911860785, 1668851959,
    382589774071, 467153, 51578, 25713, 205958, 3651699678391313, 970095868783633, 115723770, 13970938, 27430394,
    3768845297, 433705649, 425585, 6750481, 862776305, 431188977, 216984561, 26856433, 3527251385329, 107588593,
    27742116849, 433470449, 56671217, 1738111985, 3638131697, 2559515633, 3519843313, 109992945, 24485788482545, 6891019249,
    105201, 7225073, 236736241, 473472406, 225829147642, 1666014193, 1664441329, 852062198769, 440328633329, 220193160177,
    872352753, 108497, 217146, 113841, 835537, 227834, 1671226, 114922490, 29234170, 1668598193, 1769261489, 3451857,
    1715153873, 108943418, 7502092721, 461009695738, 916276229114, 121213702225, 3255249, 1727933393, 1592273, 3184698,
    909721220090, 1835286672378, 227430338426, 458821701498, 444721, 7299945466, 457935967226, 895888413690, 851124785,
    855451185, 3381362417, 7039844081, 14079688314, 3642457841, 13304817, 14717891921, 108658792570, 119585069176954,
    62312617393, 16224811423153, 3867292689, 23949620241, 1933641841, 519101674898994193, 28315631505, 56974000017,
    7513341882, 30303993745, 60607987414, 1779548824753, 7393346737, 243146785969, 112829617, 3796477105, 28927153,
    57854458, 949839025, 949839066, 3799356154, 7598712454, 3651699678391313, 25713, 205958, 51578, 970095868783633,
    115723770, 113295025, 226590202, 13970938, 27430394, 438363937786, 880007371770, 930741672954, 115065202596858,
    1866689969, 59534977457, 119069955066, 476279819910, 29783335326714, 119133341306502, 492364270129, 7877828323575,
    104303153, 23911860785, 1668851959, 382589774071, 29546451962, 111311557626, 869124529, 121647253937, 119834511381498,
    973178031750, 467153, 113841, 227834, 29234170, 51578, 25713, 205958, 7502092721, 461009695738, 916276229114,
    58009735249, 116019470650, 121213702225, 3651699678391313, 970095868783633, 115723770, 13970938, 27430394, 113295025,
    226590202, 28515057, 57030266, 444721, 900861929905, 487135783345, 974271566842, 28987293306, 62312617393,
    16224811423153, 28315631505, 56974000017, 7513341882, 30303993745, 60607987414]"
    by (simp add: publicRoutes_literal_def scim_patterns_def mcpgateway_patterns_def remote_denied_patterns_def)
qed simp

lemma demo_route: "map_of publicRoutes ''GET /media/{id}'' = None" "\<not> remotePublicRouteDenied ''GET /media/{id}''"
  "publicViewerRouteAllowed ''GET /media/{id}''"
proof -
  have "''GET /media/{id}'' \<notin> set scim_patterns \<union> set mcpgateway_patterns" "map_of publicRoutes_literal ''GET /media/{id}'' = None"
    using demo_pattern unfolding map_of_eq_None_iff set_append by (simp_all only: set_map Un_iff simp_thms) blast+
  then show m: "map_of publicRoutes ''GET /media/{id}'' = None"
    unfolding publicRoutes_def map_of_fold_mput by auto
  then show "\<not> remotePublicRouteDenied ''GET /media/{id}''"
    using demo_pattern unfolding remotePublicRouteDenied_def set_append by (simp only: Un_iff simp_thms de_Morgan_disj)
  have "''GET /media/{id}'' \<in> set apiStreamRoutes" by (simp add: apiStreamRoutes_def)
  then show "publicViewerRouteAllowed ''GET /media/{id}''" by (simp add: publicViewerRouteAllowed_def)
qed

lemma demo_alive: "\<not> sessionExpired demo_env demo_session 200"
  by (simp add: sessionExpired_def demo_env_def demo_config_def SessionTimeouts_def demo_session_def zero_session_def SessionExpired_def
      secs_nonneg DefaultSessionInactive_def DefaultSessionAbsolute_def second_def i64_id min_i64_def max_i64_def)

lemma demo_evaluated:
  "evaluateToken demo_env demo_gate_request ''k'' 200 False demo_tokens =
     ((Some \<lparr>ta_Profile = open_viewer, ta_Session = demo_session, ta_Resolved = True, ta_SessionFound = True\<rparr>, TokenAccepted),
      demo_tokens\<lparr>tk_Use := \<lparr>au_sessions = [(''k'', 200)], au_apiKeys = []\<rparr>\<rparr>)"
proof -
  have s: "use_Session (tk_Use demo_tokens) ''k'' demo_session 200 = demo_session"
    by (simp add: use_Session_def demo_tokens_def demo_session_def zero_session_def mget0_def SessionUseInterval_def i64_id min_i64_def max_i64_def)
  have due: "i64 (ss_LastSeen demo_session + SessionUseInterval) \<le> 200"
    by (simp add: demo_session_def zero_session_def SessionUseInterval_def i64_id min_i64_def max_i64_def)
  have k: "map_of (tk_Sessions demo_tokens) ''k'' = Some demo_session" "tk_APIKeys demo_tokens = []" by (simp_all add: demo_tokens_def)
  have r: "SessionMatchesRequest demo_session (Some (gr_View demo_gate_request))"
    by (simp add: SessionMatchesRequest_def ManagementDeviceKey_def demo_gate_request_def demo_request_def demo_session_def zero_session_def)
  have p: "FindProfile (ge_Profiles demo_env) (ss_ProfileID demo_session) = Some open_viewer"
    by (simp add: FindProfile_def demo_env_def open_viewer_def demo_viewer_def zero_profile_def demo_session_def zero_session_def)
  show ?thesis
    unfolding evaluateToken_def EvaluateToken_def Let_def mget0_def k option.case s
    using r demo_alive p due
    by (simp add: tokenProfile_def use_APIKey_def zero_api_key_def use_Record_def demo_tokens_def open_viewer_def demo_viewer_def zero_profile_def demo_session_def zero_session_def Let_def)
qed

lemma demo_served:
  "protect (\<lambda>t. t) demo_env demo_gate_request demo_tokens demo_tokens =
     (ServedViewer open_viewer, demo_tokens\<lparr>tk_Use := \<lparr>au_sessions = [(''k'', 200)], au_apiKeys = []\<rparr>\<rparr>)"
proof -
  let ?acc = "\<lparr>ta_Profile = open_viewer, ta_Session = demo_session, ta_Resolved = True, ta_SessionFound = True\<rparr>"
  let ?T = "demo_tokens\<lparr>tk_Use := \<lparr>au_sessions = [(''k'', 200)], au_apiKeys = []\<rparr>\<rparr>"
  have req: "gr_Token demo_gate_request = ''k''" "gr_Pattern demo_gate_request = ''GET /media/{id}''" "gr_MediaToken demo_gate_request = None"
    "gr_OriginAllowed demo_gate_request" "rv_remote (gr_View demo_gate_request)" "rv_device_profile (gr_View demo_gate_request) = ''''"
    by (simp_all add: demo_gate_request_def demo_request_def)
  have now: "gate_now demo_env = 200" "\<not> ge_StoreError demo_env" by (simp_all add: demo_env_def)
  have acc: "identity (\<lambda>t. t) demo_env demo_gate_request demo_tokens demo_tokens = (Some ?acc, ?T)"
    by (simp add: identity_def store_access_def req now demo_evaluated)
  have "\<not> pr_Owner open_viewer" "\<not> pr_APIKey open_viewer" "pr_Remote open_viewer" "pr_AccessStart open_viewer = ''''" "profile_Secured open_viewer"
    by (simp_all add: open_viewer_def demo_viewer_def zero_profile_def profile_Secured_def Secured_def)
  moreover have "RecentlyStrong demo_session (8 * hour) (sc_Now (ge_Config demo_env))" "ge_PublicMaximumAge demo_env = 8 * hour" "ss_Channel demo_session = ''public''"
    by (simp_all add: RecentlyStrong_def demo_session_def zero_session_def demo_env_def from_unix_def duration_defs)
  ultimately have v: "viewerAccess (\<lambda>t. t) demo_env demo_gate_request m ?acc = Allowed" for m
    by (simp add: viewerAccess_def EvaluateAccess_def accessRecentlyAuthenticated_def accessPublic_def req demo_route profile_Allowed_def)
  show ?thesis
    using demo_route by (simp add: protect_def req now jellyfinMediaRoutePublic_def route_public_def serveIdentity_def acc v ManagementProfileID_def Let_def)
qed

lemma public_internet_boundary_witness:
  "\<exists>T \<in> {demo_tokens, demo_tokens}. \<exists>s q. backed_by (\<lambda>t. t) demo_env demo_gate_request T s q \<and> ss_Channel s = ''public''"
proof -
  have "rv_remote (gr_View demo_gate_request)" by (simp add: demo_gate_request_def demo_request_def)
  from public_internet_boundary [OF demo_served this] show ?thesis by auto
qed


text \<open>An owner over a paired device.\<close>

definition demo_device_key :: string where
  "demo_device_key = ''AAAAAAAAAAAAAAAAAAAAAAAAAAAAAAAAAAAAAAAAAAA=''"

definition demo_owner :: profile where
  "demo_owner = open_viewer\<lparr>pr_ID := ''o'', pr_Owner := True\<rparr>"

definition demo_owner_session :: session where
  "demo_owner_session = demo_session\<lparr>ss_ProfileID := ''o'', ss_Channel := '''', ss_ManagementDevice := demo_device_key\<rparr>"

definition owner_tokens :: token_state where
  "owner_tokens = \<lparr>tk_Sessions = [(''k'', demo_owner_session)], tk_APIKeys = [], tk_Use = \<lparr>au_sessions = [], au_apiKeys = []\<rparr>, tk_Persisted = []\<rparr>"

definition owner_env :: gate_env where
  "owner_env = demo_env\<lparr>ge_Profiles := [demo_owner]\<rparr>"

definition owner_request :: gate_request where
  "owner_request = demo_gate_request\<lparr>gr_View := \<lparr>rv_device_profile = ''o'', rv_device_key = demo_device_key, rv_remote = False\<rparr>\<rparr>"

lemma owner_alive: "\<not> sessionExpired owner_env demo_owner_session 200"
  by (simp add: sessionExpired_def owner_env_def demo_env_def demo_config_def SessionTimeouts_def demo_owner_session_def demo_session_def zero_session_def
      SessionExpired_def secs_nonneg DefaultSessionInactive_def DefaultSessionAbsolute_def second_def i64_id min_i64_def max_i64_def)

lemma owner_evaluated:
  "evaluateToken owner_env owner_request ''k'' 200 False owner_tokens =
     ((Some \<lparr>ta_Profile = demo_owner, ta_Session = demo_owner_session, ta_Resolved = True, ta_SessionFound = True\<rparr>, TokenAccepted),
      owner_tokens\<lparr>tk_Use := \<lparr>au_sessions = [(''k'', 200)], au_apiKeys = []\<rparr>\<rparr>)"
proof -
  have s: "use_Session (tk_Use owner_tokens) ''k'' demo_owner_session 200 = demo_owner_session"
    by (simp add: use_Session_def owner_tokens_def demo_owner_session_def demo_session_def zero_session_def mget0_def SessionUseInterval_def i64_id min_i64_def max_i64_def)
  have due: "i64 (ss_LastSeen demo_owner_session + SessionUseInterval) \<le> 200"
    by (simp add: demo_owner_session_def demo_session_def zero_session_def SessionUseInterval_def i64_id min_i64_def max_i64_def)
  have k: "map_of (tk_Sessions owner_tokens) ''k'' = Some demo_owner_session" "tk_APIKeys owner_tokens = []" by (simp_all add: owner_tokens_def)
  have "b64_value CHR ''A'' = Some 0" by (simp add: b64_value_def byte_def)
  then have "validManagementKey demo_device_key" by (simp add: validManagementKey_def demo_device_key_def)
  then have r: "SessionMatchesRequest demo_owner_session (Some (gr_View owner_request))"
    by (simp add: SessionMatchesRequest_def ManagementDeviceKey_def ManagementProfileID_def owner_request_def demo_gate_request_def demo_owner_session_def
        demo_session_def zero_session_def)
  have p: "FindProfile (ge_Profiles owner_env) (ss_ProfileID demo_owner_session) = Some demo_owner"
    by (simp add: FindProfile_def owner_env_def demo_owner_def open_viewer_def demo_viewer_def zero_profile_def demo_owner_session_def)
  show ?thesis
    unfolding evaluateToken_def EvaluateToken_def Let_def mget0_def k option.case s
    using r owner_alive p due
    by (simp add: tokenProfile_def use_APIKey_def zero_api_key_def use_Record_def owner_tokens_def demo_owner_def open_viewer_def demo_viewer_def zero_profile_def
        demo_owner_session_def demo_session_def zero_session_def Let_def)
qed

lemma owner_served:
  "protect (\<lambda>t. t) owner_env owner_request owner_tokens owner_tokens =
     (ServedViewer demo_owner, owner_tokens\<lparr>tk_Use := \<lparr>au_sessions = [(''k'', 200)], au_apiKeys = []\<rparr>\<rparr>)"
proof -
  let ?acc = "\<lparr>ta_Profile = demo_owner, ta_Session = demo_owner_session, ta_Resolved = True, ta_SessionFound = True\<rparr>"
  let ?T = "owner_tokens\<lparr>tk_Use := \<lparr>au_sessions = [(''k'', 200)], au_apiKeys = []\<rparr>\<rparr>"
  have req: "gr_Token owner_request = ''k''" "gr_Pattern owner_request = ''GET /media/{id}''" "gr_MediaToken owner_request = None"
    "gr_OriginAllowed owner_request" "\<not> rv_remote (gr_View owner_request)" "rv_device_profile (gr_View owner_request) = ''o''"
    by (simp_all add: owner_request_def demo_gate_request_def)
  have now: "gate_now owner_env = 200" "\<not> ge_StoreError owner_env" by (simp_all add: owner_env_def demo_env_def)
  have acc: "identity (\<lambda>t. t) owner_env owner_request owner_tokens owner_tokens = (Some ?acc, ?T)"
    by (simp add: identity_def store_access_def req now owner_evaluated)
  have o: "pr_Owner demo_owner" "\<not> pr_APIKey demo_owner" "pr_ID demo_owner = ''o''" "profile_Secured demo_owner"
    by (simp_all add: demo_owner_def open_viewer_def demo_viewer_def zero_profile_def profile_Secured_def Secured_def)
  have strong: "RecentlyStrong demo_owner_session (8 * hour) (sc_Now (ge_Config owner_env))" "ss_Channel demo_owner_session = ''''"
    by (simp_all add: RecentlyStrong_def demo_owner_session_def demo_session_def zero_session_def owner_env_def demo_env_def from_unix_def duration_defs)
  have v: "viewerAccess (\<lambda>t. t) owner_env owner_request m ?acc = Allowed" for m
    using o by (simp add: viewerAccess_def EvaluateAccess_def req profile_Allowed_def)
  have "serveIdentity (\<lambda>t. t) owner_env owner_request owner_tokens owner_tokens = (Some (ServedViewer demo_owner), ?T)"
    using strong by (simp add: serveIdentity_def acc v o ManagementProfileID_def req accessPublic_def accessRecentlyAuthenticated_def Let_def)
  then show ?thesis using demo_route by (simp add: protect_def req now jellyfinMediaRoutePublic_def route_public_def Let_def)
qed

lemma management_device_bound_witness:
  "\<exists>T \<in> {owner_tokens, owner_tokens}. \<exists>s q. backed_by (\<lambda>t. t) owner_env owner_request T s q \<and> ss_ManagementDevice s = demo_device_key \<and> pr_Owner q"
proof -
  have r: "ManagementProfileID (Some (gr_View owner_request)) \<noteq> ''''" "ManagementDeviceKey (Some (gr_View owner_request)) \<noteq> ''''"
    "ManagementDeviceKey (Some (gr_View owner_request)) = demo_device_key"
    by (simp_all add: ManagementProfileID_def ManagementDeviceKey_def owner_request_def demo_device_key_def)
  from management_device_bound [OF owner_served r(1,2)] r(3) show ?thesis by auto
qed

end
