(* ===== verification/Profiles.thy ===== *)
theory Profiles
  imports Access Storage
begin

text \<open>
  The profile store: packages/identitycore/profile_store.go and profile_scim.go (the operations), profile.go
  (\<open>NewProfile\<close>, \<open>ProfilePersistence\<close>), profile_validation.go (what the next start accepts), factor_transaction.go with
  the codes of mfa.go (second factors), credentials/credentials.go (\<open>Validate\<close>) and profiles_credentials.go of the
  player (\<open>resetPassword\<close>).

  Every operation holds the write lock throughout, so it is one step; only \<open>resetPassword\<close> looks at the store before it
  takes the lock, and gets what it saw as an argument.  The function \<open>ok\<close> gives the outcome of the write of each
  document (theory Storage): a failed one leaves the document as it was, or, where documents are files and the sync
  after the rename fails, as the new one.  So the outcomes of \<open>ok\<close> are also the points at which the program can be
  cut off.  An argument \<open>env\<close> carries what is not under src/.
\<close>

section \<open>The environment\<close>

text \<open>
  \<open>ve_Fold\<close> takes a rune to the representative of its folding orbit in the Unicode tables; \<open>ve_Precis\<close> and \<open>ve_Key\<close>
  are the user name profile of Scim; \<open>ve_Common\<close> is the embedded list of common passwords; \<open>ve_Hash\<close> is the password
  hash with its random salt; \<open>ve_HMAC\<close> is HMAC-SHA-1; \<open>ve_SessionKey\<close> is \<open>SessionKey\<close>, the hexadecimal SHA-256;
  \<open>ve_Upper\<close> is \<open>strings.ToUpper\<close> with the tables of Unicode.
\<close>

record profile_env =
  ve_Fold :: "nat \<Rightarrow> nat"
  ve_Precis :: "string \<Rightarrow> string option"
  ve_Key :: "string \<Rightarrow> string option"
  ve_Common :: "string list"
  ve_Hash :: "string \<Rightarrow> string option"
  ve_HMAC :: "nat list \<Rightarrow> nat list \<Rightarrow> nat list"
  ve_SessionKey :: "string \<Rightarrow> string"
  ve_Upper :: "string \<Rightarrow> string"

definition EqualFold :: "profile_env \<Rightarrow> string \<Rightarrow> string \<Rightarrow> bool" where
  "EqualFold env s t \<longleftrightarrow> map (ve_Fold env) (runes s) = map (ve_Fold env) (runes t)"

text \<open>The list of common passwords is ASCII text in lower case.\<close>

definition credentials_Validate :: "profile_env \<Rightarrow> string \<Rightarrow> bool" where
  "credentials_Validate env password \<longleftrightarrow> length password \<ge> 12 \<and> length password \<le> 1024
     \<and> map lower_rune (runes (trim_space password)) \<notin> set (map (map byte) (ve_Common env))"

definition credentials_Hash :: "profile_env \<Rightarrow> string \<Rightarrow> string option" where
  "credentials_Hash env password = (if \<not> credentials_Validate env password then None else ve_Hash env password)"

section \<open>Profiles\<close>

definition newProfile :: "string \<Rightarrow> string \<Rightarrow> bool \<Rightarrow> (string \<Rightarrow> string option) \<Rightarrow> string \<Rightarrow> profile option" where
  "newProfile name password owner hash newID = (case hash password of
     None \<Rightarrow> None
   | Some credential \<Rightarrow> Some (zero_profile\<lparr>pr_ID := newID, pr_Name := name, pr_Credential := credential, pr_Owner := owner, pr_Revision := 1\<rparr>))"

definition NewProfile :: "profile_env \<Rightarrow> string \<Rightarrow> string \<Rightarrow> string \<Rightarrow> bool \<Rightarrow> profile option" where
  "NewProfile env newID name password owner =
     (let name' = trim_space name in
      if name' = '''' \<or> length name' > 64 \<or> \<not> credentials_Validate env password then None
      else newProfile name' password owner (credentials_Hash env) newID)"

text \<open>\<open>Revision++\<close> on an unsigned 64-bit number.\<close>

definition next_revision :: "nat \<Rightarrow> nat" where
  "next_revision r = (r + 1) mod 2 ^ 64"

fun find_index :: "('a \<Rightarrow> bool) \<Rightarrow> 'a list \<Rightarrow> nat option" where
  "find_index P [] = None"
| "find_index P (x # xs) = (if P x then Some 0 else map_option Suc (find_index P xs))"

lemma find_index_Some: "find_index P xs = Some i \<Longrightarrow> i < length xs \<and> P (xs ! i) \<and> (\<forall>j < i. \<not> P (xs ! j))"
proof (induction xs arbitrary: i)
  case (Cons x xs)
  show ?case
  proof (cases "P x")
    case False
    with Cons.prems obtain k where k: "find_index P xs = Some k" "i = Suc k" by auto
    with Cons.IH [OF k(1)] False show ?thesis by (auto simp: less_Suc_eq_0_disj)
  qed (use Cons.prems in simp)
qed simp

lemma find_index_None: "find_index P xs = None \<longleftrightarrow> (\<forall>x \<in> set xs. \<not> P x)"
  by (induction xs) auto

section \<open>Documents\<close>

datatype document = ProfileDocument | SessionDocument | APIKeyDocument | BatchDocument

record profile_files =
  fi_Profiles :: "profile list"
  fi_Sessions :: session_map
  fi_APIKeys :: "(string, api_key) gomap"

record profile_persistence =
  pe_Database :: bool
  pe_Persist :: bool
  pe_ProfileFile :: string
  pe_SessionFile :: string
  pe_APIFile :: string

type_synonym outcomes = "document \<Rightarrow> write_outcome"

text \<open>\<open>Persist\<close> of one document, and one after the other until a write fails.\<close>

definition write_document :: "outcomes \<Rightarrow> document \<Rightarrow> (profile_files \<Rightarrow> profile_files) \<Rightarrow> profile_files \<Rightarrow> bool \<times> profile_files" where
  "write_document ok d f files = (case file_write (ok d) (f files) files of (files', written) \<Rightarrow> (written, files'))"

lemma write_document_simps [simp]:
  "ok d = Written \<Longrightarrow> write_document ok d f files = (True, f files)"
  "ok d = Replaced \<Longrightarrow> write_document ok d f files = (False, f files)"
  "ok d = Refused \<Longrightarrow> write_document ok d f files = (False, files)"
  by (simp_all add: write_document_def)

definition persistence_Save :: "profile_persistence \<Rightarrow> outcomes \<Rightarrow> profile list \<Rightarrow> profile_files \<Rightarrow> bool \<times> profile_files" where
  "persistence_Save pe ok profiles files =
     (if pe_ProfileFile pe = '''' \<or> \<not> pe_Persist pe then (False, files)
      else write_document ok ProfileDocument (fi_Profiles_update (\<lambda>_. profiles)) files)"

definition SaveRelated ::
  "profile_persistence \<Rightarrow> outcomes \<Rightarrow> profile list \<Rightarrow> session_map \<Rightarrow> (string, api_key) gomap \<Rightarrow> profile_files \<Rightarrow> bool \<times> profile_files" where
  "SaveRelated pe ok profiles sessions keys files =
     (if pe_Database pe then write_document ok BatchDocument (\<lambda>_. \<lparr>fi_Profiles = profiles, fi_Sessions = sessions, fi_APIKeys = keys\<rparr>) files
      else if pe_ProfileFile pe = '''' \<or> pe_SessionFile pe = '''' \<or> pe_APIFile pe = '''' \<or> \<not> pe_Persist pe then (False, files)
      else (case write_document ok SessionDocument (fi_Sessions_update (\<lambda>_. sessions)) files of
          (False, files1) \<Rightarrow> (False, files1)
        | (True, files1) \<Rightarrow> (case write_document ok APIKeyDocument (fi_APIKeys_update (\<lambda>_. keys)) files1 of
            (False, files2) \<Rightarrow> (False, files2)
          | (True, files2) \<Rightarrow> write_document ok ProfileDocument (fi_Profiles_update (\<lambda>_. profiles)) files2)))"

section \<open>The store\<close>

record profile_store =
  ps_Profiles :: "profile list"
  ps_Sessions :: session_map
  ps_APIKeys :: "(string, api_key) gomap"
  ps_Files :: profile_files

text \<open>What an operation returns: an error, or the ID or nothing of interest.  \<open>Drawing\<close> is not an error of the code:
  the random IDs that were given ran out and the call has not returned.\<close>

datatype store_error = StorageError | OwnerExists | PolicyError | CreateError | NameUsed | NotFound | LastOwner | SCIMControlled
  | Provisioning scim_error | PasswordError | ProfileChanged | InvalidFactor | OwnerFactorNeeded | Drawing

type_synonym 'a stored = "(store_error + 'a) \<times> profile_store"

definition commit_profiles :: "profile_persistence \<Rightarrow> outcomes \<Rightarrow> profile list \<Rightarrow> 'a \<Rightarrow> profile_store \<Rightarrow> 'a stored" where
  "commit_profiles pe ok profiles r S = (case persistence_Save pe ok profiles (ps_Files S) of
     (False, files) \<Rightarrow> (Inl StorageError, S\<lparr>ps_Files := files\<rparr>)
   | (True, files) \<Rightarrow> (Inr r, S\<lparr>ps_Profiles := profiles, ps_Files := files\<rparr>))"

definition commit_related ::
  "profile_persistence \<Rightarrow> outcomes \<Rightarrow> profile list \<Rightarrow> session_map \<Rightarrow> (string, api_key) gomap \<Rightarrow> 'a \<Rightarrow> profile_store \<Rightarrow> 'a stored" where
  "commit_related pe ok profiles sessions keys r S = (case SaveRelated pe ok profiles sessions keys (ps_Files S) of
     (False, files) \<Rightarrow> (Inl StorageError, S\<lparr>ps_Files := files\<rparr>)
   | (True, files) \<Rightarrow> (Inr r, \<lparr>ps_Profiles = profiles, ps_Sessions = sessions, ps_APIKeys = keys, ps_Files = files\<rparr>))"

definition AddOwner :: "profile_persistence \<Rightarrow> outcomes \<Rightarrow> profile \<Rightarrow> profile_store \<Rightarrow> unit stored" where
  "AddOwner pe ok p S =
     (if length (ps_Profiles S) > 0 then (Inl OwnerExists, S) else commit_profiles pe ok [p] () S)"

definition AddProfile ::
  "profile_env \<Rightarrow> profile_persistence \<Rightarrow> outcomes \<Rightarrow> string \<Rightarrow> string \<Rightarrow> string \<Rightarrow> bool \<Rightarrow> profile_policy \<Rightarrow> profile_store \<Rightarrow> string stored" where
  "AddProfile env pe ok newID name password owner policy S =
     (if \<not> policy_Valid policy then (Inl PolicyError, S)
      else case NewProfile env newID name password owner of
          None \<Rightarrow> (Inl CreateError, S)
        | Some created \<Rightarrow> let p = ApplyProfilePolicy policy created in
            if list_ex (\<lambda>q. EqualFold env (pr_Name q) (pr_Name p)) (ps_Profiles S) then (Inl NameUsed, S)
            else commit_profiles pe ok (ps_Profiles S @ [p]) (pr_ID p) S)"

definition owner_count :: "profile list \<Rightarrow> nat" where
  "owner_count profiles = length (filter pr_Owner profiles)"

definition commitProfilePolicy ::
  "profile_persistence \<Rightarrow> outcomes \<Rightarrow> nat \<Rightarrow> bool \<Rightarrow> nat \<Rightarrow> profile_policy \<Rightarrow> profile_store \<Rightarrow> unit stored" where
  "commitProfilePolicy pe ok i owner owners policy S =
     (let profiles = ps_Profiles S in
      if pr_Owner (profiles ! i) \<and> \<not> owner \<and> owners = 1 then (Inl LastOwner, S)
      else
        let p = ApplyProfilePolicy policy ((profiles ! i)\<lparr>pr_Owner := owner\<rparr>);
            profiles' = profiles[i := p\<lparr>pr_Revision := next_revision (pr_Revision p)\<rparr>]
        in if \<not> owner \<and> pp_Remote policy then commit_profiles pe ok profiles' () S
           else commit_related pe ok profiles' (WithoutProfile (ps_Sessions S) (pr_ID (profiles' ! i)) True) (ps_APIKeys S) () S)"

definition SetProfile :: "profile_persistence \<Rightarrow> outcomes \<Rightarrow> string \<Rightarrow> bool \<Rightarrow> profile_policy \<Rightarrow> profile_store \<Rightarrow> unit stored" where
  "SetProfile pe ok pid owner policy S =
     (if \<not> policy_Valid policy then (Inl PolicyError, S)
      else case find_index (\<lambda>p. pr_ID p = pid) (ps_Profiles S) of
          None \<Rightarrow> (Inl NotFound, S)
        | Some i \<Rightarrow> commitProfilePolicy pe ok i owner (owner_count (ps_Profiles S)) policy S)"

text \<open>The loop of \<open>RemoveProfile\<close>: the profiles that are kept and the ID that was removed, empty if none was.\<close>

fun remove_scan :: "string \<Rightarrow> nat \<Rightarrow> profile list \<Rightarrow> store_error + profile list \<times> string" where
  "remove_scan pid owners [] = Inr ([], '''')"
| "remove_scan pid owners (p # ps) =
     (if pr_ID p = pid then
        (if pr_SCIMManaged p then Inl SCIMControlled
         else if pr_Owner p \<and> owners = 1 then Inl LastOwner
         else case remove_scan pid owners ps of
             Inl e \<Rightarrow> Inl e
           | Inr (kept, removed) \<Rightarrow> Inr (kept, if removed = '''' then pr_ID p else removed))
      else case remove_scan pid owners ps of
          Inl e \<Rightarrow> Inl e
        | Inr (kept, removed) \<Rightarrow> Inr (p # kept, removed))"

definition removeProfileKeys :: "(string, api_key) gomap \<Rightarrow> string \<Rightarrow> (string, api_key) gomap" where
  "removeProfileKeys keys pid = mfilter (\<lambda>_ k. ak_ProfileID k \<noteq> pid) keys"

definition RemoveProfile :: "profile_persistence \<Rightarrow> outcomes \<Rightarrow> string \<Rightarrow> profile_store \<Rightarrow> unit stored" where
  "RemoveProfile pe ok pid S = (case remove_scan pid (owner_count (ps_Profiles S)) (ps_Profiles S) of
     Inl e \<Rightarrow> (Inl e, S)
   | Inr (kept, removed) \<Rightarrow>
       if removed = '''' then (Inl NotFound, S)
       else commit_related pe ok kept (WithoutProfile (ps_Sessions S) removed False) (removeProfileKeys (ps_APIKeys S) removed) () S)"


section \<open>Provisioned profiles\<close>

definition SCIMProfiles :: "profile_store \<Rightarrow> profile list" where
  "SCIMProfiles S = filter (\<lambda>p. pr_SCIMManaged p \<and> \<not> pr_SCIMDeleted p) (ps_Profiles S)"

definition SCIMProfile :: "string \<Rightarrow> profile_store \<Rightarrow> profile option" where
  "SCIMProfile pid S = List.find (\<lambda>p. pr_ID p = pid \<and> pr_SCIMManaged p \<and> \<not> pr_SCIMDeleted p) (ps_Profiles S)"

text \<open>The search of \<open>CreateSCIMProfile\<close> for the deleted profile to bring back; \<open>None\<close> is a conflict.\<close>

fun create_scan :: "profile_env \<Rightarrow> profile_input \<Rightarrow> nat \<Rightarrow> nat option \<Rightarrow> profile list \<Rightarrow> nat option option" where
  "create_scan env input i rehydrate [] = Some rehydrate"
| "create_scan env input i rehydrate (p # ps) =
     (if pr_SCIMManaged p \<and> pr_SCIMDeleted p \<and> SameUserName (ve_Key env) (pr_SCIMUserName p) (pi_UserName input) then
        (if rehydrate \<noteq> None \<or> pi_ExternalID input = '''' \<or> pr_SCIMExternalID p \<noteq> pi_ExternalID input then None
         else create_scan env input (Suc i) (Some i) ps)
      else if EqualFold env (pr_Name p) (pi_Name input)
          \<or> pr_SCIMManaged p \<and> \<not> pr_SCIMDeleted p \<and> SameUserName (ve_Key env) (pr_SCIMUserName p) (pi_UserName input) then None
      else create_scan env input (Suc i) rehydrate ps)"

text \<open>The fields that name the person, and no way to sign in.\<close>

definition set_scim_identity :: "profile_input \<Rightarrow> profile \<Rightarrow> profile" where
  "set_scim_identity input p = p\<lparr>pr_Name := pi_Name input, pr_SCIMUserName := pi_UserName input, pr_SCIMExternalID := pi_ExternalID input,
     pr_SCIMName := \<lparr>sn_Formatted = pi_Formatted input, sn_GivenName = pi_GivenName input, sn_FamilyName = pi_FamilyName input\<rparr>,
     pr_SCIMEmails := pi_Emails input, pr_SCIMEnterprise := pi_Enterprise input\<rparr>"

definition clear_credentials :: "profile \<Rightarrow> profile" where
  "clear_credentials p = p\<lparr>pr_Credential := '''', pr_OIDCIssuer := '''', pr_OIDCSubject := '''', pr_SAMLIssuer := '''', pr_SAMLSubject := '''',
     pr_TOTPSecret := '''', pr_TOTPCounter := 0, pr_Recovery := [], pr_Passkeys := 0\<rparr>"

definition rehydrateSCIMProfile ::
  "profile_persistence \<Rightarrow> outcomes \<Rightarrow> profile list \<Rightarrow> nat \<Rightarrow> profile_input \<Rightarrow> instant \<Rightarrow> profile_store \<Rightarrow> profile stored" where
  "rehydrateSCIMProfile pe ok profiles i input now S =
     (let p = clear_credentials (set_scim_identity input (profiles ! i));
          p' = p\<lparr>pr_Disabled := \<not> pi_Active input, pr_SCIMDeleted := False, pr_SCIMUpdatedAt := now, pr_Revision := next_revision (pr_Revision p)\<rparr>
      in commit_related pe ok (profiles[i := p']) (WithoutProfile (ps_Sessions S) (pr_ID p') False) (ps_APIKeys S) p' S)"

text \<open>The loop of \<open>newSCIMID\<close> over the IDs that are drawn.\<close>

fun newSCIMID :: "profile list \<Rightarrow> string list \<Rightarrow> string option" where
  "newSCIMID profiles [] = None"
| "newSCIMID profiles (candidate # draws) =
     (if FindProfile profiles candidate = None then Some candidate else newSCIMID profiles draws)"

definition created_scim_profile :: "string \<Rightarrow> profile_input \<Rightarrow> instant \<Rightarrow> profile" where
  "created_scim_profile pid input now = (set_scim_identity input zero_profile)\<lparr>pr_ID := pid, pr_SCIMManaged := True,
     pr_Disabled := \<not> pi_Active input, pr_Rating := ''family'', pr_Revision := 1, pr_SCIMCreatedAt := now, pr_SCIMUpdatedAt := now\<rparr>"

definition CreateSCIMProfile ::
  "profile_env \<Rightarrow> profile_persistence \<Rightarrow> outcomes \<Rightarrow> instant \<Rightarrow> string list \<Rightarrow> profile_input \<Rightarrow> profile_store \<Rightarrow> profile stored" where
  "CreateSCIMProfile env pe ok now draws input S = (case NormalizeProfileInput (ve_Precis env) input of
     None \<Rightarrow> (Inl (Provisioning ErrValidation), S)
   | Some input \<Rightarrow>
       if \<not> list_ex pr_Owner (ps_Profiles S) then (Inl (Provisioning ErrSetupRequired), S)
       else (case create_scan env input 0 None (ps_Profiles S) of
           None \<Rightarrow> (Inl (Provisioning ErrConflict), S)
         | Some (Some i) \<Rightarrow> rehydrateSCIMProfile pe ok (ps_Profiles S) i input now S
         | Some None \<Rightarrow> (case newSCIMID (ps_Profiles S) draws of
               None \<Rightarrow> (Inl Drawing, S)
             | Some pid \<Rightarrow> let p = created_scim_profile pid input now in
                 commit_related pe ok (ps_Profiles S @ [p]) (ps_Sessions S) (ps_APIKeys S) p S)))"

definition conflictingSCIMProfile :: "profile_env \<Rightarrow> profile list \<Rightarrow> string \<Rightarrow> profile_input \<Rightarrow> bool" where
  "conflictingSCIMProfile env profiles pid input \<longleftrightarrow> list_ex (\<lambda>c. pr_ID c \<noteq> pid \<and>
     (EqualFold env (pr_Name c) (pi_Name input)
      \<or> pr_SCIMManaged c \<and> \<not> pr_SCIMDeleted c \<and> SameUserName (ve_Key env) (pr_SCIMUserName c) (pi_UserName input))) profiles"

text \<open>The entity tag \<open>W/"revision"\<close>.\<close>

definition revision_etag :: "nat \<Rightarrow> string" where
  "revision_etag r = ''W/'' @ [CHR 0x22] @ show_base 10 20 r @ [CHR 0x22]"

definition find_managed :: "string \<Rightarrow> profile list \<Rightarrow> nat option" where
  "find_managed pid profiles = find_index (\<lambda>p. pr_ID p = pid \<and> pr_SCIMManaged p \<and> \<not> pr_SCIMDeleted p) profiles"

definition updated_scim_profile :: "profile_input \<Rightarrow> instant \<Rightarrow> profile \<Rightarrow> profile" where
  "updated_scim_profile input now existing =
     (let cleared = (if pr_SCIMExternalID existing \<noteq> pi_ExternalID input then clear_credentials existing else existing);
          p = set_scim_identity input cleared
      in p\<lparr>pr_Disabled := \<not> pi_Active input, pr_Revision := next_revision (pr_Revision p), pr_SCIMUpdatedAt := now\<rparr>)"

definition UpdateSCIMProfile ::
  "profile_env \<Rightarrow> profile_persistence \<Rightarrow> outcomes \<Rightarrow> instant \<Rightarrow> string \<Rightarrow> profile_input \<Rightarrow> string \<Rightarrow> profile_store \<Rightarrow> profile stored" where
  "UpdateSCIMProfile env pe ok now pid input expected S = (case NormalizeProfileInput (ve_Precis env) input of
     None \<Rightarrow> (Inl (Provisioning ErrValidation), S)
   | Some input \<Rightarrow> (case find_managed pid (ps_Profiles S) of
         None \<Rightarrow> (Inl (Provisioning ErrProfileNotFound), S)
       | Some i \<Rightarrow> let existing = ps_Profiles S ! i; identityChanged = (pr_SCIMExternalID existing \<noteq> pi_ExternalID input) in
           if expected \<noteq> '''' \<and> \<not> ETagMatches expected (revision_etag (pr_Revision existing)) then (Inl (Provisioning ErrPrecondition), S)
           else if conflictingSCIMProfile env (ps_Profiles S) pid input then (Inl (Provisioning ErrConflict), S)
           else let p = updated_scim_profile input now existing;
                    sessions = (if pr_Disabled existing \<or> \<not> pi_Active input \<or> identityChanged then WithoutProfile (ps_Sessions S) pid False else ps_Sessions S);
                    keys = (if identityChanged then removeProfileKeys (ps_APIKeys S) pid else ps_APIKeys S)
                in commit_related pe ok ((ps_Profiles S)[i := p]) sessions keys p S))"

definition DeleteSCIMProfile ::
  "profile_persistence \<Rightarrow> outcomes \<Rightarrow> instant \<Rightarrow> string \<Rightarrow> string \<Rightarrow> profile_store \<Rightarrow> unit stored" where
  "DeleteSCIMProfile pe ok now pid expected S = (case find_managed pid (ps_Profiles S) of
     None \<Rightarrow> (Inl (Provisioning ErrProfileNotFound), S)
   | Some i \<Rightarrow> let p = ps_Profiles S ! i in
       if expected \<noteq> '''' \<and> \<not> ETagMatches expected (revision_etag (pr_Revision p)) then (Inl (Provisioning ErrPrecondition), S)
       else let p' = p\<lparr>pr_Disabled := True, pr_SCIMDeleted := True, pr_Revision := next_revision (pr_Revision p), pr_SCIMUpdatedAt := now\<rparr>
            in commit_related pe ok ((ps_Profiles S)[i := p']) (WithoutProfile (ps_Sessions S) pid False) (ps_APIKeys S) () S)"

section \<open>What the next start accepts\<close>

definition validIdentityString :: "string \<Rightarrow> nat \<Rightarrow> string option" where
  "validIdentityString v maximum =
     (if \<not> valid_utf8 v \<or> length v > maximum then None
      else if \<not> list_all (\<lambda>c. \<not> is_control c) (runes v) then None
      else Some (trim_space v))"

definition identity_key :: "string \<Rightarrow> string \<Rightarrow> string" where
  "identity_key issuer subject = issuer @ [CHR 0x00] @ subject"

text \<open>The identities seen so far, with this one; \<open>None\<close> is an error.\<close>

definition validateFederatedProfileIdentity :: "string \<Rightarrow> string \<Rightarrow> string list \<Rightarrow> string list option" where
  "validateFederatedProfileIdentity issuer subject identities =
     (if (issuer = '''') \<noteq> (subject = '''') then None
      else if issuer = '''' then Some identities
      else if validIdentityString issuer 2048 \<noteq> Some issuer \<or> validIdentityString subject 1024 \<noteq> Some subject then None
      else if identity_key issuer subject \<in> set identities then None
      else Some (identity_key issuer subject # identities))"

definition zero_scim_name :: scim_name where
  "zero_scim_name = \<lparr>sn_Formatted = '''', sn_GivenName = '''', sn_FamilyName = ''''\<rparr>"

definition zero_enterprise :: scim_enterprise where
  "zero_enterprise = \<lparr>en_EmployeeNumber = '''', en_CostCenter = '''', en_Organization = '''', en_Division = '''', en_Department = '''',
     en_Manager = \<lparr>mg_Value = '''', mg_Ref = '''', mg_DisplayName = ''''\<rparr>\<rparr>"

definition validUnmanagedSCIMProfile :: "profile \<Rightarrow> bool" where
  "validUnmanagedSCIMProfile p \<longleftrightarrow> pr_SCIMUserName p = '''' \<and> pr_SCIMExternalID p = '''' \<and> \<not> pr_SCIMDeleted p \<and> pr_SCIMCreatedAt p = 0
     \<and> pr_SCIMUpdatedAt p = 0 \<and> pr_SCIMName p = zero_scim_name \<and> length (pr_SCIMEmails p) = 0 \<and> pr_SCIMEnterprise p = zero_enterprise"

definition validManagedSCIMProfile :: "profile \<Rightarrow> bool" where
  "validManagedSCIMProfile p \<longleftrightarrow>
     (\<not> pr_Owner p \<and> pr_Credential p = '''' \<and> pr_TOTPSecret p = '''' \<and> length (pr_Recovery p) = 0 \<and> pr_Passkeys p = 0)
     \<and> (pr_SCIMUserName p \<noteq> '''' \<and> pr_SCIMCreatedAt p \<noteq> 0 \<and> pr_SCIMUpdatedAt p \<noteq> 0 \<and> \<not> pr_SCIMUpdatedAt p < pr_SCIMCreatedAt p
        \<and> (\<not> pr_SCIMDeleted p \<or> pr_Disabled p))"

definition profile_scim_input :: "profile \<Rightarrow> profile_input" where
  "profile_scim_input p = \<lparr>pi_UserName = pr_SCIMUserName p, pi_Name = pr_Name p, pi_Formatted = sn_Formatted (pr_SCIMName p),
     pi_GivenName = sn_GivenName (pr_SCIMName p), pi_FamilyName = sn_FamilyName (pr_SCIMName p), pi_ExternalID = pr_SCIMExternalID p,
     pi_Emails = pr_SCIMEmails p, pi_Enterprise = pr_SCIMEnterprise p, pi_Active = (\<not> pr_Disabled p)\<rparr>"

definition samePersistedSCIMProfile :: "profile_input \<Rightarrow> profile \<Rightarrow> bool" where
  "samePersistedSCIMProfile input p \<longleftrightarrow> pi_UserName input = pr_SCIMUserName p \<and> pi_Name input = pr_Name p
     \<and> pi_Formatted input = sn_Formatted (pr_SCIMName p) \<and> pi_GivenName input = sn_GivenName (pr_SCIMName p)
     \<and> pi_FamilyName input = sn_FamilyName (pr_SCIMName p) \<and> pi_ExternalID input = pr_SCIMExternalID p
     \<and> pi_Emails input = pr_SCIMEmails p \<and> pi_Enterprise input = pr_SCIMEnterprise p"

text \<open>The user name to remember, empty for none, and the identities seen.\<close>

definition validateProfile :: "(string \<Rightarrow> string option) \<Rightarrow> profile \<Rightarrow> string list \<Rightarrow> string list \<Rightarrow> (string \<times> string list \<times> string list) option" where
  "validateProfile precis p oidc saml =
     (if pr_ID p = '''' then None
      else Option.bind (validateFederatedProfileIdentity (pr_OIDCIssuer p) (pr_OIDCSubject p) oidc) (\<lambda>oidc'.
        Option.bind (validateFederatedProfileIdentity (pr_SAMLIssuer p) (pr_SAMLSubject p) saml) (\<lambda>saml'.
          if \<not> pr_SCIMManaged p then (if validUnmanagedSCIMProfile p then Some ('''', oidc', saml') else None)
          else if \<not> validManagedSCIMProfile p then None
          else Option.bind (NormalizeProfileInput precis (profile_scim_input p)) (\<lambda>input.
            if samePersistedSCIMProfile input p then Some (pi_UserName input, oidc', saml') else None))))"

fun validate_profiles :: "(string \<Rightarrow> string option) \<Rightarrow> string list \<Rightarrow> string list \<Rightarrow> string list \<Rightarrow> string list \<Rightarrow> profile list \<Rightarrow> bool" where
  "validate_profiles precis ids users oidc saml [] = True"
| "validate_profiles precis ids users oidc saml (p # ps) =
     (if pr_ID p \<in> set ids then False
      else case validateProfile precis p oidc saml of
          None \<Rightarrow> False
        | Some (user, oidc', saml') \<Rightarrow>
            if user = '''' then validate_profiles precis (pr_ID p # ids) users oidc' saml' ps
            else if user \<in> set users then False
            else validate_profiles precis (pr_ID p # ids) (user # users) oidc' saml' ps)"

definition ValidateProfiles :: "(string \<Rightarrow> string option) \<Rightarrow> profile list \<Rightarrow> bool" where
  "ValidateProfiles precis profiles = validate_profiles precis [] [] [] [] profiles"


section \<open>Second factors\<close>

definition recoveryCodeCount :: nat where "recoveryCodeCount = 10"
definition maxSecretLength :: nat where "maxSecretLength = 128"

definition base32_value :: "char \<Rightarrow> nat option" where
  "base32_value c = (if 65 \<le> byte c \<and> byte c \<le> 90 then Some (byte c - 65)
     else if 50 \<le> byte c \<and> byte c \<le> 55 then Some (byte c - 24) else None)"

text \<open>
  \<open>base32.StdEncoding.WithPadding(NoPadding).DecodeString\<close>: line ends are dropped, every other character is a digit of
  five bits, and eight digits are five bytes; a rest of two, four, five or seven digits gives the whole bytes in it and a
  rest of one, three or six digits gives none.
\<close>

fun base32_bytes :: "nat list \<Rightarrow> nat list" where
  "base32_bytes (a # b # c # d # e # f # g # h # r) =
     [(a * 8 + b div 4) mod 256, (b * 64 + c * 2 + d div 16) mod 256, (d * 16 + e div 2) mod 256,
      (e * 128 + f * 4 + g div 8) mod 256, (g * 32 + h) mod 256] @ base32_bytes r"
| "base32_bytes [a, b, c, d, e, f, g] =
     [(a * 8 + b div 4) mod 256, (b * 64 + c * 2 + d div 16) mod 256, (d * 16 + e div 2) mod 256, (e * 128 + f * 4 + g div 8) mod 256]"
| "base32_bytes [a, b, c, d, e] = [(a * 8 + b div 4) mod 256, (b * 64 + c * 2 + d div 16) mod 256, (d * 16 + e div 2) mod 256]"
| "base32_bytes [a, b, c, d] = [(a * 8 + b div 4) mod 256, (b * 64 + c * 2 + d div 16) mod 256]"
| "base32_bytes [a, b] = [(a * 8 + b div 4) mod 256]"
| "base32_bytes _ = []"

definition base32_decode :: "string \<Rightarrow> nat list option" where
  "base32_decode s = (let t = filter (\<lambda>c. byte c \<noteq> 10 \<and> byte c \<noteq> 13) s in
     if list_all (\<lambda>c. base32_value c \<noteq> None) t then Some (base32_bytes (map (the \<circ> base32_value) t)) else None)"

text \<open>The number in eight bytes, the four bytes of the digest at an offset, and six decimal digits.\<close>

definition big_endian8 :: "int \<Rightarrow> nat list" where
  "big_endian8 n = map (\<lambda>k. nat (n div 2 ^ k mod 256)) [56, 48, 40, 32, 24, 16, 8, 0]"

definition decimal6 :: "nat \<Rightarrow> string" where
  "decimal6 n = map (\<lambda>k. char_of (48 + n div 10 ^ k mod 10)) [5, 4, 3, 2, 1, 0]"

definition totp :: "(nat list \<Rightarrow> nat list \<Rightarrow> nat list) \<Rightarrow> nat list \<Rightarrow> int \<Rightarrow> string" where
  "totp hmac key counter =
     (if counter < 0 then ''''
      else let digest = hmac key (big_endian8 counter);
               position = digest ! (length digest - 1) mod 16;
               v = foldl (\<lambda>n b. n * 256 + b) 0 (take 4 (drop position digest)) mod 2 ^ 31
           in decimal6 (v mod 1000000))"

definition decimal :: "string \<Rightarrow> bool" where
  "decimal v \<longleftrightarrow> list_all (\<lambda>r. \<not> (r < 48 \<or> r > 57)) (runes v)"

text \<open>\<open>now.Unix() / 30\<close> truncates towards zero.\<close>

definition quot30 :: "int \<Rightarrow> int" where
  "quot30 t = (if t < 0 then - (- t div 30) else t div 30)"

definition TOTPCounter :: "(nat list \<Rightarrow> nat list \<Rightarrow> nat list) \<Rightarrow> string \<Rightarrow> string \<Rightarrow> instant \<Rightarrow> int option" where
  "TOTPCounter hmac secret code now =
     (let code = trim_space code in
      if length secret = 0 \<or> length secret > maxSecretLength \<or> length code \<noteq> 6 \<or> \<not> decimal code then None
      else case base32_decode secret of
          None \<Rightarrow> None
        | Some key \<Rightarrow> let counter = quot30 (time_unix now) in
            List.find (\<lambda>candidate. totp hmac key candidate = code) [counter, counter - 1, counter + 1])"

definition ValidTOTP :: "(nat list \<Rightarrow> nat list \<Rightarrow> nat list) \<Rightarrow> string \<Rightarrow> string \<Rightarrow> instant \<Rightarrow> bool" where
  "ValidTOTP hmac secret code now \<longleftrightarrow> TOTPCounter hmac secret code now \<noteq> None"

definition NormalizeRecovery :: "profile_env \<Rightarrow> string \<Rightarrow> string" where
  "NormalizeRecovery env code =
     (if length code > 128 then '''' else ve_Upper env (filter (\<lambda>c. c \<noteq> CHR ''-'' \<and> c \<noteq> CHR '' '') (trim_space code)))"

definition validFactorIdentity :: "string \<Rightarrow> bool" where
  "validFactorIdentity pid \<longleftrightarrow> pid \<noteq> '''' \<and> length pid \<le> maxIdentityLength \<and> pid = trim_space pid \<and> CHR 0x00 \<notin> set pid"

definition validFactorSecret :: "string \<Rightarrow> bool" where
  "validFactorSecret secret \<longleftrightarrow> secret \<noteq> '''' \<and> length secret \<le> maxSecretLength \<and> secret = trim_space secret \<and> CHR 0x00 \<notin> set secret"


record factor_profile =
  fp_ID :: string
  fp_Owner :: bool
  fp_Passkeys :: nat
  fp_Secret :: string
  fp_Recovery :: "string list"
  fp_Counter :: int
  fp_Revision :: nat

definition factorProfile :: "profile \<Rightarrow> factor_profile" where
  "factorProfile p = \<lparr>fp_ID = pr_ID p, fp_Owner = pr_Owner p, fp_Passkeys = pr_Passkeys p, fp_Secret = pr_TOTPSecret p,
     fp_Recovery = pr_Recovery p, fp_Counter = pr_TOTPCounter p, fp_Revision = pr_Revision p\<rparr>"

definition applyFactorProfile :: "profile \<Rightarrow> factor_profile \<Rightarrow> profile" where
  "applyFactorProfile p f = p\<lparr>pr_TOTPSecret := fp_Secret f, pr_Recovery := fp_Recovery f, pr_TOTPCounter := fp_Counter f, pr_Revision := fp_Revision f\<rparr>"

text \<open>The hashes of the codes, in their order; \<open>None\<close> if a code is empty or comes twice.\<close>

fun recovery_hash_loop :: "profile_env \<Rightarrow> string list \<Rightarrow> string list \<Rightarrow> string list option" where
  "recovery_hash_loop env unique [] = Some []"
| "recovery_hash_loop env unique (code # codes) =
     (let normalized = NormalizeRecovery env code; hashed = ve_SessionKey env normalized in
      if normalized = '''' then None
      else if hashed \<in> set unique then None
      else map_option ((#) hashed) (recovery_hash_loop env (hashed # unique) codes))"

definition recoveryHashes :: "profile_env \<Rightarrow> string list \<Rightarrow> string list option" where
  "recoveryHashes env recovery =
     (if length recovery = 0 \<or> length recovery > recoveryCodeCount then None else recovery_hash_loop env [] recovery)"

definition factor_Enable ::
  "profile_env \<Rightarrow> profile_persistence \<Rightarrow> outcomes \<Rightarrow> string \<Rightarrow> string \<Rightarrow> string list \<Rightarrow> profile_store \<Rightarrow> unit stored" where
  "factor_Enable env pe ok pid secret recovery S =
     (if \<not> validFactorIdentity pid \<or> \<not> validFactorSecret secret then (Inl InvalidFactor, S)
      else case recoveryHashes env recovery of
          None \<Rightarrow> (Inl InvalidFactor, S)
        | Some hashed \<Rightarrow> (case find_index (\<lambda>p. fp_ID (factorProfile p) = pid) (ps_Profiles S) of
              None \<Rightarrow> (Inl NotFound, S)
            | Some i \<Rightarrow> let f = factorProfile (ps_Profiles S ! i);
                  f' = f\<lparr>fp_Secret := secret, fp_Recovery := hashed, fp_Counter := 0, fp_Revision := next_revision (fp_Revision f)\<rparr>
                in commit_related pe ok ((ps_Profiles S)[i := applyFactorProfile (ps_Profiles S ! i) f'])
                     (WithoutProfile (ps_Sessions S) pid True) (ps_APIKeys S) () S))"

definition factor_Disable :: "profile_persistence \<Rightarrow> outcomes \<Rightarrow> string \<Rightarrow> profile_store \<Rightarrow> unit stored" where
  "factor_Disable pe ok pid S =
     (if \<not> validFactorIdentity pid then (Inl NotFound, S)
      else case find_index (\<lambda>p. fp_ID (factorProfile p) = pid) (ps_Profiles S) of
          None \<Rightarrow> (Inl NotFound, S)
        | Some i \<Rightarrow> let f = factorProfile (ps_Profiles S ! i) in
            if fp_Owner f \<and> fp_Passkeys f = 0 then (Inl OwnerFactorNeeded, S)
            else let f' = f\<lparr>fp_Secret := '''', fp_Recovery := [], fp_Counter := 0, fp_Revision := next_revision (fp_Revision f)\<rparr>
              in commit_related pe ok ((ps_Profiles S)[i := applyFactorProfile (ps_Profiles S ! i) f'])
                   (WithoutProfile (ps_Sessions S) pid True) (ps_APIKeys S) () S)"

text \<open>What \<open>Verify\<close> decides: to refuse, or the profile and the factor it writes.\<close>

datatype factor_verdict = Refuse | AcceptCode nat int | AcceptRecovery nat nat string

fun verify_scan :: "profile_env \<Rightarrow> string \<Rightarrow> string \<Rightarrow> instant \<Rightarrow> nat \<Rightarrow> profile list \<Rightarrow> factor_verdict" where
  "verify_scan env pid code now i [] = Refuse"
| "verify_scan env pid code now i (p # ps) =
     (let f = factorProfile p in
      if fp_ID f \<noteq> pid \<or> fp_Secret f = '''' then verify_scan env pid code now (Suc i) ps
      else case TOTPCounter (ve_HMAC env) (fp_Secret f) code now of
          Some counter \<Rightarrow> if counter \<le> fp_Counter f then Refuse else AcceptCode i counter
        | None \<Rightarrow>
            if length (fp_Recovery f) > recoveryCodeCount then verify_scan env pid code now (Suc i) ps
            else let normalized = NormalizeRecovery env code in
              if normalized = '''' then Refuse
              else case find_index (\<lambda>recovery. recovery = ve_SessionKey env normalized) (fp_Recovery f) of
                  Some position \<Rightarrow> AcceptRecovery i position (ve_SessionKey env normalized)
                | None \<Rightarrow> verify_scan env pid code now (Suc i) ps)"

definition commitFactor :: "profile_persistence \<Rightarrow> outcomes \<Rightarrow> nat \<Rightarrow> factor_profile \<Rightarrow> profile_store \<Rightarrow> bool \<times> profile_store" where
  "commitFactor pe ok i f S =
     (case commit_profiles pe ok ((ps_Profiles S)[i := applyFactorProfile (ps_Profiles S ! i) f]) () S of
        (Inl _, S') \<Rightarrow> (False, S') | (Inr _, S') \<Rightarrow> (True, S'))"

definition factor_Verify :: "profile_env \<Rightarrow> profile_persistence \<Rightarrow> outcomes \<Rightarrow> instant \<Rightarrow> string \<Rightarrow> string \<Rightarrow> profile_store \<Rightarrow> bool \<times> profile_store" where
  "factor_Verify env pe ok now pid code S =
     (if \<not> validFactorIdentity pid \<or> code = '''' \<or> length code > maxSecretLength \<or> CHR 0x00 \<in> set code then (False, S)
      else case verify_scan env pid code now 0 (ps_Profiles S) of
          Refuse \<Rightarrow> (False, S)
        | AcceptCode i counter \<Rightarrow> commitFactor pe ok i ((factorProfile (ps_Profiles S ! i))\<lparr>fp_Counter := counter\<rparr>) S
        | AcceptRecovery i position _ \<Rightarrow>
            let f = factorProfile (ps_Profiles S ! i) in
            commitFactor pe ok i (f\<lparr>fp_Recovery := take position (fp_Recovery f) @ drop (position + 1) (fp_Recovery f)\<rparr>) S)"

section \<open>Passwords\<close>

definition passwordResetTarget :: "profile list \<Rightarrow> string \<Rightarrow> store_error + profile" where
  "passwordResetTarget profiles pid = (case List.find (\<lambda>p. pr_ID p = pid) profiles of
     None \<Rightarrow> Inl NotFound
   | Some p \<Rightarrow> if pr_SCIMManaged p then Inl SCIMControlled else Inr p)"

text \<open>\<open>before\<close> are the profiles under the read lock, before the password is hashed.\<close>

definition resetPassword ::
  "profile_env \<Rightarrow> profile_persistence \<Rightarrow> outcomes \<Rightarrow> string \<Rightarrow> string \<Rightarrow> profile list \<Rightarrow> profile_store \<Rightarrow> unit stored" where
  "resetPassword env pe ok pid password before S =
     (if \<not> credentials_Validate env password then (Inl PasswordError, S)
      else case passwordResetTarget before pid of
          Inl e \<Rightarrow> (Inl e, S)
        | Inr current \<Rightarrow> (case credentials_Hash env password of
              None \<Rightarrow> (Inl PasswordError, S)
            | Some credential \<Rightarrow> (case find_index (\<lambda>p. pr_ID p = pid) (ps_Profiles S) of
                  None \<Rightarrow> (Inl NotFound, S)
                | Some i \<Rightarrow> let p = ps_Profiles S ! i in
                    if pr_SCIMManaged p then (Inl SCIMControlled, S)
                    else if pr_Revision p \<noteq> pr_Revision current then (Inl ProfileChanged, S)
                    else commit_related pe ok ((ps_Profiles S)[i := p\<lparr>pr_Credential := credential, pr_Revision := next_revision (pr_Revision p)\<rparr>])
                           (WithoutProfile (ps_Sessions S) pid False) (ps_APIKeys S) () S)))"

section \<open>Signing in\<close>

definition loginProfile :: "profile_env \<Rightarrow> string \<Rightarrow> profile_store \<Rightarrow> profile option" where
  "loginProfile env name S = List.find (\<lambda>p. EqualFold env (pr_Name p) name \<and> \<not> pr_Disabled p \<and> \<not> pr_SCIMDeleted p) (ps_Profiles S)"

text \<open>\<open>verify\<close> is \<open>credentials.Verify\<close>; the profile that is found is returned in both cases.\<close>

definition Authenticate :: "profile_env \<Rightarrow> (string \<Rightarrow> string \<Rightarrow> bool) \<Rightarrow> string \<Rightarrow> string \<Rightarrow> profile_store \<Rightarrow> profile option \<times> bool" where
  "Authenticate env verify name password S = (case loginProfile env (trim_space name) S of
     None \<Rightarrow> (None, False)
   | Some p \<Rightarrow> (Some p, verify (pr_Credential p) password))"

end
