(* ===== verification/ProfileLaws.thy ===== *)
theory ProfileLaws
  imports Profiles
begin

text \<open>
  The laws of the profile store: what \<open>ValidateProfiles\<close> accepts as a predicate on the list, the invariant that
  every operation keeps, also in the documents while they are being written, what a change revokes, and that second
  factors are used once.
\<close>

section \<open>Valid profiles\<close>

definition identity_ok :: "string \<Rightarrow> string \<Rightarrow> bool" where
  "identity_ok issuer subject \<longleftrightarrow> (issuer = '''') = (subject = '''')
     \<and> (issuer \<noteq> '''' \<longrightarrow> validIdentityString issuer 2048 = Some issuer \<and> validIdentityString subject 1024 = Some subject)"

definition name_of_identity :: "string \<Rightarrow> string \<Rightarrow> string" where
  "name_of_identity issuer subject = (if issuer = '''' then '''' else identity_key issuer subject)"

definition user_of :: "profile \<Rightarrow> string" where
  "user_of p = (if pr_SCIMManaged p then pr_SCIMUserName p else '''')"

definition oidc_of :: "profile \<Rightarrow> string" where
  "oidc_of p = name_of_identity (pr_OIDCIssuer p) (pr_OIDCSubject p)"

definition saml_of :: "profile \<Rightarrow> string" where
  "saml_of p = name_of_identity (pr_SAMLIssuer p) (pr_SAMLSubject p)"

definition profile_ok :: "(string \<Rightarrow> string option) \<Rightarrow> profile \<Rightarrow> bool" where
  "profile_ok precis p \<longleftrightarrow> pr_ID p \<noteq> '''' \<and> identity_ok (pr_OIDCIssuer p) (pr_OIDCSubject p) \<and> identity_ok (pr_SAMLIssuer p) (pr_SAMLSubject p)
     \<and> (if pr_SCIMManaged p then validManagedSCIMProfile p \<and> NormalizeProfileInput precis (profile_scim_input p) = Some (profile_scim_input p)
        else validUnmanagedSCIMProfile p)"

definition named :: "string list \<Rightarrow> string list" where
  "named xs = filter (\<lambda>k. k \<noteq> '''') xs"

definition profiles_ok :: "(string \<Rightarrow> string option) \<Rightarrow> profile list \<Rightarrow> bool" where
  "profiles_ok precis ps \<longleftrightarrow> list_all (profile_ok precis) ps \<and> distinct (map pr_ID ps) \<and> distinct (named (map user_of ps))
     \<and> distinct (named (map oidc_of ps)) \<and> distinct (named (map saml_of ps))"

lemma named_simps [simp]: "named [] = []" "named (k # xs) = (if k = '''' then named xs else k # named xs)" "named (xs @ ys) = named xs @ named ys"
  "set (named xs) = set xs - {''''}"
  by (auto simp: named_def)

lemma identity_key_ne [simp]: "identity_key i s \<noteq> ''''"
  by (simp add: identity_key_def)

lemma validateFederated_iff:
  "validateFederatedProfileIdentity i s seen =
     (if identity_ok i s \<and> name_of_identity i s \<notin> set (named seen) then Some (named [name_of_identity i s] @ seen) else None)"
  by (auto simp: validateFederatedProfileIdentity_def identity_ok_def name_of_identity_def)

lemma scimString_input_active: "NormalizeProfileInput precis i = Some j \<Longrightarrow> pi_Active j = pi_Active i"
  by (auto simp: NormalizeProfileInput_def bind_eq_Some_conv split: if_splits)

lemma same_persisted: "samePersistedSCIMProfile j p \<and> pi_Active j = (\<not> pr_Disabled p) \<longleftrightarrow> j = profile_scim_input p"
  by (cases j) (auto simp: samePersistedSCIMProfile_def profile_scim_input_def)

lemma validateProfile_iff:
  "validateProfile precis p oidc saml =
     (if profile_ok precis p \<and> oidc_of p \<notin> set (named oidc) \<and> saml_of p \<notin> set (named saml)
      then Some (user_of p, named [oidc_of p] @ oidc, named [saml_of p] @ saml) else None)"
proof -
  have managed: "Option.bind (NormalizeProfileInput precis (profile_scim_input p)) (\<lambda>input. if samePersistedSCIMProfile input p then Some (pi_UserName input, x, y) else None)
    = (if NormalizeProfileInput precis (profile_scim_input p) = Some (profile_scim_input p) then Some (pr_SCIMUserName p, x, y) else None)" for x y :: "string list"
  proof (cases "NormalizeProfileInput precis (profile_scim_input p)")
    case (Some j)
    then have "pi_Active j = (\<not> pr_Disabled p)" by (auto dest: scimString_input_active simp: profile_scim_input_def)
    with same_persisted [of j p] have "samePersistedSCIMProfile j p \<longleftrightarrow> j = profile_scim_input p" by simp
    with Some show ?thesis by (simp add: profile_scim_input_def)
  qed simp
  let ?o = "identity_ok (pr_OIDCIssuer p) (pr_OIDCSubject p) \<and> oidc_of p \<notin> set (named oidc)"
    and ?s = "identity_ok (pr_SAMLIssuer p) (pr_SAMLSubject p) \<and> saml_of p \<notin> set (named saml)"
  have o: "validateFederatedProfileIdentity (pr_OIDCIssuer p) (pr_OIDCSubject p) oidc = (if ?o then Some (named [oidc_of p] @ oidc) else None)"
    and s: "validateFederatedProfileIdentity (pr_SAMLIssuer p) (pr_SAMLSubject p) saml = (if ?s then Some (named [saml_of p] @ saml) else None)"
    by (simp_all only: validateFederated_iff oidc_of_def saml_of_def)
  show ?thesis
  proof (cases "pr_ID p \<noteq> '''' \<and> ?o \<and> ?s")
    case False
    then show ?thesis by (auto simp: validateProfile_def o s profile_ok_def simp del: named_simps)
  next
    case True
    then have "validateProfile precis p oidc saml =
       (if \<not> pr_SCIMManaged p then (if validUnmanagedSCIMProfile p then Some ('''', named [oidc_of p] @ oidc, named [saml_of p] @ saml) else None)
        else if \<not> validManagedSCIMProfile p then None
        else if NormalizeProfileInput precis (profile_scim_input p) = Some (profile_scim_input p)
          then Some (pr_SCIMUserName p, named [oidc_of p] @ oidc, named [saml_of p] @ saml) else None)"
      unfolding validateProfile_def o s by (simp only: managed simp_thms if_True if_False bind.bind_lunit)
    with True show ?thesis by (simp add: profile_ok_def user_of_def del: named_simps)
  qed
qed

lemma validate_profiles_iff:
  "validate_profiles precis ids users oidc saml ps \<longleftrightarrow> profiles_ok precis ps \<and> set (map pr_ID ps) \<inter> set ids = {}
     \<and> set (named (map user_of ps)) \<inter> set users = {} \<and> set (named (map oidc_of ps)) \<inter> set (named oidc) = {}
     \<and> set (named (map saml_of ps)) \<inter> set (named saml) = {}"
proof (induction ps arbitrary: ids users oidc saml)
  case (Cons p ps)
  show ?case
    by (auto simp: validateProfile_iff Cons.IH profiles_ok_def)
qed (simp add: profiles_ok_def)

theorem ValidateProfiles_iff: "ValidateProfiles precis ps \<longleftrightarrow> profiles_ok precis ps"
  by (simp add: ValidateProfiles_def validate_profiles_iff)

lemma distinct_named_update:
  assumes "distinct (named (map f ps))" "i < length ps" "f p = '''' \<or> f p = f (ps ! i) \<or> f p \<notin> f ` set ps"
  shows "distinct (named (map f (ps[i := p])))"
proof -
  have s: "ps = take i ps @ ps ! i # drop (Suc i) ps" using assms(2) by (rule id_take_nth_drop)
  have u: "ps[i := p] = take i ps @ p # drop (Suc i) ps" using assms(2) by (rule upd_conv_take_nth_drop)
  have "distinct (named (map f (take i ps @ ps ! i # drop (Suc i) ps)))" using assms(1) s by simp
  moreover have "f p \<notin> f ` set ps \<Longrightarrow> f p \<notin> f ` set (take i ps) \<and> f p \<notin> f ` set (drop (Suc i) ps)"
    by (meson image_mono in_set_dropD in_set_takeD subset_iff subsetI)
  moreover have ?thesis if "f p = f (ps ! i)"
    using assms(1,2) that by (metis list_update_id map_update nth_map)
  ultimately show ?thesis using assms(3) unfolding u by (cases "f p = f (ps ! i)") (auto split: if_splits)
qed

lemma profiles_ok_update:
  assumes "profiles_ok precis ps" "i < length ps" "profile_ok precis p" "pr_ID p = pr_ID (ps ! i)"
    "user_of p = '''' \<or> user_of p = user_of (ps ! i) \<or> user_of p \<notin> user_of ` set ps"
    "oidc_of p = '''' \<or> oidc_of p = oidc_of (ps ! i)" "saml_of p = '''' \<or> saml_of p = saml_of (ps ! i)"
  shows "profiles_ok precis (ps[i := p])"
proof -
  have "map pr_ID (ps[i := p]) = map pr_ID ps" using assms(2,4) by (metis list_update_id map_update nth_map)
  moreover have "list_all (profile_ok precis) (ps[i := p])"
    using assms(1,3) by (auto simp: profiles_ok_def list_all_iff dest!: set_update_subset_insert [THEN subsetD])
  ultimately show ?thesis using assms by (auto simp: profiles_ok_def intro!: distinct_named_update)
qed

lemma profiles_ok_append:
  "profiles_ok precis ps \<Longrightarrow> profile_ok precis p \<Longrightarrow> pr_ID p \<notin> pr_ID ` set ps \<Longrightarrow> user_of p = '''' \<or> user_of p \<notin> user_of ` set ps
     \<Longrightarrow> oidc_of p = '''' \<Longrightarrow> saml_of p = '''' \<Longrightarrow> profiles_ok precis (ps @ [p])"
  by (auto simp: profiles_ok_def)

lemma profiles_ok_filter: "profiles_ok precis ps \<Longrightarrow> profiles_ok precis (filter P ps)"
proof -
  have d: "distinct (named (map f ps)) \<Longrightarrow> distinct (named (map f (filter P ps)))" for f :: "profile \<Rightarrow> string"
    by (induction ps) auto
  assume "profiles_ok precis ps"
  then show ?thesis by (auto simp: profiles_ok_def list_all_iff distinct_map_filter intro: d)
qed


section \<open>Operations\<close>

datatype profile_op = DoAddOwner string string string | DoAddProfile string string string bool profile_policy
  | DoSetProfile string bool profile_policy | DoRemoveProfile string | DoCreateSCIM "string list" profile_input
  | DoUpdateSCIM string profile_input string | DoDeleteSCIM string string | DoEnable string string "string list"
  | DoDisable string | DoVerify string string | DoResetPassword string string "profile list"

definition outcome_of :: "'a stored \<Rightarrow> bool \<times> profile_store" where
  "outcome_of r = (case fst r of Inl _ \<Rightarrow> False | Inr _ \<Rightarrow> True, snd r)"

text \<open>One operation, with the writes that succeed and the time it reads; whether it succeeded and the store after it.\<close>

fun profile_step :: "profile_env \<Rightarrow> profile_persistence \<Rightarrow> outcomes \<Rightarrow> instant \<Rightarrow> profile_op \<Rightarrow> profile_store \<Rightarrow> bool \<times> profile_store" where
  "profile_step env pe ok now (DoAddOwner newID name password) S = (case NewProfile env newID name password True of
     None \<Rightarrow> (False, S) | Some p \<Rightarrow> outcome_of (AddOwner pe ok p S))"
| "profile_step env pe ok now (DoAddProfile newID name password owner policy) S = outcome_of (AddProfile env pe ok newID name password owner policy S)"
| "profile_step env pe ok now (DoSetProfile pid owner policy) S = outcome_of (SetProfile pe ok pid owner policy S)"
| "profile_step env pe ok now (DoRemoveProfile pid) S = outcome_of (RemoveProfile pe ok pid S)"
| "profile_step env pe ok now (DoCreateSCIM draws input) S = outcome_of (CreateSCIMProfile env pe ok now draws input S)"
| "profile_step env pe ok now (DoUpdateSCIM pid input expected) S = outcome_of (UpdateSCIMProfile env pe ok now pid input expected S)"
| "profile_step env pe ok now (DoDeleteSCIM pid expected) S = outcome_of (DeleteSCIMProfile pe ok now pid expected S)"
| "profile_step env pe ok now (DoEnable pid secret recovery) S = outcome_of (factor_Enable env pe ok pid secret recovery S)"
| "profile_step env pe ok now (DoDisable pid) S = outcome_of (factor_Disable pe ok pid S)"
| "profile_step env pe ok now (DoVerify pid code) S = factor_Verify env pe ok now pid code S"
| "profile_step env pe ok now (DoResetPassword pid password before) S = outcome_of (resetPassword env pe ok pid password before S)"

text \<open>
  When an operation keeps the profiles loadable.  The IDs that are drawn are not empty and new; the first profile is an
  owner's; a provisioned profile is not made an owner or given a second factor, nor the user name of a deleted one.
  The last three the code does not check.
\<close>

fun op_safe :: "profile_env \<Rightarrow> profile_op \<Rightarrow> profile_store \<Rightarrow> bool" where
  "op_safe env (DoAddOwner newID _ _) S \<longleftrightarrow> newID \<noteq> ''''"
| "op_safe env (DoAddProfile newID _ _ owner _) S \<longleftrightarrow> newID \<noteq> '''' \<and> newID \<notin> set (map pr_ID (ps_Profiles S)) \<and> (ps_Profiles S = [] \<longrightarrow> owner)"
| "op_safe env (DoSetProfile pid owner _) S \<longleftrightarrow> \<not> (owner \<and> list_ex (\<lambda>p. pr_ID p = pid \<and> pr_SCIMManaged p) (ps_Profiles S))"
| "op_safe env (DoCreateSCIM draws _) S \<longleftrightarrow> '''' \<notin> set draws"
| "op_safe env (DoUpdateSCIM _ input _) S \<longleftrightarrow> (case NormalizeProfileInput (ve_Precis env) input of None \<Rightarrow> True
     | Some input' \<Rightarrow> \<not> list_ex (\<lambda>p. pr_SCIMManaged p \<and> pr_SCIMDeleted p \<and> pr_SCIMUserName p = pi_UserName input') (ps_Profiles S))"
| "op_safe env (DoEnable pid _ _) S \<longleftrightarrow> \<not> list_ex (\<lambda>p. pr_ID p = pid \<and> pr_SCIMManaged p) (ps_Profiles S)"
| "op_safe env _ S \<longleftrightarrow> True"

section \<open>The invariant\<close>

definition references :: "profile list \<Rightarrow> session_map \<Rightarrow> (string, api_key) gomap \<Rightarrow> bool" where
  "references ps sessions keys \<longleftrightarrow> list_all (\<lambda>(_, s). ss_ProfileID s \<in> set (map pr_ID ps)) sessions
     \<and> list_all (\<lambda>(_, k). ak_ProfileID k \<in> set (map pr_ID ps)) keys"

definition owned :: "profile list \<Rightarrow> bool" where
  "owned ps \<longleftrightarrow> ps = [] \<or> list_ex pr_Owner ps"

text \<open>
  The profiles in memory and those of the document load at the next start, in each there is an owner once there are
  profiles, and no session or API key, in memory or in its document, is of a profile that is not there.  The document is
  what is in memory but for a write that reported an error after it had replaced the file (theory Storage).
\<close>

definition store_inv :: "profile_env \<Rightarrow> profile_store \<Rightarrow> bool" where
  "store_inv env S \<longleftrightarrow> ValidateProfiles (ve_Precis env) (ps_Profiles S) \<and> owned (ps_Profiles S)
     \<and> ValidateProfiles (ve_Precis env) (fi_Profiles (ps_Files S)) \<and> owned (fi_Profiles (ps_Files S))
     \<and> references (ps_Profiles S) (ps_Sessions S) (ps_APIKeys S)
     \<and> references (ps_Profiles S) (fi_Sessions (ps_Files S)) (fi_APIKeys (ps_Files S))"

lemma references_iff: "references ps s k \<longleftrightarrow> (\<forall>x v. (x, v) \<in> set s \<longrightarrow> ss_ProfileID v \<in> set (map pr_ID ps))
    \<and> (\<forall>x v. (x, v) \<in> set k \<longrightarrow> ak_ProfileID v \<in> set (map pr_ID ps))"
  by (auto simp: references_def list_all_iff)

lemma references_mono: "references ps s k \<Longrightarrow> set (map pr_ID ps) \<subseteq> set (map pr_ID ps') \<Longrightarrow> references ps' s k"
  unfolding references_iff by (meson subsetD)

lemma references_without: "references ps s k \<Longrightarrow> references ps (WithoutProfile s pid b) k"
  by (auto simp: references_def list_all_iff WithoutProfile_def)

lemma references_removeKeys: "references ps s k \<Longrightarrow> references ps s (removeProfileKeys k pid)"
  by (auto simp: references_def list_all_iff removeProfileKeys_def)

lemma references_drop:
  "references ps s k \<Longrightarrow> set (map pr_ID ps) \<subseteq> insert pid (set (map pr_ID ps')) \<Longrightarrow> references ps' (WithoutProfile s pid False) (removeProfileKeys k pid)"
  unfolding references_iff WithoutProfile_def removeProfileKeys_def mfilter_mem_iff by (metis (no_types, lifting) insertE subsetD)

lemma commit_profiles_inv:
  assumes "store_inv env S" "profiles_ok (ve_Precis env) ps" "owned ps" "set (map pr_ID (ps_Profiles S)) \<subseteq> set (map pr_ID ps)"
  shows "store_inv env (snd (commit_profiles pe ok ps r S))"
  using assms references_mono
  by (auto simp: commit_profiles_def persistence_Save_def write_document_def file_write_def store_inv_def ValidateProfiles_iff
      split: if_splits write_outcome.splits)

lemma commit_related_inv:
  assumes "store_inv env S" "profiles_ok (ve_Precis env) ps" "owned ps"
    "references ps s k" "references (ps_Profiles S) s k"
  shows "store_inv env (snd (commit_related pe ok ps s k r S))"
proof -
  have "references (ps_Profiles S) s (fi_APIKeys (ps_Files S))"
    using assms(1,5) by (simp add: store_inv_def references_def)
  with assms show ?thesis
    by (auto simp: commit_related_def SaveRelated_def write_document_def file_write_def store_inv_def ValidateProfiles_iff
        split: if_splits write_outcome.splits)
qed

text \<open>A profile in its place is replaced by one with the same ID.\<close>

lemma update_ids: "i < length ps \<Longrightarrow> pr_ID p = pr_ID (ps ! i) \<Longrightarrow> map pr_ID (ps[i := p]) = map pr_ID ps"
  by (metis list_update_id map_update nth_map)

lemma references_update: "references ps s k \<Longrightarrow> i < length ps \<Longrightarrow> pr_ID p = pr_ID (ps ! i) \<Longrightarrow> references (ps[i := p]) s k"
  by (simp add: references_def update_ids del: map_update)

lemma owned_update:
  "owned ps \<Longrightarrow> i < length ps \<Longrightarrow> pr_Owner p \<or> \<not> pr_Owner (ps ! i) \<Longrightarrow> owned (ps[i := p])"
proof -
  assume a: "owned ps" "i < length ps" "pr_Owner p \<or> \<not> pr_Owner (ps ! i)"
  then obtain j where j: "j < length ps" "pr_Owner (ps ! j)" by (auto simp: owned_def list_ex_iff in_set_conv_nth)
  then have "pr_Owner (ps[i := p] ! j)" using a by (auto simp: nth_list_update)
  then show ?thesis using j by (auto simp: owned_def list_ex_iff intro: nth_mem)
qed

lemma owner_count_other:
  assumes "owner_count ps \<noteq> 1" "i < length ps" "pr_Owner (ps ! i)"
  shows "owned (ps[i := p])"
proof -
  have s: "ps = take i ps @ ps ! i # drop (Suc i) ps" and u: "ps[i := p] = take i ps @ p # drop (Suc i) ps"
    using assms(2) by (auto simp: id_take_nth_drop upd_conv_take_nth_drop)
  have "owner_count ps = length (filter pr_Owner (take i ps)) + Suc (length (filter pr_Owner (drop (Suc i) ps)))"
    unfolding owner_count_def by (subst s) (simp add: assms(3))
  with assms(1) have "filter pr_Owner (take i ps) \<noteq> [] \<or> filter pr_Owner (drop (Suc i) ps) \<noteq> []" by auto
  then show ?thesis unfolding u owned_def by (auto simp: filter_empty_conv list_ex_iff)
qed


section \<open>Every operation keeps the invariant\<close>

lemmas profile_ok_defs = profile_ok_def validManagedSCIMProfile_def validUnmanagedSCIMProfile_def profile_scim_input_def

lemma profile_ok_neutral [simp]:
  "profile_ok precis (p\<lparr>pr_Revision := r\<rparr>) = profile_ok precis p"
  "profile_ok precis (p\<lparr>pr_TOTPCounter := c\<rparr>) = profile_ok precis p"
  "profile_ok precis (ApplyProfilePolicy q p) = profile_ok precis p"
  by (simp_all add: profile_ok_defs ApplyProfilePolicy_def)

lemma names_neutral [simp]:
  "user_of (p\<lparr>pr_Revision := r\<rparr>) = user_of p" "oidc_of (p\<lparr>pr_Revision := r\<rparr>) = oidc_of p" "saml_of (p\<lparr>pr_Revision := r\<rparr>) = saml_of p"
  "user_of (ApplyProfilePolicy q p) = user_of p" "oidc_of (ApplyProfilePolicy q p) = oidc_of p" "saml_of (ApplyProfilePolicy q p) = saml_of p"
  "user_of (p\<lparr>pr_Owner := b\<rparr>) = user_of p" "oidc_of (p\<lparr>pr_Owner := b\<rparr>) = oidc_of p" "saml_of (p\<lparr>pr_Owner := b\<rparr>) = saml_of p"
  "pr_ID (ApplyProfilePolicy q p) = pr_ID p" "pr_Owner (ApplyProfilePolicy q p) = pr_Owner p" "pr_Revision (ApplyProfilePolicy q p) = pr_Revision p"
  by (simp_all add: ApplyProfilePolicy_def user_of_def oidc_of_def saml_of_def)

lemma profile_ok_owner: "profile_ok precis p \<Longrightarrow> (b \<Longrightarrow> \<not> pr_SCIMManaged p) \<Longrightarrow> profile_ok precis (p\<lparr>pr_Owner := b\<rparr>)"
  by (cases b) (simp_all add: profile_ok_defs split: if_splits)

lemma new_profile_ok:
  assumes "NewProfile env newID name password owner = Some p" "newID \<noteq> ''''"
  shows "profile_ok precis p \<and> user_of p = '''' \<and> oidc_of p = '''' \<and> saml_of p = '''' \<and> pr_ID p = newID \<and> pr_Owner p = owner"
  using assms
  by (auto simp: NewProfile_def newProfile_def Let_def zero_profile_def profile_ok_defs identity_ok_def user_of_def oidc_of_def saml_of_def
      name_of_identity_def zero_scim_name_def zero_enterprise_def split: if_splits option.splits)

lemma outcome_of_snd [simp]: "snd (outcome_of r) = snd r"
  by (simp add: outcome_of_def)

lemma inv_ok: "store_inv env S \<Longrightarrow> profiles_ok (ve_Precis env) (ps_Profiles S)" "store_inv env S \<Longrightarrow> owned (ps_Profiles S)"
  "store_inv env S \<Longrightarrow> references (ps_Profiles S) (ps_Sessions S) (ps_APIKeys S)"
  by (simp_all add: store_inv_def ValidateProfiles_iff)

lemma inv_profile_ok: "store_inv env S \<Longrightarrow> i < length (ps_Profiles S) \<Longrightarrow> profile_ok (ve_Precis env) (ps_Profiles S ! i)"
  by (auto simp: store_inv_def ValidateProfiles_iff profiles_ok_def list_all_iff)

text \<open>Replacing one profile.\<close>

lemma update_inv:
  assumes inv: "store_inv env S" and i: "i < length (ps_Profiles S)"
    and p: "profile_ok (ve_Precis env) p" "pr_ID p = pr_ID (ps_Profiles S ! i)"
    and names: "user_of p = '''' \<or> user_of p = user_of (ps_Profiles S ! i) \<or> user_of p \<notin> user_of ` set (ps_Profiles S)"
      "oidc_of p = '''' \<or> oidc_of p = oidc_of (ps_Profiles S ! i)" "saml_of p = '''' \<or> saml_of p = saml_of (ps_Profiles S ! i)"
    and own: "owned ((ps_Profiles S)[i := p])"
  shows "store_inv env (snd (commit_profiles pe ok ((ps_Profiles S)[i := p]) r S))"
    "references (ps_Profiles S) s k \<Longrightarrow> store_inv env (snd (commit_related pe ok ((ps_Profiles S)[i := p]) s k r S))"
proof -
  have ok: "profiles_ok (ve_Precis env) ((ps_Profiles S)[i := p])"
    by (rule profiles_ok_update [OF inv_ok(1) [OF inv] i p names])
  have ids: "map pr_ID ((ps_Profiles S)[i := p]) = map pr_ID (ps_Profiles S)" by (rule update_ids [OF i p(2)])
  show "store_inv env (snd (commit_profiles pe ok ((ps_Profiles S)[i := p]) r S))"
    by (rule commit_profiles_inv [OF inv ok own]) (simp only: ids order_refl)
  show "store_inv env (snd (commit_related pe ok ((ps_Profiles S)[i := p]) s k r S))" if "references (ps_Profiles S) s k"
    by (rule commit_related_inv [OF inv ok own references_update [OF that i p(2)] that])
qed

lemma AddOwner_inv:
  assumes "store_inv env S" "NewProfile env newID name password True = Some p" "newID \<noteq> ''''"
  shows "store_inv env (snd (AddOwner pe ok p S))"
proof (cases "ps_Profiles S = []")
  case True
  have "profiles_ok (ve_Precis env) [p]" "owned [p]" using new_profile_ok [OF assms(2,3)] by (simp_all add: profiles_ok_def owned_def)
  with True assms(1) show ?thesis by (simp add: AddOwner_def commit_profiles_inv)
qed (use assms in \<open>simp add: AddOwner_def\<close>)

lemma AddProfile_inv:
  assumes "store_inv env S" "newID \<noteq> ''''" "newID \<notin> set (map pr_ID (ps_Profiles S))" "ps_Profiles S = [] \<Longrightarrow> owner"
  shows "store_inv env (snd (AddProfile env pe ok newID name password owner policy S))"
proof (cases "NewProfile env newID name password owner")
  case (Some created)
  let ?p = "ApplyProfilePolicy policy created"
  note new = new_profile_ok [OF Some assms(2)]
  have "profiles_ok (ve_Precis env) (ps_Profiles S @ [?p])"
    using assms(3) new by (intro profiles_ok_append [OF inv_ok(1) [OF assms(1)]]) auto
  moreover have "owned (ps_Profiles S @ [?p])" using inv_ok(2) [OF assms(1)] assms(4) new by (auto simp: owned_def)
  ultimately have "store_inv env (snd (commit_profiles pe ok (ps_Profiles S @ [?p]) (pr_ID ?p) S))"
    by (intro commit_profiles_inv [OF assms(1)]) auto
  with Some assms(1) show ?thesis by (auto simp: AddProfile_def Let_def)
qed (use assms in \<open>auto simp: AddProfile_def\<close>)

lemma managed_find: "find_index (\<lambda>p. pr_ID p = pid) ps = Some i \<Longrightarrow> \<not> list_ex (\<lambda>p. pr_ID p = pid \<and> pr_SCIMManaged p) ps \<Longrightarrow> \<not> pr_SCIMManaged (ps ! i)"
  by (auto dest!: find_index_Some simp: list_ex_iff)

lemma SetProfile_inv:
  assumes "store_inv env S" "\<not> (owner \<and> list_ex (\<lambda>p. pr_ID p = pid \<and> pr_SCIMManaged p) (ps_Profiles S))"
  shows "store_inv env (snd (SetProfile pe ok pid owner policy S))"
proof (cases "policy_Valid policy \<and> find_index (\<lambda>p. pr_ID p = pid) (ps_Profiles S) \<noteq> None")
  case True
  then obtain i where i: "find_index (\<lambda>p. pr_ID p = pid) (ps_Profiles S) = Some i" by blast
  then have len: "i < length (ps_Profiles S)" by (auto dest: find_index_Some)
  let ?q = "ps_Profiles S ! i"
  let ?p = "(ApplyProfilePolicy policy (?q\<lparr>pr_Owner := owner\<rparr>))\<lparr>pr_Revision := next_revision (pr_Revision ?q)\<rparr>"
  have "owner \<Longrightarrow> \<not> pr_SCIMManaged ?q" using managed_find [OF i] assms(2) by blast
  then have p: "profile_ok (ve_Precis env) ?p" using profile_ok_owner [OF inv_profile_ok [OF assms(1) len]] by simp
  have "store_inv env (snd (commitProfilePolicy pe ok i owner (owner_count (ps_Profiles S)) policy S))"
  proof (cases "pr_Owner ?q \<and> \<not> owner \<and> owner_count (ps_Profiles S) = 1")
    case False
    have own: "owned ((ps_Profiles S)[i := ?p])"
    proof (cases "owner \<or> \<not> pr_Owner ?q")
      case True
      with inv_ok(2) [OF assms(1)] len show ?thesis by (auto intro!: owned_update)
    next
      case no: False
      with False show ?thesis by (intro owner_count_other [OF _ len]) simp_all
    qed
    note upd = update_inv [OF assms(1) len p _ _ _ _ own]
    have "store_inv env (snd (commit_profiles pe ok ((ps_Profiles S)[i := ?p]) () S))" by (rule upd) simp_all
    moreover have "store_inv env (snd (commit_related pe ok ((ps_Profiles S)[i := ?p]) (WithoutProfile (ps_Sessions S) (pr_ID ?q) True) (ps_APIKeys S) () S))"
      by (rule upd) (simp_all add: references_without [OF inv_ok(3) [OF assms(1)]])
    ultimately show ?thesis unfolding commitProfilePolicy_def Let_def if_not_P [OF False]
      by (cases owner; cases "pp_Remote policy") (simp_all add: len)
  qed (simp add: commitProfilePolicy_def Let_def assms(1))
  with True i show ?thesis by (simp add: SetProfile_def)
qed (use assms(1) in \<open>auto simp: SetProfile_def\<close>)


text \<open>The scan of \<open>RemoveProfile\<close> drops the profiles with the ID, and keeps an owner.\<close>

lemma remove_scan_kept:
  "remove_scan pid owners ps = Inr (kept, removed) \<Longrightarrow>
     kept = filter (\<lambda>p. pr_ID p \<noteq> pid) ps \<and> (removed \<noteq> '''' \<longrightarrow> removed = pid) \<and> (\<forall>p \<in> set ps. pr_ID p = pid \<longrightarrow> \<not> (pr_Owner p \<and> owners = 1))"
  by (induction ps arbitrary: kept removed) (auto split: if_splits sum.splits prod.splits)

lemma owners_after_remove:
  assumes "distinct (map pr_ID ps)" "owned ps" "\<forall>p \<in> set ps. pr_ID p = pid \<longrightarrow> \<not> (pr_Owner p \<and> owner_count ps = 1)"
  shows "owned (filter (\<lambda>p. pr_ID p \<noteq> pid) ps)"
proof (rule ccontr)
  assume "\<not> ?thesis"
  then have no: "\<And>p. p \<in> set ps \<Longrightarrow> pr_Owner p \<Longrightarrow> pr_ID p = pid" and "ps \<noteq> []"
    by (auto simp: owned_def list_ex_iff)
  with assms(2) obtain p where p: "p \<in> set ps" "pr_Owner p" by (auto simp: owned_def list_ex_iff)
  have "set (filter pr_Owner ps) = {p}"
    using no p assms(1) by (auto simp: distinct_map inj_on_def)
  moreover have "distinct (filter pr_Owner ps)" using assms(1) by (simp add: distinct_map)
  ultimately have "owner_count ps = 1" unfolding owner_count_def by (metis card.empty card_insert_disjoint distinct_card empty_iff finite.emptyI One_nat_def)
  then show False using assms(3) p no by blast
qed

lemma RemoveProfile_inv:
  assumes "store_inv env S"
  shows "store_inv env (snd (RemoveProfile pe ok pid S))"
proof (cases "remove_scan pid (owner_count (ps_Profiles S)) (ps_Profiles S)")
  case (Inr r)
  obtain kept removed where r: "r = (kept, removed)" by (cases r)
  note k = remove_scan_kept [OF Inr [unfolded r]]
  let ?s = "WithoutProfile (ps_Sessions S) pid False" and ?k = "removeProfileKeys (ps_APIKeys S) pid"
  have "profiles_ok (ve_Precis env) kept" using k profiles_ok_filter [OF inv_ok(1) [OF assms]] by simp
  moreover have "owned kept" using k owners_after_remove inv_ok(1,2) [OF assms] by (auto simp: profiles_ok_def)
  moreover have "references kept ?s ?k" using k by (intro references_drop [OF inv_ok(3) [OF assms]]) auto
  moreover have "references (ps_Profiles S) ?s ?k" by (intro references_without references_removeKeys inv_ok(3) [OF assms])
  ultimately have "store_inv env (snd (commit_related pe ok kept ?s ?k () S))" by (rule commit_related_inv [OF assms])
  then show ?thesis using Inr r k assms by (auto simp: RemoveProfile_def)
qed (simp add: RemoveProfile_def assms)

text \<open>What provisioning writes loads again.\<close>

lemma normalized_profile_ok:
  assumes n: "precis_stable precis" "NormalizeProfileInput precis i = Some input"
    and p: "pr_SCIMManaged p" "pr_ID p \<noteq> ''''" "validManagedSCIMProfile p" "identity_ok (pr_OIDCIssuer p) (pr_OIDCSubject p)"
      "identity_ok (pr_SAMLIssuer p) (pr_SAMLSubject p)"
    and f: "profile_scim_input p = input"
  shows "profile_ok precis p"
  using p f NormalizeProfileInput_normal [OF n] by (simp add: profile_ok_def)

lemma normalized_user: "NormalizeProfileInput precis i = Some input \<Longrightarrow> pi_UserName input \<noteq> ''''"
  by (auto simp: NormalizeProfileInput_def bind_eq_Some_conv dest!: scimString_bounds split: if_splits)

lemma identity_ok_empty [simp]: "identity_ok '''' ''''"
  by (simp add: identity_ok_def)

definition clock_ok :: "instant \<Rightarrow> profile_store \<Rightarrow> bool" where
  "clock_ok now S \<longleftrightarrow> 0 < now \<and> list_all (\<lambda>p. pr_SCIMCreatedAt p \<le> now) (ps_Profiles S)"

lemma clock_at: "clock_ok now S \<Longrightarrow> i < length (ps_Profiles S) \<Longrightarrow> 0 < now \<and> pr_SCIMCreatedAt (ps_Profiles S ! i) \<le> now"
  by (auto simp: clock_ok_def list_all_iff)

lemma scim_profile_facts [simp]:
  "profile_scim_input ((set_scim_identity input p)\<lparr>pr_Disabled := \<not> pi_Active input, pr_SCIMDeleted := d, pr_SCIMUpdatedAt := t, pr_Revision := r\<rparr>) = input"
  by (cases input) (simp add: profile_scim_input_def set_scim_identity_def)

lemma scim_input_neutral [simp]:
  "profile_scim_input (p\<lparr>pr_Revision := r\<rparr>) = profile_scim_input p" "profile_scim_input (p\<lparr>pr_SCIMUpdatedAt := t\<rparr>) = profile_scim_input p"
  "profile_scim_input (p\<lparr>pr_SCIMDeleted := b\<rparr>) = profile_scim_input p" "profile_scim_input (clear_credentials p) = profile_scim_input p"
  by (simp_all add: profile_scim_input_def clear_credentials_def)

lemma scim_input_set: "pr_Disabled p = (\<not> pi_Active input) \<Longrightarrow> profile_scim_input (set_scim_identity input p) = input"
  by (cases input) (simp add: profile_scim_input_def set_scim_identity_def)


text \<open>The scan before a creation: at most one deleted profile is of this person, and no other profile has the name.\<close>

definition deleted_same :: "profile_env \<Rightarrow> profile_input \<Rightarrow> profile \<Rightarrow> bool" where
  "deleted_same env input p \<longleftrightarrow> pr_SCIMManaged p \<and> pr_SCIMDeleted p \<and> SameUserName (ve_Key env) (pr_SCIMUserName p) (pi_UserName input)"

definition live_same :: "profile_env \<Rightarrow> profile_input \<Rightarrow> profile \<Rightarrow> bool" where
  "live_same env input p \<longleftrightarrow> pr_SCIMManaged p \<and> \<not> pr_SCIMDeleted p \<and> SameUserName (ve_Key env) (pr_SCIMUserName p) (pi_UserName input)"

lemma create_scan_found: "create_scan env input k (Some x) ps = Some r' \<Longrightarrow> r' = Some x \<and> (\<forall>p \<in> set ps. \<not> deleted_same env input p \<and> \<not> live_same env input p)"
  by (induction ps arbitrary: k) (auto simp: deleted_same_def live_same_def split: if_splits)

lemma create_scan_sound:
  "create_scan env input k None ps = Some r' \<Longrightarrow> (\<forall>p \<in> set ps. \<not> live_same env input p) \<and>
     (case r' of None \<Rightarrow> \<forall>p \<in> set ps. \<not> deleted_same env input p
      | Some j \<Rightarrow> k \<le> j \<and> j - k < length ps \<and> deleted_same env input (ps ! (j - k))
          \<and> (\<forall>l < length ps. deleted_same env input (ps ! l) \<longrightarrow> l = j - k))"
proof (induction ps arbitrary: k)
  case (Cons p ps)
  show ?case
  proof (cases "deleted_same env input p")
    case True
    with Cons.prems have "create_scan env input (Suc k) (Some k) ps = Some r'" by (auto simp: deleted_same_def split: if_splits)
    note f = create_scan_found [OF this]
    have "l = 0" if "l < length (p # ps)" "deleted_same env input ((p # ps) ! l)" for l
      using that f by (cases l) (auto dest: nth_mem)
    moreover have "\<not> live_same env input p" using True by (simp add: deleted_same_def live_same_def)
    ultimately show ?thesis using f True by simp
  next
    case False
    with Cons.prems have c: "create_scan env input (Suc k) None ps = Some r'" "\<not> live_same env input p"
      by (auto simp: deleted_same_def live_same_def split: if_splits)
    show ?thesis
    proof (cases r')
      case None
      with Cons.IH [OF c(1)] c(2) False show ?thesis by simp
    next
      case (Some j)
      note ih = Cons.IH [OF c(1), unfolded Some option.case]
      then have j: "Suc k \<le> j" "j - Suc k < length ps" "deleted_same env input (ps ! (j - Suc k))"
        and only: "\<And>l. l < length ps \<Longrightarrow> deleted_same env input (ps ! l) \<Longrightarrow> l = j - Suc k"
        and no: "\<forall>p \<in> set ps. \<not> live_same env input p"
        by blast+
      from j(1) have e: "j - k = Suc (j - Suc k)" by simp
      have "l = j - k" if "l < length (p # ps)" "deleted_same env input ((p # ps) ! l)" for l
      proof (cases l)
        case (Suc m)
        with that only [of m] e show ?thesis by simp
      qed (use that False in simp)
      moreover have "k \<le> j" "j - k < length (p # ps)" "deleted_same env input ((p # ps) ! (j - k))"
        using j e by simp_all
      moreover have "\<forall>q \<in> set (p # ps). \<not> live_same env input q" using no c(2) by simp
      ultimately show ?thesis unfolding Some option.case by blast
    qed
  qed
qed simp


text \<open>A name that the user name profile prepared has a key to compare it with.\<close>

definition precis_keys :: "(string \<Rightarrow> string option) \<Rightarrow> (string \<Rightarrow> string option) \<Rightarrow> bool" where
  "precis_keys precis key \<longleftrightarrow> (\<forall>u v. precis u = Some v \<longrightarrow> key v \<noteq> None)"

definition env_ok :: "profile_env \<Rightarrow> bool" where
  "env_ok env \<longleftrightarrow> precis_stable (ve_Precis env) \<and> precis_keys (ve_Precis env) (ve_Key env)"

lemma env_stable: "env_ok env \<Longrightarrow> precis_stable (ve_Precis env)"
  by (simp add: env_ok_def)

lemma normalized_same:
  assumes "env_ok env" "NormalizeProfileInput (ve_Precis env) i = Some input"
  shows "SameUserName (ve_Key env) (pi_UserName input) (pi_UserName input)"
proof -
  from NormalizeProfileInput_normal [OF env_stable [OF assms(1)] assms(2)] obtain u v where
    u: "scimString (pi_UserName input) 256 True = Some u" "ve_Precis env u = Some v" "scimString v 256 True = Some (pi_UserName input)"
    by (cases input) (auto simp: NormalizeProfileInput_def bind_eq_Some_conv split: if_splits)
  then have "trim_space v = v" "ve_Key env v \<noteq> None" using assms(1) by (auto simp: env_ok_def precis_stable_def precis_keys_def)
  with u(3) have "ve_Key env (pi_UserName input) \<noteq> None" by (auto simp: scimString_def Let_def split: if_splits)
  then show ?thesis by (simp add: SameUserName_def)
qed

lemma user_of_same:
  assumes "env_ok env" "NormalizeProfileInput (ve_Precis env) i = Some input" "user_of p = pi_UserName input"
  shows "deleted_same env input p \<or> live_same env input p"
  using normalized_same [OF assms(1,2)] normalized_user [OF assms(2)] assms(3)
  by (auto simp: deleted_same_def live_same_def user_of_def split: if_splits)

lemma rehydrate_inv:
  assumes inv: "store_inv env S" and n: "precis_stable (ve_Precis env)" "NormalizeProfileInput (ve_Precis env) i0 = Some input"
    and i: "i < length (ps_Profiles S)" "pr_SCIMManaged (ps_Profiles S ! i)" and clock: "clock_ok now S"
    and user: "pi_UserName input = pr_SCIMUserName (ps_Profiles S ! i) \<or> pi_UserName input \<notin> user_of ` set (ps_Profiles S)"
  shows "store_inv env (snd (rehydrateSCIMProfile pe ok (ps_Profiles S) i input now S))"
proof -
  let ?q = "ps_Profiles S ! i"
  let ?c = "clear_credentials (set_scim_identity input ?q)"
  let ?p = "?c\<lparr>pr_Disabled := \<not> pi_Active input, pr_SCIMDeleted := False, pr_SCIMUpdatedAt := now, pr_Revision := next_revision (pr_Revision ?c)\<rparr>"
  note q = inv_profile_ok [OF inv i(1)]
  have f: "profile_scim_input ?p = input"
    by (cases input) (simp add: profile_scim_input_def set_scim_identity_def clear_credentials_def)
  have id: "pr_ID ?p = pr_ID ?q" "pr_SCIMManaged ?p" "pr_Owner ?p = pr_Owner ?q" "user_of ?p = pi_UserName input" "oidc_of ?p = ''''" "saml_of ?p = ''''"
    using i(2) by (simp_all add: clear_credentials_def set_scim_identity_def user_of_def oidc_of_def saml_of_def name_of_identity_def)
  have "validManagedSCIMProfile ?p"
    using q i(2) normalized_user [OF n(2)] clock_at [OF clock i(1)]
    by (simp add: profile_ok_def validManagedSCIMProfile_def clear_credentials_def set_scim_identity_def)
  then have p: "profile_ok (ve_Precis env) ?p"
    using q id(1,2) f by (intro normalized_profile_ok [OF n]) (simp_all add: profile_ok_def clear_credentials_def)
  have "store_inv env (snd (commit_related pe ok ((ps_Profiles S)[i := ?p]) (WithoutProfile (ps_Sessions S) (pr_ID ?p) False) (ps_APIKeys S) ?p S))"
  proof (rule update_inv(2) [OF inv i(1) p id(1)])
    show "user_of ?p = '''' \<or> user_of ?p = user_of ?q \<or> user_of ?p \<notin> user_of ` set (ps_Profiles S)"
      using user i(2) id(4) by (auto simp: user_of_def)
    show "owned ((ps_Profiles S)[i := ?p])" using inv_ok(2) [OF inv] i(1) id(3) by (intro owned_update) auto
  qed (simp_all only: id references_without [OF inv_ok(3) [OF inv]] simp_thms)
  then show ?thesis unfolding rehydrateSCIMProfile_def Let_def .
qed

lemma newSCIMID_sound: "newSCIMID ps draws = Some pid \<Longrightarrow> pid \<in> set draws \<and> pid \<notin> pr_ID ` set ps"
  by (induction draws) (auto simp: FindProfile_def find_None_iff split: if_splits)

text \<open>The loop over the draws ends with the first new ID.\<close>

lemma newSCIMID_total: "\<not> set draws \<subseteq> pr_ID ` set ps \<Longrightarrow> \<exists>pid. newSCIMID ps draws = Some pid"
  by (induction draws) (auto simp: FindProfile_def find_None_iff)

lemma CreateSCIM_inv:
  assumes inv: "store_inv env S" and env: "env_ok env" and clock: "clock_ok now S" and draws: "'''' \<notin> set draws"
  shows "store_inv env (snd (CreateSCIMProfile env pe ok now draws i0 S))"
proof (cases "NormalizeProfileInput (ve_Precis env) i0")
  case (Some input)
  note n = env_stable [OF env] Some
  show ?thesis
  proof (cases "create_scan env input 0 None (ps_Profiles S)")
    case scan: (Some r)
    note c = create_scan_sound [OF scan]
    show ?thesis
    proof (cases r)
      case (Some j)
      with c have j: "j < length (ps_Profiles S)" "deleted_same env input (ps_Profiles S ! j)"
        "\<And>l. l < length (ps_Profiles S) \<Longrightarrow> deleted_same env input (ps_Profiles S ! l) \<Longrightarrow> l = j" by auto
      have "pi_UserName input = pr_SCIMUserName (ps_Profiles S ! j)" if u: "pi_UserName input \<in> user_of ` set (ps_Profiles S)"
      proof -
        from u obtain l where l: "l < length (ps_Profiles S)" "user_of (ps_Profiles S ! l) = pi_UserName input" by (auto simp: in_set_conv_nth)
        from user_of_same [OF env n(2) l(2)] c l(1) have "deleted_same env input (ps_Profiles S ! l)" by (auto simp: nth_mem)
        with j(3) l have "user_of (ps_Profiles S ! j) = pi_UserName input" by metis
        with j(2) show ?thesis by (simp add: user_of_def deleted_same_def)
      qed
      then have "store_inv env (snd (rehydrateSCIMProfile pe ok (ps_Profiles S) j input now S))"
        using j(2) by (intro rehydrate_inv [OF inv n j(1) _ clock]) (auto simp: deleted_same_def)
      with inv n scan Some show ?thesis by (simp add: CreateSCIMProfile_def)
    next
      case None
      show ?thesis
      proof (cases "newSCIMID (ps_Profiles S) draws")
        case pid: (Some pid)
        let ?p = "created_scim_profile pid input now"
        have new: "pid \<noteq> ''''" "pid \<notin> pr_ID ` set (ps_Profiles S)" using newSCIMID_sound [OF pid] draws by auto
        have f: "profile_scim_input ?p = input"
          by (cases input) (simp add: profile_scim_input_def set_scim_identity_def created_scim_profile_def)
        have id: "pr_ID ?p = pid" "user_of ?p = pi_UserName input" "oidc_of ?p = ''''" "saml_of ?p = ''''"
          by (simp_all add: created_scim_profile_def set_scim_identity_def user_of_def oidc_of_def saml_of_def name_of_identity_def zero_profile_def)
        have "profile_ok (ve_Precis env) ?p"
          using new f normalized_user [OF n(2)] clock
          by (intro normalized_profile_ok [OF n])
            (simp_all add: created_scim_profile_def set_scim_identity_def validManagedSCIMProfile_def zero_profile_def clock_ok_def)
        moreover have "user_of ?p \<notin> user_of ` set (ps_Profiles S)"
        proof
          assume "user_of ?p \<in> user_of ` set (ps_Profiles S)"
          then obtain x where x: "user_of ?p = user_of x" "x \<in> set (ps_Profiles S)" by (rule imageE)
          then have "user_of x = pi_UserName input" using id(2) by simp
          from user_of_same [OF env n(2) this] x(2) c None show False by simp
        qed
        ultimately have ok: "profiles_ok (ve_Precis env) (ps_Profiles S @ [?p])"
          using new id by (intro profiles_ok_append [OF inv_ok(1) [OF inv]]) auto
        show ?thesis
        proof (cases "list_ex pr_Owner (ps_Profiles S)")
          case True
          then have "owned (ps_Profiles S @ [?p])" by (simp add: owned_def)
          then have "store_inv env (snd (commit_related pe ok (ps_Profiles S @ [?p]) (ps_Sessions S) (ps_APIKeys S) ?p S))"
            by (intro commit_related_inv [OF inv ok] inv_ok(3) [OF inv] references_mono [OF inv_ok(3) [OF inv]]) auto
          with n scan None pid True show ?thesis by (simp add: CreateSCIMProfile_def Let_def)
        qed (use inv n in \<open>simp add: CreateSCIMProfile_def\<close>)
      qed (use inv n scan None in \<open>simp add: CreateSCIMProfile_def\<close>)
    qed
  qed (use inv n in \<open>simp add: CreateSCIMProfile_def\<close>)
qed (use inv in \<open>simp add: CreateSCIMProfile_def\<close>)


lemma find_managed_Some:
  "find_managed pid ps = Some i \<Longrightarrow> i < length ps \<and> pr_ID (ps ! i) = pid \<and> pr_SCIMManaged (ps ! i) \<and> \<not> pr_SCIMDeleted (ps ! i)"
  by (auto simp: find_managed_def dest: find_index_Some)

lemma managed_not_owner: "store_inv env S \<Longrightarrow> i < length (ps_Profiles S) \<Longrightarrow> pr_SCIMManaged (ps_Profiles S ! i) \<Longrightarrow> \<not> pr_Owner (ps_Profiles S ! i)"
  by (drule (1) inv_profile_ok) (simp add: profile_ok_def validManagedSCIMProfile_def)

lemma owned_managed_update:
  "store_inv env S \<Longrightarrow> i < length (ps_Profiles S) \<Longrightarrow> pr_SCIMManaged (ps_Profiles S ! i) \<Longrightarrow> owned ((ps_Profiles S)[i := p])"
  by (simp add: owned_update inv_ok(2) managed_not_owner)

lemma updated_scim_facts:
  "pr_ID (updated_scim_profile input now q) = pr_ID q" "pr_SCIMManaged (updated_scim_profile input now q) = pr_SCIMManaged q"
  "pr_SCIMManaged q \<Longrightarrow> user_of (updated_scim_profile input now q) = pi_UserName input"
  "oidc_of (updated_scim_profile input now q) = '''' \<or> oidc_of (updated_scim_profile input now q) = oidc_of q"
  "saml_of (updated_scim_profile input now q) = '''' \<or> saml_of (updated_scim_profile input now q) = saml_of q"
  "profile_scim_input (updated_scim_profile input now q) = input"
  by (cases input; simp add: updated_scim_profile_def set_scim_identity_def clear_credentials_def user_of_def oidc_of_def saml_of_def
      name_of_identity_def profile_scim_input_def Let_def)+

lemma UpdateSCIM_inv:
  assumes inv: "store_inv env S" and env: "env_ok env" and clock: "clock_ok now S"
    and safe: "op_safe env (DoUpdateSCIM pid i0 expected) S"
  shows "store_inv env (snd (UpdateSCIMProfile env pe ok now pid i0 expected S))"
proof (cases "NormalizeProfileInput (ve_Precis env) i0")
  case (Some input)
  note n = env_stable [OF env] Some
  show ?thesis
  proof (cases "find_managed pid (ps_Profiles S)")
    case f: (Some i)
    note i = find_managed_Some [OF f]
    let ?q = "ps_Profiles S ! i" and ?p = "updated_scim_profile input now (ps_Profiles S ! i)"
    note facts = updated_scim_facts [where input = input and now = now and q = ?q] and q = inv_profile_ok [OF inv conjunct1 [OF i]]
    have p: "profile_ok (ve_Precis env) ?p"
    proof (rule normalized_profile_ok [OF n _ _ _ _ _ facts(6)])
      show "validManagedSCIMProfile ?p"
        using q i normalized_user [OF n(2)] clock_at [OF clock conjunct1 [OF i]]
        by (simp add: profile_ok_def validManagedSCIMProfile_def updated_scim_profile_def clear_credentials_def set_scim_identity_def Let_def)
      show "identity_ok (pr_OIDCIssuer ?p) (pr_OIDCSubject ?p)" "identity_ok (pr_SAMLIssuer ?p) (pr_SAMLSubject ?p)"
        using q by (simp_all add: profile_ok_def updated_scim_profile_def clear_credentials_def set_scim_identity_def Let_def)
    qed (use i facts q in \<open>simp_all add: profile_ok_def\<close>)
    show ?thesis
    proof (cases "conflictingSCIMProfile env (ps_Profiles S) pid input")
      case False
      have user: "user_of ?p = '''' \<or> user_of ?p = user_of ?q \<or> user_of ?p \<notin> user_of ` set (ps_Profiles S)"
      proof (rule ccontr)
        assume a: "\<not> ?thesis"
        then obtain x where x: "x \<in> set (ps_Profiles S)" "user_of x = pi_UserName input" using facts(3) i by auto
        have "\<not> deleted_same env input x"
        proof
          assume "deleted_same env input x"
          then have "pr_SCIMManaged x" "pr_SCIMDeleted x" "pr_SCIMUserName x = pi_UserName input"
            using x(2) by (simp_all add: deleted_same_def user_of_def)
          with safe x(1) n show False by (auto simp: list_ex_iff)
        qed
        with user_of_same [OF env n(2) x(2)] have "live_same env input x" by blast
        then have "pr_ID x = pid" using False x(1) by (auto simp: conflictingSCIMProfile_def live_same_def list_ex_iff)
        then have "x = ?q" using x(1) i inv_ok(1) [OF inv] by (auto simp: profiles_ok_def distinct_map inj_on_def)
        with x(2) a facts(3) i show False by simp
      qed
      note upd = update_inv(2) [OF inv conjunct1 [OF i] p facts(1) user facts(4,5) owned_managed_update [OF inv]]
      have "store_inv env (snd (commit_related pe ok ((ps_Profiles S)[i := ?p])
          (if c then WithoutProfile (ps_Sessions S) pid False else ps_Sessions S) (if d then removeProfileKeys (ps_APIKeys S) pid else ps_APIKeys S) ?p S))" for c d
        using i references_without [OF inv_ok(3) [OF inv]] inv_ok(3) [OF inv]
        by (intro upd) (simp_all add: references_removeKeys references_without)
      with inv n f False show ?thesis by (simp add: UpdateSCIMProfile_def Let_def)
    qed (use inv n f in \<open>simp add: UpdateSCIMProfile_def Let_def\<close>)
  qed (use inv n in \<open>simp add: UpdateSCIMProfile_def\<close>)
qed (use inv in \<open>simp add: UpdateSCIMProfile_def\<close>)

lemma DeleteSCIM_inv:
  assumes inv: "store_inv env S" and clock: "clock_ok now S"
  shows "store_inv env (snd (DeleteSCIMProfile pe ok now pid expected S))"
proof (cases "find_managed pid (ps_Profiles S)")
  case f: (Some i)
  note i = find_managed_Some [OF f]
  let ?q = "ps_Profiles S ! i"
  let ?p = "?q\<lparr>pr_Disabled := True, pr_SCIMDeleted := True, pr_Revision := next_revision (pr_Revision ?q), pr_SCIMUpdatedAt := now\<rparr>"
  note q = inv_profile_ok [OF inv conjunct1 [OF i]]
  have "NormalizeProfileInput (ve_Precis env) (profile_scim_input ?p) = Some (profile_scim_input ?p)"
  proof -
    have "NormalizeProfileInput (ve_Precis env) (profile_scim_input ?q) = Some (profile_scim_input ?q)" using q i by (simp add: profile_ok_def)
    then show ?thesis by (auto simp: NormalizeProfileInput_def profile_scim_input_def bind_eq_Some_conv split: if_splits)
  qed
  then have "profile_ok (ve_Precis env) ?p"
    using q i clock_at [OF clock conjunct1 [OF i]] by (simp add: profile_ok_def validManagedSCIMProfile_def)
  then have "store_inv env (snd (commit_related pe ok ((ps_Profiles S)[i := ?p]) (WithoutProfile (ps_Sessions S) pid False) (ps_APIKeys S) () S))"
    using i references_without [OF inv_ok(3) [OF inv]]
    by (intro update_inv(2) [OF inv conjunct1 [OF i]] owned_managed_update [OF inv]) (simp_all add: user_of_def oidc_of_def saml_of_def)
  with inv f show ?thesis by (simp add: DeleteSCIMProfile_def Let_def)
qed (use inv in \<open>simp add: DeleteSCIMProfile_def\<close>)


text \<open>Second factors and passwords of profiles that are not provisioned.\<close>

definition factor_change :: "string \<Rightarrow> string list \<Rightarrow> int \<Rightarrow> nat \<Rightarrow> profile \<Rightarrow> profile" where
  "factor_change secret recovery counter revision p = p\<lparr>pr_TOTPSecret := secret, pr_Recovery := recovery, pr_TOTPCounter := counter, pr_Revision := revision\<rparr>"

lemma applyFactor_eq:
  "applyFactorProfile p ((factorProfile p)\<lparr>fp_Secret := s, fp_Recovery := r, fp_Counter := c, fp_Revision := v\<rparr>) = factor_change s r c v p"
  "applyFactorProfile p ((factorProfile p)\<lparr>fp_Counter := c\<rparr>) = factor_change (pr_TOTPSecret p) (pr_Recovery p) c (pr_Revision p) p"
  "applyFactorProfile p ((factorProfile p)\<lparr>fp_Recovery := r\<rparr>) = factor_change (pr_TOTPSecret p) r (pr_TOTPCounter p) (pr_Revision p) p"
  by (simp_all add: applyFactorProfile_def factorProfile_def factor_change_def)

lemma factor_change_facts [simp]:
  "pr_ID (factor_change s r c v p) = pr_ID p" "pr_Owner (factor_change s r c v p) = pr_Owner p" "user_of (factor_change s r c v p) = user_of p"
  "oidc_of (factor_change s r c v p) = oidc_of p" "saml_of (factor_change s r c v p) = saml_of p"
  by (simp_all add: factor_change_def user_of_def oidc_of_def saml_of_def)

lemma factor_change_ok:
  "profile_ok precis p \<Longrightarrow> (pr_SCIMManaged p \<Longrightarrow> s = '''' \<and> r = []) \<Longrightarrow> profile_ok precis (factor_change s r c v p)"
  by (auto simp: profile_ok_defs factor_change_def)

lemma owned_same: "store_inv env S \<Longrightarrow> i < length (ps_Profiles S) \<Longrightarrow> pr_Owner p = pr_Owner (ps_Profiles S ! i) \<Longrightarrow> owned ((ps_Profiles S)[i := p])"
  by (intro owned_update inv_ok(2)) auto

lemma factor_update_inv:
  assumes "store_inv env S" "i < length (ps_Profiles S)" "pr_SCIMManaged (ps_Profiles S ! i) \<Longrightarrow> s = '''' \<and> r = []"
  shows "store_inv env (snd (commit_profiles pe ok ((ps_Profiles S)[i := factor_change s r c v (ps_Profiles S ! i)]) x S))"
    "store_inv env (snd (commit_related pe ok ((ps_Profiles S)[i := factor_change s r c v (ps_Profiles S ! i)]) (WithoutProfile (ps_Sessions S) pid b) (ps_APIKeys S) x S))"
  using assms references_without [OF inv_ok(3) [OF assms(1)]]
  by (auto intro!: update_inv owned_same factor_change_ok inv_profile_ok)

lemma Enable_inv:
  assumes "store_inv env S" "\<not> list_ex (\<lambda>p. pr_ID p = pid \<and> pr_SCIMManaged p) (ps_Profiles S)"
  shows "store_inv env (snd (factor_Enable env pe ok pid secret recovery S))"
proof (cases "find_index (\<lambda>p. pr_ID p = pid) (ps_Profiles S)")
  case (Some i)
  then have "i < length (ps_Profiles S)" "\<not> pr_SCIMManaged (ps_Profiles S ! i)"
    using managed_find [OF Some assms(2)] by (auto dest: find_index_Some)
  then have "store_inv env (snd (commit_related pe ok ((ps_Profiles S)[i := factor_change s r c v (ps_Profiles S ! i)])
      (WithoutProfile (ps_Sessions S) pid b) (ps_APIKeys S) () S))" for s r c v b
    by (intro factor_update_inv(2) [OF assms(1)]) simp_all
  with Some show ?thesis using assms(1)
    by (simp add: factor_Enable_def Let_def applyFactor_eq factorProfile_def [THEN arg_cong [where f = fp_ID]] split: option.split)
qed (use assms(1) in \<open>simp add: factor_Enable_def factorProfile_def split: option.split\<close>)

lemma Disable_inv:
  assumes "store_inv env S"
  shows "store_inv env (snd (factor_Disable pe ok pid S))"
proof (cases "find_index (\<lambda>p. pr_ID p = pid) (ps_Profiles S)")
  case (Some i)
  then have "i < length (ps_Profiles S)" by (auto dest: find_index_Some)
  with Some show ?thesis using assms(1)
    by (simp add: factor_Disable_def Let_def applyFactor_eq factor_update_inv(2) factorProfile_def [THEN arg_cong [where f = fp_ID]])
qed (use assms(1) in \<open>simp add: factor_Disable_def factorProfile_def\<close>)

text \<open>What a verification accepts it found in the profile with the ID, which has a secret.\<close>

lemma verify_scan_sound:
  "verify_scan env pid code now k ps = AcceptCode i counter \<Longrightarrow> k \<le> i \<and> i - k < length ps \<and> pr_ID (ps ! (i - k)) = pid
     \<and> pr_TOTPSecret (ps ! (i - k)) \<noteq> '''' \<and> pr_TOTPCounter (ps ! (i - k)) < counter
     \<and> TOTPCounter (ve_HMAC env) (pr_TOTPSecret (ps ! (i - k))) code now = Some counter"
  "verify_scan env pid code now k ps = AcceptRecovery i position hash \<Longrightarrow> k \<le> i \<and> i - k < length ps \<and> pr_ID (ps ! (i - k)) = pid
     \<and> pr_TOTPSecret (ps ! (i - k)) \<noteq> '''' \<and> position < length (pr_Recovery (ps ! (i - k))) \<and> pr_Recovery (ps ! (i - k)) ! position = hash
     \<and> hash = ve_SessionKey env (NormalizeRecovery env code)"
proof (induction ps arbitrary: k)
  case (Cons p ps)
  {
    case 1
    then consider "verify_scan env pid code now (Suc k) ps = AcceptCode i counter"
      | "i = k" "pr_ID p = pid" "pr_TOTPSecret p \<noteq> ''''" "pr_TOTPCounter p < counter" "TOTPCounter (ve_HMAC env) (pr_TOTPSecret p) code now = Some counter"
      by (auto simp: Let_def factorProfile_def split: if_splits option.splits)
    then show ?case
    proof cases
      case 1
      from Cons.IH(1) [OF this] show ?thesis by (auto simp: nth_Cons Suc_diff_le split: nat.splits) (metis Suc_diff_le diff_Suc_Suc nat.inject)+
    qed auto
  next
    case 2
    then consider "verify_scan env pid code now (Suc k) ps = AcceptRecovery i position hash"
      | "i = k" "pr_ID p = pid" "pr_TOTPSecret p \<noteq> ''''" "find_index (\<lambda>x. x = ve_SessionKey env (NormalizeRecovery env code)) (pr_Recovery p) = Some position"
        "hash = ve_SessionKey env (NormalizeRecovery env code)"
      by (auto simp: Let_def factorProfile_def split: if_splits option.splits)
    then show ?case
    proof cases
      case 1
      from Cons.IH(2) [OF this] show ?thesis by (auto simp: nth_Cons Suc_diff_le split: nat.splits) (metis Suc_diff_le diff_Suc_Suc nat.inject)+
    next
      case 2
      from find_index_Some [OF 2(4)] 2 show ?thesis by simp
    qed
  }
qed simp_all


lemma commitFactor_snd: "snd (commitFactor pe ok i f S) = snd (commit_profiles pe ok ((ps_Profiles S)[i := applyFactorProfile (ps_Profiles S ! i) f]) () S)"
  by (simp add: commitFactor_def split: prod.split sum.split)

lemma managed_no_secret: "store_inv env S \<Longrightarrow> i < length (ps_Profiles S) \<Longrightarrow> pr_TOTPSecret (ps_Profiles S ! i) \<noteq> '''' \<Longrightarrow> \<not> pr_SCIMManaged (ps_Profiles S ! i)"
  by (drule (1) inv_profile_ok) (auto simp: profile_ok_def validManagedSCIMProfile_def)

lemma Verify_inv:
  assumes "store_inv env S"
  shows "store_inv env (snd (factor_Verify env pe ok now pid code S))"
proof (cases "verify_scan env pid code now 0 (ps_Profiles S)")
  case (AcceptCode i counter)
  from verify_scan_sound(1) [OF this] have i: "i < length (ps_Profiles S)" "\<not> pr_SCIMManaged (ps_Profiles S ! i)"
    using managed_no_secret [OF assms] by simp_all
  from factor_update_inv(1) [OF assms i(1), where x = "()"] i(2) AcceptCode assms
  show ?thesis by (simp add: factor_Verify_def commitFactor_snd applyFactor_eq)
next
  case (AcceptRecovery i position hash)
  from verify_scan_sound(2) [OF this] have i: "i < length (ps_Profiles S)" "\<not> pr_SCIMManaged (ps_Profiles S ! i)"
    using managed_no_secret [OF assms] by simp_all
  from factor_update_inv(1) [OF assms i(1), where x = "()"] i(2) AcceptRecovery assms
  show ?thesis by (simp add: factor_Verify_def commitFactor_snd applyFactor_eq Let_def)
qed (simp add: factor_Verify_def assms)

lemma Reset_inv:
  assumes "store_inv env S"
  shows "store_inv env (snd (resetPassword env pe ok pid password before S))"
proof (cases "find_index (\<lambda>p. pr_ID p = pid) (ps_Profiles S)")
  case (Some i)
  then have i: "i < length (ps_Profiles S)" by (auto dest: find_index_Some)
  let ?q = "ps_Profiles S ! i"
  have "store_inv env (snd (commit_related pe ok ((ps_Profiles S)[i := ?q\<lparr>pr_Credential := c, pr_Revision := v\<rparr>])
      (WithoutProfile (ps_Sessions S) pid False) (ps_APIKeys S) () S))" if "\<not> pr_SCIMManaged ?q" for c v
    using that i inv_profile_ok [OF assms i] references_without [OF inv_ok(3) [OF assms]]
    by (intro update_inv(2) [OF assms] owned_same [OF assms])
      (simp_all add: user_of_def oidc_of_def saml_of_def profile_ok_def validUnmanagedSCIMProfile_def)
  with Some assms show ?thesis by (simp add: resetPassword_def Let_def split: sum.split option.split)
qed (use assms in \<open>simp add: resetPassword_def split: sum.split option.split\<close>)

lemma profile_step_inv:
  assumes "env_ok env" "store_inv env S" "clock_ok now S" "op_safe env op S"
  shows "store_inv env (snd (profile_step env pe ok now op S))"
proof (cases op)
  case (DoAddOwner newID name password)
  with assms show ?thesis by (cases "NewProfile env newID name password True") (simp_all add: AddOwner_inv)
next
  case (DoAddProfile newID name password owner policy)
  with assms show ?thesis by (simp add: AddProfile_inv)
qed (use assms in \<open>simp_all add: SetProfile_inv RemoveProfile_inv CreateSCIM_inv UpdateSCIM_inv DeleteSCIM_inv Enable_inv Disable_inv Verify_inv Reset_inv\<close>)


section \<open>The documents\<close>

text \<open>
  An operation that fails leaves memory as it was, one that succeeds leaves the profile document as the memory is.  A
  document that was as the memory is stays so also when the operation fails, unless a write reports an error after it had
  replaced the file.
\<close>

definition documented :: "profile_store \<Rightarrow> bool" where
  "documented S \<longleftrightarrow> fi_Profiles (ps_Files S) = ps_Profiles S"

definition clean_outcomes :: "outcomes \<Rightarrow> bool" where
  "clean_outcomes ok \<longleftrightarrow> (\<forall>d. ok d \<noteq> Replaced)"

definition answered :: "outcomes \<Rightarrow> profile_store \<Rightarrow> bool \<times> profile_store \<Rightarrow> bool" where
  "answered ok S r \<longleftrightarrow> (if fst r then documented (snd r)
       else ps_Profiles (snd r) = ps_Profiles S \<and> ps_Sessions (snd r) = ps_Sessions S \<and> ps_APIKeys (snd r) = ps_APIKeys S)
     \<and> (documented S \<and> clean_outcomes ok \<longrightarrow> documented (snd r))"

lemma answered_refused [simp]: "answered ok S (False, S)" "answered ok S (outcome_of (Inl e, S))"
  by (simp_all add: answered_def outcome_of_def)

lemma answered_profiles [simp]: "answered ok S (outcome_of (commit_profiles pe ok ps r S))"
  by (auto simp: answered_def outcome_of_def documented_def clean_outcomes_def commit_profiles_def persistence_Save_def write_document_def
      file_write_def split: write_outcome.splits)

lemma answered_related [simp]: "answered ok S (outcome_of (commit_related pe ok ps s k r S))"
  by (auto simp: answered_def outcome_of_def documented_def clean_outcomes_def commit_related_def SaveRelated_def write_document_def
      file_write_def split: write_outcome.splits)

lemma answered_factor [simp]: "answered ok S (commitFactor pe ok i f S)"
  using answered_profiles [of ok S pe "(ps_Profiles S)[i := applyFactorProfile (ps_Profiles S ! i) f]" "()"]
  by (auto simp: commitFactor_def outcome_of_def split: sum.splits prod.splits)

lemma profile_step_answered: "answered ok S (profile_step env pe ok now op S)"
proof (cases op)
  case DoAddOwner
  then show ?thesis by (auto simp: AddOwner_def split: option.splits)
next
  case DoAddProfile
  then show ?thesis by (auto simp: AddProfile_def Let_def split: option.splits)
next
  case DoSetProfile
  then show ?thesis by (auto simp: SetProfile_def commitProfilePolicy_def Let_def split: option.splits)
next
  case DoRemoveProfile
  then show ?thesis by (auto simp: RemoveProfile_def split: sum.splits)
next
  case DoCreateSCIM
  then show ?thesis by (auto simp: CreateSCIMProfile_def rehydrateSCIMProfile_def Let_def split: option.splits)
next
  case DoUpdateSCIM
  then show ?thesis by (auto simp: UpdateSCIMProfile_def Let_def split: option.splits)
next
  case DoDeleteSCIM
  then show ?thesis by (auto simp: DeleteSCIMProfile_def Let_def split: option.splits)
next
  case DoEnable
  then show ?thesis by (auto simp: factor_Enable_def Let_def split: option.splits)
next
  case DoDisable
  then show ?thesis by (auto simp: factor_Disable_def Let_def split: option.splits)
next
  case DoVerify
  then show ?thesis by (auto simp: factor_Verify_def Let_def split: factor_verdict.splits)
next
  case DoResetPassword
  then show ?thesis by (auto simp: resetPassword_def Let_def split: option.splits sum.splits)
qed

section \<open>What a success leaves\<close>

lemma commit_related_success:
  "outcome_of (commit_related pe ok ps s k r S) = (True, S') \<Longrightarrow> ps_Profiles S' = ps \<and> ps_Sessions S' = s \<and> ps_APIKeys S' = k"
  by (auto simp: outcome_of_def commit_related_def split: prod.splits bool.splits)

lemma commit_profiles_success:
  "outcome_of (commit_profiles pe ok ps r S) = (True, S') \<Longrightarrow> ps_Profiles S' = ps \<and> ps_Sessions S' = ps_Sessions S \<and> ps_APIKeys S' = ps_APIKeys S"
  by (auto simp: outcome_of_def commit_profiles_def split: prod.splits bool.splits)

lemma outcome_Inl [simp]: "outcome_of (Inl e, S) = (True, S') \<longleftrightarrow> False"
  by (simp add: outcome_of_def)

lemma commit_related_profiles: "ps_Profiles (snd (commit_related pe ok ps s k r S)) \<in> {ps_Profiles S, ps}"
  by (auto simp: commit_related_def split: prod.splits bool.splits)

lemma commit_profiles_profiles: "ps_Profiles (snd (commit_profiles pe ok ps r S)) \<in> {ps_Profiles S, ps}"
  by (auto simp: commit_profiles_def split: prod.splits bool.splits)

lemma valid_member: "ValidateProfiles precis ps \<Longrightarrow> p \<in> set ps \<Longrightarrow> profile_ok precis p"
  by (simp add: ValidateProfiles_iff profiles_ok_def list_all_iff)

text \<open>The operations that no check of the code refuses and that the next start refuses.\<close>

lemma owner_of_provisioned_breaks:
  assumes "profile_step env pe ok now (DoSetProfile pid True policy) S = (True, S')" "find_index (\<lambda>p. pr_ID p = pid) (ps_Profiles S) = Some i"
    "pr_SCIMManaged (ps_Profiles S ! i)"
  shows "\<not> ValidateProfiles precis (ps_Profiles S')"
proof -
  let ?q = "ApplyProfilePolicy policy ((ps_Profiles S ! i)\<lparr>pr_Owner := True\<rparr>)"
  let ?p = "?q\<lparr>pr_Revision := next_revision (pr_Revision ?q)\<rparr>"
  have i: "i < length (ps_Profiles S)" using find_index_Some [OF assms(2)] by simp
  have "ps_Profiles S' = (ps_Profiles S)[i := ?p]"
    using assms(1,2) by (auto simp: SetProfile_def commitProfilePolicy_def Let_def dest!: commit_related_success split: if_splits)
  then have "?p \<in> set (ps_Profiles S')" using i by (simp add: set_update_memI)
  moreover have "pr_SCIMManaged ?p" "pr_Owner ?p" using assms(3) by (simp_all add: ApplyProfilePolicy_def)
  then have "\<not> profile_ok precis ?p" by (simp add: profile_ok_def validManagedSCIMProfile_def)
  ultimately show ?thesis using valid_member by blast
qed

lemma factor_of_provisioned_breaks:
  assumes "profile_step env pe ok now (DoEnable pid secret recovery) S = (True, S')" "find_index (\<lambda>p. pr_ID p = pid) (ps_Profiles S) = Some i"
    "pr_SCIMManaged (ps_Profiles S ! i)"
  shows "\<not> ValidateProfiles precis (ps_Profiles S')"
proof -
  have i: "i < length (ps_Profiles S)" using find_index_Some [OF assms(2)] by simp
  have "secret \<noteq> ''''" using assms(1) by (auto simp: factor_Enable_def validFactorSecret_def split: if_splits)
  obtain r v where "ps_Profiles S' = (ps_Profiles S)[i := factor_change secret r 0 v (ps_Profiles S ! i)]"
    using assms(1,2) by (auto simp: factor_Enable_def Let_def applyFactor_eq factorProfile_def [THEN arg_cong [where f = fp_ID]]
        dest!: commit_related_success split: if_splits option.splits)
  then have "factor_change secret r 0 v (ps_Profiles S ! i) \<in> set (ps_Profiles S')" using i by (simp add: set_update_memI)
  moreover have "\<not> profile_ok precis (factor_change secret r 0 v (ps_Profiles S ! i))"
    using assms(3) \<open>secret \<noteq> ''''\<close> by (simp add: profile_ok_def validManagedSCIMProfile_def factor_change_def)
  ultimately show ?thesis using valid_member by blast
qed

lemma name_of_deleted_breaks:
  assumes "profile_step env pe ok now (DoUpdateSCIM pid i0 expected) S = (True, S')" "NormalizeProfileInput (ve_Precis env) i0 = Some input"
    "find_managed pid (ps_Profiles S) = Some i" "j < length (ps_Profiles S)" "j \<noteq> i" "user_of (ps_Profiles S ! j) = pi_UserName input"
  shows "\<not> ValidateProfiles precis (ps_Profiles S')"
proof -
  note i = find_managed_Some [OF assms(3)]
  let ?p = "updated_scim_profile input now (ps_Profiles S ! i)"
  have s: "ps_Profiles S' = (ps_Profiles S)[i := ?p]"
    using assms(1-3) by (auto simp: UpdateSCIMProfile_def Let_def dest!: commit_related_success split: if_splits)
  have u: "user_of ?p = pi_UserName input" using i by (simp add: updated_scim_facts)
  have "map user_of (ps_Profiles S') ! i = pi_UserName input" "map user_of (ps_Profiles S') ! j = pi_UserName input"
    using i assms(4-6) u by (simp_all add: s)
  moreover have "distinct (named xs) \<Longrightarrow> i < length xs \<Longrightarrow> j < length xs \<Longrightarrow> i \<noteq> j \<Longrightarrow> xs ! i = xs ! j \<Longrightarrow> xs ! i = ''''" for xs i j
  proof (induction xs arbitrary: i j)
    case (Cons x xs)
    show ?case
    proof (cases i; cases j)
      fix m n assume "i = Suc m" "j = Suc n"
      with Cons.prems Cons.IH [of m n] show ?thesis by (auto split: if_splits)
    qed (use Cons.prems in \<open>auto split: if_splits\<close>)
  qed simp
  ultimately have "distinct (named (map user_of (ps_Profiles S'))) \<Longrightarrow> pi_UserName input = ''''"
    using i assms(4,5) s by (metis length_list_update length_map)
  then show ?thesis using normalized_user [OF assms(2)] by (auto simp: ValidateProfiles_iff profiles_ok_def)
qed


section \<open>Revocation\<close>

text \<open>Whose sessions an operation ends: it changes what the profile may do or how its person signs in.\<close>

fun revoked_by :: "profile_op \<Rightarrow> string option" where
  "revoked_by (DoSetProfile pid _ _) = Some pid"
| "revoked_by (DoRemoveProfile pid) = Some pid"
| "revoked_by (DoUpdateSCIM pid _ _) = Some pid"
| "revoked_by (DoDeleteSCIM pid _) = Some pid"
| "revoked_by (DoEnable pid _ _) = Some pid"
| "revoked_by (DoDisable pid) = Some pid"
| "revoked_by (DoResetPassword pid _ _) = Some pid"
| "revoked_by _ = None"

definition submap :: "('k, 'v) gomap \<Rightarrow> ('k, 'v) gomap \<Rightarrow> bool" where
  "submap m' m \<longleftrightarrow> (\<forall>k v. map_of m' k = Some v \<longrightarrow> map_of m k = Some v)"

lemma submap_refl [simp]: "submap m m"
  by (simp add: submap_def)

lemma submap_mfilter: "mwf m \<Longrightarrow> submap (mfilter P m) m"
  by (auto simp: submap_def map_of_mfilter split: option.splits if_splits)

lemma submap_without [simp]: "mwf m \<Longrightarrow> submap (WithoutProfile m pid b) m"
  by (simp add: WithoutProfile_def submap_mfilter)

lemma submap_keys [simp]: "mwf m \<Longrightarrow> submap (removeProfileKeys m pid) m"
  by (simp add: removeProfileKeys_def submap_mfilter)

lemma next_revision_new: "next_revision r \<noteq> r"
proof (cases "r < 2 ^ 64")
  case True
  then show ?thesis by (cases "r + 1 = 2 ^ 64") (simp_all add: next_revision_def)
next
  case False
  have "next_revision r < 2 ^ 64" by (simp add: next_revision_def)
  with False show ?thesis by linarith
qed

definition bumped :: "string \<Rightarrow> profile list \<Rightarrow> profile list \<Rightarrow> bool" where
  "bumped pid ps ps' \<longleftrightarrow> (\<forall>q \<in> set ps'. pr_ID q = pid \<longrightarrow> (\<exists>p \<in> set ps. pr_ID p = pid \<and> pr_Revision q = next_revision (pr_Revision p)))"

lemma bumped_update:
  assumes "distinct (map pr_ID ps)" "i < length ps" "pr_ID (ps ! i) = pid" "pr_Revision q = next_revision (pr_Revision (ps ! i))"
  shows "bumped pid ps (ps[i := q])"
  unfolding bumped_def
proof (intro ballI impI)
  fix x assume x: "x \<in> set (ps[i := q])" "pr_ID x = pid"
  then obtain j where j: "j < length ps" "x = ps[i := q] ! j" by (auto simp: in_set_conv_nth)
  have "x = q"
  proof (cases "j = i")
    case False
    then have "pr_ID (ps ! j) = pr_ID (ps ! i)" using x(2) j assms(3) by simp
    with False j(1) assms(1,2) show ?thesis by (simp add: distinct_conv_nth)
  qed (use j assms(2) in simp)
  then show "\<exists>p \<in> set ps. pr_ID p = pid \<and> pr_Revision x = next_revision (pr_Revision p)"
    using assms(2-4) by (intro bexI [of _ "ps ! i"]) simp_all
qed

lemma bumped_filter: "bumped pid ps (filter (\<lambda>p. pr_ID p \<noteq> pid) ps)"
  by (simp add: bumped_def)

definition revokes :: "string \<Rightarrow> profile_store \<Rightarrow> profile_store \<Rightarrow> bool" where
  "revokes pid S S' \<longleftrightarrow> bumped pid (ps_Profiles S) (ps_Profiles S') \<and> submap (ps_Sessions S') (ps_Sessions S) \<and> submap (ps_APIKeys S') (ps_APIKeys S)"

lemma revokes_related:
  assumes "outcome_of (commit_related pe ok ((ps_Profiles S)[i := q]) s k r S) = (True, S')" "distinct (map pr_ID (ps_Profiles S))"
    "i < length (ps_Profiles S)" "pr_ID (ps_Profiles S ! i) = pid" "pr_Revision q = next_revision (pr_Revision (ps_Profiles S ! i))"
    "submap s (ps_Sessions S)" "submap k (ps_APIKeys S)"
  shows "revokes pid S S'"
  using commit_related_success [OF assms(1)] bumped_update [OF assms(2-5)] assms(6,7) by (simp add: revokes_def)

lemma factor_profile_fields [simp]: "fp_ID (factorProfile p) = pr_ID p" "fp_Revision (factorProfile p) = pr_Revision p" "fp_Owner (factorProfile p) = pr_Owner p"
  "fp_Passkeys (factorProfile p) = pr_Passkeys p"
  by (simp_all add: factorProfile_def)

lemma factor_change_revision [simp]: "pr_Revision (factor_change s r c v p) = v"
  by (simp add: factor_change_def)

lemma updated_revision: "pr_Revision (updated_scim_profile input now p) = next_revision (pr_Revision p)"
  by (simp add: updated_scim_profile_def set_scim_identity_def clear_credentials_def Let_def)

lemma step_revokes:
  assumes "profile_step env pe ok now op S = (True, S')" "revoked_by op = Some pid" "distinct (map pr_ID (ps_Profiles S))"
    "mwf (ps_Sessions S)" "mwf (ps_APIKeys S)"
  shows "revokes pid S S'"
proof (cases op)
  case (DoSetProfile p owner policy)
  with assms(2) have op: "op = DoSetProfile pid owner policy" by simp
  with assms(1) obtain i where i: "find_index (\<lambda>p. pr_ID p = pid) (ps_Profiles S) = Some i"
    "outcome_of (commitProfilePolicy pe ok i owner (owner_count (ps_Profiles S)) policy S) = (True, S')"
    by (auto simp: SetProfile_def split: if_splits option.splits)
  note f = find_index_Some [OF i(1)]
  show ?thesis
  proof (cases "\<not> owner \<and> pp_Remote policy")
    case True
    with i(2) f show ?thesis
      by (auto simp: commitProfilePolicy_def Let_def revokes_def intro!: bumped_update [OF assms(3)] dest!: commit_profiles_success split: if_splits)
  next
    case False
    with i(2) f show ?thesis
      by (auto simp: commitProfilePolicy_def Let_def intro!: revokes_related [OF _ assms(3)] submap_without assms(4) split: if_splits)
  qed
next
  case (DoRemoveProfile p)
  with assms(1,2) show ?thesis
    by (auto simp: RemoveProfile_def revokes_def assms(4,5) bumped_filter dest!: commit_related_success remove_scan_kept split: if_splits sum.splits prod.splits)
next
  case (DoUpdateSCIM p input expected)
  with assms(1,2) show ?thesis
    by (auto simp: UpdateSCIMProfile_def Let_def updated_revision assms(4,5) dest!: find_managed_Some
        elim!: revokes_related [OF _ assms(3)] split: if_splits option.splits)
next
  case (DoDeleteSCIM p expected)
  with assms(1,2) show ?thesis
    by (auto simp: DeleteSCIMProfile_def Let_def assms(4) dest!: find_managed_Some elim!: revokes_related [OF _ assms(3)] split: if_splits option.splits)
next
  case (DoEnable p secret recovery)
  with assms(1,2) show ?thesis
    by (auto simp: factor_Enable_def Let_def applyFactor_eq assms(4) dest!: find_index_Some elim!: revokes_related [OF _ assms(3)] split: if_splits option.splits)
next
  case (DoDisable p)
  with assms(1,2) show ?thesis
    by (auto simp: factor_Disable_def Let_def applyFactor_eq assms(4) dest!: find_index_Some elim!: revokes_related [OF _ assms(3)] split: if_splits option.splits)
next
  case (DoResetPassword p password before)
  with assms(1,2) show ?thesis
    by (auto simp: resetPassword_def Let_def assms(4) dest!: find_index_Some elim!: revokes_related [OF _ assms(3)] split: if_splits option.splits sum.splits)
qed (use assms(2) in simp_all)

section \<open>Second factors are used once\<close>

definition accepted_factor :: "profile_env \<Rightarrow> profile_persistence \<Rightarrow> outcomes \<Rightarrow> instant \<Rightarrow> string \<Rightarrow> string \<Rightarrow> profile_store \<Rightarrow> (int + string) list" where
  "accepted_factor env pe ok now pid code S =
     (if fst (factor_Verify env pe ok now pid code S)
      then (case verify_scan env pid code now 0 (ps_Profiles S) of AcceptCode _ c \<Rightarrow> [Inl c] | AcceptRecovery _ _ h \<Rightarrow> [Inr h] | Refuse \<Rightarrow> [])
      else [])"

text \<open>The time steps of the codes and the hashes of the recovery codes that a run accepts for a profile.\<close>

fun factor_run :: "profile_env \<Rightarrow> profile_persistence \<Rightarrow> string \<Rightarrow> (outcomes \<times> instant \<times> profile_op) list \<Rightarrow> profile_store \<Rightarrow> (int + string) list" where
  "factor_run env pe pid [] S = []"
| "factor_run env pe pid ((ok, now, op) # steps) S =
     (case op of DoVerify p code \<Rightarrow> if p = pid then accepted_factor env pe ok now pid code S else [] | _ \<Rightarrow> [])
       @ factor_run env pe pid steps (snd (profile_step env pe ok now op S))"

definition accepted_codes :: "(int + string) list \<Rightarrow> int list" where
  "accepted_codes es = concat (map (\<lambda>e. case e of Inl c \<Rightarrow> [c] | Inr _ \<Rightarrow> []) es)"

definition accepted_recovery :: "(int + string) list \<Rightarrow> string list" where
  "accepted_recovery es = concat (map (\<lambda>e. case e of Inl _ \<Rightarrow> [] | Inr h \<Rightarrow> [h]) es)"

lemma accepted_simps [simp]:
  "accepted_codes [] = []" "accepted_codes (Inl c # es) = c # accepted_codes es" "accepted_codes (Inr h # es) = accepted_codes es"
  "accepted_recovery [] = []" "accepted_recovery (Inl c # es) = accepted_recovery es" "accepted_recovery (Inr h # es) = h # accepted_recovery es"
  by (simp_all add: accepted_codes_def accepted_recovery_def)

fun enables :: "string \<Rightarrow> profile_op \<Rightarrow> bool" where
  "enables pid (DoEnable p _ _) \<longleftrightarrow> p = pid"
| "enables pid _ \<longleftrightarrow> False"

text \<open>A run in which nobody sets the factor up anew.\<close>

fun run_safe :: "profile_env \<Rightarrow> profile_persistence \<Rightarrow> string \<Rightarrow> (outcomes \<times> instant \<times> profile_op) list \<Rightarrow> profile_store \<Rightarrow> bool" where
  "run_safe env pe pid [] S \<longleftrightarrow> True"
| "run_safe env pe pid ((ok, now, op) # steps) S \<longleftrightarrow> clock_ok now S \<and> op_safe env op S \<and> \<not> enables pid op
     \<and> run_safe env pe pid steps (snd (profile_step env pe ok now op S))"

definition factor_bound :: "string \<Rightarrow> int \<Rightarrow> string set \<Rightarrow> profile \<Rightarrow> bool" where
  "factor_bound pid c R p \<longleftrightarrow> (pr_ID p = pid \<and> pr_TOTPSecret p \<noteq> '''' \<longrightarrow> c \<le> pr_TOTPCounter p \<and> distinct (pr_Recovery p) \<and> set (pr_Recovery p) \<subseteq> R)"

lemma factor_bound_weaken: "factor_bound pid c R p \<Longrightarrow> pr_TOTPSecret q = '''' \<or> pr_ID q \<noteq> pid \<or> pr_ID q = pr_ID p \<and> pr_TOTPSecret q = pr_TOTPSecret p \<and> pr_TOTPCounter q = pr_TOTPCounter p
    \<and> pr_Recovery q = pr_Recovery p \<Longrightarrow> factor_bound pid c R q"
  by (auto simp: factor_bound_def)

definition bounded :: "string \<Rightarrow> int \<Rightarrow> string set \<Rightarrow> profile_store \<Rightarrow> bool" where
  "bounded pid c R S \<longleftrightarrow> list_all (factor_bound pid c R) (ps_Profiles S)"

lemma bounded_update:
  assumes "list_all (factor_bound pid c R) ps" "i < length ps \<Longrightarrow> factor_bound pid c R (ps ! i) \<Longrightarrow> factor_bound pid c R q"
  shows "list_all (factor_bound pid c R) (ps[i := q])"
proof (cases "i < length ps")
  case True
  with assms have "factor_bound pid c R q" by (simp add: list_all_length)
  with assms(1) show ?thesis by (auto simp: list_all_iff dest!: set_update_subset_insert [THEN subsetD])
qed (use assms(1) in \<open>simp add: not_less list_update_beyond\<close>)

lemma bounded_related: "bounded pid c R S \<Longrightarrow> list_all (factor_bound pid c R) ps \<Longrightarrow> bounded pid c R (snd (commit_related pe ok ps s k r S))"
  using commit_related_profiles [of pe ok ps s k r S] by (auto simp: bounded_def)

lemma bounded_profiles: "bounded pid c R S \<Longrightarrow> list_all (factor_bound pid c R) ps \<Longrightarrow> bounded pid c R (snd (commit_profiles pe ok ps r S))"
  using commit_profiles_profiles [of pe ok ps r S] by (auto simp: bounded_def)

lemma bounded_related_update:
  "bounded pid c R S \<Longrightarrow> (i < length (ps_Profiles S) \<Longrightarrow> factor_bound pid c R (ps_Profiles S ! i) \<Longrightarrow> factor_bound pid c R q)
     \<Longrightarrow> bounded pid c R (snd (commit_related pe ok ((ps_Profiles S)[i := q]) s k r S))"
  by (intro bounded_related bounded_update) (simp_all add: bounded_def)

lemma bounded_profiles_update:
  "bounded pid c R S \<Longrightarrow> (i < length (ps_Profiles S) \<Longrightarrow> factor_bound pid c R (ps_Profiles S ! i) \<Longrightarrow> factor_bound pid c R q)
     \<Longrightarrow> bounded pid c R (snd (commit_profiles pe ok ((ps_Profiles S)[i := q]) r S))"
  by (intro bounded_profiles bounded_update) (simp_all add: bounded_def)

lemma bounded_append: "bounded pid c R S \<Longrightarrow> pr_TOTPSecret q = '''' \<Longrightarrow> list_all (factor_bound pid c R) (ps_Profiles S @ [q])"
  by (simp add: bounded_def factor_bound_def)

lemma factor_bound_neutral [simp]:
  "factor_bound pid c R (p\<lparr>pr_Revision := v\<rparr>) = factor_bound pid c R p"
  "factor_bound pid c R (p\<lparr>pr_Owner := b\<rparr>) = factor_bound pid c R p"
  "factor_bound pid c R (p\<lparr>pr_Credential := x\<rparr>) = factor_bound pid c R p"
  "factor_bound pid c R (p\<lparr>pr_Disabled := b\<rparr>) = factor_bound pid c R p"
  "factor_bound pid c R (p\<lparr>pr_SCIMDeleted := b\<rparr>) = factor_bound pid c R p"
  "factor_bound pid c R (p\<lparr>pr_SCIMUpdatedAt := t\<rparr>) = factor_bound pid c R p"
  "factor_bound pid c R (ApplyProfilePolicy policy p) = factor_bound pid c R p"
  "factor_bound pid c R (set_scim_identity input p) = factor_bound pid c R p"
  "factor_bound pid c R (clear_credentials p)"
  by (simp_all add: factor_bound_def ApplyProfilePolicy_def set_scim_identity_def clear_credentials_def)

lemma factor_bound_updated [simp]: "factor_bound pid c R p \<Longrightarrow> factor_bound pid c R (updated_scim_profile input now p)"
  by (simp add: updated_scim_profile_def Let_def)

lemma new_profile_secret: "NewProfile env newID name password owner = Some p \<Longrightarrow> pr_TOTPSecret p = ''''"
  by (auto simp: NewProfile_def newProfile_def Let_def zero_profile_def split: if_splits option.splits)

lemma created_secret: "pr_TOTPSecret (created_scim_profile pid input now) = ''''"
  by (simp add: created_scim_profile_def set_scim_identity_def zero_profile_def)

text \<open>What is not a verification for the profile keeps its factor, or takes it away.\<close>

lemma step_bounded:
  assumes b: "bounded pid c R S" and op: "\<not> enables pid op" "\<And>code. op \<noteq> DoVerify pid code"
  shows "bounded pid c R (snd (profile_step env pe ok now op S))"
proof (cases op)
  case (DoAddOwner newID name password)
  have "bounded pid c R (snd (AddOwner pe ok p S))" if "NewProfile env newID name password True = Some p" for p
    using b new_profile_secret [OF that] by (auto simp: AddOwner_def factor_bound_def intro!: bounded_profiles)
  with DoAddOwner b show ?thesis by (simp split: option.split)
next
  case (DoAddProfile newID name password owner policy)
  have "pr_TOTPSecret (ApplyProfilePolicy policy p) = ''''" if "NewProfile env newID name password owner = Some p" for p
    using new_profile_secret [OF that] by (simp add: ApplyProfilePolicy_def)
  with DoAddProfile b show ?thesis
    by (auto simp: AddProfile_def Let_def intro!: bounded_profiles bounded_append split: option.split)
next
  case (DoSetProfile p owner policy)
  with b show ?thesis
    by (auto simp: SetProfile_def commitProfilePolicy_def Let_def intro!: bounded_profiles_update bounded_related_update split: option.split)
next
  case (DoRemoveProfile p)
  have "list_all (factor_bound pid c R) kept" if "remove_scan p n (ps_Profiles S) = Inr (kept, removed)" for kept removed n
    using b remove_scan_kept [OF that] by (auto simp: bounded_def list_all_iff)
  with DoRemoveProfile b show ?thesis by (auto simp: RemoveProfile_def intro!: bounded_related split: sum.split)
next
  case (DoCreateSCIM draws input)
  have "bounded pid c R (snd (rehydrateSCIMProfile pe ok (ps_Profiles S) i input now S))" for i input
    unfolding rehydrateSCIMProfile_def Let_def by (rule bounded_related_update [OF b]) simp
  with DoCreateSCIM b show ?thesis
    by (auto simp: CreateSCIMProfile_def Let_def created_secret intro!: bounded_related bounded_append split: option.split)
next
  case (DoUpdateSCIM p input expected)
  with b show ?thesis by (auto simp: UpdateSCIMProfile_def Let_def intro!: bounded_related_update split: option.split)
next
  case (DoDeleteSCIM p expected)
  with b show ?thesis by (auto simp: DeleteSCIMProfile_def Let_def intro!: bounded_related_update split: option.split)
next
  case (DoEnable p secret recovery)
  with op have "p \<noteq> pid" by simp
  with DoEnable b show ?thesis
    by (auto simp: factor_Enable_def Let_def applyFactor_eq factor_bound_def dest!: find_index_Some intro!: bounded_related_update split: option.split)
next
  case (DoDisable p)
  with b show ?thesis
    by (auto simp: factor_Disable_def Let_def applyFactor_eq factor_bound_def factor_change_def intro!: bounded_related_update split: option.split)
next
  case (DoVerify p code)
  with op(2) [of code] have "p \<noteq> pid" by auto
  with DoVerify b show ?thesis
    by (auto simp: factor_Verify_def commitFactor_snd applyFactor_eq Let_def factor_bound_def dest!: verify_scan_sound
        intro!: bounded_profiles_update split: factor_verdict.split)
next
  case (DoResetPassword p password before)
  with b show ?thesis
    by (auto simp: resetPassword_def Let_def intro!: bounded_related_update split: option.split sum.split)
qed


lemma take_drop_distinct:
  assumes "distinct xs" "i < length xs" "xs ! i = h" "set xs \<subseteq> R"
  shows "distinct (take i xs @ drop (Suc i) xs) \<and> set (take i xs @ drop (Suc i) xs) \<subseteq> R - {h}"
proof -
  have s: "xs = take i xs @ h # drop (Suc i) xs" using assms(2,3) id_take_nth_drop by metis
  then have d: "distinct (take i xs @ h # drop (Suc i) xs)" and "set (take i xs @ h # drop (Suc i) xs) \<subseteq> R" using assms(1,4) by simp_all
  then show ?thesis by auto
qed

lemma recovery_hash_loop_sound:
  "recovery_hash_loop env seen codes = Some hs \<Longrightarrow> hs = map (\<lambda>code. ve_SessionKey env (NormalizeRecovery env code)) codes \<and> distinct hs \<and> set hs \<inter> set seen = {}"
  by (induction codes arbitrary: seen hs) (fastforce simp: Let_def split: if_splits)+

lemma recovery_hashes_sound:
  "recoveryHashes env codes = Some hs \<Longrightarrow> distinct hs" "recoveryHashes env codes = Some hs \<Longrightarrow> hs = map (\<lambda>code. ve_SessionKey env (NormalizeRecovery env code)) codes"
  by (auto simp: recoveryHashes_def dest!: recovery_hash_loop_sound split: if_splits)

text \<open>A verification for the profile: it changes nothing, or raises the time step, or uses up a recovery code.\<close>

lemma verify_bounded:
  assumes b: "bounded pid c R S" and d: "distinct (map pr_ID (ps_Profiles S))"
  obtains "accepted_factor env pe ok now pid code S = []" "bounded pid c R (snd (factor_Verify env pe ok now pid code S))"
    | x where "accepted_factor env pe ok now pid code S = [Inl x]" "c < x" "bounded pid x R (snd (factor_Verify env pe ok now pid code S))"
    | h where "accepted_factor env pe ok now pid code S = [Inr h]" "h \<in> R" "bounded pid c (R - {h}) (snd (factor_Verify env pe ok now pid code S))"
proof (cases "fst (factor_Verify env pe ok now pid code S)")
  case False
  have "ps_Profiles (snd (factor_Verify env pe ok now pid code S)) = ps_Profiles S"
    using False by (auto simp: factor_Verify_def commitFactor_def commit_profiles_def Let_def split: if_splits factor_verdict.splits prod.splits sum.splits bool.splits)
  with False b show ?thesis by (intro that(1)) (simp_all add: accepted_factor_def bounded_def)
next
  case True
  have other: "pr_ID (ps_Profiles S ! j) \<noteq> pid" if "pr_ID (ps_Profiles S ! i) = pid" "i < length (ps_Profiles S)" "j < length (ps_Profiles S)" "j \<noteq> i" for i j
    using that d by (auto simp: distinct_conv_nth)
  have upd: "bounded pid c' R' S'" if i: "i < length (ps_Profiles S)" "pr_ID (ps_Profiles S ! i) = pid" and S': "ps_Profiles S' = (ps_Profiles S)[i := q]"
    and q: "factor_bound pid c' R' q" for i q c' R' S'
    unfolding bounded_def S' list_all_length
  proof (intro allI impI)
    fix j assume "j < length ((ps_Profiles S)[i := q])"
    with i q other [OF i(2,1)] show "factor_bound pid c' R' ((ps_Profiles S)[i := q] ! j)"
      by (cases "j = i") (auto simp: factor_bound_def)
  qed
  have at: "factor_bound pid c R (ps_Profiles S ! i)" if "i < length (ps_Profiles S)" for i
    using b that by (simp add: bounded_def list_all_length)
  show ?thesis
  proof (cases "verify_scan env pid code now 0 (ps_Profiles S)")
    case Refuse
    with True show ?thesis by (simp add: factor_Verify_def split: if_splits)
  next
    case (AcceptCode i x)
    from verify_scan_sound(1) [OF this] have i: "i < length (ps_Profiles S)" "pr_ID (ps_Profiles S ! i) = pid" "pr_TOTPSecret (ps_Profiles S ! i) \<noteq> ''''"
      "pr_TOTPCounter (ps_Profiles S ! i) < x" by simp_all
    let ?q = "factor_change (pr_TOTPSecret (ps_Profiles S ! i)) (pr_Recovery (ps_Profiles S ! i)) x (pr_Revision (ps_Profiles S ! i)) (ps_Profiles S ! i)"
    have "ps_Profiles (snd (factor_Verify env pe ok now pid code S)) = (ps_Profiles S)[i := ?q]"
      using True AcceptCode by (auto simp: factor_Verify_def commitFactor_def commit_profiles_def applyFactor_eq split: if_splits prod.splits sum.splits bool.splits)
    moreover have "factor_bound pid x R ?q" "c < x" using at [OF i(1)] i by (simp_all add: factor_bound_def factor_change_def)
    ultimately show ?thesis using True AcceptCode upd [OF i(1,2)] by (intro that(2) [of x]) (simp_all add: accepted_factor_def)
  next
    case (AcceptRecovery i position h)
    from verify_scan_sound(2) [OF this] have i: "i < length (ps_Profiles S)" "pr_ID (ps_Profiles S ! i) = pid" "pr_TOTPSecret (ps_Profiles S ! i) \<noteq> ''''"
      "position < length (pr_Recovery (ps_Profiles S ! i))" "pr_Recovery (ps_Profiles S ! i) ! position = h" by simp_all
    let ?r = "take position (pr_Recovery (ps_Profiles S ! i)) @ drop (Suc position) (pr_Recovery (ps_Profiles S ! i))"
    let ?q = "factor_change (pr_TOTPSecret (ps_Profiles S ! i)) ?r (pr_TOTPCounter (ps_Profiles S ! i)) (pr_Revision (ps_Profiles S ! i)) (ps_Profiles S ! i)"
    have a: "distinct (pr_Recovery (ps_Profiles S ! i))" "set (pr_Recovery (ps_Profiles S ! i)) \<subseteq> R" "c \<le> pr_TOTPCounter (ps_Profiles S ! i)"
      using at [OF i(1)] i by (simp_all add: factor_bound_def)
    have "factorProfile (ps_Profiles S ! i) = (factorProfile (ps_Profiles S ! i))\<lparr>fp_Recovery := pr_Recovery (ps_Profiles S ! i)\<rparr>"
      "fp_Recovery (factorProfile (ps_Profiles S ! i)) = pr_Recovery (ps_Profiles S ! i)"
      by (simp_all add: factorProfile_def)
    then have "ps_Profiles (snd (factor_Verify env pe ok now pid code S)) = (ps_Profiles S)[i := ?q]"
      using True AcceptRecovery by (auto simp: factor_Verify_def commitFactor_def commit_profiles_def applyFactor_eq Let_def split: if_splits prod.splits sum.splits bool.splits)
    moreover have "factor_bound pid c (R - {h}) ?q"
      using take_drop_distinct [OF a(1) i(4,5) a(2)] a(3) by (simp add: factor_bound_def factor_change_def)
    moreover have "h \<in> R" using a(2) i(4,5) by (metis nth_mem subsetD)
    ultimately show ?thesis using True AcceptRecovery upd [OF i(1,2)] by (intro that(3) [of h]) (simp_all add: accepted_factor_def)
  qed
qed

lemma inv_distinct: "store_inv env S \<Longrightarrow> distinct (map pr_ID (ps_Profiles S))"
  by (drule inv_ok(1)) (simp add: profiles_ok_def)

lemma factor_run_bounded:
  assumes "env_ok env" "store_inv env S" "bounded pid c R S" "run_safe env pe pid steps S"
  shows "sorted_wrt (<) (accepted_codes (factor_run env pe pid steps S)) \<and> (\<forall>x \<in> set (accepted_codes (factor_run env pe pid steps S)). c < x)
    \<and> distinct (accepted_recovery (factor_run env pe pid steps S)) \<and> set (accepted_recovery (factor_run env pe pid steps S)) \<subseteq> R"
  using assms(2-4)
proof (induction steps arbitrary: S c R)
  case (Cons s steps)
  obtain ok now op where s: "s = (ok, now, op)" by (cases s)
  let ?S' = "snd (profile_step env pe ok now op S)"
  have safe: "clock_ok now S" "op_safe env op S" "\<not> enables pid op" "run_safe env pe pid steps ?S'" using Cons.prems(3) s by simp_all
  have inv: "store_inv env ?S'" by (rule profile_step_inv [OF assms(1) Cons.prems(1) safe(1,2)])
  note IH = Cons.IH [OF inv _ safe(4)]
  show ?case
  proof (cases "\<exists>code. op = DoVerify pid code")
    case True
    then obtain code where op: "op = DoVerify pid code" by blast
    show ?thesis
      by (rule verify_bounded [OF Cons.prems(2) inv_distinct [OF Cons.prems(1)], of env pe ok now code]; use IH s op in \<open>fastforce\<close>)
  next
    case False
    then have "(case op of DoVerify p code \<Rightarrow> if p = pid then accepted_factor env pe ok now pid code S else [] | _ \<Rightarrow> []) = []"
      by (cases op) auto
    with IH [OF step_bounded [OF Cons.prems(2) safe(3)]] False s show ?thesis by simp
  qed
qed simp

section \<open>Properties\<close>

text \<open>C31. The profiles load again.  Whatever operation is done on a store whose profiles, in memory and in the document,
  pass the check of the next start and have an owner, and whose sessions and API keys are of profiles that are there: it
  leaves such a store, whether it succeeds or fails and whatever becomes of its writes, so also if the program is cut off
  between them, and also when a write reports an error after it had replaced its file.  The document of the profiles is
  what is in memory after every operation that succeeds, and a failed one leaves it so unless such a write was among its
  own; memory is as it was.  The operation must not be one of those the code does not guard against (\<open>op_safe\<close>), and the
  clock must not have been set back before the creation of a provisioned profile.\<close>

theorem profiles_stay_loadable:
  assumes "env_ok env" "store_inv env S" "clock_ok now S" "op_safe env op S"
    and "profile_step env pe ok now op S = (success, S')"
  shows "store_inv env S'
    \<and> (success \<longrightarrow> fi_Profiles (ps_Files S') = ps_Profiles S')
    \<and> (\<not> success \<longrightarrow> ps_Profiles S' = ps_Profiles S \<and> ps_Sessions S' = ps_Sessions S \<and> ps_APIKeys S' = ps_APIKeys S)
    \<and> (fi_Profiles (ps_Files S) = ps_Profiles S \<and> (\<forall>d. ok d \<noteq> Replaced) \<longrightarrow> fi_Profiles (ps_Files S') = ps_Profiles S')"
  using profile_step_inv [OF assms(1-4), of pe ok] profile_step_answered [of ok S env pe now op]
  by (auto simp: assms(5) answered_def documented_def clean_outcomes_def)

text \<open>C32. A change ends what was granted before it.  When a change of a profile's rights, identity, factors or password, or
  its removal, has succeeded, no session that was bound to the profile as it was before, that is a public one or one of
  a management device, is accepted any more, by either of the two checks and at whatever time, be it that the session
  is gone or that the profile is at another revision, also when the revision wraps around.\<close>

theorem change_revokes_sessions:
  assumes step: "profile_step env pe ok now op S = (True, S')" "revoked_by op = Some pid"
    and store: "distinct (map pr_ID (ps_Profiles S))" "mwf (ps_Sessions S)" "mwf (ps_APIKeys S)"
    and s: "map_of (ps_Sessions S) key = Some s" "ss_ProfileID s = pid" "ss_Channel s = ''public'' \<or> ss_ManagementDevice s \<noteq> ''''"
      "FindProfile (ps_Profiles S) pid = Some p" "ss_ProfileRevision s = pr_Revision p"
    and key: "map_of (ps_APIKeys S) key = None"
    and T: "tk_Sessions T = ps_Sessions S'" "tk_APIKeys T = ps_APIKeys S'"
  shows "fst (fst (EvaluateToken expired (ps_Profiles S') r key t settle T)) = None"
proof (rule ccontr)
  assume "\<not> ?thesis"
  then obtain acc outcome T' where a: "EvaluateToken expired (ps_Profiles S') r key t settle T = ((Some acc, outcome), T')"
    by (metis not_None_eq prod.collapse)
  have sub: "bumped pid (ps_Profiles S) (ps_Profiles S')" "submap (ps_Sessions S') (ps_Sessions S)" "submap (ps_APIKeys S') (ps_APIKeys S)"
    using step_revokes [OF step store] by (simp_all add: revokes_def)
  from a show False
  proof (rule token_accepted)
    fix q
    assume q: "q \<in> set (ps_Profiles S')" "ta_SessionFound acc \<longleftrightarrow> map_of (tk_Sessions T) key \<noteq> None"
      "ta_SessionFound acc \<Longrightarrow> token_session_ok expired r key t T q acc" "pr_APIKey (ta_Profile acc) \<Longrightarrow> token_key_ok key t T q acc"
      "\<not> pr_APIKey (ta_Profile acc) \<Longrightarrow> ta_SessionFound acc \<and> \<not> expired (ta_Session acc) t \<and> ss_ProfileID (ta_Session acc) = pr_ID q"
    have "\<not> pr_APIKey (ta_Profile acc)" using q(4) sub(3) key T(2) by (auto simp: token_key_ok_def submap_def)
    with q(5) have found: "ta_SessionFound acc" "ss_ProfileID (ta_Session acc) = pr_ID q" by simp_all
    from q(3) [OF found(1)] obtain s' where s': "map_of (ps_Sessions S') key = Some s'" "ta_Session acc = use_Session (tk_Use T) key s' t"
      "ss_Channel s' = ''public'' \<or> ss_ManagementDevice s' \<noteq> '''' \<longrightarrow> ss_ProfileRevision s' = pr_Revision q"
      by (auto simp: token_session_ok_def T)
    have "s' = s" using sub(2) s'(1) s(1) by (auto simp: submap_def)
    then have "pr_ID q = pid" "pr_Revision q = pr_Revision p"
      using found(2) s' s by (simp_all add: use_Session_def split: if_splits)
    moreover from this(1) obtain p' where p': "p' \<in> set (ps_Profiles S)" "pr_ID p' = pid" "pr_Revision q = next_revision (pr_Revision p')"
      using sub(1) q(1) unfolding bumped_def by blast
    moreover have p: "p \<in> set (ps_Profiles S)" "pr_ID p = pid" using find_profile [OF s(4)] by simp_all
    have "p' = p" using store(1) p p'(1,2) by (metis distinct_map inj_onD)
    ultimately show False using next_revision_new by metis
  qed
qed


text \<open>C33. A second factor is used once.  After a profile has set up its second factor, along any run of operations on the store
  in which it is not set up anew, with writes that fail and clocks that go back included: the time steps of the codes
  that are accepted grow strictly, so no code is accepted twice in its time step or after a later one, and the recovery
  codes that are accepted are of the ones that were set up, each at most once.\<close>

theorem factors_used_once:
  assumes "env_ok env" "store_inv env S0" "clock_ok now S0" "op_safe env (DoEnable pid secret recovery) S0"
    and enabled: "profile_step env pe ok now (DoEnable pid secret recovery) S0 = (True, S)"
    and "run_safe env pe pid steps S"
  shows "sorted_wrt (<) (accepted_codes (factor_run env pe pid steps S)) \<and> distinct (accepted_recovery (factor_run env pe pid steps S))
    \<and> set (accepted_recovery (factor_run env pe pid steps S)) \<subseteq> set (map (\<lambda>code. ve_SessionKey env (NormalizeRecovery env code)) recovery)"
proof -
  have inv: "store_inv env S" using profile_step_inv [OF assms(1-4)] enabled by (metis snd_conv)
  obtain i hashed where i: "find_index (\<lambda>p. pr_ID p = pid) (ps_Profiles S0) = Some i" "recoveryHashes env recovery = Some hashed"
    "ps_Profiles S = (ps_Profiles S0)[i := factor_change secret hashed 0 (next_revision (pr_Revision (ps_Profiles S0 ! i))) (ps_Profiles S0 ! i)]"
    using enabled by (auto simp: factor_Enable_def Let_def applyFactor_eq dest!: commit_related_success split: if_splits option.splits)
  note f = find_index_Some [OF i(1)] and h = recovery_hashes_sound [OF i(2)]
  have "bounded pid 0 (set hashed) S"
    unfolding bounded_def list_all_length
  proof (intro allI impI)
    fix j assume j: "j < length (ps_Profiles S)"
    show "factor_bound pid 0 (set hashed) (ps_Profiles S ! j)"
    proof (cases "j = i")
      case True
      with i(3) f h(1) show ?thesis by (simp add: factor_bound_def factor_change_def)
    next
      case False
      then have "pr_ID (ps_Profiles S0 ! j) \<noteq> pid" using inv_distinct [OF assms(2)] f j i(3) by (auto simp: distinct_conv_nth)
      with False i(3) show ?thesis by (simp add: factor_bound_def)
    qed
  qed
  from factor_run_bounded [OF assms(1) inv this assms(6)] h(2) show ?thesis by auto
qed


section \<open>A concrete store\<close>

text \<open>An owner and a viewer with a public session; the user name profile knows one name, and the code of a time step is its number.\<close>

definition house_env :: profile_env where
  "house_env = \<lparr>ve_Fold = (\<lambda>r. r), ve_Precis = (\<lambda>u. if u = ''ann'' then Some u else None), ve_Key = Some, ve_Common = [],
     ve_Hash = (\<lambda>_. Some ''h''), ve_HMAC = (\<lambda>_ c. drop 4 c @ replicate 16 0), ve_SessionKey = (\<lambda>s. s), ve_Upper = (\<lambda>s. s)\<rparr>"

definition house_owner :: profile where
  "house_owner = zero_profile\<lparr>pr_ID := ''o'', pr_Name := ''Owner'', pr_Owner := True, pr_Revision := 1\<rparr>"

definition house :: profile_store where
  "house = \<lparr>ps_Profiles = [house_owner, demo_viewer], ps_Sessions = [(''k'', demo_session)], ps_APIKeys = [],
     ps_Files = \<lparr>fi_Profiles = [house_owner, demo_viewer], fi_Sessions = [(''k'', demo_session)], fi_APIKeys = []\<rparr>\<rparr>"

definition house_persistence :: profile_persistence where
  "house_persistence = \<lparr>pe_Database = True, pe_Persist = True, pe_ProfileFile = ''p'', pe_SessionFile = ''s'', pe_APIFile = ''a''\<rparr>"

definition house_policy :: profile_policy where
  "house_policy = \<lparr>pp_Downloads = False, pp_Transcode = False, pp_Remote = True, pp_Rating = ''all'', pp_AccessStart = '''', pp_AccessEnd = '''', pp_Libraries = []\<rparr>"

definition house_input :: profile_input where
  "house_input = \<lparr>pi_UserName = ''ann'', pi_Name = ''Ann B'', pi_Formatted = '''', pi_GivenName = '''', pi_FamilyName = '''', pi_ExternalID = ''7'',
     pi_Emails = [], pi_Enterprise = zero_enterprise, pi_Active = True\<rparr>"

lemma zero_profile_fields [simp]:
  "pr_ID zero_profile = ''''" "pr_Name zero_profile = ''''" "pr_Owner zero_profile = False" "pr_Downloads zero_profile = False"
  "pr_Transcode zero_profile = False" "pr_Remote zero_profile = False" "pr_Disabled zero_profile = False" "pr_SCIMDeleted
  zero_profile = False" "pr_TOTPSecret zero_profile = ''''" "pr_Passkeys zero_profile = 0" "pr_Revision zero_profile = 0"
  "pr_Credential zero_profile = ''''" "pr_OIDCSubject zero_profile = ''''" "pr_OIDCIssuer zero_profile = ''''" "pr_SAMLSubject
  zero_profile = ''''" "pr_SAMLIssuer zero_profile = ''''" "pr_SCIMUserName zero_profile = ''''" "pr_SCIMExternalID zero_profile =
  ''''" "pr_SCIMName zero_profile = zero_scim_name" "pr_SCIMEmails zero_profile = []" "pr_SCIMEnterprise zero_profile =
  zero_enterprise" "pr_SCIMManaged zero_profile = False" "pr_SCIMCreatedAt zero_profile = 0" "pr_SCIMUpdatedAt zero_profile = 0"
  "pr_TOTPCounter zero_profile = 0" "pr_Recovery zero_profile = []" "pr_APIKey zero_profile = False"
  by (simp_all add: zero_profile_def zero_scim_name_def zero_enterprise_def)

lemmas house_defs = house_env_def house_owner_def house_def house_persistence_def demo_viewer_def demo_session_def zero_session_def

lemma house_env_ok: "env_ok house_env"
proof -
  have "trim_space ''ann'' = ''ann''" by (rule trim_space_visible) (simp add: byte_def)
  then show ?thesis by (simp add: env_ok_def precis_stable_def precis_keys_def house_env_def)
qed

lemma house_inv: "store_inv house_env house"
proof -
  have "profile_ok (ve_Precis house_env) house_owner" "profile_ok (ve_Precis house_env) demo_viewer"
    by (simp_all add: profile_ok_defs house_owner_def demo_viewer_def)
  moreover have "user_of house_owner = ''''" "oidc_of house_owner = ''''" "saml_of house_owner = ''''"
    "user_of demo_viewer = ''''" "oidc_of demo_viewer = ''''" "saml_of demo_viewer = ''''"
    "pr_ID house_owner = ''o''" "pr_ID demo_viewer = ''viewer''" "pr_Owner house_owner"
    by (simp_all add: user_of_def oidc_of_def saml_of_def name_of_identity_def house_owner_def demo_viewer_def)
  ultimately show ?thesis
    by (simp add: store_inv_def ValidateProfiles_iff profiles_ok_def owned_def references_def house_def demo_session_def)
qed

lemma house_clock: "clock_ok 1000 house"
  by (simp add: clock_ok_def house_defs)

lemma profiles_stay_loadable_witness:
  "store_inv house_env (snd (profile_step house_env house_persistence (\<lambda>_. Replaced) 1000 (DoCreateSCIM [''o'', ''u''] house_input) house))"
  using profiles_stay_loadable [OF house_env_ok house_inv house_clock _ prod.collapse [symmetric], of "DoCreateSCIM [''o'', ''u''] house_input"]
  by simp

lemma change_revokes_sessions_witness:
  "fst (fst (EvaluateToken (\<lambda>_ _. False) (ps_Profiles (snd (profile_step house_env house_persistence (\<lambda>_. Written) 1000 (DoSetProfile ''viewer'' False house_policy) house)))
     demo_request ''k'' 200 False
     \<lparr>tk_Sessions = ps_Sessions (snd (profile_step house_env house_persistence (\<lambda>_. Written) 1000 (DoSetProfile ''viewer'' False house_policy) house)),
       tk_APIKeys = ps_APIKeys (snd (profile_step house_env house_persistence (\<lambda>_. Written) 1000 (DoSetProfile ''viewer'' False house_policy) house)),
       tk_Use = \<lparr>au_sessions = [], au_apiKeys = []\<rparr>, tk_Persisted = []\<rparr>)) = None"
proof -
  have "fst (profile_step house_env house_persistence (\<lambda>_. Written) 1000 (DoSetProfile ''viewer'' False house_policy) house)"
    by (simp add: SetProfile_def commitProfilePolicy_def Let_def policy_Valid_def house_policy_def commit_profiles_def persistence_Save_def
        write_document_def outcome_of_def owner_count_def house_defs)
  then have step: "profile_step house_env house_persistence (\<lambda>_. Written) 1000 (DoSetProfile ''viewer'' False house_policy) house
      = (True, snd (profile_step house_env house_persistence (\<lambda>_. Written) 1000 (DoSetProfile ''viewer'' False house_policy) house))"
    by (metis prod.collapse)
  show ?thesis
    by (rule change_revokes_sessions [OF step, where pid = "''viewer''" and s = demo_session and p = demo_viewer])
      (simp_all add: FindProfile_def house_defs)
qed

definition house_enabled :: profile_store where
  "house_enabled = (let p = factor_change ''AA'' [''r1'', ''r2''] 0 2 house_owner in
     \<lparr>ps_Profiles = [p, demo_viewer], ps_Sessions = [(''k'', demo_session)], ps_APIKeys = [],
       ps_Files = \<lparr>fi_Profiles = [p, demo_viewer], fi_Sessions = [(''k'', demo_session)], fi_APIKeys = []\<rparr>\<rparr>)"

lemma house_enable:
  "profile_step house_env house_persistence (\<lambda>_. Written) 1000 (DoEnable ''o'' ''AA'' [''r1'', ''r2'']) house = (True, house_enabled)"
proof -
  have "trim_space ''o'' = ''o''" "trim_space ''AA'' = ''AA''" "trim_space ''r1'' = ''r1''" "trim_space ''r2'' = ''r2''"
    by (rule trim_space_visible, simp add: byte_def)+
  then show ?thesis
    by (simp add: factor_Enable_def validFactorIdentity_def validFactorSecret_def maxIdentityLength_def maxSecretLength_def recoveryHashes_def recoveryCodeCount_def
        NormalizeRecovery_def Let_def applyFactor_eq commit_related_def SaveRelated_def write_document_def outcome_of_def WithoutProfile_def mfilter_def
        factor_change_def next_revision_def house_enabled_def house_defs)
qed

lemma house_code: "TOTPCounter (ve_HMAC house_env) ''AA'' ''000001'' (from_unix 30) = Some 1"
proof -
  have t: "trim_space ''000001'' = ''000001''" by (rule trim_space_visible) (simp add: byte_def)
  have "runes ''000001'' = map byte ''000001''"
    unfolding runes_def by (rule runes_bytes_ascii) (simp add: byte_def)
  then have d: "decimal ''000001''" by (simp add: decimal_def byte_def)
  have k: "base32_decode ''AA'' = Some [0]" by (simp add: base32_decode_def base32_value_def byte_def Let_def)
  have "big_endian8 1 = [0, 0, 0, 0, 0, 0, 0, 1]" by (simp add: big_endian8_def)
  moreover have "replicate 16 0 = [0, 0, 0, 0, 0, 0, 0, 0, 0, 0, 0, 0, 0, 0, 0, 0 :: nat]"
    by (simp add: numeral_eq_Suc)
  ultimately have "ve_HMAC house_env [0] (big_endian8 1) = [0, 0, 0, 1, 0, 0, 0, 0, 0, 0, 0, 0, 0, 0, 0, 0, 0, 0, 0, 0]"
    by (simp add: house_env_def)
  then have "totp (ve_HMAC house_env) [0] 1 = ''000001''"
    by (simp add: totp_def Let_def decimal6_def char_of_def bit_0)
  then show ?thesis by (simp add: TOTPCounter_def Let_def t d k maxSecretLength_def quot30_def)
qed

lemma house_enabled_profiles:
  "ps_Profiles house_enabled = [zero_profile\<lparr>pr_ID := ''o'', pr_Name := ''Owner'', pr_Owner := True, pr_TOTPSecret := ''AA'',
     pr_Recovery := [''r1'', ''r2''], pr_TOTPCounter := 0, pr_Revision := 2\<rparr>, demo_viewer]"
  by (simp add: house_enabled_def Let_def factor_change_def house_owner_def)

lemma house_run: "accepted_factor house_env house_persistence (\<lambda>_. Written) (from_unix 30) ''o'' ''000001'' house_enabled = [Inl 1]"
proof -
  have t: "trim_space ''o'' = ''o''" by (rule trim_space_visible) (simp add: byte_def)
  have "verify_scan house_env ''o'' ''000001'' (from_unix 30) 0 (ps_Profiles house_enabled) = AcceptCode 0 1"
    by (simp add: house_enabled_profiles factorProfile_def Let_def house_code)
  moreover from this have "fst (factor_Verify house_env house_persistence (\<lambda>_. Written) (from_unix 30) ''o'' ''000001'' house_enabled)"
    by (simp add: factor_Verify_def validFactorIdentity_def t maxIdentityLength_def maxSecretLength_def commitFactor_def commit_profiles_def persistence_Save_def
        house_persistence_def write_document_def)
  ultimately show ?thesis by (simp add: accepted_factor_def)
qed

lemma factors_used_once_witness:
  "sorted_wrt (<) (accepted_codes (factor_run house_env house_persistence ''o'' [(\<lambda>_. Written, from_unix 30, DoVerify ''o'' ''000001'')] house_enabled))
    \<and> accepted_codes (factor_run house_env house_persistence ''o'' [(\<lambda>_. Written, from_unix 30, DoVerify ''o'' ''000001'')] house_enabled) = [1]"
proof -
  have "op_safe house_env (DoEnable ''o'' ''AA'' [''r1'', ''r2'']) house"
    by (simp add: house_def house_owner_def demo_viewer_def)
  moreover have "run_safe house_env house_persistence ''o'' [(\<lambda>_. Written, from_unix 30, DoVerify ''o'' ''000001'')] house_enabled"
    by (simp add: clock_ok_def house_enabled_profiles demo_viewer_def from_unix_def unix_epoch_seconds_def second_def)
  ultimately show ?thesis
    using factors_used_once [OF house_env_ok house_inv house_clock _ house_enable, of "[(\<lambda>_. Written, from_unix 30, DoVerify ''o'' ''000001'')]"]
    by (simp add: house_run)
qed

end
