(* ===== verification/QuickConnect.thy ===== *)
theory QuickConnect
  imports Access "HOL-Library.Product_Lexorder"
begin

text \<open>
  Quick Connect: packages/quickconnect (quickconnect.go, preview.go, cancel.go, application.go).

  A television or a public browser asks for a code (\<open>broker_Create\<close>), a signed-in viewer approves the code
  (\<open>broker_Approve\<close>), and the device exchanges its secret for a session (\<open>broker_Consume\<close>, \<open>consumeSession\<close>).  Every
  operation holds the broker's mutex throughout, so it is one step.  The clock is an argument of each operation, the
  time at which it reads it; \<open>H\<close> is \<open>secretKey\<close> (hexadecimal SHA-256), of which only that it is never the empty string
  is used, and \<open>upper\<close> is \<open>strings.ToUpper\<close>.  The random code of an attempt is built by \<open>connectCode\<close> from the text and the
  number drawn; \<open>None\<close> as the result of \<open>broker_Create\<close> is that it has not returned after the given draws.
\<close>

section \<open>State\<close>

definition quick_defaultTTL :: duration where "quick_defaultTTL = 5 * minute"
definition maxPending :: nat where "maxPending = 1024"

datatype quick_error = QuickCapacity | QuickPending | QuickNotFound | QuickInvalidCode | QuickAlreadyApproved
  | QuickRemoteViewer | QuickInvalidRequest | QuickRandom

record quick_request =
  rq_Device :: string
  rq_DeviceID :: string
  rq_Client :: string
  rq_Version :: string
  rq_Numeric :: bool
  rq_Remote :: bool

record quick_connection =
  cn_Code :: string
  cn_Device :: string
  cn_DeviceID :: string
  cn_Client :: string
  cn_Version :: string
  cn_Created :: instant
  cn_Approved :: bool

record quick_viewer =
  vw_ID :: string
  vw_Revision :: nat
  vw_Owner :: bool
  vw_Remote :: bool
  vw_Secured :: bool
  vw_StronglyVerified :: bool

record quick_grant =
  gr_ProfileID :: string
  gr_Device :: string
  gr_ProfileRevision :: nat
  gr_Remote :: bool
  gr_Owner :: bool

record pending_connection =
  pc_connection :: quick_connection
  pc_expires :: instant
  pc_profileID :: string
  pc_profileRevision :: nat
  pc_remote :: bool
  pc_owner :: bool

record broker =
  bk_byCode :: "(string, string) gomap"
  bk_pending :: "(string, pending_connection) gomap"
  bk_ttl :: duration

definition broker_New :: "duration \<Rightarrow> broker" where
  "broker_New ttl = \<lparr>bk_byCode = [], bk_pending = [], bk_ttl = (if ttl \<le> 0 then quick_defaultTTL else ttl)\<rparr>"

section \<open>Codes and fields\<close>

definition validField :: "string \<Rightarrow> nat \<Rightarrow> bool" where
  "validField v maximum = (if length v > maximum then False else list_all (\<lambda>c. \<not> is_control c) (runes v))"

definition validRequest :: "quick_request \<Rightarrow> bool" where
  "validRequest rq \<longleftrightarrow> validField (rq_Device rq) 80 \<and> validField (rq_DeviceID rq) 128 \<and> validField (rq_Client rq) 80 \<and> validField (rq_Version rq) 40"

definition connectCode :: "bool \<Rightarrow> string \<times> nat option \<Rightarrow> string option" where
  "connectCode numeric d = (if \<not> numeric then Some (take 8 (fst d))
     else case snd d of None \<Rightarrow> None | Some v \<Rightarrow> Some (show_base 10 20 (100000 + v)))"

definition numericCode :: "string \<Rightarrow> bool" where
  "numericCode code = (if length code \<noteq> 6 then False else list_all (\<lambda>r. \<not> (r < 48 \<or> r > 57)) (runes code))"

definition approvalCode :: "(string \<Rightarrow> string) \<Rightarrow> string \<Rightarrow> quick_viewer \<Rightarrow> quick_error + string" where
  "approvalCode upper v viewer =
     (if length v > 16 \<or> vw_ID viewer = '''' \<or> \<not> validField (vw_ID viewer) 128 then Inl QuickInvalidRequest
      else Inr (upper (trim_space v)))"

definition approvalAllowed :: "pending_connection \<Rightarrow> quick_viewer \<Rightarrow> quick_error option" where
  "approvalAllowed p viewer =
     (if pc_profileID p \<noteq> '''' \<and> pc_profileID p \<noteq> vw_ID viewer then Some QuickAlreadyApproved
      else if pc_remote p \<and> (vw_Owner viewer \<or> \<not> vw_Remote viewer \<or> \<not> vw_Secured viewer \<or> \<not> vw_StronglyVerified viewer)
        then Some QuickRemoteViewer
      else None)"

section \<open>The operations of the broker\<close>

definition broker_remove :: "string \<Rightarrow> string \<Rightarrow> broker \<Rightarrow> broker" where
  "broker_remove key code b = b\<lparr>bk_pending := mdel key (bk_pending b), bk_byCode := mdel code (bk_byCode b)\<rparr>"

text \<open>The loops over the pending connections that remove some of them.\<close>

definition remove_entry :: "(pending_connection \<Rightarrow> bool) \<Rightarrow> string \<times> pending_connection \<Rightarrow> broker \<Rightarrow> broker" where
  "remove_entry P e b = (if P (snd e) then broker_remove (fst e) (cn_Code (pc_connection (snd e))) b else b)"

definition broker_prune :: "instant \<Rightarrow> broker \<Rightarrow> broker" where
  "broker_prune now b = fold (remove_entry (\<lambda>p. \<not> pc_expires p > now)) (bk_pending b) b"

definition broker_RevokeRemote :: "broker \<Rightarrow> broker" where
  "broker_RevokeRemote b = fold (remove_entry pc_remote) (bk_pending b) b"

text \<open>The loop that draws codes until one is free.\<close>

fun draw_code :: "bool \<Rightarrow> (string, string) gomap \<Rightarrow> (string \<times> nat option) list \<Rightarrow> (quick_error + string) option" where
  "draw_code numeric byCode [] = None"
| "draw_code numeric byCode (d # ds) = (case connectCode numeric d of
     None \<Rightarrow> Some (Inl QuickRandom)
   | Some code \<Rightarrow> if mget0 '''' byCode code \<noteq> '''' then draw_code numeric byCode ds else Some (Inr code))"

definition new_connection :: "quick_request \<Rightarrow> string \<Rightarrow> instant \<Rightarrow> quick_connection" where
  "new_connection rq code now = \<lparr>cn_Code = code, cn_Device = rq_Device rq, cn_DeviceID = rq_DeviceID rq, cn_Client = rq_Client rq,
     cn_Version = rq_Version rq, cn_Created = now, cn_Approved = False\<rparr>"

definition new_pending :: "quick_request \<Rightarrow> string \<Rightarrow> instant \<Rightarrow> duration \<Rightarrow> pending_connection" where
  "new_pending rq code now ttl = \<lparr>pc_connection = new_connection rq code now, pc_expires = now + ttl, pc_profileID = '''',
     pc_profileRevision = 0, pc_remote = rq_Remote rq, pc_owner = False\<rparr>"

definition broker_Create ::
  "(string \<Rightarrow> string) \<Rightarrow> string \<Rightarrow> (string \<times> nat option) list \<Rightarrow> instant \<Rightarrow> quick_request \<Rightarrow> broker
     \<Rightarrow> ((quick_error + string \<times> quick_connection) \<times> broker) option" where
  "broker_Create H text draws now rq b =
     (if \<not> validRequest rq then Some (Inl QuickInvalidRequest, b)
      else let secret = ''qc_'' @ text; b1 = broker_prune now b in
        if length (bk_pending b1) \<ge> maxPending then Some (Inl QuickCapacity, b1)
        else case draw_code (rq_Numeric rq) (bk_byCode b1) draws of
            None \<Rightarrow> None
          | Some (Inl e) \<Rightarrow> Some (Inl e, b1)
          | Some (Inr code) \<Rightarrow>
              let key = H secret in
              Some (Inr (secret, new_connection rq code now),
                b1\<lparr>bk_pending := mput key (new_pending rq code now (bk_ttl b1)) (bk_pending b1), bk_byCode := mput code key (bk_byCode b1)\<rparr>))"

definition broker_Status :: "(string \<Rightarrow> string) \<Rightarrow> instant \<Rightarrow> string \<Rightarrow> broker \<Rightarrow> quick_connection option \<times> broker" where
  "broker_Status H now secret b =
     (if \<not> validField secret 128 then (None, b)
      else let b1 = broker_prune now b in case map_of (bk_pending b1) (H secret) of
          None \<Rightarrow> (None, b1)
        | Some p \<Rightarrow> (Some ((pc_connection p)\<lparr>cn_Approved := (pc_profileID p \<noteq> '''')\<rparr>), b1))"

definition broker_Approve :: "(string \<Rightarrow> string) \<Rightarrow> instant \<Rightarrow> string \<Rightarrow> quick_viewer \<Rightarrow> broker \<Rightarrow> quick_error option \<times> broker" where
  "broker_Approve upper now v viewer b = (case approvalCode upper v viewer of
     Inl e \<Rightarrow> (Some e, b)
   | Inr code \<Rightarrow>
       (let key = mget0 '''' (bk_byCode b) code in
        case map_of (bk_pending b) key of
          None \<Rightarrow> (Some QuickInvalidCode, broker_remove key code b)
        | Some p \<Rightarrow>
           (if \<not> pc_expires p > now then (Some QuickInvalidCode, broker_remove key code b)
            else (case approvalAllowed p viewer of
                Some e \<Rightarrow> (Some e, b)
              | None \<Rightarrow> (None, b\<lparr>bk_pending := mput key (p\<lparr>pc_profileID := vw_ID viewer, pc_profileRevision := vw_Revision viewer,
                  pc_owner := vw_Owner viewer\<rparr>) (bk_pending b)\<rparr>)))))"

definition broker_Consume :: "(string \<Rightarrow> string) \<Rightarrow> instant \<Rightarrow> string \<Rightarrow> broker \<Rightarrow> (quick_error + quick_grant) \<times> broker" where
  "broker_Consume H now secret b =
     (if \<not> validField secret 128 then (Inl QuickNotFound, b)
      else let key = H secret; b1 = broker_prune now b in case map_of (bk_pending b1) key of
          None \<Rightarrow> (Inl QuickNotFound, b1)
        | Some p \<Rightarrow>
            if pc_profileID p = '''' then (Inl QuickPending, b1)
            else (Inr \<lparr>gr_ProfileID = pc_profileID p, gr_Device = cn_Device (pc_connection p), gr_ProfileRevision = pc_profileRevision p,
                    gr_Remote = pc_remote p, gr_Owner = pc_owner p\<rparr>,
                  broker_remove key (cn_Code (pc_connection p)) b1))"

definition broker_Cancel :: "(string \<Rightarrow> string) \<Rightarrow> string \<Rightarrow> broker \<Rightarrow> quick_error option \<times> broker" where
  "broker_Cancel H secret b =
     (if secret = '''' \<or> trim_space secret \<noteq> secret \<or> \<not> validField secret 128 then (Some QuickInvalidRequest, b)
      else let key = H secret in case map_of (bk_pending b) key of
          None \<Rightarrow> (None, b)
        | Some p \<Rightarrow> (None, broker_remove key (cn_Code (pc_connection p)) b))"

section \<open>What a viewer may see of the pending connections\<close>

record quick_preview =
  qp_ExpiresAt :: instant
  qp_Code :: string
  qp_Device :: string

definition preview :: "pending_connection \<Rightarrow> quick_preview" where
  "preview p = \<lparr>qp_ExpiresAt = pc_expires p, qp_Code = cn_Code (pc_connection p), qp_Device = cn_Device (pc_connection p)\<rparr>"

definition validViewer :: "quick_viewer \<Rightarrow> bool" where
  "validViewer viewer \<longleftrightarrow> vw_ID viewer \<noteq> '''' \<and> validField (vw_ID viewer) 128"

definition broker_Preview :: "instant \<Rightarrow> string \<Rightarrow> quick_viewer \<Rightarrow> broker \<Rightarrow> quick_error + quick_preview" where
  "broker_Preview now code viewer b =
     (if \<not> numericCode code \<or> \<not> validViewer viewer then Inl QuickInvalidRequest
      else case map_of (bk_pending b) (mget0 '''' (bk_byCode b) code) of
          None \<Rightarrow> Inl QuickInvalidCode
        | Some p \<Rightarrow> if pc_remote p \<or> pc_profileID p \<noteq> '''' \<or> \<not> pc_expires p > now then Inl QuickInvalidCode else Inr (preview p))"

definition localTV :: "instant \<Rightarrow> pending_connection \<Rightarrow> bool" where
  "localTV now p \<longleftrightarrow> \<not> pc_remote p \<and> pc_profileID p = '''' \<and> pc_expires p > now \<and> cn_Client (pc_connection p) = ''Kinosail''
     \<and> cn_Device (pc_connection p) = ''Kinosail TV'' \<and> numericCode (cn_Code (pc_connection p))"

text \<open>
  The clock is read once for each pending connection.  \<open>sort.Slice\<close> orders by expiry and then by code; the codes are
  different, so there is one order.
\<close>

definition broker_PendingTVs :: "(string \<Rightarrow> instant) \<Rightarrow> quick_viewer \<Rightarrow> broker \<Rightarrow> quick_error + quick_preview list" where
  "broker_PendingTVs clock viewer b =
     (if \<not> validViewer viewer then Inl QuickInvalidRequest
      else let result = map (\<lambda>(key, p). preview p) (filter (\<lambda>(key, p). localTV (clock key) p) (bk_pending b));
               sorted = sort_key (\<lambda>v. (qp_ExpiresAt v, qp_Code v)) result
           in Inr (if length sorted > 8 then take 8 sorted else sorted))"

section \<open>The exchange for a session\<close>

definition CreatePublicGrant ::
  "(string \<Rightarrow> string) \<Rightarrow> session_config \<Rightarrow> string \<Rightarrow> string \<Rightarrow> string \<Rightarrow> bool \<Rightarrow> nat \<Rightarrow> session_map
     \<Rightarrow> identity_error + (session_change \<times> session_map)" where
  "CreatePublicGrant H cfg token pid name browser revision = create_begin H cfg token pid name browser True ''public'' (Some revision) ''''"

definition CreateLocalGrant ::
  "(string \<Rightarrow> string) \<Rightarrow> session_config \<Rightarrow> string \<Rightarrow> string \<Rightarrow> string \<Rightarrow> nat \<Rightarrow> bool \<Rightarrow> session_map
     \<Rightarrow> identity_error + (session_change \<times> session_map)" where
  "CreateLocalGrant H cfg token pid name revision compatibility =
     create_begin H cfg token pid name False False (if compatibility then ''compatibility'' else '''') (Some revision) ''''"

datatype consume_error = BrokerError quick_error | ViewerNotFound | SessionError identity_error

text \<open>
  \<open>profiles\<close> are the profiles that \<open>Find\<close> looks at, \<open>cfg\<close> and \<open>sessions\<close> what the session store has when it is called: other
  operations may run between them.  The result is the session change to be written and the profile to answer with.
\<close>

definition consumeSession ::
  "(string \<Rightarrow> string) \<Rightarrow> session_config \<Rightarrow> string \<Rightarrow> session_map \<Rightarrow> profile list \<Rightarrow> instant \<Rightarrow> string \<Rightarrow> bool \<Rightarrow> broker
     \<Rightarrow> (consume_error + (session_change \<times> session_map) \<times> profile) \<times> broker" where
  "consumeSession H cfg token sessions profiles now secret compatibility b = (case broker_Consume H now secret b of
     (Inl e, b') \<Rightarrow> (Inl (BrokerError e), b')
   | (Inr grant, b') \<Rightarrow> (case FindProfile profiles (gr_ProfileID grant) of
        None \<Rightarrow> (Inl ViewerNotFound, b')
      | Some p \<Rightarrow>
          if gr_ProfileRevision grant \<noteq> pr_Revision p then (Inl ViewerNotFound, b')
          else if gr_Remote grant then
            (case CreatePublicGrant H cfg token (pr_ID p) (gr_Device grant) False (gr_ProfileRevision grant) sessions of
               Inl e \<Rightarrow> (Inl (SessionError e), b') | Inr s \<Rightarrow> (Inr (s, p), b'))
          else
            let compatibility' = (compatibility \<or> pr_Owner p \<and> \<not> gr_Owner grant);
                p' = (if compatibility' then CompatibilityProfile p else p) in
            (case CreateLocalGrant H cfg token (pr_ID p') (gr_Device grant) (gr_ProfileRevision grant) compatibility' sessions of
               Inl e \<Rightarrow> (Inl (SessionError e), b') | Inr s \<Rightarrow> (Inr (s, p'), b'))))"

definition quick_Consume ::
  "(string \<Rightarrow> string) \<Rightarrow> session_config \<Rightarrow> string \<Rightarrow> session_map \<Rightarrow> profile list \<Rightarrow> instant \<Rightarrow> string \<Rightarrow> broker
     \<Rightarrow> (consume_error + (session_change \<times> session_map) \<times> profile) \<times> broker" where
  "quick_Consume H cfg token sessions profiles now secret = consumeSession H cfg token sessions profiles now secret False"

definition quick_ConsumeCompatibility ::
  "(string \<Rightarrow> string) \<Rightarrow> session_config \<Rightarrow> string \<Rightarrow> session_map \<Rightarrow> profile list \<Rightarrow> instant \<Rightarrow> string \<Rightarrow> broker
     \<Rightarrow> (consume_error + (session_change \<times> session_map) \<times> profile) \<times> broker" where
  "quick_ConsumeCompatibility H cfg token sessions profiles now secret = consumeSession H cfg token sessions profiles now secret True"

definition viewer_of :: "profile \<Rightarrow> bool \<Rightarrow> quick_viewer" where
  "viewer_of p strong = \<lparr>vw_ID = pr_ID p, vw_Revision = pr_Revision p, vw_Owner = pr_Owner p, vw_Remote = pr_Remote p,
     vw_Secured = profile_Secured p, vw_StronglyVerified = strong\<rparr>"

definition quick_Approve :: "(string \<Rightarrow> string) \<Rightarrow> instant \<Rightarrow> profile \<Rightarrow> string \<Rightarrow> bool \<Rightarrow> broker \<Rightarrow> quick_error option \<times> broker" where
  "quick_Approve upper now p v strong = broker_Approve upper now v (viewer_of p strong)"

definition approvalStatus :: "quick_error \<Rightarrow> nat" where
  "approvalStatus e = (if e = QuickCapacity then 429 else if e = QuickRemoteViewer then 403 else 400)"

definition validApprovalValue :: "string \<Rightarrow> bool" where
  "validApprovalValue v \<longleftrightarrow> length v \<le> 16 \<and> trim_space v \<noteq> ''''"

section \<open>The two tables agree\<close>

abbreviation code_of :: "pending_connection \<Rightarrow> string" where
  "code_of p \<equiv> cn_Code (pc_connection p)"

text \<open>Each code leads to the one pending connection that shows it, and no key is the empty string a missing code reads as.\<close>

definition tables_agree :: "broker \<Rightarrow> bool" where
  "tables_agree b \<longleftrightarrow> mwf (bk_pending b) \<and> mwf (bk_byCode b) \<and> map_of (bk_pending b) '''' = None
     \<and> (\<forall>c k. map_of (bk_byCode b) c = Some k \<longleftrightarrow> (\<exists>p. map_of (bk_pending b) k = Some p \<and> code_of p = c))"

lemma tables_New: "tables_agree (broker_New ttl)"
  by (simp add: tables_agree_def broker_New_def)

lemma tables_code:
  "tables_agree b \<Longrightarrow> map_of (bk_pending b) (mget0 '''' (bk_byCode b) c) = Some p \<Longrightarrow> map_of (bk_byCode b) c = Some (mget0 '''' (bk_byCode b) c) \<and> code_of p = c"
  by (auto simp: tables_agree_def mget0_def split: option.splits)

lemma tables_entry:
  "tables_agree b \<Longrightarrow> map_of (bk_pending b) k = Some p \<Longrightarrow> map_of (bk_byCode b) (code_of p) = Some k \<and> k \<noteq> ''''"
  by (auto simp: tables_agree_def)

lemma broker_remove_fields [simp]:
  "bk_pending (broker_remove k c b) = mdel k (bk_pending b)" "bk_byCode (broker_remove k c b) = mdel c (bk_byCode b)"
  "bk_ttl (broker_remove k c b) = bk_ttl b"
  by (simp_all add: broker_remove_def)

lemma tables_remove:
  assumes "tables_agree b" "map_of (bk_pending b) k = Some p"
  shows "tables_agree (broker_remove k (code_of p) b)"
  unfolding tables_agree_def
proof (intro conjI allI)
  fix c k'
  have e: "map_of (bk_byCode b) (code_of p) = Some k" using tables_entry [OF assms] by simp
  have t: "map_of (bk_byCode b) c = Some k' \<longleftrightarrow> (\<exists>q. map_of (bk_pending b) k' = Some q \<and> code_of q = c)"
    using assms(1) by (simp add: tables_agree_def)
  have "c = code_of p \<longleftrightarrow> k' = k" if "map_of (bk_byCode b) c = Some k'"
    using that t e assms(2) by auto
  then show "map_of (bk_byCode (broker_remove k (code_of p) b)) c = Some k' \<longleftrightarrow>
      (\<exists>q. map_of (bk_pending (broker_remove k (code_of p) b)) k' = Some q \<and> code_of q = c)"
    using t by auto
qed (use assms in \<open>auto simp: tables_agree_def\<close>)

text \<open>Removing by a code that is not in the table changes nothing.\<close>

lemma remove_missing:
  "tables_agree b \<Longrightarrow> map_of (bk_pending b) (mget0 '''' (bk_byCode b) c) = None \<Longrightarrow> broker_remove (mget0 '''' (bk_byCode b) c) c b = b"
  by (auto simp: tables_agree_def mget0_def broker_remove_def mdel_absent split: option.splits)

text \<open>A loop that removes some connections leaves exactly the others.\<close>

lemma remove_entries:
  assumes "tables_agree b" "distinct (map fst xs)" "\<And>k p. (k, p) \<in> set xs \<Longrightarrow> map_of (bk_pending b) k = Some p"
  shows "tables_agree (fold (remove_entry P) xs b) \<and> bk_ttl (fold (remove_entry P) xs b) = bk_ttl b
    \<and> length (bk_pending (fold (remove_entry P) xs b)) \<le> length (bk_pending b)
    \<and> map_of (bk_pending (fold (remove_entry P) xs b)) k =
        (case map_of xs k of Some p \<Rightarrow> if P p then None else map_of (bk_pending b) k | None \<Rightarrow> map_of (bk_pending b) k)"
  using assms
proof (induction xs arbitrary: b)
  case Nil
  then show ?case by simp
next
  case (Cons x xs)
  obtain k' p' where x: "x = (k', p')" by (cases x)
  let ?b = "remove_entry P x b"
  have k': "map_of (bk_pending b) k' = Some p'" using Cons.prems(3) x by simp
  have b: "tables_agree ?b" "bk_ttl ?b = bk_ttl b" "length (bk_pending ?b) \<le> length (bk_pending b)"
    "map_of (bk_pending ?b) = (if P p' then (map_of (bk_pending b))(k' := None) else map_of (bk_pending b))"
    using tables_remove [OF Cons.prems(1) k'] Cons.prems(1) by (auto simp: x remove_entry_def length_mdel_le)
  have fresh: "map_of xs k' = None" using Cons.prems(2) by (simp add: x map_of_eq_None_iff)
  have "map_of (bk_pending ?b) j = Some q" if "(j, q) \<in> set xs" for j q
  proof -
    have "map_of (bk_pending b) j = Some q" "j \<noteq> k'"
      using Cons.prems(3) that fresh by (auto simp: x map_of_eq_None_iff image_iff)
    with b(4) show ?thesis by simp
  qed
  then have "tables_agree (fold (remove_entry P) xs ?b) \<and> bk_ttl (fold (remove_entry P) xs ?b) = bk_ttl ?b
    \<and> length (bk_pending (fold (remove_entry P) xs ?b)) \<le> length (bk_pending ?b)
    \<and> map_of (bk_pending (fold (remove_entry P) xs ?b)) k =
        (case map_of xs k of Some p \<Rightarrow> if P p then None else map_of (bk_pending ?b) k | None \<Rightarrow> map_of (bk_pending ?b) k)"
    using Cons.IH [OF b(1)] Cons.prems(2) by simp
  then show ?case using b fresh by (auto simp: x split: option.splits)
qed

lemma remove_all:
  assumes "tables_agree b"
  shows "tables_agree (fold (remove_entry P) (bk_pending b) b)" "bk_ttl (fold (remove_entry P) (bk_pending b) b) = bk_ttl b"
    "length (bk_pending (fold (remove_entry P) (bk_pending b) b)) \<le> length (bk_pending b)"
    "map_of (bk_pending (fold (remove_entry P) (bk_pending b) b)) k = Some p \<longleftrightarrow> map_of (bk_pending b) k = Some p \<and> \<not> P p"
proof -
  have m: "mwf (bk_pending b)" using assms by (simp add: tables_agree_def)
  then have "distinct (map fst (bk_pending b))" by (simp add: mwf_def)
  note r = remove_entries [OF assms this, of P k]
  then have r: "tables_agree (fold (remove_entry P) (bk_pending b) b)" "bk_ttl (fold (remove_entry P) (bk_pending b) b) = bk_ttl b"
    "length (bk_pending (fold (remove_entry P) (bk_pending b) b)) \<le> length (bk_pending b)"
    "map_of (bk_pending (fold (remove_entry P) (bk_pending b) b)) k =
       (case map_of (bk_pending b) k of Some p \<Rightarrow> if P p then None else map_of (bk_pending b) k | None \<Rightarrow> map_of (bk_pending b) k)"
    using m by (simp_all add: mwf_in_set)
  show "tables_agree (fold (remove_entry P) (bk_pending b) b)" "bk_ttl (fold (remove_entry P) (bk_pending b) b) = bk_ttl b"
    "length (bk_pending (fold (remove_entry P) (bk_pending b) b)) \<le> length (bk_pending b)"
    "map_of (bk_pending (fold (remove_entry P) (bk_pending b) b)) k = Some p \<longleftrightarrow> map_of (bk_pending b) k = Some p \<and> \<not> P p"
    using r by (auto split: option.splits if_splits)
qed

lemmas prune_all = remove_all [where P = "\<lambda>p. \<not> pc_expires p > now" for now, folded broker_prune_def]
lemmas revoke_all_remote = remove_all [where P = pc_remote, folded broker_RevokeRemote_def]

lemma draw_code_free: "draw_code numeric m ds = Some (Inr code) \<Longrightarrow> mget0 '''' m code = ''''"
  by (induction ds) (auto split: option.splits if_splits)

text \<open>The loop ends at the first draw that fails or gives a free code.\<close>

lemma draw_code_returns:
  "d \<in> set ds \<Longrightarrow> (\<forall>code. connectCode numeric d = Some code \<longrightarrow> mget0 '''' m code = '''') \<Longrightarrow> draw_code numeric m ds \<noteq> None"
  by (induction ds) (auto split: option.splits)

section \<open>Runs of the broker\<close>

text \<open>The operations with their arguments, what they answer, and a step; a history has the newest event first.\<close>

datatype quick_op = QCreate quick_request string "(string \<times> nat option) list" | QStatus string | QApprove string quick_viewer
  | QConsume string | QCancel string | QRevokeRemote | QPreview string quick_viewer | QPendingTVs "string \<Rightarrow> instant" quick_viewer

datatype quick_result = Created string quick_connection | Shown quick_connection | NotShown | Done | Granted quick_grant
  | Previewed quick_preview | Listed "quick_preview list" | Failed quick_error

definition done_or :: "quick_error option \<times> broker \<Rightarrow> quick_result \<times> broker" where
  "done_or r = ((case fst r of None \<Rightarrow> Done | Some e \<Rightarrow> Failed e), snd r)"

definition answered :: "('a \<Rightarrow> quick_result) \<Rightarrow> (quick_error + 'a) \<times> broker \<Rightarrow> quick_result \<times> broker" where
  "answered f r = ((case fst r of Inl e \<Rightarrow> Failed e | Inr a \<Rightarrow> f a), snd r)"

fun quick_step :: "(string \<Rightarrow> string) \<Rightarrow> (string \<Rightarrow> string) \<Rightarrow> instant \<Rightarrow> quick_op \<Rightarrow> broker \<Rightarrow> (quick_result \<times> broker) option" where
  "quick_step H upper now (QCreate rq text draws) b = map_option (answered (\<lambda>(s, c). Created s c)) (broker_Create H text draws now rq b)"
| "quick_step H upper now (QStatus secret) b = (case broker_Status H now secret b of
     (None, b') \<Rightarrow> Some (NotShown, b') | (Some c, b') \<Rightarrow> Some (Shown c, b'))"
| "quick_step H upper now (QApprove v viewer) b = Some (done_or (broker_Approve upper now v viewer b))"
| "quick_step H upper now (QConsume secret) b = Some (answered Granted (broker_Consume H now secret b))"
| "quick_step H upper now (QCancel secret) b = Some (done_or (broker_Cancel H secret b))"
| "quick_step H upper now QRevokeRemote b = Some (Done, broker_RevokeRemote b)"
| "quick_step H upper now (QPreview code viewer) b = Some (answered Previewed (broker_Preview now code viewer b, b))"
| "quick_step H upper now (QPendingTVs clock viewer) b = Some (answered Listed (broker_PendingTVs clock viewer b, b))"

type_synonym quick_event = "instant \<times> quick_op \<times> quick_result"

text \<open>A new secret is not one of a pending connection: 128 random bits, and no collision of the hash.\<close>

fun fresh_secret :: "(string \<Rightarrow> string) \<Rightarrow> quick_op \<Rightarrow> broker \<Rightarrow> bool" where
  "fresh_secret H (QCreate rq text draws) b = (map_of (bk_pending b) (H (''qc_'' @ text)) = None)"
| "fresh_secret H _ b = True"

inductive quick_reach :: "(string \<Rightarrow> string) \<Rightarrow> (string \<Rightarrow> string) \<Rightarrow> duration \<Rightarrow> broker \<Rightarrow> quick_event list \<Rightarrow> bool"
  for H :: "string \<Rightarrow> string" and upper :: "string \<Rightarrow> string" and ttl :: duration where
  Start: "quick_reach H upper ttl (broker_New ttl) []"
| Step: "quick_reach H upper ttl b h \<Longrightarrow> quick_step H upper now op b = Some (r, b') \<Longrightarrow> fresh_secret H op b
    \<Longrightarrow> quick_reach H upper ttl b' ((now, op, r) # h)"

text \<open>What ends a connection: it is exchanged or cancelled, or public ones are revoked.\<close>

fun ends_connection :: "(string \<Rightarrow> string) \<Rightarrow> string \<Rightarrow> bool \<Rightarrow> quick_event \<Rightarrow> bool" where
  "ends_connection H key remote (t, QConsume secret, Granted g) = (H secret = key)"
| "ends_connection H key remote (t, QCancel secret, Done) = (H secret = key)"
| "ends_connection H key remote (t, QRevokeRemote, r) = remote"
| "ends_connection H key remote e = False"

definition approved_in :: "(string \<Rightarrow> string) \<Rightarrow> pending_connection \<Rightarrow> quick_event list \<Rightarrow> bool" where
  "approved_in upper p h \<longleftrightarrow> (\<exists>ta v viewer. (ta, QApprove v viewer, Done) \<in> set h \<and> upper (trim_space v) = code_of p \<and> ta < pc_expires p
     \<and> pc_profileID p = vw_ID viewer \<and> pc_profileRevision p = vw_Revision viewer \<and> pc_owner p = vw_Owner viewer
     \<and> (pc_remote p \<longrightarrow> \<not> vw_Owner viewer \<and> vw_Remote viewer \<and> vw_Secured viewer \<and> vw_StronglyVerified viewer))"

text \<open>What a pending connection rests on: it was created, nothing ended it since, and if it is approved, it was approved since.\<close>

definition rests_on :: "(string \<Rightarrow> string) \<Rightarrow> (string \<Rightarrow> string) \<Rightarrow> duration \<Rightarrow> string \<Rightarrow> pending_connection \<Rightarrow> quick_event list \<Rightarrow> bool" where
  "rests_on H upper ttl key p h \<longleftrightarrow> (\<exists>since tc rq text draws before.
     h = since @ (tc, QCreate rq text draws, Created (''qc_'' @ text) (pc_connection p)) # before \<and> H (''qc_'' @ text) = key
     \<and> pc_expires p = tc + ttl \<and> pc_remote p = rq_Remote rq \<and> cn_Device (pc_connection p) = rq_Device rq
     \<and> list_all (\<lambda>e. \<not> ends_connection H key (rq_Remote rq) e) since \<and> (pc_profileID p = '''' \<or> approved_in upper p since))"

definition quick_inv :: "(string \<Rightarrow> string) \<Rightarrow> (string \<Rightarrow> string) \<Rightarrow> duration \<Rightarrow> broker \<Rightarrow> quick_event list \<Rightarrow> bool" where
  "quick_inv H upper ttl b h \<longleftrightarrow> tables_agree b \<and> length (bk_pending b) \<le> maxPending \<and> bk_ttl b = bk_ttl (broker_New ttl)
     \<and> (\<forall>k p. map_of (bk_pending b) k = Some p \<longrightarrow> rests_on H upper (bk_ttl (broker_New ttl)) k p h)"

lemma rests_on_later:
  assumes "rests_on H upper ttl key p h" "\<not> ends_connection H key (pc_remote p) e"
  shows "rests_on H upper ttl key p (e # h)"
proof -
  from assms(1) obtain since tc rq drawn draws before where
    h: "h = since @ (tc, QCreate rq drawn draws, Created (''qc_'' @ drawn) (pc_connection p)) # before" "H (''qc_'' @ drawn) = key"
      "pc_expires p = tc + ttl" "pc_remote p = rq_Remote rq" "cn_Device (pc_connection p) = rq_Device rq"
      "list_all (\<lambda>e. \<not> ends_connection H key (rq_Remote rq) e) since" "pc_profileID p = '''' \<or> approved_in upper p since"
    unfolding rests_on_def by blast
  then have "e # h = (e # since) @ (tc, QCreate rq drawn draws, Created (''qc_'' @ drawn) (pc_connection p)) # before"
    "list_all (\<lambda>e. \<not> ends_connection H key (rq_Remote rq) e) (e # since)" "pc_profileID p = '''' \<or> approved_in upper p (e # since)"
    using assms(2) by (auto simp: approved_in_def)
  with h show ?thesis unfolding rests_on_def by blast
qed

text \<open>A step that keeps some of the pending connections as they are and ends none of these.\<close>

lemma inv_shrinks:
  assumes "quick_inv H upper ttl b h" "tables_agree b'" "length (bk_pending b') \<le> length (bk_pending b)" "bk_ttl b' = bk_ttl b"
    and "\<And>k p. map_of (bk_pending b') k = Some p \<Longrightarrow> map_of (bk_pending b) k = Some p \<and> \<not> ends_connection H k (pc_remote p) e"
  shows "quick_inv H upper ttl b' (e # h)"
  using assms unfolding quick_inv_def by (auto intro: rests_on_later)

lemma inv_prune: "quick_inv H upper ttl b h \<Longrightarrow> \<forall>k r. \<not> ends_connection H k r e \<Longrightarrow> quick_inv H upper ttl (broker_prune now b) (e # h)"
  by (rule inv_shrinks, assumption) (auto simp: quick_inv_def prune_all)

lemma inv_same: "quick_inv H upper ttl b h \<Longrightarrow> \<forall>k r. \<not> ends_connection H k r e \<Longrightarrow> quick_inv H upper ttl b (e # h)"
  by (rule inv_shrinks, assumption) (auto simp: quick_inv_def)

text \<open>After a connection has been removed there is none at its key.\<close>

lemma inv_removed:
  assumes "quick_inv H upper ttl b h" "map_of (bk_pending b) k = Some p" "\<And>k' r. ends_connection H k' r e \<longleftrightarrow> k' = k"
  shows "quick_inv H upper ttl (broker_remove k (code_of p) b) (e # h)"
  by (rule inv_shrinks [OF assms(1)]) (use assms tables_remove [of b k p] in \<open>auto simp: quick_inv_def length_mdel_le split: if_splits\<close>)

lemma tables_put:
  assumes "tables_agree b" "map_of (bk_pending b) key = None" "key \<noteq> ''''" "map_of (bk_byCode b) (code_of p) = None"
  shows "tables_agree (b\<lparr>bk_pending := mput key p (bk_pending b), bk_byCode := mput (code_of p) key (bk_byCode b)\<rparr>)"
  unfolding tables_agree_def
proof (intro conjI allI)
  fix c k
  have t: "map_of (bk_byCode b) c = Some k \<longleftrightarrow> (\<exists>q. map_of (bk_pending b) k = Some q \<and> code_of q = c)" for c k
    using assms(1) by (simp add: tables_agree_def)
  have "k \<noteq> key" if "map_of (bk_byCode b) c = Some k" using that t assms(2) by auto
  moreover have "code_of q \<noteq> code_of p" if "map_of (bk_pending b) k = Some q" for q using that t [of "code_of q" k] assms(4) by auto
  ultimately show "map_of (bk_byCode (b\<lparr>bk_pending := mput key p (bk_pending b), bk_byCode := mput (code_of p) key (bk_byCode b)\<rparr>)) c = Some k \<longleftrightarrow>
      (\<exists>q. map_of (bk_pending (b\<lparr>bk_pending := mput key p (bk_pending b), bk_byCode := mput (code_of p) key (bk_byCode b)\<rparr>)) k = Some q \<and> code_of q = c)"
    using t [of c k] assms(2) by auto
qed (use assms in \<open>auto simp: tables_agree_def\<close>)

lemma tables_update:
  assumes "tables_agree b" "map_of (bk_pending b) key = Some p" "code_of q = code_of p"
  shows "tables_agree (b\<lparr>bk_pending := mput key q (bk_pending b)\<rparr>)"
  using assms by (auto simp: tables_agree_def)

lemma tables_free: "tables_agree b \<Longrightarrow> mget0 '''' (bk_byCode b) c = '''' \<Longrightarrow> map_of (bk_byCode b) c = None"
  by (auto simp: tables_agree_def mget0_def split: option.splits)

lemma inv_create:
  assumes inv: "quick_inv H upper ttl b h" and H: "\<forall>s. H s \<noteq> ''''" and new: "map_of (bk_pending b) (H (''qc_'' @ drawn)) = None"
    and step: "broker_Create H drawn draws now rq b = Some (r, b')"
  shows "quick_inv H upper ttl b' ((now, QCreate rq drawn draws, fst (answered (\<lambda>(s, c). Created s c) (r, b'))) # h)"
proof -
  let ?e = "(now, QCreate rq drawn draws, fst (answered (\<lambda>(s, c). Created s c) (r, b')))"
  have q: "\<forall>k r. \<not> ends_connection H k r ?e" by simp
  let ?b = "broker_prune now b"
  have p: "quick_inv H upper ttl ?b (?e # h)" by (rule inv_prune [OF inv q])
  show ?thesis
  proof (cases r)
    case (Inl e)
    then have "b' = b \<or> b' = ?b" using step by (auto simp: broker_Create_def Let_def split: if_splits option.splits sum.splits)
    then show ?thesis using p inv_same [OF inv q] by auto
  next
    case (Inr sc)
    with step obtain code where c: "draw_code (rq_Numeric rq) (bk_byCode ?b) draws = Some (Inr code)" "length (bk_pending ?b) < maxPending"
      "sc = (''qc_'' @ drawn, new_connection rq code now)"
      "b' = ?b\<lparr>bk_pending := mput (H (''qc_'' @ drawn)) (new_pending rq code now (bk_ttl ?b)) (bk_pending ?b), bk_byCode := mput code (H (''qc_'' @ drawn)) (bk_byCode ?b)\<rparr>"
      by (auto simp: broker_Create_def Let_def split: if_splits option.splits sum.splits)
    let ?p = "new_pending rq code now (bk_ttl ?b)"
    have t: "tables_agree b" "tables_agree ?b" "bk_ttl ?b = bk_ttl (broker_New ttl)" using inv p by (simp_all add: quick_inv_def)
    have none: "map_of (bk_pending ?b) (H (''qc_'' @ drawn)) = None"
      using prune_all(4) [OF t(1), of now "H (''qc_'' @ drawn)"] new by (metis not_None_eq option.distinct(1))
    have code: "code_of ?p = code" by (simp add: new_pending_def new_connection_def)
    then have "map_of (bk_byCode ?b) (code_of ?p) = None" using tables_free [OF t(2) draw_code_free [OF c(1)]] by simp
    then have "tables_agree b'"
      using tables_put [OF t(2) none, of ?p] H c(4) by (simp add: code)
    moreover have "rests_on H upper (bk_ttl (broker_New ttl)) (H (''qc_'' @ drawn)) ?p (?e # h)"
      unfolding rests_on_def
      by (intro exI [of _ "[]"] exI [of _ now] exI [of _ rq] exI [of _ drawn] exI [of _ draws] exI [of _ h])
        (simp add: Inr c(3) answered_def new_pending_def new_connection_def t(3))
    moreover have "length (bk_pending b') \<le> maxPending" "bk_ttl b' = bk_ttl (broker_New ttl)"
      using c(2,4) t(3) none by (simp_all add: length_mput)
    ultimately show ?thesis using p c(4) by (auto simp: quick_inv_def split: if_splits)
  qed
qed

lemma inv_approve:
  assumes inv: "quick_inv H upper ttl b h"
  shows "quick_inv H upper ttl (snd (broker_Approve upper now v viewer b)) ((now, QApprove v viewer, fst (done_or (broker_Approve upper now v viewer b))) # h)"
proof -
  let ?e = "(now, QApprove v viewer, fst (done_or (broker_Approve upper now v viewer b)))"
  have q: "\<not> ends_connection H k r ?e" for k r by simp
  have t: "tables_agree b" using inv by (simp add: quick_inv_def)
  have same: ?thesis if "snd (broker_Approve upper now v viewer b) = b" using that inv_same [OF inv, of ?e] q by simp
  show ?thesis
  proof (cases "approvalCode upper v viewer")
    case (Inl e)
    then show ?thesis using same by (simp add: broker_Approve_def)
  next
    case (Inr code)
    let ?k = "mget0 '''' (bk_byCode b) code"
    have code: "code = upper (trim_space v)" "vw_ID viewer \<noteq> ''''" using Inr by (auto simp: approvalCode_def split: if_splits)
    show ?thesis
    proof (cases "map_of (bk_pending b) ?k")
      case None
      then show ?thesis using same remove_missing [OF t None] by (simp add: broker_Approve_def Inr Let_def)
    next
      case (Some p)
      note c = tables_code [OF t Some]
      consider "\<not> pc_expires p > now" | e where "pc_expires p > now" "approvalAllowed p viewer = Some e"
        | "pc_expires p > now" "approvalAllowed p viewer = None" by (metis not_None_eq)
      then show ?thesis
      proof cases
        case 1
        then have "snd (broker_Approve upper now v viewer b) = broker_remove ?k (code_of p) b"
          using c by (simp add: broker_Approve_def Inr Let_def Some)
        moreover have "quick_inv H upper ttl (broker_remove ?k (code_of p) b) (?e # h)"
          by (rule inv_shrinks [OF inv tables_remove [OF t Some]]) (auto simp: length_mdel_le split: if_splits)
        ultimately show ?thesis by simp
      next
        case 2
        then show ?thesis using same by (simp add: broker_Approve_def Inr Let_def Some)
      next
        case 3
        let ?p = "p\<lparr>pc_profileID := vw_ID viewer, pc_profileRevision := vw_Revision viewer, pc_owner := vw_Owner viewer\<rparr>"
        have b': "snd (broker_Approve upper now v viewer b) = b\<lparr>bk_pending := mput ?k ?p (bk_pending b)\<rparr>"
          "?e = (now, QApprove v viewer, Done)"
          using 3 by (simp_all add: broker_Approve_def Inr Let_def Some done_or_def)
        have keep: "rests_on H upper (bk_ttl (broker_New ttl)) k r ((now, QApprove v viewer, Done) # h)" if "map_of (bk_pending b) k = Some r" for k r
          using inv that by (intro rests_on_later) (auto simp: quick_inv_def)
        from keep [OF Some] obtain since tc rq drawn draws before where
          r: "(now, QApprove v viewer, Done) # h = since @ (tc, QCreate rq drawn draws, Created (''qc_'' @ drawn) (pc_connection p)) # before"
            "H (''qc_'' @ drawn) = ?k" "pc_expires p = tc + bk_ttl (broker_New ttl)" "pc_remote p = rq_Remote rq"
            "cn_Device (pc_connection p) = rq_Device rq" "list_all (\<lambda>e. \<not> ends_connection H ?k (rq_Remote rq) e) since"
          unfolding rests_on_def by blast
        have "(now, QApprove v viewer, Done) \<in> set since" using r(1) by (cases since) auto
        then have "approved_in upper ?p since"
          unfolding approved_in_def using c 3 code
          by (intro exI [of _ now] exI [of _ v] exI [of _ viewer]) (auto simp: approvalAllowed_def split: if_splits)
        then have "rests_on H upper (bk_ttl (broker_New ttl)) ?k ?p ((now, QApprove v viewer, Done) # h)"
          using r unfolding rests_on_def by fastforce
        moreover have "tables_agree (b\<lparr>bk_pending := mput ?k ?p (bk_pending b)\<rparr>)" by (rule tables_update [OF t Some]) simp
        ultimately show ?thesis
          using inv keep Some unfolding b' by (auto simp: quick_inv_def length_mput split: if_splits)
      qed
    qed
  qed
qed

lemma consume_granted:
  assumes "broker_Consume H now secret b = (Inr g, b')"
  obtains p where "map_of (bk_pending (broker_prune now b)) (H secret) = Some p" "pc_profileID p \<noteq> ''''"
    "g = \<lparr>gr_ProfileID = pc_profileID p, gr_Device = cn_Device (pc_connection p), gr_ProfileRevision = pc_profileRevision p,
       gr_Remote = pc_remote p, gr_Owner = pc_owner p\<rparr>"
    "b' = broker_remove (H secret) (code_of p) (broker_prune now b)"
  using assms by (auto simp: broker_Consume_def Let_def split: if_splits option.splits)

lemma inv_after_prune:
  assumes "quick_inv H upper ttl b h" "tables_agree b'" "length (bk_pending b') \<le> length (bk_pending (broker_prune now b))" "bk_ttl b' = bk_ttl b"
    "\<And>k p. map_of (bk_pending b') k = Some p \<Longrightarrow> map_of (bk_pending (broker_prune now b)) k = Some p \<and> \<not> ends_connection H k (pc_remote p) e"
  shows "quick_inv H upper ttl b' (e # h)"
proof (rule inv_shrinks [OF assms(1,2)])
  have t: "tables_agree b" using assms(1) by (simp add: quick_inv_def)
  then show "length (bk_pending b') \<le> length (bk_pending b)" using assms(3) prune_all(3) [of b now] by simp
  show "map_of (bk_pending b) k = Some p \<and> \<not> ends_connection H k (pc_remote p) e" if "map_of (bk_pending b') k = Some p" for k p
    using assms(5) [OF that] prune_all(4) [OF t, of now k p] by simp
qed (rule assms(4))

lemma inv_consume:
  assumes inv: "quick_inv H upper ttl b h"
  shows "quick_inv H upper ttl (snd (broker_Consume H now secret b)) ((now, QConsume secret, fst (answered Granted (broker_Consume H now secret b))) # h)"
proof (cases "broker_Consume H now secret b")
  case (Pair r b')
  let ?e = "(now, QConsume secret, fst (answered Granted (r, b')))"
  have t: "tables_agree b" "tables_agree (broker_prune now b)" using inv prune_all(1) [of b now] by (simp_all add: quick_inv_def)
  show ?thesis
  proof (cases r)
    case (Inl e)
    then have "\<forall>k r. \<not> ends_connection H k r ?e" by (simp add: answered_def)
    moreover have "b' = b \<or> b' = broker_prune now b"
      using Pair Inl by (auto simp: broker_Consume_def Let_def split: if_splits option.splits)
    ultimately show ?thesis using inv_same [OF inv] inv_prune [OF inv] Pair by auto
  next
    case (Inr g)
    with Pair obtain p where p: "map_of (bk_pending (broker_prune now b)) (H secret) = Some p"
      "b' = broker_remove (H secret) (code_of p) (broker_prune now b)"
      by (auto elim: consume_granted)
    have "quick_inv H upper ttl b' (?e # h)"
      by (rule inv_after_prune [OF inv, where now = now])
        (use p tables_remove [OF t(2) p(1)] prune_all(2) [OF t(1)] in \<open>auto simp: length_mdel_le Inr answered_def split: if_splits\<close>)
    then show ?thesis using Pair by simp
  qed
qed

lemma inv_cancel:
  assumes inv: "quick_inv H upper ttl b h"
  shows "quick_inv H upper ttl (snd (broker_Cancel H secret b)) ((now, QCancel secret, fst (done_or (broker_Cancel H secret b))) # h)"
proof -
  have t: "tables_agree b" using inv by (simp add: quick_inv_def)
  have "broker_Cancel H secret b = (Some QuickInvalidRequest, b)
    \<or> broker_Cancel H secret b = (None, b) \<and> map_of (bk_pending b) (H secret) = None
    \<or> (\<exists>p. broker_Cancel H secret b = (None, broker_remove (H secret) (code_of p) b) \<and> map_of (bk_pending b) (H secret) = Some p)"
    by (auto simp: broker_Cancel_def Let_def split: option.splits)
  then consider "broker_Cancel H secret b = (Some QuickInvalidRequest, b)"
    | "broker_Cancel H secret b = (None, b)" "map_of (bk_pending b) (H secret) = None"
    | p where "broker_Cancel H secret b = (None, broker_remove (H secret) (code_of p) b)" "map_of (bk_pending b) (H secret) = Some p"
    by (elim disjE exE conjE) (assumption | metis)+
  then show ?thesis
  proof cases
    case 1
    then show ?thesis using inv_same [OF inv] by (simp add: done_or_def)
  next
    case 2
    show ?thesis unfolding 2(1) by (rule inv_shrinks [OF inv]) (use 2 t in \<open>auto simp: done_or_def\<close>)
  next
    case 3
    show ?thesis unfolding 3(1)
      by (rule inv_shrinks [OF inv])
        (use 3 t tables_remove [OF t 3(2)] in \<open>auto simp: done_or_def length_mdel_le split: if_splits\<close>)
  qed
qed

lemma inv_revoke: "quick_inv H upper ttl b h \<Longrightarrow> quick_inv H upper ttl (broker_RevokeRemote b) ((now, QRevokeRemote, Done) # h)"
  by (rule inv_shrinks, assumption) (auto simp: quick_inv_def revoke_all_remote)

lemma quick_step_inv:
  assumes H: "\<forall>s. H s \<noteq> ''''" and inv: "quick_inv H upper ttl b h"
    and step: "quick_step H upper now op b = Some (r, b')" and fresh: "fresh_secret H op b"
  shows "quick_inv H upper ttl b' ((now, op, r) # h)"
proof (cases op)
  case (QCreate rq drawn draws)
  with step obtain x where x: "broker_Create H drawn draws now rq b = Some x" "answered (\<lambda>(s, c). Created s c) x = (r, b')" by auto
  obtain y where y: "x = (y, b')" "r = fst (answered (\<lambda>(s, c). Created s c) (y, b'))" using x(2) by (cases x) (auto simp: answered_def)
  show ?thesis using inv_create [OF inv H _ x(1) [unfolded y(1)]] fresh y(2) by (simp add: QCreate)
next
  case (QStatus secret)
  then have "b' = b \<or> b' = broker_prune now b" "\<forall>k z. \<not> ends_connection H k z (now, op, r)"
    using step by (auto simp: broker_Status_def Let_def split: if_splits option.splits)
  then show ?thesis using inv_same [OF inv] inv_prune [OF inv] by auto
next
  case (QApprove v viewer)
  then show ?thesis using step inv_approve [OF inv, of now v viewer]
    by (simp add: done_or_def)
next
  case (QConsume secret)
  then show ?thesis using step inv_consume [OF inv, of now secret] by (simp add: answered_def)
next
  case (QCancel secret)
  then show ?thesis using step inv_cancel [OF inv, of secret now] by (simp add: done_or_def)
next
  case QRevokeRemote
  then show ?thesis using step inv_revoke [OF inv] by simp
next
  case (QPreview code viewer)
  then show ?thesis using step inv_same [OF inv] by (simp add: answered_def)
next
  case (QPendingTVs clock viewer)
  then show ?thesis using step inv_same [OF inv] by (simp add: answered_def)
qed

lemma quick_reach_inv:
  assumes "quick_reach H upper ttl b h" "\<forall>s. H s \<noteq> ''''"
  shows "quick_inv H upper ttl b h"
  using assms
proof (induction rule: quick_reach.induct)
  case Start
  show ?case by (simp add: quick_inv_def tables_New) (simp add: broker_New_def)
next
  case (Step b h now op r b')
  then show ?case by (simp add: quick_step_inv)
qed

section \<open>What a viewer is offered\<close>

lemma show_base_step: "b \<le> n \<Longrightarrow> 0 < k \<Longrightarrow> show_base b k n = show_base b (k - 1) (n div b) @ [digit_char (n mod b)]"
  by (cases k) auto

text \<open>The code drawn for a television has six digits, so it can be approved from the list and from a link.\<close>

lemma numeric_codes:
  assumes "connectCode True (drawn, Some v) = Some code" "v < 900000"
  shows "numericCode code"
proof -
  define n where "n = 100000 + v"
  define n1 where "n1 = n div 10"
  define n2 where "n2 = n1 div 10"
  define n3 where "n3 = n2 div 10"
  define n4 where "n4 = n3 div 10"
  define n5 where "n5 = n4 div 10"
  have n: "10 \<le> n" "10 \<le> n1" "10 \<le> n2" "10 \<le> n3" "10 \<le> n4" "n5 < 10"
    using assms(2) unfolding n_def n1_def n2_def n3_def n4_def n5_def by simp_all
  have last: "show_base 10 15 n5 = [digit_char n5]" using n(6) by (simp add: eval_nat_numeral)
  have "show_base 10 20 n = map digit_char [n5, n4 mod 10, n3 mod 10, n2 mod 10, n1 mod 10, n mod 10]"
    by (simp add: show_base_step n n1_def [symmetric] n2_def [symmetric] n3_def [symmetric] n4_def [symmetric] n5_def [symmetric] last)
  then have c: "code = map digit_char [n5, n4 mod 10, n3 mod 10, n2 mod 10, n1 mod 10, n mod 10]"
    using assms(1) by (simp add: connectCode_def n_def)
  have b: "48 \<le> byte (digit_char k) \<and> byte (digit_char k) \<le> 57" if "k < 10" for k
    using that by (simp add: digit_char_def byte_def)
  have d: "\<forall>x \<in> set code. 48 \<le> byte x \<and> byte x \<le> 57" using n(6) by (auto simp: c b)
  have "runes code = map byte code"
    unfolding runes_def by (rule runes_bytes_ascii) (use d in fastforce)
  then show ?thesis using d by (simp add: numericCode_def list_all_iff not_less) (simp add: c)
qed

text \<open>The list of televisions: at most eight of them, those that expire first, in this order.\<close>

lemma pending_tvs_exact:
  assumes "broker_PendingTVs clock viewer b = Inr vs" "tables_agree b"
  shows "length vs \<le> 8" "sorted (map (\<lambda>v. (qp_ExpiresAt v, qp_Code v)) vs)"
    "v \<in> set vs \<Longrightarrow> \<exists>k p. map_of (bk_pending b) k = Some p \<and> localTV (clock k) p \<and> v = preview p"
    "map_of (bk_pending b) k = Some p \<Longrightarrow> localTV (clock k) p \<Longrightarrow> preview p \<notin> set vs \<Longrightarrow> v \<in> set vs \<Longrightarrow>
       length vs = 8 \<and> qp_ExpiresAt v \<le> pc_expires p"
proof -
  let ?all = "map (\<lambda>(key, p). preview p) (filter (\<lambda>(key, p). localTV (clock key) p) (bk_pending b))"
  let ?key = "\<lambda>v. (qp_ExpiresAt v, qp_Code v)"
  have vs: "vs = take 8 (sort_key ?key ?all)"
    using assms(1) by (auto simp: broker_PendingTVs_def Let_def split: if_splits)
  have m: "mwf (bk_pending b)" using assms(2) by (simp add: tables_agree_def)
  have s: "sorted (map ?key (sort_key ?key ?all))" by (rule sorted_sort_key)
  show "length vs \<le> 8" by (simp add: vs)
  show "sorted (map ?key vs)" using s by (simp add: vs take_map [symmetric] sorted_wrt_take)
  show "\<exists>k p. map_of (bk_pending b) k = Some p \<and> localTV (clock k) p \<and> v = preview p" if "v \<in> set vs"
    using that m by (fastforce simp: vs mwf_in_set dest: in_set_takeD)
  show "length vs = 8 \<and> qp_ExpiresAt v \<le> pc_expires p"
    if p: "map_of (bk_pending b) k = Some p" "localTV (clock k) p" "preview p \<notin> set vs" "v \<in> set vs"
  proof -
    let ?l = "sort_key ?key ?all"
    have "preview p \<in> set ?l" using p(1,2) by (force dest: map_of_SomeD)
    then have d: "preview p \<in> set (drop 8 ?l)" using p(3) unfolding vs by (metis Un_iff append_take_drop_id set_append)
    then have "length vs = 8" unfolding vs by (cases "length ?l \<le> 8") auto
    moreover have "sorted (map ?key (take 8 ?l @ drop 8 ?l))" using s by simp
    then have "\<forall>x \<in> set (map ?key (take 8 ?l)). \<forall>y \<in> set (map ?key (drop 8 ?l)). x \<le> y"
      unfolding map_append sorted_append by blast
    then have "?key v \<le> ?key (preview p)" using p(4) d unfolding vs set_map by (meson imageI)
    then have "qp_ExpiresAt v \<le> pc_expires p" by (auto simp: less_eq_prod_def preview_def)
    ultimately show ?thesis by simp
  qed
qed

section \<open>Sessions rest on an approval\<close>

text \<open>What the exchange answers when it succeeds.\<close>

lemma consume_session_created:
  assumes "consumeSession H cfg token sessions profiles now secret compatibility b = (Inr ((change, sessions'), answer), b')"
  obtains g q channel where "broker_Consume H now secret b = (Inr g, b')" "FindProfile profiles (gr_ProfileID g) = Some q" "pr_Revision q = gr_ProfileRevision g"
    "create_begin H cfg token (pr_ID q) (gr_Device g) False (gr_Remote g) channel (Some (gr_ProfileRevision g)) '''' sessions = Inr (change, sessions')"
    "channel = (if gr_Remote g then ''public'' else if compatibility \<or> pr_Owner q \<and> \<not> gr_Owner g then ''compatibility'' else '''')"
    "answer = (if channel = ''compatibility'' then CompatibilityProfile q else q)"
proof -
  obtain g q where g: "broker_Consume H now secret b = (Inr g, b')" "FindProfile profiles (gr_ProfileID g) = Some q" "pr_Revision q = gr_ProfileRevision g"
    using assms by (auto simp: consumeSession_def Let_def split: sum.splits prod.splits option.splits if_splits)
  show thesis
  proof (cases "gr_Remote g")
    case True
    then show thesis
      using assms g by (intro that [OF g, of "''public''"]) (auto simp: consumeSession_def CreatePublicGrant_def split: sum.splits)
  next
    case False
    then show thesis
      using assms g
      by (intro that [OF g, of "if compatibility \<or> pr_Owner q \<and> \<not> gr_Owner g then ''compatibility'' else ''''"])
        (auto simp: consumeSession_def CreateLocalGrant_def Let_def split: sum.splits if_splits)
  qed
qed

text \<open>C34. A session that Quick Connect creates rests on an approval.  In any run of the broker, when a secret is exchanged for a
  session, the secret was created and its code was approved after that, both before the connection expired, and nothing
  ended the connection in between: it was not exchanged before, not cancelled, and not revoked if it is public.  The
  session is of the viewer that approved, at the revision at which it approved, and this profile is still there, enabled and
  at this revision.  A public connection gets a public session only, approved by a remote, secured, freshly
  authenticated viewer that is no owner; a session with an owner's rights is only given where an owner approved.  The
  secret is then used up.\<close>

theorem quick_session_sound:
  assumes "\<forall>s. H s \<noteq> ''''" "quick_reach H upper ttl b h"
    and "consumeSession H cfg token sessions profiles now secret compatibility b = (Inr ((change, sessions'), answer), b')"
  shows "\<exists>since tc rq drawn draws c before ta v viewer p q s.
    h = since @ (tc, QCreate rq drawn draws, Created (''qc_'' @ drawn) c) # before \<and> H (''qc_'' @ drawn) = H secret
    \<and> list_all (\<lambda>e. \<not> ends_connection H (H secret) (rq_Remote rq) e) since \<and> now < tc + bk_ttl (broker_New ttl)
    \<and> (ta, QApprove v viewer, Done) \<in> set since \<and> upper (trim_space v) = cn_Code c \<and> ta < tc + bk_ttl (broker_New ttl)
    \<and> map_of sessions' = (map_of sessions)(H token \<mapsto> s) \<and> ss_ProfileID s = vw_ID viewer \<and> ss_ProfileRevision s = vw_Revision viewer
    \<and> p \<in> set (sc_Profiles cfg) \<and> sp_ID p = vw_ID viewer \<and> sp_Revision p = vw_Revision viewer \<and> \<not> sp_Disabled p \<and> \<not> sp_Deleted p
    \<and> (rq_Remote rq \<longleftrightarrow> ss_Channel s = ''public'')
    \<and> (rq_Remote rq \<longrightarrow> \<not> vw_Owner viewer \<and> vw_Remote viewer \<and> vw_Secured viewer \<and> vw_StronglyVerified viewer
         \<and> \<not> sp_Owner p \<and> sp_Remote p \<and> sp_Secured p)
    \<and> FindProfile profiles (vw_ID viewer) = Some q \<and> pr_Revision q = vw_Revision viewer
    \<and> (pr_Owner q \<and> ss_Channel s \<noteq> ''compatibility'' \<longrightarrow> vw_Owner viewer \<or> rq_Remote rq)
    \<and> answer = (if ss_Channel s = ''compatibility'' then CompatibilityProfile q else q)
    \<and> map_of (bk_pending b') (H secret) = None"
proof (rule consume_session_created [OF assms(3)])
  fix g q channel
  assume g: "broker_Consume H now secret b = (Inr g, b')" "FindProfile profiles (gr_ProfileID g) = Some q" "pr_Revision q = gr_ProfileRevision g"
    and s: "create_begin H cfg token (pr_ID q) (gr_Device g) False (gr_Remote g) channel (Some (gr_ProfileRevision g)) '''' sessions = Inr (change, sessions')"
    and ch: "channel = (if gr_Remote g then ''public'' else if compatibility \<or> pr_Owner q \<and> \<not> gr_Owner g then ''compatibility'' else '''')"
    and answer: "answer = (if channel = ''compatibility'' then CompatibilityProfile q else q)"
  have inv: "quick_inv H upper ttl b h" by (rule quick_reach_inv [OF assms(2,1)])
  obtain p where p: "map_of (bk_pending (broker_prune now b)) (H secret) = Some p" "pc_profileID p \<noteq> ''''"
    "g = \<lparr>gr_ProfileID = pc_profileID p, gr_Device = cn_Device (pc_connection p), gr_ProfileRevision = pc_profileRevision p,
       gr_Remote = pc_remote p, gr_Owner = pc_owner p\<rparr>"
    "b' = broker_remove (H secret) (code_of p) (broker_prune now b)"
    using g(1) by (rule consume_granted)
  have live: "map_of (bk_pending b) (H secret) = Some p" "now < pc_expires p"
    using prune_all(4) [of b now "H secret" p] p(1) inv by (auto simp: quick_inv_def)
  then have "rests_on H upper (bk_ttl (broker_New ttl)) (H secret) p h" using inv by (simp add: quick_inv_def)
  then obtain since tc rq drawn draws before where
    r: "h = since @ (tc, QCreate rq drawn draws, Created (''qc_'' @ drawn) (pc_connection p)) # before" "H (''qc_'' @ drawn) = H secret"
      "pc_expires p = tc + bk_ttl (broker_New ttl)" "pc_remote p = rq_Remote rq"
      "list_all (\<lambda>e. \<not> ends_connection H (H secret) (rq_Remote rq) e) since" "approved_in upper p since"
    unfolding rests_on_def using p(2) by blast
  from r(6) obtain ta v viewer where a: "(ta, QApprove v viewer, Done) \<in> set since" "upper (trim_space v) = code_of p" "ta < pc_expires p"
    "pc_profileID p = vw_ID viewer" "pc_profileRevision p = vw_Revision viewer" "pc_owner p = vw_Owner viewer"
    "pc_remote p \<longrightarrow> \<not> vw_Owner viewer \<and> vw_Remote viewer \<and> vw_Secured viewer \<and> vw_StronglyVerified viewer"
    unfolding approved_in_def by blast
  have q: "pr_ID q = vw_ID viewer" using find_profile [OF g(2)] p(3) a(4) by simp
  from s obtain sp where sp: "applySessionChange sessions [(H token, new_session cfg sp (gr_Device g) False (gr_Remote g) channel '''')] [] = (change, sessions')"
    "findSessionProfile (sc_Profiles cfg) (pr_ID q) = Some sp" "\<not> sp_Disabled sp" "\<not> sp_Deleted sp"
    "validateSessionAuthority sp channel (Some (gr_ProfileRevision g)) '''' = None"
    by (rule create_begin_change)
  let ?s = "new_session cfg sp (gr_Device g) False (gr_Remote g) channel ''''"
  have "sp \<in> set (sc_Profiles cfg)" "sp_ID sp = vw_ID viewer" "sp_Revision sp = vw_Revision viewer"
    using sp(2,5) q p(3) a(5) by (auto simp: findSessionProfile_def find_Some_iff validateSessionAuthority_def split: if_splits)
  moreover have "map_of sessions' = (map_of sessions)(H token \<mapsto> ?s)" using sp(1) by (auto simp: apply_one)
  moreover have "ss_ProfileID ?s = sp_ID sp" "ss_ProfileRevision ?s = sp_Revision sp" "ss_Channel ?s = channel"
    by (simp_all add: new_session_def Let_def)
  moreover have "channel = ''public'' \<longrightarrow> \<not> sp_Owner sp \<and> sp_Remote sp \<and> sp_Secured sp"
    using sp(5) by (auto simp: validateSessionAuthority_def split: if_splits)
  moreover have "rq_Remote rq \<longleftrightarrow> channel = ''public''" "pr_Owner q \<and> channel \<noteq> ''compatibility'' \<longrightarrow> vw_Owner viewer \<or> rq_Remote rq"
    using ch p(3) r(4) a(6) by (auto split: if_splits)
  moreover have "FindProfile profiles (vw_ID viewer) = Some q" "pr_Revision q = vw_Revision viewer" using g p(3) a(4,5) by simp_all
  moreover have "map_of (bk_pending b') (H secret) = None" using p(4) by simp
  ultimately show ?thesis
    using r a answer live(2) sp(3,4)
    by (intro exI [of _ since] exI [of _ tc] exI [of _ rq] exI [of _ drawn] exI [of _ draws] exI [of _ "pc_connection p"] exI [of _ before]
        exI [of _ ta] exI [of _ v] exI [of _ viewer] exI [of _ sp] exI [of _ q] exI [of _ ?s]) simp
qed

definition tv_hash :: "string \<Rightarrow> string" where "tv_hash s = CHR ''h'' # s"

definition tv_request :: quick_request where
  "tv_request = \<lparr>rq_Device = ''TV'', rq_DeviceID = ''d'', rq_Client = ''Kinosail'', rq_Version = ''1'', rq_Numeric = False, rq_Remote = True\<rparr>"

definition tv_created :: broker where
  "tv_created = \<lparr>bk_byCode = [(''ABCDEFGH'', ''hqc_A'')], bk_pending = [(''hqc_A'', new_pending tv_request ''ABCDEFGH'' 0 300)], bk_ttl = 300\<rparr>"

definition tv_approved :: broker where
  "tv_approved = \<lparr>bk_byCode = [(''ABCDEFGH'', ''hqc_A'')], bk_pending = [(''hqc_A'', (new_pending tv_request ''ABCDEFGH'' 0 300)
     \<lparr>pc_profileID := ''viewer'', pc_profileRevision := 3, pc_owner := False\<rparr>)], bk_ttl = 300\<rparr>"

definition tv_history :: "quick_event list" where
  "tv_history = [(1, QApprove ''ABCDEFGH'' (viewer_of demo_viewer True), Done),
     (0, QCreate tv_request ''A'' [(''ABCDEFGHIJ'', None)], Created ''qc_A'' (new_connection tv_request ''ABCDEFGH'' 0))]"

lemma ascii_field: "list_all (\<lambda>c. 32 \<le> byte c \<and> byte c < 127) s \<Longrightarrow> length s \<le> n \<Longrightarrow> validField s n"
proof -
  assume a: "list_all (\<lambda>c. 32 \<le> byte c \<and> byte c < 127) s" "length s \<le> n"
  then have "runes s = map byte s" unfolding runes_def by (intro runes_bytes_ascii) (auto simp: list_all_iff)
  with a show ?thesis by (auto simp: validField_def list_all_iff is_control_def)
qed

lemma tv_reach: "quick_reach tv_hash (\<lambda>s. s) 300 tv_approved tv_history"
proof -
  have f: "validField ''TV'' 80" "validField ''d'' 128" "validField ''Kinosail'' 80" "validField ''1'' 40" "validField ''viewer'' 128"
    by (rule ascii_field; simp add: byte_def)+
  then have "quick_step tv_hash (\<lambda>s. s) 0 (QCreate tv_request ''A'' [(''ABCDEFGHIJ'', None)]) (broker_New 300) =
      Some (Created ''qc_A'' (new_connection tv_request ''ABCDEFGH'' 0), tv_created)"
    by (simp add: broker_Create_def validRequest_def tv_request_def broker_New_def broker_prune_def maxPending_def connectCode_def
        tv_hash_def tv_created_def answered_def Let_def)
  then have one: "quick_reach tv_hash (\<lambda>s. s) 300 tv_created [(0, QCreate tv_request ''A'' [(''ABCDEFGHIJ'', None)], Created ''qc_A'' (new_connection tv_request ''ABCDEFGH'' 0))]"
    by (intro Step [OF Start]) (simp_all add: broker_New_def)
  have "trim_space ''ABCDEFGH'' = ''ABCDEFGH''" by (rule trim_space_visible) (simp add: byte_def)
  with f(5) have "quick_step tv_hash (\<lambda>s. s) 1 (QApprove ''ABCDEFGH'' (viewer_of demo_viewer True)) tv_created = Some (Done, tv_approved)"
    by (simp add: broker_Approve_def approvalCode_def viewer_of_def demo_viewer_def tv_created_def tv_approved_def new_pending_def tv_request_def
        approvalAllowed_def profile_Secured_def Secured_def done_or_def mget0_def Let_def zero_profile_def)
  then show ?thesis unfolding tv_history_def by (intro Step [OF one]) simp_all
qed

lemma tv_consume:
  "\<exists>change sessions' b'. consumeSession tv_hash demo_config ''tok'' [] [demo_viewer] 2 ''qc_A'' False tv_approved = (Inr ((change, sessions'), demo_viewer), b')"
proof -
  have f: "validField ''qc_A'' 128" by (rule ascii_field) (simp_all add: byte_def)
  then have "fst (broker_Consume tv_hash 2 ''qc_A'' tv_approved) = Inr \<lparr>gr_ProfileID = ''viewer'', gr_Device = ''TV'', gr_ProfileRevision = 3, gr_Remote = True, gr_Owner = False\<rparr>"
    by (simp add: broker_Consume_def broker_prune_def remove_entry_def tv_approved_def new_pending_def new_connection_def tv_request_def tv_hash_def Let_def)
  then obtain b' where "broker_Consume tv_hash 2 ''qc_A'' tv_approved =
      (Inr \<lparr>gr_ProfileID = ''viewer'', gr_Device = ''TV'', gr_ProfileRevision = 3, gr_Remote = True, gr_Owner = False\<rparr>, b')"
    by (metis prod.collapse)
  moreover have "FindProfile [demo_viewer] ''viewer'' = Some demo_viewer" "pr_ID demo_viewer = ''viewer''" "pr_Revision demo_viewer = 3"
    by (simp_all add: FindProfile_def demo_viewer_def)
  ultimately show ?thesis by (simp add: consumeSession_def CreatePublicGrant_def demo_created split_paired_Ex)
qed

lemma quick_session_sound_witness:
  "\<exists>sessions' answer b' change s. consumeSession tv_hash demo_config ''tok'' [] [demo_viewer] 2 ''qc_A'' False tv_approved = (Inr ((change, sessions'), answer), b')
     \<and> map_of sessions' ''htok'' = Some s \<and> ss_ProfileID s = ''viewer'' \<and> ss_Channel s = ''public''"
proof -
  obtain change sessions' b' where r: "consumeSession tv_hash demo_config ''tok'' [] [demo_viewer] 2 ''qc_A'' False tv_approved = (Inr ((change, sessions'), demo_viewer), b')"
    using tv_consume by blast
  have "\<forall>s. tv_hash s \<noteq> ''''" by (simp add: tv_hash_def)
  from quick_session_sound [OF this tv_reach r] obtain since tc rq drawn draws c before ta v viewer s where
    h: "tv_history = since @ (tc, QCreate rq drawn draws, Created (''qc_'' @ drawn) c) # before" "(ta, QApprove v viewer, Done) \<in> set since"
      "map_of sessions' = (map_of [])(tv_hash ''tok'' \<mapsto> s)" "ss_ProfileID s = vw_ID viewer" "rq_Remote rq \<longleftrightarrow> ss_Channel s = ''public''"
    by blast
  from h(1,2) have "viewer = viewer_of demo_viewer True" "rq = tv_request"
    by (auto simp: tv_history_def Cons_eq_append_conv)
  with h r show ?thesis by (auto simp: viewer_of_def demo_viewer_def tv_request_def tv_hash_def)
qed

end
