(* ===== verification/Json.thy ===== *)
theory Json
  imports Runes
begin

text \<open>
  The parts of Go's encoding/json and unicode/utf8 packages that the activity journal uses: writing a string as
  \<open>json.Marshal\<close> does, with its escapes, and reading objects whose values are strings, \<open>null\<close> or again such objects.  A
  reader that meets anything else, an array, a number, a boolean, a deeper object, gives \<open>None\<close>: the decoder reports an
  error for it, since the fields it is read into are strings and maps of strings.  What is written is read back
  (\<open>read_quoted\<close>, \<open>read_members_written\<close>).  Nothing here models a file of the repository.
\<close>

section \<open>UTF-8\<close>

definition utf8_bytes :: "nat \<Rightarrow> nat list" where
  "utf8_bytes r =
     (if r < 0x80 then [r]
      else if r < 0x800 then [0xC0 + r div 64, 0x80 + r mod 64]
      else if r < 0x10000 then [0xE0 + r div 4096, 0x80 + r div 64 mod 64, 0x80 + r mod 64]
      else [0xF0 + r div 262144, 0x80 + r div 4096 mod 64, 0x80 + r div 64 mod 64, 0x80 + r mod 64])"

definition utf8 :: "nat \<Rightarrow> string" where
  "utf8 r = map char_of (utf8_bytes r)"

text \<open>A byte that starts no valid sequence.\<close>

definition bad_segment :: "nat \<times> string \<Rightarrow> bool" where
  "bad_segment g \<longleftrightarrow> fst g = 0xFFFD \<and> length (snd g) = 1"

section \<open>Writing a string\<close>

abbreviation (input) backslash :: char where "backslash \<equiv> CHR 0x5C"
abbreviation (input) quote :: char where "quote \<equiv> CHR 0x22"

definition escape_u :: "nat \<Rightarrow> string" where
  "escape_u r = [backslash, CHR ''u'', digit_char (r div 4096 mod 16), digit_char (r div 256 mod 16), digit_char (r div 16 mod 16), digit_char (r mod 16)]"

definition escape_segment :: "nat \<times> string \<Rightarrow> string" where
  "escape_segment g = (let r = fst g in
     if bad_segment g then escape_u 0xFFFD
     else if r = 0x2028 \<or> r = 0x2029 then escape_u r
     else if r = 0x22 \<or> r = 0x5C then backslash # snd g
     else if r = 8 then [backslash, CHR ''b'']
     else if r = 12 then [backslash, CHR ''f'']
     else if r = 10 then [backslash, CHR ''n'']
     else if r = 13 then [backslash, CHR ''r'']
     else if r = 9 then [backslash, CHR ''t'']
     else if r < 0x20 \<or> r = 0x3C \<or> r = 0x3E \<or> r = 0x26 then escape_u r
     else snd g)"

definition escaped :: "string \<Rightarrow> string" where
  "escaped s = concat (map escape_segment (rune_segments s))"

definition json_quote :: "string \<Rightarrow> string" where
  "json_quote s = quote # escaped s @ [quote]"

section \<open>Reading a string\<close>

definition hex4 :: "string \<Rightarrow> (nat \<times> string) option" where
  "hex4 s = (if length s < 4 \<or> \<not> list_all (\<lambda>c. hex_digit c \<noteq> None) (take 4 s) then None
     else Some (hex_value (take 4 s), drop 4 s))"

definition low_surrogate :: "string \<Rightarrow> (nat \<times> string) option" where
  "low_surrogate s = (if take 2 s = [backslash, CHR ''u''] then
     (case hex4 (drop 2 s) of None \<Rightarrow> None | Some (r, t) \<Rightarrow> if 0xDC00 \<le> r \<and> r < 0xE000 then Some (r, t) else None) else None)"

text \<open>After a backslash: what the escape stands for, and the rest.\<close>

definition read_escape :: "string \<Rightarrow> (string \<times> string) option" where
  "read_escape s = (case s of [] \<Rightarrow> None | e # t \<Rightarrow>
     if e = quote \<or> e = backslash \<or> e = CHR ''/'' then Some ([e], t)
     else if e = CHR ''b'' then Some ([CHR 8], t)
     else if e = CHR ''f'' then Some ([CHR 12], t)
     else if e = CHR ''n'' then Some ([CHR 10], t)
     else if e = CHR ''r'' then Some ([CHR 13], t)
     else if e = CHR ''t'' then Some ([CHR 9], t)
     else if e = CHR ''u'' then (case hex4 t of None \<Rightarrow> None | Some (r, t1) \<Rightarrow>
       if 0xD800 \<le> r \<and> r < 0xE000 then
         (case low_surrogate t1 of
            Some (r2, t2) \<Rightarrow> if r < 0xDC00 then Some (utf8 (0x10000 + (r - 0xD800) * 1024 + (r2 - 0xDC00)), t2) else Some (utf8 0xFFFD, t1)
          | None \<Rightarrow> Some (utf8 0xFFFD, t1))
       else Some (utf8 r, t1))
     else None)"

lemma hex4_shorter: "hex4 s = Some (r, t) \<Longrightarrow> length t < length s"
  by (auto simp: hex4_def split: if_splits)

lemma low_surrogate_shorter: "low_surrogate s = Some (r, t) \<Longrightarrow> length t < length s"
  by (auto simp: low_surrogate_def dest!: hex4_shorter split: if_splits option.splits)

lemma read_escape_shorter: "read_escape s = Some (v, t) \<Longrightarrow> length t < length s"
  by (auto simp: read_escape_def dest!: hex4_shorter low_surrogate_shorter split: list.splits if_splits option.splits)

text \<open>The string up to the closing quote; a byte that is not UTF-8 is read as U+FFFD.\<close>

definition segment_text :: "nat \<times> string \<Rightarrow> string" where
  "segment_text g = (if bad_segment g then utf8 0xFFFD else snd g)"

function read_string :: "string \<Rightarrow> (string \<times> string) option" where
  "read_string [] = None"
| "read_string (c # s) =
     (if c = quote then Some ([], s)
      else if c = backslash then
        (case read_escape s of None \<Rightarrow> None | Some (v, t) \<Rightarrow> map_option (\<lambda>(w, u). (v @ w, u)) (read_string t))
      else if byte c < 0x20 then None
      else let r = decode_rune (map byte (c # s)) in
        map_option (\<lambda>(w, u). (segment_text (fst r, take (snd r) (c # s)) @ w, u)) (read_string (drop (snd r - 1) s)))"
  by pat_completeness auto
termination
  by (relation "measure length") (auto dest: read_escape_shorter simp: less_Suc_eq_le)

lemma read_string_shorter: "read_string s = Some (v, t) \<Longrightarrow> length t < length s"
proof (induction s arbitrary: v t rule: read_string.induct)
  case (2 c s)
  show ?case
  proof (cases "c = quote")
    case True
    with 2 show ?thesis by simp
  next
    case c: False
    show ?thesis
    proof (cases "c = backslash")
      case True
      with 2 c show ?thesis by (fastforce split: option.splits dest: read_escape_shorter)
    next
      case False
      with 2 c show ?thesis by (fastforce simp: Let_def split: if_splits)
    qed
  qed
qed simp

section \<open>What is written is read back\<close>

lemma hex_digit_char: "d < 16 \<Longrightarrow> hex_digit (digit_char d) = Some d"
  by (auto simp: hex_digit_def digit_char_def Let_def)

lemma escape_u_read:
  assumes "r < 0x10000"
  shows "hex4 (drop 2 (escape_u r) @ t) = Some (r, t)"
proof -
  have d: "hex_digit (digit_char (k mod 16)) = Some (k mod 16)" for k by (simp add: hex_digit_char)
  define a where "a = r div 16"
  define b where "b = a div 16"
  define c where "c = b div 16"
  have abc: "r div 4096 = c" "r div 256 = b" "r div 16 = a" by (simp_all add: a_def b_def c_def div_mult2_eq [symmetric])
  have "c < 16" using assms by (simp add: a_def b_def c_def)
  then have "c mod 16 * 16 + b mod 16 = b" "b * 16 + a mod 16 = a" "a * 16 + r mod 16 = r"
    unfolding a_def b_def c_def by (simp_all add: div_mult_mod_eq)
  then have "((c mod 16 * 16 + b mod 16) * 16 + a mod 16) * 16 + r mod 16 = r" by simp
  then show ?thesis by (simp add: escape_u_def hex4_def hex_value_def d abc)
qed

lemma read_string_escape_u:
  assumes "r < 0x10000" "\<not> (0xD800 \<le> r \<and> r < 0xE000)"
  shows "read_string (escape_u r @ t) = map_option (\<lambda>(w, u). (utf8 r @ w, u)) (read_string t)"
proof -
  have e: "escape_u r @ t = backslash # CHR ''u'' # drop 2 (escape_u r) @ t" by (simp add: escape_u_def)
  have "read_escape (CHR ''u'' # drop 2 (escape_u r) @ t) = Some (utf8 r, t)"
    using assms by (auto simp: read_escape_def escape_u_read)
  then show ?thesis unfolding e by (subst read_string.simps) simp
qed

lemma split_base: "z < (n :: nat) \<Longrightarrow> (a * n + z) div n = a" "z < n \<Longrightarrow> (a * n + z) mod n = z"
  by simp_all

lemma char_of_take_byte: "map char_of (take n (map byte s)) = take n s"
  by (simp add: take_map comp_def)

text \<open>The bytes of a decoded sequence are the encoding of its rune.\<close>

lemma utf8_decode:
  "decode2 bs = Some (r, w) \<Longrightarrow> utf8_bytes r = take w bs \<and> 0x80 \<le> r"
  "decode3 bs = Some (r, w) \<Longrightarrow> utf8_bytes r = take w bs \<and> 0x800 \<le> r \<and> r < 0x10000 \<and> \<not> (0xD800 \<le> r \<and> r < 0xE000)"
  "decode4 bs = Some (r, w) \<Longrightarrow> utf8_bytes r = take w bs \<and> 0x10000 \<le> r \<and> r < 0x110000"
proof -
  show "utf8_bytes r = take w bs \<and> 0x80 \<le> r" if dec: "decode2 bs = Some (r, w)"
  proof -
    obtain b0 b1 rest where b: "bs = b0 # b1 # rest" "0xC2 \<le> b0" "b0 \<le> 0xDF" "is_cont b1" "r = (b0 - 0xC0) * 64 + (b1 - 0x80)" "w = 2"
      using dec by (auto simp: decode2_def split: list.splits if_splits)
    define x y where "x = b0 - 0xC0" "y = b1 - 0x80"
    have xy: "2 \<le> x" "x < 32" "y < 64" "r = x * 64 + y" "b0 = 0xC0 + x" "b1 = 0x80 + y"
      using b by (auto simp: x_y_def is_cont_def)
    have "r div 64 = x" "r mod 64 = y" using xy(2-4) by auto
    then show ?thesis using b(1,6) xy by (simp add: utf8_bytes_def numeral_2_eq_2)
  qed
  show "utf8_bytes r = take w bs \<and> 0x800 \<le> r \<and> r < 0x10000 \<and> \<not> (0xD800 \<le> r \<and> r < 0xE000)" if dec: "decode3 bs = Some (r, w)"
  proof -
    obtain b0 b1 b2 rest where b: "bs = b0 # b1 # b2 # rest" "0xE0 \<le> b0" "b0 \<le> 0xEF" "(if b0 = 0xE0 then 0xA0 else 0x80) \<le> b1"
        "b1 \<le> (if b0 = 0xED then 0x9F else 0xBF)" "is_cont b2" "r = (b0 - 0xE0) * 4096 + (b1 - 0x80) * 64 + (b2 - 0x80)" "w = 3"
      using dec by (auto simp: decode3_def split: list.splits if_splits)
    define x y z where "x = b0 - 0xE0" "y = b1 - 0x80" "z = b2 - 0x80"
    have xyz: "x < 16" "y < 64" "z < 64" "r = x * 4096 + y * 64 + z" "b0 = 0xE0 + x" "b1 = 0x80 + y" "b2 = 0x80 + z"
      "x = 0 \<Longrightarrow> 32 \<le> y" "x = 13 \<Longrightarrow> y < 32"
      using b by (auto simp: x_y_z_def is_cont_def split: if_splits)
    have r: "r = (x * 64 + y) * 64 + z" using xyz(4) by simp
    have q: "r div 64 = x * 64 + y" "r mod 64 = z" unfolding r using split_base [OF xyz(3)] by blast+
    have d: "r div 4096 = x" "r div 64 mod 64 = y" "r mod 64 = z"
      using q div_mult2_eq [of r 64 64] split_base [OF xyz(2)] by simp_all
    have "0x800 \<le> r" using xyz by (cases x) auto
    moreover have "r < 0x10000" using xyz(1-4) by simp
    moreover have "\<not> (0xD800 \<le> r \<and> r < 0xE000)"
    proof
      assume s: "0xD800 \<le> r \<and> r < 0xE000"
      have "x < 14" using s xyz(4) by linarith
      moreover have "12 < x" using s xyz(2-4) by linarith
      ultimately have x: "x = 13" by linarith
      then have "y < 32" by (rule xyz(9))
      then show False using s xyz(3,4) x by linarith
    qed
    ultimately show ?thesis using b(1,8) xyz(5-7) d by (simp add: utf8_bytes_def numeral_3_eq_3)
  qed
  show "utf8_bytes r = take w bs \<and> 0x10000 \<le> r \<and> r < 0x110000" if dec: "decode4 bs = Some (r, w)"
  proof -
    obtain b0 b1 b2 b3 rest where b: "bs = b0 # b1 # b2 # b3 # rest" "0xF0 \<le> b0" "b0 \<le> 0xF4" "(if b0 = 0xF0 then 0x90 else 0x80) \<le> b1"
        "b1 \<le> (if b0 = 0xF4 then 0x8F else 0xBF)" "is_cont b2" "is_cont b3"
        "r = (b0 - 0xF0) * 262144 + (b1 - 0x80) * 4096 + (b2 - 0x80) * 64 + (b3 - 0x80)" "w = 4"
      using dec by (auto simp: decode4_def split: list.splits if_splits)
    define x y z u where "x = b0 - 0xF0" "y = b1 - 0x80" "z = b2 - 0x80" "u = b3 - 0x80"
    have xyz: "x \<le> 4" "y < 64" "z < 64" "u < 64" "r = x * 262144 + y * 4096 + z * 64 + u" "b0 = 0xF0 + x" "b1 = 0x80 + y" "b2 = 0x80 + z" "b3 = 0x80 + u"
      "x = 0 \<Longrightarrow> 16 \<le> y" "x = 4 \<Longrightarrow> y < 16"
      using b by (auto simp: x_y_z_u_def is_cont_def split: if_splits)
    have r: "r = ((x * 64 + y) * 64 + z) * 64 + u" using xyz(5) by simp
    have q: "r div 64 = (x * 64 + y) * 64 + z" "r mod 64 = u" unfolding r using split_base [OF xyz(4)] by blast+
    have "r div 4096 = r div 64 div 64" using div_mult2_eq [of r 64 64] by simp
    then have q2: "r div 4096 = x * 64 + y" "r div 64 mod 64 = z"
      using split_base [OF xyz(3), of "x * 64 + y"] unfolding q(1) by metis+
    then have d: "r div 262144 = x" "r div 4096 mod 64 = y" "r div 64 mod 64 = z" "r mod 64 = u"
      using split_base [OF xyz(2)] q div_mult2_eq [of r 4096 64] by simp_all
    have "16 \<le> y \<or> 1 \<le> x" using xyz(10) by (cases "x = 0") auto
    then have "0x10000 \<le> r" unfolding xyz(5) by (elim disjE) linarith+
    moreover have "r < 0x110000"
    proof (cases "x = 4")
      case True
      then have "y < 16" by (rule xyz(11))
      with True show ?thesis using xyz(3-5) by linarith
    next
      case False
      then have "x \<le> 3" using xyz(1) by linarith
      then show ?thesis using xyz(2-5) by linarith
    qed
    moreover have "take 4 (b0 # b1 # b2 # b3 # rest) = [b0, b1, b2, b3]" by (simp add: eval_nat_numeral)
    ultimately show ?thesis using b(1,9) xyz(6-9) d by (simp add: utf8_bytes_def)
  qed
qed

lemma segment_utf8:
  assumes "r = decode_rune (map byte (c # s))"
  shows "bad_segment (fst r, take (snd r) (c # s)) \<and> 0x80 \<le> byte c
    \<or> snd r = 1 \<and> fst r = byte c \<and> byte c < 0x80
    \<or> 2 \<le> snd r \<and> utf8 (fst r) = take (snd r) (c # s) \<and> 0x80 \<le> fst r \<and> fst r < 0x110000 \<and> \<not> (0xD800 \<le> fst r \<and> fst r < 0xE000) \<and> 0x80 \<le> byte c"
proof (cases "byte c < 0x80")
  case True
  then show ?thesis using assms by (simp add: decode_rune_def)
next
  case c: False
  let ?bs = "map byte (c # s)"
  have same_text: "utf8 (fst r) = take (snd r) (c # s)" if "utf8_bytes (fst r) = take (snd r) ?bs"
    using that char_of_take_byte [of "snd r" "c # s"] by (simp add: utf8_def)
  have two: "fst r < 0x800" if "decode2 ?bs = Some r"
    using that by (cases s) (auto simp: decode2_def is_cont_def split: if_splits list.splits)
  consider "decode2 ?bs = Some r" | "decode3 ?bs = Some r" | "decode4 ?bs = Some r" | "r = (0xFFFD, 1)"
    using assms c by (auto simp: decode_rune_def split: option.splits)
  then show ?thesis
  proof cases
    case 1
    with two utf8_decode(1) [of ?bs "fst r" "snd r"] decode_widths(1) [of ?bs "fst r" "snd r"] same_text c show ?thesis by simp
  next
    case 2
    with utf8_decode(2) [of ?bs "fst r" "snd r"] decode_widths(2) [of ?bs "fst r" "snd r"] same_text c show ?thesis by simp
  next
    case 3
    with utf8_decode(3) [of ?bs "fst r" "snd r"] decode_widths(3) [of ?bs "fst r" "snd r"] same_text c show ?thesis by simp
  next
    case 4
    with c show ?thesis by (simp add: bad_segment_def)
  qed
qed

lemma decode_rune_extend:
  assumes "r = decode_rune bs" "bs \<noteq> []" "2 \<le> snd r"
  shows "decode_rune (take (snd r) bs @ xs) = r"
proof -
  obtain b ds where bs: "bs = b # ds" using assms(2) by (cases bs) auto
  have b: "\<not> b < 0x80" using assms bs by (auto simp: decode_rune_def)
  consider "decode2 bs = Some r" | "decode2 bs = None" "decode3 bs = Some r" | "decode2 bs = None" "decode3 bs = None" "decode4 bs = Some r"
    using assms b bs by (auto simp: decode_rune_def split: option.splits)
  then show ?thesis
  proof cases
    case 1
    then obtain b1 rest where d: "bs = b # b1 # rest" "snd r = 2" using bs by (cases r) (auto simp: decode2_def split: list.splits if_splits)
    with 1 have "decode2 (b # b1 # xs) = Some r" by (simp add: decode2_def)
    with b d show ?thesis by (simp add: decode_rune_def)
  next
    case 2
    then obtain b1 b2 rest where d: "bs = b # b1 # b2 # rest" "snd r = 3" "0xE0 \<le> b"
      using bs by (cases r) (auto simp: decode3_def split: list.splits if_splits)
    with 2 have "decode3 (b # b1 # b2 # xs) = Some r" "decode2 (b # b1 # b2 # xs) = None" by (simp_all add: decode3_def decode2_def)
    with b d show ?thesis by (simp add: decode_rune_def numeral_3_eq_3)
  next
    case 3
    then obtain b1 b2 b3 rest where d: "bs = b # b1 # b2 # b3 # rest" "snd r = 4" "0xF0 \<le> b"
      using bs by (cases r) (auto simp: decode4_def split: list.splits if_splits)
    with 3 have "decode4 (b # b1 # b2 # b3 # xs) = Some r" "decode3 (b # b1 # b2 # b3 # xs) = None" "decode2 (b # b1 # b2 # b3 # xs) = None"
      by (simp_all add: decode4_def decode3_def decode2_def)
    with b d show ?thesis by (simp add: decode_rune_def eval_nat_numeral)
  qed
qed

text \<open>One segment.\<close>

lemma read_segment:
  assumes r: "r = decode_rune (map byte (c # s))" and g: "g = (fst r, take (snd r) (c # s))"
  shows "read_string (escape_segment g @ t) = map_option (\<lambda>(w, u). (segment_text g @ w, u)) (read_string t)"
proof -
  consider (bad) "bad_segment g" | (ascii) "g = (byte c, [c])" "byte c < 0x80"
    | (multi) "2 \<le> snd r" "utf8 (fst g) = snd g" "0x80 \<le> fst g" "fst g < 0x110000" "\<not> (0xD800 \<le> fst g \<and> fst g < 0xE000)" "0x80 \<le> byte c"
    using segment_utf8 [OF r] by (auto simp: g)
  then show ?thesis
  proof cases
    case bad
    then show ?thesis using read_string_escape_u [of "0xFFFD" t] by (simp add: escape_segment_def segment_text_def)
  next
    case ascii
    have ok: "\<not> bad_segment g" using ascii by (simp add: bad_segment_def)
    have u: "escape_u (byte c) @ t = escape_u (byte c) @ t \<Longrightarrow> read_string (escape_u (byte c) @ t) = map_option (\<lambda>(w, u). ([c] @ w, u)) (read_string t)"
      using read_string_escape_u [of "byte c" t] ascii(2) by (simp add: utf8_def utf8_bytes_def)
    have slash: "read_string (backslash # e # t) = map_option (\<lambda>(w, u). ([c] @ w, u)) (read_string t)" if "read_escape (e # t) = Some ([c], t)" for e
      using that by (subst read_string.simps) simp
    have plain: "read_string (c # t) = map_option (\<lambda>(w, u). ([c] @ w, u)) (read_string t)" if "0x20 \<le> byte c" "c \<noteq> quote" "c \<noteq> backslash"
      using that ascii(2) by (subst read_string.simps) (simp add: Let_def decode_rune_def segment_text_def bad_segment_def)
    have "byte quote = 0x22" "byte backslash = 0x5C" by (simp_all add: byte_def)
    then have "c = quote \<longleftrightarrow> byte c = 0x22" "c = backslash \<longleftrightarrow> byte c = 0x5C" by (metis byte_inject)+
    moreover have "byte (CHR 8) = 8" "byte (CHR 9) = 9" "byte (CHR 10) = 10" "byte (CHR 12) = 12" "byte (CHR 13) = 13" by (simp_all add: byte_def)
    then have "byte c = 8 \<longleftrightarrow> c = CHR 8" "byte c = 9 \<longleftrightarrow> c = CHR 9" "byte c = 10 \<longleftrightarrow> c = CHR 10" "byte c = 12 \<longleftrightarrow> c = CHR 12" "byte c = 13 \<longleftrightarrow> c = CHR 13"
      by (metis byte_inject)+
    ultimately show ?thesis
      using ok ascii u plain slash
      by (auto simp: escape_segment_def segment_text_def Let_def read_escape_def)
  next
    case multi
    have w: "take (snd r) (c # s) = c # take (snd r - 1) s" using multi(1) by (cases "snd r") auto
    have ok: "\<not> bad_segment g" using multi(1) decode_rune_bound [of "map byte (c # s)"] r by (simp add: bad_segment_def g min_def)
    show ?thesis
    proof (cases "fst g = 0x2028 \<or> fst g = 0x2029")
      case True
      then show ?thesis using read_string_escape_u [of "fst g" t] multi(2) ok by (auto simp: escape_segment_def segment_text_def Let_def)
    next
      case False
      then have e: "escape_segment g = c # take (snd r - 1) s" "segment_text g = c # take (snd r - 1) s"
        using multi(3) ok w by (auto simp: escape_segment_def segment_text_def Let_def g)
      let ?x = "take (snd r - 1) s @ t"
      have len: "snd r \<le> Suc (length s)" using decode_rune_bound [of "map byte (c # s)"] r by simp
      have x: "map byte (c # ?x) = take (snd r) (map byte (c # s)) @ map byte t"
        using multi(1) by (cases "snd r") (simp_all add: take_map)
      have d: "decode_rune (map byte (c # ?x)) = r"
        unfolding x by (rule decode_rune_extend [OF r _ multi(1)]) simp
      have "c \<noteq> quote" "c \<noteq> backslash" "\<not> byte c < 0x20" using multi(6) by (auto simp: byte_def)
      moreover have "take (snd r) (c # ?x) = c # take (snd r - 1) s" "drop (snd r - 1) ?x = t"
        using len multi(1) by (cases "snd r"; simp)+
      ultimately show ?thesis using d e w
        by (subst e(1), simp) (simp add: Let_def g)
    qed
  qed
qed

definition sanitized :: "string \<Rightarrow> string" where
  "sanitized s = concat (map segment_text (rune_segments s))"

lemma sanitized_valid: "valid_utf8 s \<Longrightarrow> sanitized s = s"
proof -
  assume "valid_utf8 s"
  then have "map segment_text (rune_segments s) = map snd (rune_segments s)"
    by (auto simp: valid_utf8_def list_all_iff segment_text_def bad_segment_def)
  then have "sanitized s = concat (map snd (rune_segments s))" unfolding sanitized_def by (rule arg_cong)
  then show ?thesis by (simp only: segments_concat)
qed

lemma read_escaped: "read_string (escaped s @ t) = map_option (\<lambda>(w, u). (sanitized s @ w, u)) (read_string t)"
proof (induction s rule: rune_segments.induct)
  case 1
  then show ?case by (cases "read_string t") (simp_all add: escaped_def sanitized_def)
next
  case (2 c s)
  define r where "r = decode_rune (map byte (c # s))"
  define g where "g = (fst r, take (snd r) (c # s))"
  have s: "rune_segments (c # s) = g # rune_segments (drop (snd r - 1) s)" by (simp add: r_def g_def Let_def)
  have IH: "read_string (escaped (drop (snd r - 1) s) @ t) = map_option (\<lambda>(w, u). (sanitized (drop (snd r - 1) s) @ w, u)) (read_string t)"
    using 2 [OF refl] by (simp add: r_def)
  have "escaped (c # s) @ t = escape_segment g @ escaped (drop (snd r - 1) s) @ t"
    "sanitized (c # s) = segment_text g @ sanitized (drop (snd r - 1) s)"
    unfolding escaped_def sanitized_def s by simp_all
  then show ?case
    using read_segment [OF r_def g_def, of "escaped (drop (snd r - 1) s) @ t"] IH
    by (cases "read_string t") (simp_all add: case_prod_beta del: map_append)
qed

text \<open>What \<open>json_quote\<close> writes is read back, with bytes that are not UTF-8 replaced.\<close>

lemma read_quoted: "read_string (escaped s @ quote # t) = Some (sanitized s, t)"
  by (simp add: read_escaped)

text \<open>What is read is valid UTF-8.\<close>

definition is_rune :: "nat \<Rightarrow> bool" where
  "is_rune r \<longleftrightarrow> r < 0x110000 \<and> \<not> (0xD800 \<le> r \<and> r < 0xE000)"

lemma utf8_bytes_less: "r < 0x110000 \<Longrightarrow> b \<in> set (utf8_bytes r) \<Longrightarrow> b < 256"
  by (auto simp: utf8_bytes_def less_mult_imp_div_less split: if_splits)

lemma decode_utf8:
  assumes "is_rune r"
  shows "decode_rune (utf8_bytes r @ xs) = (r, length (utf8_bytes r))"
proof -
  have "r < 0x80 \<or> 0x80 \<le> r \<and> r < 0x800 \<or> 0x800 \<le> r \<and> r < 0x10000 \<or> 0x10000 \<le> r \<and> r < 0x110000"
    using assms unfolding is_rune_def by linarith
  then consider "r < 0x80" | "0x80 \<le> r" "r < 0x800" | "0x800 \<le> r" "r < 0x10000" | "0x10000 \<le> r" "r < 0x110000"
    by blast
  then show ?thesis
  proof cases
    case 1
    then show ?thesis by (simp add: utf8_bytes_def decode_rune_def)
  next
    case 2
    define a b where "a = r div 64" "b = r mod 64"
    have ab: "r = a * 64 + b" "b < 64" by (simp_all add: a_b_def)
    then have "2 \<le> a" "a < 32" using 2 by linarith+
    then have "decode2 (utf8_bytes r @ xs) = Some (r, 2)"
      using 2 ab by (auto simp: utf8_bytes_def decode2_def is_cont_def a_b_def [symmetric])
    then show ?thesis using 2 by (simp add: decode_rune_def utf8_bytes_def)
  next
    case 3
    define a b c where "a = r div 4096" "b = r div 64 mod 64" "c = r mod 64"
    have "r div 4096 = r div 64 div 64" using div_mult2_eq [of r 64 64] by simp
    then have "r = a * 4096 + b * 64 + c"
      using div_mult_mod_eq [of r 64] div_mult_mod_eq [of "r div 64" 64] unfolding a_b_c_def by linarith
    moreover have "b < 64" "c < 64" by (simp_all add: a_b_c_def)
    ultimately have abc: "r = a * 4096 + b * 64 + c" "a < 16" "b < 64" "c < 64" using 3 by linarith+
    have "a = 0 \<Longrightarrow> 32 \<le> b" using abc 3 by linarith
    moreover have "a = 13 \<Longrightarrow> b < 32" using abc assms unfolding is_rune_def by linarith
    moreover have "utf8_bytes r = [0xE0 + a, 0x80 + b, 0x80 + c]" using 3 by (simp add: utf8_bytes_def a_b_c_def)
    ultimately have "decode3 (utf8_bytes r @ xs) = Some (r, 3)"
      using abc by (auto simp: decode3_def is_cont_def)
    moreover have "decode2 (utf8_bytes r @ xs) = None" using 3 by (simp add: utf8_bytes_def decode2_def)
    ultimately show ?thesis using 3 by (simp add: decode_rune_def utf8_bytes_def)
  next
    case 4
    define a b c d where "a = r div 262144" "b = r div 4096 mod 64" "c = r div 64 mod 64" "d = r mod 64"
    have "r div 4096 = r div 64 div 64" "r div 262144 = r div 4096 div 64"
      using div_mult2_eq [of r 64 64] div_mult2_eq [of r 4096 64] by simp_all
    then have "r = a * 262144 + b * 4096 + c * 64 + d"
      using div_mult_mod_eq [of r 64] div_mult_mod_eq [of "r div 64" 64] div_mult_mod_eq [of "r div 4096" 64] unfolding a_b_c_d_def by linarith
    moreover have "b < 64" "c < 64" "d < 64" by (simp_all add: a_b_c_d_def)
    ultimately have abc: "r = a * 262144 + b * 4096 + c * 64 + d" "a \<le> 4" "b < 64" "c < 64" "d < 64" using 4 by linarith+
    have "a = 0 \<Longrightarrow> 16 \<le> b" using abc 4 by linarith
    moreover have "a = 4 \<Longrightarrow> b < 16" using abc 4 by linarith
    moreover have "utf8_bytes r = [0xF0 + a, 0x80 + b, 0x80 + c, 0x80 + d]" using 4 by (simp add: utf8_bytes_def a_b_c_d_def)
    ultimately have "decode4 (utf8_bytes r @ xs) = Some (r, 4)"
      using abc by (auto simp: decode4_def is_cont_def)
    moreover have "decode3 (utf8_bytes r @ xs) = None" "decode2 (utf8_bytes r @ xs) = None" using 4 by (simp_all add: utf8_bytes_def decode3_def decode2_def)
    ultimately show ?thesis using 4 by (simp add: decode_rune_def utf8_bytes_def)
  qed
qed

lemma segments_utf8:
  assumes "is_rune r"
  shows "rune_segments (utf8 r @ s) = (r, utf8 r) # rune_segments s"
proof -
  have b: "map byte (utf8 r) = utf8_bytes r"
    using utf8_bytes_less [of r] assms by (auto simp: utf8_def is_rune_def comp_def intro!: map_idI)
  obtain c cs where u: "utf8 r = c # cs" by (cases "utf8 r") (auto simp: utf8_def utf8_bytes_def split: if_splits)
  have "decode_rune (map byte (c # cs @ s)) = (r, length (utf8_bytes r))"
    using decode_utf8 [OF assms, of "map byte s"] unfolding b [symmetric] u by simp
  moreover have "length (utf8_bytes r) = Suc (length cs)" using b u by (metis length_Cons length_map)
  ultimately show ?thesis by (simp add: u Let_def)
qed

lemma valid_utf8_cons: "is_rune r \<Longrightarrow> valid_utf8 (utf8 r @ s) \<longleftrightarrow> valid_utf8 s"
proof -
  assume r: "is_rune r"
  have "length (utf8 r) \<noteq> 1" if "r = 0xFFFD" using that by (simp add: utf8_def utf8_bytes_def)
  then show ?thesis by (auto simp: valid_utf8_def segments_utf8 [OF r])
qed

lemma hex_digit_less: "hex_digit c = Some d \<Longrightarrow> d < 16"
  by (auto simp: hex_digit_def Let_def split: if_splits)

lemma hex4_less: "hex4 s = Some (r, t) \<Longrightarrow> r < 0x10000"
proof -
  assume "hex4 s = Some (r, t)"
  then obtain a b c d where s: "take 4 s = [a, b, c, d]" "r = hex_value [a, b, c, d]" "list_all (\<lambda>c. hex_digit c \<noteq> None) [a, b, c, d]"
    by (auto simp: hex4_def length_Suc_conv eval_nat_numeral not_less Suc_le_length_iff split: if_splits)
  have "(case hex_digit x of None \<Rightarrow> 0 | Some d \<Rightarrow> d) < 16" for x
    using hex_digit_less [of x] by (cases "hex_digit x") auto
  from this [of a] this [of b] this [of c] this [of d] show ?thesis
    unfolding s(2) hex_value_def by simp
qed

lemma read_escape_rune: "read_escape s = Some (v, t) \<Longrightarrow> \<exists>r. is_rune r \<and> v = utf8 r"
proof -
  assume e: "read_escape s = Some (v, t)"
  have ascii: "\<exists>r. is_rune r \<and> [c] = utf8 r" if "byte c < 0x80" for c
    using that by (intro exI [of _ "byte c"]) (simp add: is_rune_def utf8_def utf8_bytes_def)
  have u: "\<exists>r'. is_rune r' \<and> utf8 r = utf8 r'" if "is_rune r" for r using that by blast
  have fffd: "is_rune 0xFFFD" by (simp add: is_rune_def)
  obtain c cs where s: "s = c # cs" using e by (cases s) (auto simp: read_escape_def)
  show ?thesis
  proof (cases "c = CHR ''u''")
    case False
    then show ?thesis
      using e s by (auto simp: read_escape_def byte_def split: if_splits intro!: ascii)
  next
    case True
    then obtain r t1 where h: "hex4 cs = Some (r, t1)" using e s by (auto simp: read_escape_def split: option.splits)
    have r: "r < 0x10000" by (rule hex4_less [OF h])
    show ?thesis
    proof (cases "0xD800 \<le> r \<and> r < 0xE000")
      case False
      then have "is_rune r" "v = utf8 r" using e s True h r by (auto simp: read_escape_def is_rune_def)
      then show ?thesis by blast
    next
      case sur: True
      have low: "0xDC00 \<le> r2 \<and> r2 < 0xE000" if "low_surrogate t1 = Some (r2, t2)" for r2 t2
        using that by (auto simp: low_surrogate_def split: if_splits option.splits)
      show ?thesis
      proof (cases "r < 0xDC00 \<and> low_surrogate t1 \<noteq> None")
        case False
        then have "v = utf8 0xFFFD" using e s True h sur by (auto simp: read_escape_def split: option.splits if_splits)
        then show ?thesis using fffd by blast
      next
        case pair: True
        then obtain r2 t2 where l: "low_surrogate t1 = Some (r2, t2)" by auto
        then have "v = utf8 (0x10000 + (r - 0xD800) * 1024 + (r2 - 0xDC00))"
          using e s True h sur pair by (auto simp: read_escape_def)
        moreover have "is_rune (0x10000 + (r - 0xD800) * 1024 + (r2 - 0xDC00))"
          using low [OF l] sur pair by (auto simp: is_rune_def)
        ultimately show ?thesis by blast
      qed
    qed
  qed
qed

lemma segment_text_rune:
  assumes "r = decode_rune (map byte (c # s))"
  shows "\<exists>q. is_rune q \<and> segment_text (fst r, take (snd r) (c # s)) = utf8 q"
proof -
  consider "bad_segment (fst r, take (snd r) (c # s))" | "snd r = 1" "byte c < 0x80" "\<not> bad_segment (fst r, take (snd r) (c # s))"
    | "utf8 (fst r) = take (snd r) (c # s)" "is_rune (fst r)" "\<not> bad_segment (fst r, take (snd r) (c # s))"
    using segment_utf8 [OF assms] unfolding is_rune_def by blast
  then show ?thesis
  proof cases
    case 1
    then show ?thesis by (intro exI [of _ "0xFFFD"]) (simp add: segment_text_def is_rune_def)
  next
    case 2
    then show ?thesis by (intro exI [of _ "byte c"]) (simp add: segment_text_def is_rune_def utf8_def utf8_bytes_def)
  next
    case 3
    then show ?thesis by (intro exI [of _ "fst r"]) (simp add: segment_text_def)
  qed
qed

lemma read_string_valid: "read_string s = Some (v, t) \<Longrightarrow> valid_utf8 v"
proof (induction s arbitrary: v t rule: read_string.induct)
  case (2 c s)
  define r where "r = decode_rune (map byte (c # s))"
  consider "c = quote" | "c = backslash" | "c \<noteq> quote" "c \<noteq> backslash" "\<not> byte c < 0x20" using 2(3) by fastforce
  then show ?case
  proof cases
    case 1
    then show ?thesis using 2(3) by (simp add: valid_utf8_def)
  next
    case q: 2
    then obtain w u x y where e: "read_escape s = Some (w, u)" "read_string u = Some (x, y)" "v = w @ x"
      using 2(3) by (auto split: option.splits)
    have "valid_utf8 x" using 2(1) [OF _ q _ _ e(2)] q e(1) by simp
    then show ?thesis using read_escape_rune [OF e(1)] valid_utf8_cons e(3) by metis
  next
    case q: 3
    then obtain x where e: "read_string (drop (snd r - 1) s) = Some (x, t)" "v = segment_text (fst r, take (snd r) (c # s)) @ x"
      using 2(3) by (auto simp: r_def Let_def)
    have "valid_utf8 x" using 2(2) [OF q r_def] e(1) by simp
    then show ?thesis using segment_text_rune [OF r_def] valid_utf8_cons e(2) by metis
  qed
qed simp

text \<open>What is written has no control characters, so no line end, and nothing to trim.\<close>

lemma digit_char_visible: "d < 16 \<Longrightarrow> 0x20 \<le> byte (digit_char d)"
  by (simp add: digit_char_def byte_def)

lemma escape_u_visible: "c \<in> set (escape_u r) \<Longrightarrow> 0x20 \<le> byte c"
  by (auto simp: escape_u_def digit_char_visible) (simp_all add: byte_def)

lemma utf8_high: "0x80 \<le> r \<Longrightarrow> r < 0x110000 \<Longrightarrow> c \<in> set (utf8 r) \<Longrightarrow> 0x80 \<le> byte c"
proof -
  assume r: "0x80 \<le> r" "r < 0x110000" and c: "c \<in> set (utf8 r)"
  then obtain b where b: "b \<in> set (utf8_bytes r)" "c = char_of b" by (auto simp: utf8_def)
  then have "0x80 \<le> b" using r(1) unfolding utf8_bytes_def by (auto split: if_split_asm)
  then show ?thesis using b utf8_bytes_less [OF r(2) b(1)] by simp
qed

lemma escape_segment_visible:
  assumes "g = (fst r, take (snd r) (c # s))" "r = decode_rune (map byte (c # s))" "x \<in> set (escape_segment g)"
  shows "0x20 \<le> byte x"
proof -
  have b: "0x20 \<le> byte backslash" by (simp add: byte_def)
  consider "bad_segment g" | "g = (byte c, [c])" "byte c < 0x80" | "0x80 \<le> fst g" "snd g = utf8 (fst g)" "fst g < 0x110000"
    using segment_utf8 [OF assms(2)] assms(1) by auto
  then show ?thesis
  proof cases
    case 1
    then show ?thesis using assms(3) escape_u_visible by (auto simp: escape_segment_def)
  next
    case 2
    then have "\<not> bad_segment g" by (simp add: bad_segment_def)
    then show ?thesis using assms(3) 2 b escape_u_visible by (auto simp: escape_segment_def Let_def byte_def split: if_splits)
  next
    case 3
    then have "x \<in> set (escape_u (fst g)) \<or> x \<in> set (escape_u 0xFFFD) \<or> x \<in> set (utf8 (fst g))"
      using assms(3) by (auto simp: escape_segment_def Let_def split: if_splits)
    then show ?thesis using escape_u_visible utf8_high [OF 3(1,3)] by force
  qed
qed

lemma escaped_visible: "x \<in> set (escaped s) \<Longrightarrow> 0x20 \<le> byte x"
proof (induction s rule: rune_segments.induct)
  case 1
  then show ?case by (simp add: escaped_def)
next
  case (2 c s)
  define r where "r = decode_rune (map byte (c # s))"
  have "escaped (c # s) = escape_segment (fst r, take (snd r) (c # s)) @ escaped (drop (snd r - 1) s)"
    by (simp add: escaped_def r_def Let_def)
  then show ?case using 2 escape_segment_visible [OF refl r_def] by (auto simp: r_def)
qed

lemma json_quote_visible: "x \<in> set (json_quote s) \<Longrightarrow> 0x20 \<le> byte x"
  using escaped_visible by (auto simp: json_quote_def byte_def)

section \<open>Objects\<close>

definition json_space :: "char \<Rightarrow> bool" where
  "json_space c \<longleftrightarrow> c = CHR 0x20 \<or> c = CHR 9 \<or> c = CHR 10 \<or> c = CHR 13"

abbreviation skip_space :: "string \<Rightarrow> string" where
  "skip_space s \<equiv> dropWhile json_space s"

text \<open>
  The members of an object after its opening brace, each value read by \<open>rd\<close>.  The fuel is the length of the text: a
  member takes at least one byte.
\<close>

fun read_members :: "nat \<Rightarrow> (string \<Rightarrow> ('v \<times> string) option) \<Rightarrow> string \<Rightarrow> ((string \<times> 'v) list \<times> string) option" where
  "read_members 0 rd s = None"
| "read_members (Suc n) rd s = (case skip_space s of [] \<Rightarrow> None | c # s1 \<Rightarrow>
     if c \<noteq> quote then None
     else (case read_string s1 of None \<Rightarrow> None | Some (name, s2) \<Rightarrow>
       (case skip_space s2 of [] \<Rightarrow> None | c2 # s3 \<Rightarrow>
          if c2 \<noteq> CHR '':'' then None
          else (case rd (skip_space s3) of None \<Rightarrow> None | Some (v, s4) \<Rightarrow>
            (case skip_space s4 of [] \<Rightarrow> None | c3 # s5 \<Rightarrow>
               if c3 = CHR ''}'' then Some ([(name, v)], s5)
               else if c3 = CHR '','' then map_option (\<lambda>(ms, t). ((name, v) # ms, t)) (read_members n rd s5)
               else None)))))"

definition read_object :: "(string \<Rightarrow> ('v \<times> string) option) \<Rightarrow> string \<Rightarrow> ((string \<times> 'v) list \<times> string) option" where
  "read_object rd s = (if take 1 (skip_space s) = ''}'' then Some ([], drop 1 (skip_space s)) else read_members (length s) rd s)"

text \<open>A value in an inner object, with \<open>None\<close> for \<open>null\<close>, and one in the outer object.\<close>

definition read_text :: "string \<Rightarrow> (string option \<times> string) option" where
  "read_text s = (if take 1 s = [quote] then map_option (\<lambda>(v, t). (Some v, t)) (read_string (drop 1 s))
     else if take 4 s = ''null'' then Some (None, drop 4 s) else None)"

datatype json_value = JText "string option" | JObject "(string \<times> string option) list"

definition read_value :: "string \<Rightarrow> (json_value \<times> string) option" where
  "read_value s = (if take 1 s = ''{'' then map_option (\<lambda>(ms, t). (JObject ms, t)) (read_object read_text (drop 1 s))
     else map_option (\<lambda>(v, t). (JText v, t)) (read_text s))"

text \<open>A document that is an object, or \<open>null\<close>, for which there are no members.\<close>

definition read_document :: "string \<Rightarrow> (string \<times> json_value) list option" where
  "read_document s = (let t = skip_space s in
     if take 1 t = ''{'' then (case read_object read_value (drop 1 t) of
         None \<Rightarrow> None | Some (ms, u) \<Rightarrow> if skip_space u = [] then Some ms else None)
     else if take 4 t = ''null'' \<and> skip_space (drop 4 t) = [] then Some []
     else None)"

text \<open>Writing an object, the values being written already.\<close>

fun join_comma :: "string list \<Rightarrow> string" where
  "join_comma [] = []"
| "join_comma [x] = x"
| "join_comma (x # y # xs) = x @ CHR '','' # join_comma (y # xs)"

definition write_member :: "string \<times> string \<Rightarrow> string" where
  "write_member m = json_quote (fst m) @ CHR '':'' # snd m"

definition write_object :: "(string \<times> string) list \<Rightarrow> string" where
  "write_object ms = CHR ''{'' # join_comma (map write_member ms) @ ''}''"

text \<open>A written object is read back, if its values are.\<close>

definition reads_back :: "(string \<Rightarrow> ('v \<times> string) option) \<Rightarrow> string \<Rightarrow> 'v \<Rightarrow> bool" where
  "reads_back rd s v \<longleftrightarrow> s \<noteq> [] \<and> \<not> json_space (hd s) \<and> (\<forall>t. rd (s @ t) = Some (v, t))"

lemma read_members_written:
  assumes "ms \<noteq> []" "length ms \<le> n"
    and "\<forall>(name, w, v) \<in> set ms. valid_utf8 name \<and> reads_back rd w v"
  shows "read_members n rd (join_comma (map (\<lambda>(name, w, v). write_member (name, w)) ms) @ CHR ''}'' # t)
    = Some (map (\<lambda>(name, w, v). (name, v)) ms, t)"
  using assms
proof (induction ms arbitrary: n)
  case Nil
  then show ?case by simp
next
  case (Cons m ms)
  obtain name w v where m: "m = (name, w, v)" by (cases m) auto
  obtain k where n: "n = Suc k" "length ms \<le> k" using Cons.prems(2) by (cases n) auto
  have name: "sanitized name = name" and w: "w \<noteq> []" "\<not> json_space (hd w)" "\<And>t. rd (w @ t) = Some (v, t)"
    using Cons.prems(3) sanitized_valid by (auto simp: m reads_back_def)
  have sp: "\<not> json_space quote" "\<not> json_space CHR '':''" "\<not> json_space CHR '',''" "\<not> json_space CHR ''}''" by (simp_all add: json_space_def)
  have ws: "skip_space (w @ u) = w @ u" for u using w(1,2) by (cases w) simp_all
  have one: "read_members n rd (write_member (name, w) @ u) =
      (case skip_space u of [] \<Rightarrow> None | c3 # s5 \<Rightarrow>
         if c3 = CHR ''}'' then Some ([(name, v)], s5)
         else if c3 = CHR '','' then map_option (\<lambda>(ms, t). ((name, v) # ms, t)) (read_members k rd s5) else None)" for u
    by (simp add: write_member_def json_quote_def n(1) sp read_quoted name ws w(3))
  show ?case
  proof (cases ms)
    case Nil
    then show ?thesis using one [of "CHR ''}'' # t"] by (simp add: m sp)
  next
    case (Cons m2 ms2)
    have "join_comma (map (\<lambda>(name, w, v). write_member (name, w)) (m # ms)) =
        write_member (name, w) @ CHR '','' # join_comma (map (\<lambda>(name, w, v). write_member (name, w)) ms)"
      by (simp add: m Cons)
    then show ?thesis
      using one [of "CHR '','' # join_comma (map (\<lambda>(name, w, v). write_member (name, w)) ms) @ CHR ''}'' # t"]
        Cons.IH [OF _ n(2)] Cons.prems(3) by (simp add: m sp Cons)
  qed
qed

lemma length_join_comma: "length ms \<le> Suc (length (join_comma ms))"
  by (induction ms rule: join_comma.induct) auto

lemma read_object_written:
  assumes "\<forall>(name, w, v) \<in> set ms. valid_utf8 name \<and> reads_back rd w v"
  shows "read_object rd (drop 1 (write_object (map (\<lambda>(name, w, v). (name, w)) ms)) @ t) = Some (map (\<lambda>(name, w, v). (name, v)) ms, t)"
proof (cases "ms = []")
  case True
  then show ?thesis by (simp add: read_object_def write_object_def json_space_def)
next
  case False
  let ?text = "join_comma (map (\<lambda>(name, w, v). write_member (name, w)) ms)"
  have w: "drop 1 (write_object (map (\<lambda>(name, w, v). (name, w)) ms)) = ?text @ ''}''"
    by (simp add: write_object_def comp_def case_prod_beta')
  obtain m ms' where ms: "ms = m # ms'" using False by (cases ms) auto
  obtain rest where q: "?text = quote # rest"
    by (cases ms') (auto simp: ms write_member_def json_quote_def case_prod_beta)
  have "length ms \<le> length (?text @ CHR ''}'' # t)" using length_join_comma [of "map (\<lambda>(name, w, v). write_member (name, w)) ms"] by simp
  from read_members_written [OF False this assms]
  have "read_members (length (?text @ CHR ''}'' # t)) rd (?text @ CHR ''}'' # t) = Some (map (\<lambda>(name, w, v). (name, v)) ms, t)" .
  then show ?thesis unfolding w read_object_def by (simp add: q json_space_def)
qed

lemma read_document_written:
  assumes "\<forall>(name, w, v) \<in> set ms. valid_utf8 name \<and> reads_back read_value w v"
  shows "read_document (write_object (map (\<lambda>(name, w, v). (name, w)) ms)) = Some (map (\<lambda>(name, w, v). (name, v)) ms)"
proof -
  let ?d = "write_object (map (\<lambda>(name, w, v). (name, w)) ms)"
  have "skip_space ?d = ?d" "take 1 ?d = ''{''" by (simp_all add: write_object_def json_space_def)
  then show ?thesis using read_object_written [OF assms, of "[]"] by (simp add: read_document_def)
qed

lemma quote_reads_back: "valid_utf8 s \<Longrightarrow> reads_back read_text (json_quote s) (Some s)"
  by (simp add: reads_back_def json_quote_def json_space_def read_text_def read_quoted sanitized_valid)

lemma text_reads_back: "valid_utf8 s \<Longrightarrow> reads_back read_value (json_quote s) (JText (Some s))"
  using quote_reads_back [of s] by (simp add: reads_back_def read_value_def) (simp add: json_quote_def)

lemma object_reads_back:
  assumes "\<forall>(name, v) \<in> set ms. valid_utf8 name \<and> valid_utf8 v"
  shows "reads_back read_value (write_object (map (\<lambda>(name, v). (name, json_quote v)) ms)) (JObject (map (\<lambda>(name, v). (name, Some v)) ms))"
proof -
  let ?ms = "map (\<lambda>(name, v). (name, json_quote v, Some v)) ms"
  have "\<forall>(name, w, v) \<in> set ?ms. valid_utf8 name \<and> reads_back read_text w v"
    using assms quote_reads_back by fastforce
  from read_object_written [OF this] show ?thesis
    by (simp add: reads_back_def read_value_def write_object_def json_space_def comp_def case_prod_beta)
qed

lemma write_object_visible:
  assumes "\<And>name w c. (name, w) \<in> set ms \<Longrightarrow> c \<in> set w \<Longrightarrow> 0x20 \<le> byte c" "c \<in> set (write_object ms)"
  shows "0x20 \<le> byte c"
proof -
  have j: "c \<in> set (join_comma xs) \<Longrightarrow> c = CHR '','' \<or> (\<exists>x \<in> set xs. c \<in> set x)" for xs
    by (induction xs rule: join_comma.induct) auto
  have "c \<in> {CHR ''{'', CHR ''}'', CHR '','', CHR '':''} \<or> (\<exists>(name, w) \<in> set ms. c \<in> set (json_quote name) \<or> c \<in> set w)"
    using assms(2) j by (fastforce simp: write_object_def write_member_def)
  then show ?thesis using json_quote_visible assms(1) by (auto simp: byte_def)
qed

end
