(* ===== verification/JournalEvents.thy ===== *)
theory JournalEvents
  imports Json "HOL-Library.Char_ord" "HOL-Library.List_Lexorder" "HOL-Library.Sublist"
begin

text \<open>
  The events of the activity journal: packages/auditjournal/journal.go (\<open>Event\<close>), validation.go, bounds.go and the strict
  reading of JSON in load.go.

  The map of details is the list of its entries in ascending order of the keys, which is the order \<open>json.Marshal\<close> writes
  them in; a nil map and an empty one are the same here, as they are for \<open>omitempty\<close>, \<open>len\<close> and a lookup.  The clock's
  text form and the hash are the environment \<open>journal_env\<close>: \<open>time.Parse\<close> and \<open>Time.Format\<close> with the layout
  RFC3339Nano, and the HMAC-SHA-256 of a key and a text.

  Main results: an event of valid UTF-8 is read back from what was written of it (\<open>decode_event_marshal\<close>), what is read is
  valid UTF-8 (\<open>decode_event_utf8\<close>), and \<open>boundedEvent\<close> makes every text but the labels valid UTF-8 (\<open>bounded_utf8\<close>).
\<close>

record journal_env =
  env_hmac :: "string \<Rightarrow> string \<Rightarrow> string"
  env_parse :: "string \<Rightarrow> instant option"
  env_format :: "instant \<Rightarrow> string"

section \<open>Events\<close>

record audit_event =
  ev_ID :: string
  ev_Time :: string
  ev_Category :: string
  ev_Action :: string
  ev_Actor :: string
  ev_ActorID :: string
  ev_Target :: string
  ev_TargetID :: string
  ev_Result :: string
  ev_RequestID :: string
  ev_Remote :: string
  ev_Details :: "(string \<times> string) list"
  ev_Previous :: string
  ev_Integrity :: string

definition zero_event :: audit_event where
  "zero_event = \<lparr>ev_ID = [], ev_Time = [], ev_Category = [], ev_Action = [], ev_Actor = [], ev_ActorID = [], ev_Target = [],
     ev_TargetID = [], ev_Result = [], ev_RequestID = [], ev_Remote = [], ev_Details = [], ev_Previous = [], ev_Integrity = []\<rparr>"

text \<open>The write \<open>details[key] = value\<close>.\<close>

fun details_put :: "string \<Rightarrow> string \<Rightarrow> (string \<times> string) list \<Rightarrow> (string \<times> string) list" where
  "details_put k v [] = [(k, v)]"
| "details_put k v ((k', v') # m) =
     (if k = k' then (k, v) # m else if k < k' then (k, v) # (k', v') # m else (k', v') # details_put k v m)"

definition details_wf :: "(string \<times> string) list \<Rightarrow> bool" where
  "details_wf m \<longleftrightarrow> sorted_wrt (<) (map fst m)"

section \<open>Writing\<close>

text \<open>The fields of the struct and their tags; \<open>json.Marshal\<close> writes the members in this order.\<close>

datatype event_field = FID | FTime | FCategory | FAction | FActor | FActorID | FTarget
  | FTargetID | FResult | FRequestID | FRemote | FDetails | FPrevious | FIntegrity

primrec field_name :: "event_field \<Rightarrow> string" where
  "field_name FID = ''id''"
| "field_name FTime = ''time''"
| "field_name FCategory = ''category''"
| "field_name FAction = ''action''"
| "field_name FActor = ''actor''"
| "field_name FActorID = ''actorId''"
| "field_name FTarget = ''target''"
| "field_name FTargetID = ''targetId''"
| "field_name FResult = ''result''"
| "field_name FRequestID = ''requestId''"
| "field_name FRemote = ''remote''"
| "field_name FDetails = ''details''"
| "field_name FPrevious = ''previous''"
| "field_name FIntegrity = ''integrity''"

definition event_fields :: "event_field list" where
  "event_fields = [FID, FTime, FCategory, FAction, FActor, FActorID, FTarget, FTargetID, FResult, FRequestID, FRemote, FDetails, FPrevious, FIntegrity]"

definition omit_empty :: "event_field \<Rightarrow> string \<Rightarrow> (string \<times> json_value) list" where
  "omit_empty f v = (if v = [] then [] else [(field_name f, JText (Some v))])"

definition event_members :: "audit_event \<Rightarrow> (string \<times> json_value) list" where
  "event_members e =
     [(field_name FID, JText (Some (ev_ID e))), (field_name FTime, JText (Some (ev_Time e))),
      (field_name FCategory, JText (Some (ev_Category e))), (field_name FAction, JText (Some (ev_Action e)))]
     @ omit_empty FActor (ev_Actor e) @ omit_empty FActorID (ev_ActorID e)
     @ omit_empty FTarget (ev_Target e) @ omit_empty FTargetID (ev_TargetID e)
     @ [(field_name FResult, JText (Some (ev_Result e)))]
     @ omit_empty FRequestID (ev_RequestID e) @ omit_empty FRemote (ev_Remote e)
     @ (if ev_Details e = [] then [] else [(field_name FDetails, JObject (map (\<lambda>(k, v). (k, Some v)) (ev_Details e)))])
     @ omit_empty FPrevious (ev_Previous e) @ omit_empty FIntegrity (ev_Integrity e)"

definition write_value :: "json_value \<Rightarrow> string" where
  "write_value v = (case v of
     JText t \<Rightarrow> (case t of None \<Rightarrow> ''null'' | Some s \<Rightarrow> json_quote s)
   | JObject ms \<Rightarrow> write_object (map (\<lambda>(k, t). (k, case t of None \<Rightarrow> ''null'' | Some s \<Rightarrow> json_quote s)) ms))"

definition marshal :: "audit_event \<Rightarrow> string" where
  "marshal e = write_object (map (apsnd write_value) (event_members e))"

section \<open>Valid events\<close>

definition maxAuditEventBytes :: nat where "maxAuditEventBytes = 65536"

definition validOptionalString :: "string \<Rightarrow> nat \<Rightarrow> bool" where
  "validOptionalString s limit \<longleftrightarrow> length s \<le> limit \<and> CHR 0x00 \<notin> set s"

definition validRequiredString :: "string \<Rightarrow> nat \<Rightarrow> bool" where
  "validRequiredString s limit \<longleftrightarrow> s \<noteq> [] \<and> validOptionalString s limit"

definition validCoreFields :: "journal_env \<Rightarrow> audit_event \<Rightarrow> bool" where
  "validCoreFields E e \<longleftrightarrow>
     validRequiredString (ev_ID e) 128 \<and> validRequiredString (ev_Time e) 64 \<and> validRequiredString (ev_Category e) 64
     \<and> validRequiredString (ev_Action e) 256 \<and> validRequiredString (ev_Result e) 64
     \<and> env_parse E (ev_Time e) \<noteq> None"

definition validOptionalFields :: "audit_event \<Rightarrow> bool" where
  "validOptionalFields e \<longleftrightarrow>
     list_all (\<lambda>v. validOptionalString v 4096) [ev_Actor e, ev_ActorID e, ev_Target e, ev_TargetID e, ev_RequestID e, ev_Remote e]"

definition validDetails :: "(string \<times> string) list \<Rightarrow> bool" where
  "validDetails m \<longleftrightarrow> length m \<le> 128 \<and> list_all (\<lambda>(k, v). validRequiredString k 256 \<and> validOptionalString v 4096) m"

definition validEvent :: "journal_env \<Rightarrow> audit_event \<Rightarrow> bool \<Rightarrow> bool" where
  "validEvent E e stored \<longleftrightarrow>
     validCoreFields E e \<and> validOptionalFields e \<and> validDetails (ev_Details e)
     \<and> (stored \<or> ev_Previous e = [] \<and> ev_Integrity e = [])
     \<and> length (marshal e) \<le> maxAuditEventBytes"

section \<open>Bounded events\<close>

text \<open>\<open>strings.ToValidUTF8(s, "U+FFFD")\<close>: a run of invalid bytes becomes one replacement character.\<close>

fun replace_invalid :: "bool \<Rightarrow> (nat \<times> string) list \<Rightarrow> string" where
  "replace_invalid bad [] = []"
| "replace_invalid bad (g # gs) =
     (if bad_segment g then (if bad then [] else utf8 0xFFFD) @ replace_invalid True gs
      else snd g @ replace_invalid False gs)"

definition to_valid_utf8 :: "string \<Rightarrow> string" where
  "to_valid_utf8 s = replace_invalid False (rune_segments s)"

definition replace_nul :: "string \<Rightarrow> string" where
  "replace_nul s = concat (map (\<lambda>c. if c = CHR 0x00 then utf8 0xFFFD else [c]) s)"

text \<open>The loop that steps back from the limit to the start of a rune.\<close>

fun rune_cut :: "string \<Rightarrow> nat \<Rightarrow> nat" where
  "rune_cut s 0 = 0"
| "rune_cut s (Suc n) = (if is_cont (byte (s ! Suc n)) then rune_cut s n else Suc n)"

definition boundedText :: "string \<Rightarrow> nat \<Rightarrow> string" where
  "boundedText s limit = (let v = to_valid_utf8 (replace_nul s) in
     if length v \<le> limit then v else take (rune_cut v limit) v)"

definition boundedEventText :: "audit_event \<Rightarrow> nat \<Rightarrow> audit_event" where
  "boundedEventText e n = e\<lparr>ev_Actor := boundedText (ev_Actor e) n, ev_ActorID := boundedText (ev_ActorID e) n,
     ev_Target := boundedText (ev_Target e) n, ev_TargetID := boundedText (ev_TargetID e) n,
     ev_RequestID := boundedText (ev_RequestID e) n, ev_Remote := boundedText (ev_Remote e) n,
     ev_Details := map (\<lambda>(k, v). (k, boundedText v n)) (ev_Details e)\<rparr>"

definition boundedEvent :: "audit_event \<Rightarrow> audit_event" where
  "boundedEvent e =
     (if length (marshal (boundedEventText e 4096)) \<le> maxAuditEventBytes div 2 then boundedEventText e 4096
      else if length (marshal (boundedEventText e 256)) \<le> maxAuditEventBytes div 2 then boundedEventText e 256
      else boundedEventText e 64)"

section \<open>Strict reading\<close>

text \<open>
  The field of a name: \<open>encoding/json\<close> compares names by folding.  The names of the outer object must differ in
  lower case, those of the details must differ as they are; an unknown name is an error.  A name that folds to one of a field
  has runes for which \<open>lower_rune\<close> is \<open>strings.ToLower\<close>, and any other name is refused in any case.
\<close>

definition fold_text :: "string \<Rightarrow> nat list" where
  "fold_text s = map fold_rune (runes s)"

definition lower_text :: "string \<Rightarrow> nat list" where
  "lower_text s = map lower_rune (runes s)"

definition rejectDuplicateJSONFields :: "(string \<times> json_value) list \<Rightarrow> bool" where
  "rejectDuplicateJSONFields ms \<longleftrightarrow> \<not> distinct (map (lower_text \<circ> fst) ms)
     \<or> list_ex (\<lambda>(_, v). case v of JText _ \<Rightarrow> False | JObject ds \<Rightarrow> \<not> distinct (map fst ds)) ms"

definition set_text :: "event_field \<Rightarrow> string \<Rightarrow> audit_event \<Rightarrow> audit_event" where
  "set_text f s e = (case f of
       FID \<Rightarrow> e\<lparr>ev_ID := s\<rparr>
     | FTime \<Rightarrow> e\<lparr>ev_Time := s\<rparr>
     | FCategory \<Rightarrow> e\<lparr>ev_Category := s\<rparr>
     | FAction \<Rightarrow> e\<lparr>ev_Action := s\<rparr>
     | FActor \<Rightarrow> e\<lparr>ev_Actor := s\<rparr>
     | FActorID \<Rightarrow> e\<lparr>ev_ActorID := s\<rparr>
     | FTarget \<Rightarrow> e\<lparr>ev_Target := s\<rparr>
     | FTargetID \<Rightarrow> e\<lparr>ev_TargetID := s\<rparr>
     | FResult \<Rightarrow> e\<lparr>ev_Result := s\<rparr>
     | FRequestID \<Rightarrow> e\<lparr>ev_RequestID := s\<rparr>
     | FRemote \<Rightarrow> e\<lparr>ev_Remote := s\<rparr>
     | FDetails \<Rightarrow> e
     | FPrevious \<Rightarrow> e\<lparr>ev_Previous := s\<rparr>
     | FIntegrity \<Rightarrow> e\<lparr>ev_Integrity := s\<rparr>)"

text \<open>A value is stored in its field; \<open>null\<close> leaves a text as it is, and is the empty text for a detail.\<close>

definition store_member :: "event_field \<Rightarrow> json_value \<Rightarrow> audit_event \<Rightarrow> audit_event option" where
  "store_member f v e =
     (if f = FDetails then (case v of
         JText None \<Rightarrow> Some (e\<lparr>ev_Details := []\<rparr>)
       | JText (Some _) \<Rightarrow> None
       | JObject ds \<Rightarrow> Some (e\<lparr>ev_Details := fold (\<lambda>(k, t). details_put k (case t of None \<Rightarrow> [] | Some s \<Rightarrow> s)) ds (ev_Details e)\<rparr>))
      else (case v of
         JText None \<Rightarrow> Some e
       | JText (Some s) \<Rightarrow> Some (set_text f s e)
       | JObject _ \<Rightarrow> None))"

fun store_members :: "(string \<times> json_value) list \<Rightarrow> audit_event \<Rightarrow> audit_event option" where
  "store_members [] e = Some e"
| "store_members ((name, v) # ms) e =
     (case find (\<lambda>f. fold_text (field_name f) = fold_text name) event_fields of
        None \<Rightarrow> None
      | Some f \<Rightarrow> (case store_member f v e of None \<Rightarrow> None | Some e' \<Rightarrow> store_members ms e'))"

definition decodeStrictJSON :: "string \<Rightarrow> audit_event option" where
  "decodeStrictJSON line = (case read_document line of None \<Rightarrow> None
   | Some ms \<Rightarrow> if rejectDuplicateJSONFields ms then None else store_members ms zero_event)"

section \<open>What is written is read back\<close>

definition value_utf8 :: "json_value \<Rightarrow> bool" where
  "value_utf8 v = (case v of
     JText t \<Rightarrow> (case t of None \<Rightarrow> False | Some s \<Rightarrow> valid_utf8 s)
   | JObject ms \<Rightarrow> list_all (\<lambda>(k, t). valid_utf8 k \<and> (case t of None \<Rightarrow> False | Some s \<Rightarrow> valid_utf8 s)) ms)"

lemma write_value_reads_back: "value_utf8 v \<Longrightarrow> reads_back read_value (write_value v) v"
proof (cases v)
  case (JText t)
  assume "value_utf8 v"
  then show ?thesis by (auto simp: JText value_utf8_def write_value_def text_reads_back split: option.splits)
next
  case (JObject ms)
  assume v: "value_utf8 v"
  define ds where "ds = map (\<lambda>(k, t). (k, case t of None \<Rightarrow> [] | Some s \<Rightarrow> s)) ms"
  have t: "\<And>k t. (k, t) \<in> set ms \<Longrightarrow> t \<noteq> None" using v by (auto simp: JObject value_utf8_def list_all_iff split: option.splits)
  have "ms = map (\<lambda>(k, s). (k, Some s)) ds"
    using t by (auto simp: ds_def intro!: map_idI [symmetric] split: option.splits)
  moreover have "\<forall>(k, s) \<in> set ds. valid_utf8 k \<and> valid_utf8 s"
    using v by (auto simp: JObject value_utf8_def ds_def list_all_iff split: option.splits)
  ultimately show ?thesis using object_reads_back [of ds]
    by (simp add: JObject write_value_def comp_def case_prod_beta')
qed

lemma read_members_back:
  assumes "list_all (\<lambda>(n, v). valid_utf8 n \<and> value_utf8 v) ms"
  shows "read_document (write_object (map (apsnd write_value) ms)) = Some ms"
proof -
  let ?ms = "map (\<lambda>(n, v). (n, write_value v, v)) ms"
  have "\<forall>(n, w, v) \<in> set ?ms. valid_utf8 n \<and> reads_back read_value w v"
    using assms write_value_reads_back by (fastforce simp: list_all_iff)
  from read_document_written [OF this] show ?thesis
    by (simp add: comp_def case_prod_beta' apsnd_def map_prod_def)
qed

text \<open>The texts of an event are valid UTF-8.\<close>

definition labels_utf8 :: "audit_event \<Rightarrow> bool" where
  "labels_utf8 e \<longleftrightarrow> valid_utf8 (ev_ID e) \<and> valid_utf8 (ev_Time e) \<and> valid_utf8 (ev_Category e) \<and> valid_utf8 (ev_Action e)
     \<and> valid_utf8 (ev_Result e) \<and> list_all (\<lambda>(k, _). valid_utf8 k) (ev_Details e)"

definition texts_utf8 :: "audit_event \<Rightarrow> bool" where
  "texts_utf8 e \<longleftrightarrow> valid_utf8 (ev_Actor e) \<and> valid_utf8 (ev_ActorID e) \<and> valid_utf8 (ev_Target e) \<and> valid_utf8 (ev_TargetID e)
     \<and> valid_utf8 (ev_RequestID e) \<and> valid_utf8 (ev_Remote e) \<and> list_all (\<lambda>(_, v). valid_utf8 v) (ev_Details e)"

definition event_utf8 :: "audit_event \<Rightarrow> bool" where
  "event_utf8 e \<longleftrightarrow> labels_utf8 e \<and> texts_utf8 e \<and> valid_utf8 (ev_Previous e) \<and> valid_utf8 (ev_Integrity e)"

lemmas event_utf8_defs = event_utf8_def labels_utf8_def texts_utf8_def

lemma byte_literal: "byte (Char b0 b1 b2 b3 b4 b5 b6 b7) = of_char (Char b0 b1 b2 b3 b4 b5 b6 b7)"
  by (simp add: byte_def)

lemma field_ascii: "list_all (\<lambda>c. byte c < 128) (field_name f)"
  by (cases f) (simp_all add: byte_def)

lemma fields_all: "f \<in> set event_fields"
  by (cases f) (simp_all add: event_fields_def)

lemma omit_empty_members: "(n, v) \<in> set (omit_empty f s) \<longleftrightarrow> s \<noteq> [] \<and> n = field_name f \<and> v = JText (Some s)"
  by (auto simp: omit_empty_def)

lemma members_utf8:
  assumes "event_utf8 e"
  shows "list_all (\<lambda>(n, v). valid_utf8 n \<and> value_utf8 v) (event_members e)"
proof -
  have "\<exists>f. n = field_name f" if "(n, v) \<in> set (event_members e)" for n v
    using that by (auto simp: event_members_def omit_empty_members simp del: field_name.simps split: if_splits)
  then have "valid_utf8 n" if "(n, v) \<in> set (event_members e)" for n v
    using that field_ascii valid_utf8_ascii by blast
  moreover have "valid_utf8 k \<and> valid_utf8 d" if "(k, d) \<in> set (ev_Details e)" for k d
    using that assms by (fastforce simp: event_utf8_defs list_all_iff)
  then have "value_utf8 v" if "(n, v) \<in> set (event_members e)" for n v
    using that assms
    by (auto simp: event_members_def omit_empty_members value_utf8_def event_utf8_defs list_all_iff split: if_splits)
  ultimately show ?thesis by (auto simp: list_all_iff)
qed

lemma fold_text_ascii: "list_all (\<lambda>c. byte c < 128) s \<Longrightarrow> fold_text s = map (fold_rune \<circ> byte) s"
  "list_all (\<lambda>c. byte c < 128) s \<Longrightarrow> lower_text s = map (lower_rune \<circ> byte) s"
  by (simp_all add: fold_text_def lower_text_def runes_segments rune_segments_ascii comp_def)

lemma field_folds_distinct: "distinct (map (fold_text \<circ> field_name) event_fields)" "distinct (map (lower_text \<circ> field_name) event_fields)"
proof -
  have "map (fold_text \<circ> field_name) event_fields = map (map (fold_rune \<circ> byte) \<circ> field_name) event_fields"
    "map (lower_text \<circ> field_name) event_fields = map (map (lower_rune \<circ> byte) \<circ> field_name) event_fields"
    using field_ascii fold_text_ascii by auto
  then show "distinct (map (fold_text \<circ> field_name) event_fields)" "distinct (map (lower_text \<circ> field_name) event_fields)"
    by (simp_all add: event_fields_def byte_def fold_rune_def lower_rune_def)
qed

lemma find_distinct: "distinct (map g xs) \<Longrightarrow> x \<in> set xs \<Longrightarrow> find (\<lambda>y. g y = g x) xs = Some x"
  by (induction xs) (auto simp: rev_image_eqI)

lemma field_found: "find (\<lambda>g. fold_text (field_name g) = fold_text (field_name f)) event_fields = Some f"
  using find_distinct [OF field_folds_distinct(1) fields_all] by simp

lemma members_fields: "subseq (map fst (event_members e)) (map field_name event_fields)"
proof -
  have omit: "subseq (map fst (omit_empty f v)) [field_name f]" for f v by (simp add: omit_empty_def)
  have fields: "map field_name event_fields = map field_name [FID, FTime, FCategory, FAction] @ [field_name FActor] @ [field_name FActorID]
     @ [field_name FTarget] @ [field_name FTargetID] @ [field_name FResult] @ [field_name FRequestID] @ [field_name FRemote]
     @ [field_name FDetails] @ [field_name FPrevious] @ [field_name FIntegrity]"
    by (simp add: event_fields_def)
  show ?thesis
    unfolding event_members_def map_append fields
    by (intro list_emb_append_mono omit) simp_all
qed

lemma members_distinct: "distinct (map (lower_text \<circ> fst) (event_members e))"
proof -
  have "subseq (map lower_text (map fst (event_members e))) (map lower_text (map field_name event_fields))"
    by (rule subseq_map [OF members_fields])
  then have "map (lower_text \<circ> fst) (event_members e) \<in> set (subseqs (map (lower_text \<circ> field_name) event_fields))"
    by (simp add: in_set_subseqs)
  then show ?thesis by (rule subseqs_distinctD [OF _ field_folds_distinct(2)])
qed

text \<open>The text of a field; \<open>set_text\<close> writes it.\<close>

definition get_text :: "event_field \<Rightarrow> audit_event \<Rightarrow> string" where
  "get_text f e = (case f of
       FID \<Rightarrow> ev_ID e
     | FTime \<Rightarrow> ev_Time e
     | FCategory \<Rightarrow> ev_Category e
     | FAction \<Rightarrow> ev_Action e
     | FActor \<Rightarrow> ev_Actor e
     | FActorID \<Rightarrow> ev_ActorID e
     | FTarget \<Rightarrow> ev_Target e
     | FTargetID \<Rightarrow> ev_TargetID e
     | FResult \<Rightarrow> ev_Result e
     | FRequestID \<Rightarrow> ev_RequestID e
     | FRemote \<Rightarrow> ev_Remote e
     | FDetails \<Rightarrow> []
     | FPrevious \<Rightarrow> ev_Previous e
     | FIntegrity \<Rightarrow> ev_Integrity e)"

lemma get_zero: "get_text f zero_event = []"
  by (simp add: get_text_def zero_event_def split: event_field.split)

lemma set_same: "get_text f e = v \<Longrightarrow> set_text f v e = e"
  by (auto simp: get_text_def set_text_def split: event_field.splits)

lemma get_set: "f \<noteq> g \<Longrightarrow> get_text f (set_text g v e) = get_text f e"
  by (cases f; cases g; simp add: get_text_def set_text_def)

lemma details_set: "ev_Details (set_text f v e) = ev_Details e"
  by (simp add: set_text_def split: event_field.split)

lemma get_details: "get_text f (e\<lparr>ev_Details := d\<rparr>) = get_text f e"
  by (simp add: get_text_def split: event_field.split)

text \<open>Storing the members one after another.\<close>

lemma store_text: "f \<noteq> FDetails \<Longrightarrow> store_members ((field_name f, JText (Some v)) # ms) e = store_members ms (set_text f v e)"
  using field_found [of f] by (simp add: store_member_def)

lemma store_omitted:
  assumes "f \<noteq> FDetails" "get_text f e = []"
  shows "store_members (omit_empty f v @ ms) e = store_members ms (set_text f v e)"
  using assms store_text set_same [of f e "[]"] by (simp add: omit_empty_def)

lemma details_put_last: "list_all (\<lambda>(k', _). k' < k) m \<Longrightarrow> details_put k v m = m @ [(k, v)]"
  by (induction m) auto

lemma details_stored:
  assumes "details_wf (m @ ds)"
  shows "fold (\<lambda>(k, t). details_put k (case t of None \<Rightarrow> [] | Some s \<Rightarrow> s)) (map (\<lambda>(k, v). (k, Some v)) ds) m = m @ ds"
  using assms
proof (induction ds arbitrary: m)
  case Nil
  then show ?case by simp
next
  case (Cons d ds)
  obtain k v where d: "d = (k, v)" by (cases d)
  have "list_all (\<lambda>(k', _). k' < k) m" using Cons.prems by (auto simp: d details_wf_def sorted_wrt_append list_all_iff)
  then show ?case using Cons.IH [of "m @ [d]"] Cons.prems by (simp add: d details_put_last)
qed

lemma store_details:
  assumes "details_wf ds" "ev_Details e = []"
  shows "store_members ((if ds = [] then [] else [(field_name FDetails, JObject (map (\<lambda>(k, v). (k, Some v)) ds))]) @ ms) e
    = store_members ms (e\<lparr>ev_Details := ds\<rparr>)"
proof -
  have e: "e\<lparr>ev_Details := []\<rparr> = e" using assms(2) by (cases e) simp
  show ?thesis
  proof (cases "ds = []")
    case True
    show ?thesis unfolding True e by simp
  next
    case False
    then show ?thesis using assms details_stored [of "[]" ds] field_found [of FDetails]
      by (simp add: store_member_def)
  qed
qed

text \<open>Reading the members into an empty event gives the event.\<close>

lemma store_event_members:
  assumes "details_wf (ev_Details e)"
  shows "store_members (event_members e) zero_event = Some e"
proof -
  have zero: "ev_Details zero_event = []" by (simp add: zero_event_def)
  have last: "store_members (omit_empty FIntegrity v) z = Some (set_text FIntegrity v z)" if "get_text FIntegrity z = []" for v z
    using store_omitted [of FIntegrity z v "[]"] that by simp
  let ?z = "set_text FRemote (ev_Remote e) (set_text FRequestID (ev_RequestID e) (set_text FResult (ev_Result e)
    (set_text FTargetID (ev_TargetID e) (set_text FTarget (ev_Target e) (set_text FActorID (ev_ActorID e)
    (set_text FActor (ev_Actor e) (set_text FAction (ev_Action e) (set_text FCategory (ev_Category e)
    (set_text FTime (ev_Time e) (set_text FID (ev_ID e) zero_event))))))))))"
  have "store_members (event_members e) zero_event =
      Some (set_text FIntegrity (ev_Integrity e) (set_text FPrevious (ev_Previous e) (?z\<lparr>ev_Details := ev_Details e\<rparr>)))"
    unfolding event_members_def append_Cons append_Nil
    by (simp add: store_text store_omitted store_details [OF assms] last get_set get_zero get_details details_set zero
        del: store_members.simps field_name.simps)
  also have "\<dots> = Some e" by (cases e) (simp add: set_text_def zero_event_def)
  finally show ?thesis .
qed

theorem decode_event_marshal:
  assumes "event_utf8 e" "details_wf (ev_Details e)"
  shows "decodeStrictJSON (marshal e) = Some e"
proof -
  have "distinct (map fst (ev_Details e))"
    using assms(2) by (auto simp: details_wf_def strict_sorted_iff)
  then have "\<not> rejectDuplicateJSONFields (event_members e)"
    using members_distinct [of e]
    by (auto simp: rejectDuplicateJSONFields_def list_ex_iff event_members_def omit_empty_members comp_def case_prod_beta'
        simp del: field_name.simps distinct.simps split: if_splits)
  then show ?thesis
    using read_members_back [OF members_utf8 [OF assms(1)]] store_event_members [OF assms(2)]
    by (simp add: decodeStrictJSON_def marshal_def)
qed

section \<open>What is read is valid\<close>

lemma read_members_values:
  assumes "\<And>s v t. rd s = Some (v, t) \<Longrightarrow> P v"
  shows "read_members n rd s = Some (ms, t) \<Longrightarrow> list_all (\<lambda>(k, v). valid_utf8 k \<and> P v) ms"
proof (induction n arbitrary: s ms t)
  case (Suc n)
  then show ?case using assms
    by (auto split: list.splits option.splits if_splits) (erule read_string_valid)+
qed simp

lemma read_object_values:
  assumes "\<And>s v t. rd s = Some (v, t) \<Longrightarrow> P v" "read_object rd s = Some (ms, t)"
  shows "list_all (\<lambda>(k, v). valid_utf8 k \<and> P v) ms"
  using assms read_members_values [of rd P] by (auto simp: read_object_def split: if_splits)

definition text_utf8 :: "string option \<Rightarrow> bool" where
  "text_utf8 t \<longleftrightarrow> (case t of None \<Rightarrow> True | Some s \<Rightarrow> valid_utf8 s)"

definition read_utf8 :: "json_value \<Rightarrow> bool" where
  "read_utf8 v \<longleftrightarrow> (case v of JText t \<Rightarrow> text_utf8 t | JObject ms \<Rightarrow> list_all (\<lambda>(k, t). valid_utf8 k \<and> text_utf8 t) ms)"

lemma read_text_utf8: "read_text s = Some (v, t) \<Longrightarrow> text_utf8 v"
  by (auto simp: read_text_def text_utf8_def dest: read_string_valid split: if_splits)

lemma read_value_utf8: "read_value s = Some (v, t) \<Longrightarrow> read_utf8 v"
  using read_object_values [of read_text text_utf8] read_text_utf8
  by (fastforce simp: read_value_def read_utf8_def split: if_splits)

lemma document_cases:
  "(if A then (case r of None \<Rightarrow> None | Some (ms, u) \<Rightarrow> if B u then Some ms else None) else if C then Some [] else None) = Some ms
    \<Longrightarrow> ms = [] \<or> (\<exists>t. r = Some (ms, t))"
  by (auto split: if_split_asm option.split_asm prod.split_asm)

lemma read_document_cases: "read_document s = Some ms \<Longrightarrow> ms = [] \<or> (\<exists>t. read_object read_value (drop 1 (skip_space s)) = Some (ms, t))"
  unfolding read_document_def Let_def by (erule document_cases)

lemma read_document_utf8: "read_document s = Some ms \<Longrightarrow> list_all (\<lambda>(k, v). valid_utf8 k \<and> read_utf8 v) ms"
  using read_document_cases read_object_values [OF read_value_utf8] by fastforce

lemma details_put_set: "set (details_put k v m) \<subseteq> insert (k, v) (set m)"
  by (induction k v m rule: details_put.induct) auto

lemma details_put_wf: "details_wf m \<Longrightarrow> details_wf (details_put k v m)"
proof (induction m)
  case (Cons d m)
  obtain k' v' where d: "d = (k', v')" by (cases d)
  have "details_wf m" using Cons.prems by (simp add: details_wf_def)
  then have w: "details_wf (details_put k v m)" by (rule Cons.IH)
  have above: "x \<in> set m \<Longrightarrow> k' < fst x" for x using Cons.prems by (auto simp: d details_wf_def)
  show ?case
  proof (cases "k = k' \<or> k < k'")
    case True
    moreover have "k < k' \<Longrightarrow> x \<in> set m \<Longrightarrow> k < fst x" for x using above [of x] by simp
    ultimately show ?thesis using Cons.prems above by (auto simp: d details_wf_def)
  next
    case False
    then have "k' < k" by (meson linorder_less_linear)
    then have "k' < fst x" if "x \<in> set (details_put k v m)" for x
      using that details_put_set [of k v m] above by (cases x) auto
    then show ?thesis using False w by (auto simp: d details_wf_def)
  qed
qed (simp add: details_wf_def)

lemma details_put_utf8:
  "valid_utf8 k \<Longrightarrow> valid_utf8 v \<Longrightarrow> list_all (\<lambda>(k, v). valid_utf8 k \<and> valid_utf8 v) m
    \<Longrightarrow> list_all (\<lambda>(k, v). valid_utf8 k \<and> valid_utf8 v) (details_put k v m)"
  using details_put_set [of k v m] by (auto simp: list_all_iff)

lemma event_utf8_alt:
  "event_utf8 e \<longleftrightarrow> list_all (\<lambda>f. valid_utf8 (get_text f e)) event_fields \<and> list_all (\<lambda>(k, v). valid_utf8 k \<and> valid_utf8 v) (ev_Details e)"
  by (auto simp: event_utf8_defs event_fields_def get_text_def list_all_iff)

lemma get_set_same: "f \<noteq> FDetails \<Longrightarrow> get_text f (set_text f v e) = v"
  by (cases f) (simp_all add: get_text_def set_text_def)

lemma set_text_utf8: "event_utf8 e \<Longrightarrow> valid_utf8 s \<Longrightarrow> event_utf8 (set_text f s e)"
proof -
  assume e: "event_utf8 e" "valid_utf8 s"
  have "valid_utf8 (get_text g (set_text f s e))" for g
  proof (cases "g = f")
    case True
    then show ?thesis using e by (cases "f = FDetails") (simp add: get_text_def, simp add: get_set_same)
  next
    case False
    then show ?thesis using e fields_all by (simp add: get_set event_utf8_alt list_all_iff)
  qed
  then show ?thesis using e by (simp add: event_utf8_alt list_all_iff details_set)
qed

lemma store_member_utf8:
  assumes "store_member f v e = Some e'" "read_utf8 v" "event_utf8 e" "details_wf (ev_Details e)"
  shows "event_utf8 e' \<and> details_wf (ev_Details e')"
proof -
  note value_cases = json_value.splits option.splits
  have put: "list_all (\<lambda>(k, v). valid_utf8 k \<and> valid_utf8 v) (fold (\<lambda>(k, t). details_put k (case t of None \<Rightarrow> [] | Some s \<Rightarrow> s)) ds m)
      \<and> details_wf (fold (\<lambda>(k, t). details_put k (case t of None \<Rightarrow> [] | Some s \<Rightarrow> s)) ds m)"
    if "list_all (\<lambda>(k, t). valid_utf8 k \<and> text_utf8 t) ds" "list_all (\<lambda>(k, v). valid_utf8 k \<and> valid_utf8 v) m" "details_wf m" for ds m
    using that
  proof (induction ds arbitrary: m)
    case (Cons d ds)
    obtain k t where d: "d = (k, t)" by (cases d)
    define s where "s = (case t of None \<Rightarrow> [] | Some s \<Rightarrow> s)"
    have s: "valid_utf8 k" "valid_utf8 s" using Cons.prems(1) by (auto simp: d s_def text_utf8_def split: option.splits)
    have "list_all (\<lambda>(k, t). valid_utf8 k \<and> text_utf8 t) ds" using Cons.prems(1) by simp
    from Cons.IH [OF this details_put_utf8 [OF s Cons.prems(2)] details_put_wf [OF Cons.prems(3)]]
    show ?case by (simp add: d s_def)
  qed simp
  show ?thesis
  proof (cases "f = FDetails")
    case True
    have texts: "list_all (\<lambda>f. valid_utf8 (get_text f (e\<lparr>ev_Details := d\<rparr>))) event_fields" for d
      using assms(3) by (simp add: event_utf8_alt get_details)
    have "details_wf []" by (simp add: details_wf_def)
    then show ?thesis
      using assms texts put [of _ "ev_Details e"]
      by (auto simp: True store_member_def read_utf8_def event_utf8_alt split: json_value.splits option.splits)
  next
    case False
    then show ?thesis using assms set_text_utf8
      by (auto simp: store_member_def read_utf8_def text_utf8_def details_set split: json_value.splits option.splits)
  qed
qed

theorem decode_event_utf8:
  assumes "decodeStrictJSON line = Some e"
  shows "event_utf8 e \<and> details_wf (ev_Details e)"
proof -
  have "store_members ms z = Some e' \<Longrightarrow> list_all (\<lambda>(k, v). valid_utf8 k \<and> read_utf8 v) ms \<Longrightarrow> event_utf8 z \<Longrightarrow> details_wf (ev_Details z)
      \<Longrightarrow> event_utf8 e' \<and> details_wf (ev_Details e')" for ms z e'
  proof (induction ms z rule: store_members.induct)
    case (2 name v ms z)
    then show ?case using store_member_utf8 by (fastforce split: option.splits)
  qed simp
  moreover have "event_utf8 zero_event" "details_wf (ev_Details zero_event)"
    by (simp_all add: zero_event_def event_utf8_defs details_wf_def)
  ultimately show ?thesis using assms read_document_utf8
    by (fastforce simp: decodeStrictJSON_def split: option.splits if_splits)
qed

section \<open>Bounded events are valid UTF-8\<close>

text \<open>A valid string is a sequence of encoded runes.\<close>

definition encoded :: "nat list \<Rightarrow> string" where
  "encoded rs = concat (map utf8 rs)"

lemma encoded_valid: "list_all is_rune rs \<Longrightarrow> valid_utf8 (encoded rs)"
  by (induction rs) (simp_all add: encoded_def valid_utf8_cons)

lemma good_segment:
  assumes "r = decode_rune (map byte (c # s))" "\<not> bad_segment (fst r, take (snd r) (c # s))"
  shows "\<exists>q. is_rune q \<and> take (snd r) (c # s) = utf8 q"
  using segment_text_rune [OF assms(1)] assms(2) by (simp add: segment_text_def)

lemma replace_invalid_encoded: "\<exists>rs. list_all is_rune rs \<and> replace_invalid bad (rune_segments s) = encoded rs"
proof (induction s arbitrary: bad rule: rune_segments.induct)
  case 1
  show ?case by (intro exI [of _ "[]"]) (simp add: encoded_def)
next
  case (2 c s)
  define r where "r = decode_rune (map byte (c # s))"
  define g where "g = (fst r, take (snd r) (c # s))"
  have s: "rune_segments (c # s) = g # rune_segments (drop (snd r - 1) s)" by (simp add: r_def g_def Let_def)
  have IH: "\<exists>rs. list_all is_rune rs \<and> replace_invalid b (rune_segments (drop (snd r - 1) s)) = encoded rs" for b
    using 2 [OF refl, of b] by (simp add: r_def)
  show ?case
  proof (cases "bad_segment g")
    case True
    obtain rs where rs: "list_all is_rune rs" "replace_invalid True (rune_segments (drop (snd r - 1) s)) = encoded rs" using IH by blast
    have "is_rune 0xFFFD" by (simp add: is_rune_def)
    then have "list_all is_rune (0xFFFD # rs)" using rs by simp
    moreover have "encoded (0xFFFD # rs) = utf8 0xFFFD @ encoded rs" by (simp add: encoded_def)
    moreover have "replace_invalid bad (g # rune_segments (drop (snd r - 1) s)) = (if bad then encoded rs else utf8 0xFFFD @ encoded rs)"
      using True rs(2) by (simp only: replace_invalid.simps if_True split: if_split) simp
    ultimately show ?thesis unfolding s using rs(1) by (cases bad) metis+
  next
    case False
    obtain q where q: "is_rune q" "snd g = utf8 q" using good_segment [OF r_def] False by (auto simp: g_def)
    obtain rs where rs: "list_all is_rune rs" "replace_invalid False (rune_segments (drop (snd r - 1) s)) = encoded rs" using IH by blast
    have "list_all is_rune (q # rs)" "encoded (q # rs) = utf8 q @ encoded rs" using q rs by (simp_all add: encoded_def)
    then show ?thesis unfolding s using False q rs by (metis replace_invalid.simps(2))
  qed
qed

lemma utf8_bytes_cont:
  assumes "is_rune r" "0 < k" "k < length (utf8 r)"
  shows "is_cont (byte (utf8 r ! k))"
proof -
  have "utf8_bytes r ! k < 256"
    using assms utf8_bytes_less [of r] nth_mem [of k "utf8_bytes r"] by (simp add: utf8_def is_rune_def)
  then have b: "byte (utf8 r ! k) = utf8_bytes r ! k" using assms by (simp add: utf8_def)
  have "0x80 + x mod 64 \<le> 0xBF" for x :: nat using mod_less_divisor [of 64 x] by linarith
  then have "is_cont (0x80 + x mod 64)" for x :: nat by (simp add: is_cont_def)
  moreover have "k = 1 \<or> k = 2 \<or> k = 3" using assms by (auto simp: utf8_def utf8_bytes_def split: if_splits)
  ultimately show ?thesis
    using assms(3) unfolding b by (elim disjE) (auto simp: utf8_def utf8_bytes_def split: if_splits)
qed

lemma take_encoded:
  assumes "list_all is_rune rs" "k < length (encoded rs)" "k = 0 \<or> \<not> is_cont (byte (encoded rs ! k))"
  shows "valid_utf8 (take k (encoded rs))"
  using assms
proof (induction rs arbitrary: k)
  case (Cons r rs)
  have e: "encoded (r # rs) = utf8 r @ encoded rs" by (simp add: encoded_def)
  show ?case
  proof (cases "k = 0")
    case False
    have k: "length (utf8 r) \<le> k"
    proof (rule ccontr)
      assume "\<not> length (utf8 r) \<le> k"
      then show False using False Cons.prems utf8_bytes_cont [of r k] by (simp add: e nth_append)
    qed
    have "k - length (utf8 r) < length (encoded rs)" "\<not> is_cont (byte (encoded rs ! (k - length (utf8 r))))" "list_all is_rune rs"
      using False k Cons.prems by (auto simp: e nth_append)
    then have "valid_utf8 (take (k - length (utf8 r)) (encoded rs))" using Cons.IH by blast
    then show ?thesis using k Cons.prems by (simp add: e valid_utf8_cons)
  qed simp
qed (simp add: encoded_def)

lemma rune_cut_start: "rune_cut s n \<le> n \<and> (rune_cut s n = 0 \<or> \<not> is_cont (byte (s ! rune_cut s n)))"
  by (induction s n rule: rune_cut.induct) auto

lemma boundedText_valid: "valid_utf8 (boundedText s n)"
proof -
  obtain rs where rs: "list_all is_rune rs" "to_valid_utf8 (replace_nul s) = encoded rs"
    using replace_invalid_encoded by (auto simp: to_valid_utf8_def)
  show ?thesis
    using rs encoded_valid take_encoded [OF rs(1), of "rune_cut (encoded rs) n"] rune_cut_start [of "encoded rs" n]
    by (auto simp: boundedText_def Let_def)
qed

lemma boundedText_length: "length (boundedText s n) \<le> n"
  using rune_cut_start [of "to_valid_utf8 (replace_nul s)" n] by (auto simp: boundedText_def Let_def)

lemma boundedEventText_utf8:
  assumes "labels_utf8 e" "ev_Previous e = []" "ev_Integrity e = []"
  shows "event_utf8 (boundedEventText e n)"
  using assms boundedText_valid by (auto simp: event_utf8_defs boundedEventText_def list_all_iff)

theorem bounded_utf8: "labels_utf8 e \<Longrightarrow> ev_Previous e = [] \<Longrightarrow> ev_Integrity e = [] \<Longrightarrow> event_utf8 (boundedEvent e)"
  using boundedEventText_utf8 by (simp add: boundedEvent_def)

lemma bounded_wf: "details_wf (ev_Details e) \<Longrightarrow> details_wf (ev_Details (boundedEvent e))"
  by (simp add: boundedEvent_def boundedEventText_def details_wf_def comp_def case_prod_beta')

lemma bounded_unsigned: "ev_Previous (boundedEvent e) = ev_Previous e" "ev_Integrity (boundedEvent e) = ev_Integrity e"
  by (simp_all add: boundedEvent_def boundedEventText_def)

end
