(* ===== verification/Journal.thy ===== *)
theory Journal
  imports JournalFlood Storage
begin

text \<open>
  The activity journal: packages/auditjournal/journal.go, compaction.go, load.go and the append of storage.go.  Every event
  is a line of JSON that is signed together with the signature of the line before, so that the file is a chain; when the file
  or its oldest event gets too old or too big the events still wanted are signed again from the start.

  A state is the journal in memory and the two files, \<open>audit.jsonl\<close> and \<open>audit_key.json\<close>, \<open>None\<close> where there is no
  file.  What the system calls give is an input of each operation, and an operation that reports a failure need not leave
  the file as it was: \<open>privatefile.Write\<close> can fail after it has replaced the file (\<open>write_outcome\<close> in \<open>Storage\<close>), and an
  append that fails is rolled back (\<open>appendJournalLineWithClose\<close>) by calls that can fail too, so that a part of the line,
  or all of it, stays in the file (\<open>append_outcome\<close>); so it does when the server crashes during the append.  Notifications
  are not modelled.
\<close>

section \<open>State\<close>

definition maxAuditJournalBytes :: nat where "maxAuditJournalBytes = 67108864"
definition maxAuditKeyBytes :: nat where "maxAuditKeyBytes = 4096"
definition maxDataDirBytes :: nat where "maxDataDirBytes = 4096"
definition defaultAuditRetention :: duration where "defaultAuditRetention = 31536000000000000"
definition defaultPlaybackRetention :: duration where "defaultPlaybackRetention = 7776000000000000"
definition maxActivityEvents :: nat where "maxActivityEvents = 25000"
definition compactedActivityEvents :: nat where "compactedActivityEvents = 22500"
definition compactedJournalBytes :: nat where "compactedJournalBytes = maxAuditJournalBytes - 8388608"
definition retentionCompactionInterval :: duration where "retentionCompactionInterval = hour"

record event_meta =
  em_created :: instant
  em_size :: nat

record journal =
  jn_file :: string
  jn_events :: "audit_event list"
  jn_meta :: "event_meta list"
  jn_bytes :: nat
  jn_nextExpiry :: instant
  jn_compacted :: instant
  jn_flood :: flood_guard
  jn_auditRetention :: duration
  jn_playbackRetention :: duration
  jn_writeFailures :: nat
  jn_key :: string
  jn_writable :: bool

definition newline :: char where "newline = CHR 0x0A"

section \<open>Hexadecimal text\<close>

definition hex_encode :: "string \<Rightarrow> string" where
  "hex_encode s = concat (map (\<lambda>c. [digit_char (byte c div 16), digit_char (byte c mod 16)]) s)"

fun hex_decode :: "string \<Rightarrow> string option" where
  "hex_decode [] = Some []"
| "hex_decode [c] = None"
| "hex_decode (c # d # s) = (case (hex_digit c, hex_digit d) of
     (Some h, Some l) \<Rightarrow> map_option ((#) (char_of (h * 16 + l))) (hex_decode s)
   | _ \<Rightarrow> None)"

section \<open>Signing\<close>

definition integrity_open :: string where
  "integrity_open = CHR '','' # quote # ''integrity'' @ [quote, CHR '':'', quote]"

definition signedLineOverhead :: nat where
  "signedLineOverhead = (length integrity_open + 1) + 2 * 32 + 1"

text \<open>The event with its signature, and its line unless it is too long.\<close>

definition signedLine :: "journal_env \<Rightarrow> string \<Rightarrow> audit_event \<Rightarrow> audit_event \<times> string option" where
  "signedLine E key e = (let e0 = e\<lparr>ev_Integrity := []\<rparr>; data = marshal e0 in
     if length data < 2 then (e0, None)
     else if key = [] then (e0, if length data \<le> maxAuditEventBytes then Some data else None)
     else if length data > maxAuditEventBytes - signedLineOverhead then (e0, None)
     else let tag = hex_encode (env_hmac E key data)
          in (e0\<lparr>ev_Integrity := tag\<rparr>, Some (butlast data @ integrity_open @ tag @ [quote, CHR ''}''])))"

definition sign :: "journal_env \<Rightarrow> string \<Rightarrow> audit_event \<Rightarrow> string" where
  "sign E key e = ev_Integrity (fst (signedLine E key e))"

section \<open>Expiry and compaction\<close>

definition expiry :: "journal \<Rightarrow> string \<Rightarrow> instant \<Rightarrow> instant" where
  "expiry J category created = (if category = ''playback'' then created + jn_playbackRetention J else created + jn_auditRetention J)"

definition earliestExpiry :: "journal \<Rightarrow> instant" where
  "earliestExpiry J = foldl (\<lambda>earliest (e, m). let x = expiry J (ev_Category e) (em_created m) in
     if earliest = 0 \<or> x < earliest then x else earliest) 0 (zip (jn_events J) (jn_meta J))"

definition compactionDue :: "journal \<Rightarrow> nat \<Rightarrow> instant \<Rightarrow> bool" where
  "compactionDue J bytes now \<longleftrightarrow>
     length (jn_events J) \<ge> maxActivityEvents \<or> jn_bytes J + bytes > maxAuditJournalBytes
     \<or> jn_nextExpiry J \<noteq> 0 \<and> now > jn_nextExpiry J \<and> time_sub now (jn_compacted J) \<ge> retentionCompactionInterval"

text \<open>The loop that drops the oldest events while they are too big together, but not the newest one.\<close>

fun shed_oldest :: "nat \<Rightarrow> (audit_event \<times> event_meta) list \<Rightarrow> (audit_event \<times> event_meta) list" where
  "shed_oldest bytes (x # y # ys) =
     (if bytes > compactedJournalBytes then shed_oldest (bytes - em_size (snd x)) (y # ys) else x # y # ys)"
| "shed_oldest bytes xs = xs"

definition retained :: "journal \<Rightarrow> audit_event list \<Rightarrow> event_meta list \<Rightarrow> instant \<Rightarrow> audit_event list \<times> event_meta list" where
  "retained J events metas now =
     (let kept = filter (\<lambda>(e, m). \<not> now > expiry J (ev_Category e) (em_created m)) (zip events metas);
          recent = (if length kept > maxActivityEvents then drop (length kept - compactedActivityEvents) kept else kept);
          bytes = sum_list (map (em_size \<circ> snd) recent);
          final = (if bytes > maxAuditJournalBytes then shed_oldest bytes recent else recent)
      in (map fst final, map snd final))"

definition journalLineFits :: "nat \<Rightarrow> nat \<Rightarrow> bool" where
  "journalLineFits bytes line \<longleftrightarrow> bytes + line + 1 \<le> maxAuditJournalBytes"

text \<open>
  The chain is signed in place: the events as they are left, the lines written, and whether all of them were.
\<close>

fun encode_loop :: "journal_env \<Rightarrow> string \<Rightarrow> string \<Rightarrow> nat \<Rightarrow> audit_event list \<Rightarrow> audit_event list \<times> string list \<times> bool" where
  "encode_loop E key previous bytes [] = ([], [], True)"
| "encode_loop E key previous bytes (e # es) = (let e1 = e\<lparr>ev_Previous := previous\<rparr> in
     case signedLine E key e1 of
       (_, None) \<Rightarrow> (e1 # es, [], False)
     | (e2, Some line) \<Rightarrow>
         if \<not> journalLineFits bytes (length line) then (e2 # es, [], False)
         else (case encode_loop E key (ev_Integrity e2) (bytes + length line + 1) es of
                 (es', ls, whole) \<Rightarrow> (e2 # es', line # ls, whole)))"

definition file_text :: "string list \<Rightarrow> string" where
  "file_text ls = concat (map (\<lambda>l. l @ [newline]) ls)"

definition encodeChain :: "journal_env \<Rightarrow> string \<Rightarrow> audit_event list \<Rightarrow> event_meta list \<Rightarrow> audit_event list \<times> event_meta list \<times> string option" where
  "encodeChain E key events metas = (case encode_loop E key [] 0 events of (es, ls, whole) \<Rightarrow>
     (es, map (\<lambda>(m, l). m\<lparr>em_size := length l + 1\<rparr>) (zip metas ls) @ drop (length ls) metas,
      if whole then Some (file_text ls) else None))"

section \<open>Writing an event\<close>

definition content :: "string option \<Rightarrow> string" where
  "content f = (case f of None \<Rightarrow> [] | Some s \<Rightarrow> s)"

text \<open>
  How an append ends: the line is written and synced and the file is closed; or a call fails and the file is truncated to the
  size it had (or removed when it is new); or the roll-back fails too, and the first \<open>n\<close> bytes of the line stay.
\<close>

datatype append_outcome = Appended | RolledBack | LeftBehind nat

text \<open>The new file, and whether the append reports success.\<close>

definition appendAuditLine :: "append_outcome \<Rightarrow> string \<Rightarrow> string option \<Rightarrow> string option \<times> bool" where
  "appendAuditLine ao line file =
     (if length line > maxAuditEventBytes \<or> length (content file) + (length line + 1) > maxAuditJournalBytes then (file, False)
      else case ao of
        Appended \<Rightarrow> (Some (content file @ line @ [newline]), True)
      | RolledBack \<Rightarrow> (file, False)
      | LeftBehind n \<Rightarrow> (Some (content file @ take n (line @ [newline])), False))"

definition journal_compact :: "journal_env \<Rightarrow> write_outcome \<Rightarrow> journal \<Rightarrow> string option \<Rightarrow> audit_event \<Rightarrow> event_meta \<Rightarrow> instant
    \<Rightarrow> journal \<times> string option \<times> audit_event option" where
  "journal_compact E wo J file e entry now =
     (case retained J (jn_events J @ [e]) (jn_meta J @ [entry]) now of (events, metas) \<Rightarrow>
      (case encodeChain E (jn_key J) events metas of
         (_, _, None) \<Rightarrow> (J, file, None)
       | (events', metas', Some data) \<Rightarrow>
           (case (if jn_file J \<noteq> [] then file_write wo (Some data) file else (file, True)) of (file', written) \<Rightarrow>
              if \<not> written then (J, file', None)
              else let J1 = J\<lparr>jn_events := events', jn_meta := metas', jn_bytes := length data, jn_compacted := now\<rparr>
                   in (J1\<lparr>jn_nextExpiry := earliestExpiry J1\<rparr>, file', Some (last events')))))"

text \<open>The event chained to the last one, and signed.\<close>

definition chain_event :: "journal \<Rightarrow> audit_event \<Rightarrow> audit_event" where
  "chain_event J e = (if jn_events J \<noteq> [] then e\<lparr>ev_Previous := ev_Integrity (last (jn_events J))\<rparr> else e)"

definition journal_persist :: "journal_env \<Rightarrow> append_outcome \<Rightarrow> write_outcome \<Rightarrow> journal \<Rightarrow> string option \<Rightarrow> audit_event \<Rightarrow> instant \<Rightarrow> instant
    \<Rightarrow> journal \<times> string option \<times> audit_event option" where
  "journal_persist E ao wo J file e created now =
     (case signedLine E (jn_key J) (chain_event J e) of
        (_, None) \<Rightarrow> (J, file, None)
      | (e2, Some line) \<Rightarrow>
          if now > expiry J (ev_Category e2) created then (J, file, Some e2)
          else let entry = \<lparr>em_created = created, em_size = length line + 1\<rparr> in
            if compactionDue J (em_size entry) now then journal_compact E wo J file e2 entry now
            else (case (if jn_file J \<noteq> [] then appendAuditLine ao line file else (file, True)) of (file', appended) \<Rightarrow>
              let x = expiry J (ev_Category e2) created in
              if \<not> appended then (J, file', None)
              else (J\<lparr>jn_events := jn_events J @ [e2], jn_meta := jn_meta J @ [entry], jn_bytes := jn_bytes J + em_size entry,
                       jn_nextExpiry := (if jn_nextExpiry J = 0 \<or> x < jn_nextExpiry J then x else jn_nextExpiry J)\<rparr>,
                    file', Some e2)))"

text \<open>Events let in by the flood guard, with the instants they stand for.\<close>

type_synonym admitted_event = "audit_event \<times> instant"

definition summarizedEvents :: "journal_env \<Rightarrow> audit_event list \<Rightarrow> instant \<Rightarrow> admitted_event list" where
  "summarizedEvents E summaries created = map (\<lambda>s. (s, created)) (filter (\<lambda>s. validEvent E s False) summaries)"

definition failLocked :: "journal \<Rightarrow> journal" where
  "failLocked J = J\<lparr>jn_writeFailures := jn_writeFailures J + 1\<rparr>"

definition details_del :: "string \<Rightarrow> (string \<times> string) list \<Rightarrow> (string \<times> string) list" where
  "details_del k m = filter (\<lambda>(k', _). k' \<noteq> k) m"

definition journal_admit :: "journal_env \<Rightarrow> (nat \<Rightarrow> string) \<Rightarrow> journal \<Rightarrow> audit_event \<Rightarrow> journal \<times> admitted_event list" where
  "journal_admit E ids J e =
     (if \<not> jn_writable J \<or> \<not> validEvent E e False then (failLocked J, [])
      else let created = (case env_parse E (ev_Time e) of None \<Rightarrow> 0 | Some t \<Rightarrow> t) in
        case flood_admit E ids e created (jn_flood J) of (g, e1, admitted, summaries) \<Rightarrow>
          let J1 = J\<lparr>jn_flood := g\<rparr>; events = summarizedEvents E summaries created in
          if \<not> admitted then (J1, events)
          else let e2 = (if map_of (ev_Details e1) suppressedDetail \<noteq> None \<and> \<not> validEvent E e1 False
                         then e1\<lparr>ev_Details := details_del suppressedDetail (ev_Details e1)\<rparr> else e1)
               in (J1, events @ [(e2, created)]))"

text \<open>Each event with the instant it is written at and what its write gives; the first failure ends the loop.\<close>

fun journal_store :: "journal_env \<Rightarrow> journal \<Rightarrow> string option \<Rightarrow> (admitted_event \<times> instant \<times> append_outcome \<times> write_outcome) list
    \<Rightarrow> journal \<times> string option" where
  "journal_store E J file [] = (J, file)"
| "journal_store E J file (((e, created), now, ao, wo) # rest) = (case journal_persist E ao wo J file e created now of
     (J1, file1, None) \<Rightarrow> (failLocked J1, file1)
   | (J1, file1, Some _) \<Rightarrow> journal_store E J1 file1 rest)"

definition expiredSecuritySummaries :: "journal_env \<Rightarrow> (nat \<Rightarrow> string) \<Rightarrow> journal \<Rightarrow> instant \<Rightarrow> journal \<times> admitted_event list" where
  "expiredSecuritySummaries E ids J now =
     (if \<not> jn_writable J then (J, [])
      else case flood_sweep E ids now (jn_flood J) of (g, summaries) \<Rightarrow> (J\<lparr>jn_flood := g\<rparr>, summarizedEvents E summaries now))"

section \<open>Loading\<close>

definition validateDataDir :: "string \<Rightarrow> bool" where
  "validateDataDir dir \<longleftrightarrow> \<not> (length dir > maxDataDirBytes \<or> CHR 0x00 \<in> set dir)"

definition validDigest :: "string \<Rightarrow> bool" where
  "validDigest s \<longleftrightarrow> (case hex_decode s of None \<Rightarrow> False | Some d \<Rightarrow> length d = 32)"

definition validSignedEvent :: "journal_env \<Rightarrow> string \<Rightarrow> audit_event \<Rightarrow> string \<Rightarrow> bool" where
  "validSignedEvent E key e previous \<longleftrightarrow>
     length key = 32 \<and> validDigest (ev_Integrity e) \<and> ev_Previous e = previous
     \<and> hex_decode (ev_Integrity e) = hex_decode (sign E key e)"

text \<open>The mode of a file is the empty text, legacy or signed.\<close>

definition validateLegacyEvent :: "audit_event \<Rightarrow> (audit_event \<times> string) option" where
  "validateLegacyEvent e = (if ev_Previous e \<noteq> [] then None else Some (e, ''legacy''))"

definition decodeJournalEvent :: "journal_env \<Rightarrow> string \<Rightarrow> string \<Rightarrow> string \<Rightarrow> (audit_event \<times> string) option" where
  "decodeJournalEvent E key line previous = (case decodeStrictJSON line of
     None \<Rightarrow> None
   | Some e \<Rightarrow>
       if \<not> validEvent E e True then None
       else if ev_Integrity e = [] then validateLegacyEvent e
       else if \<not> validSignedEvent E key e previous then None
       else Some (e, ''signed''))"

definition decodeJournalLine :: "journal_env \<Rightarrow> string \<Rightarrow> string \<Rightarrow> string \<Rightarrow> string \<Rightarrow> nat \<Rightarrow> (audit_event \<times> string) option" where
  "decodeJournalLine E key line previous mode count =
     (if length line > maxAuditEventBytes \<or> count \<ge> maxActivityEvents then None
      else case decodeJournalEvent E key line previous of
        None \<Rightarrow> None
      | Some (e, eventMode) \<Rightarrow> if mode \<noteq> [] \<and> eventMode \<noteq> mode then None else Some (e, eventMode))"

fun decode_loop :: "journal_env \<Rightarrow> string \<Rightarrow> string \<Rightarrow> string \<Rightarrow> audit_event list \<Rightarrow> string list \<Rightarrow> (audit_event list \<times> string) option" where
  "decode_loop E key previous mode events [] = Some (events, mode)"
| "decode_loop E key previous mode events (raw # raws) =
     (if length raw > maxAuditEventBytes then None
      else let line = trim_space raw in
        if line = [] then decode_loop E key previous mode events raws
        else (case decodeJournalLine E key line previous mode (length events) of
            None \<Rightarrow> None
          | Some (e, eventMode) \<Rightarrow> decode_loop E key (ev_Integrity e) eventMode (events @ [e]) raws))"

definition decodeJournal :: "journal_env \<Rightarrow> string \<Rightarrow> string \<Rightarrow> (audit_event list \<times> string) option" where
  "decodeJournal E key data = decode_loop E key [] [] [] (split_on newline data)"

definition event_created :: "journal_env \<Rightarrow> audit_event \<Rightarrow> instant" where
  "event_created E e = (case env_parse E (ev_Time e) of None \<Rightarrow> 0 | Some t \<Rightarrow> t)"

definition journalMeta :: "journal_env \<Rightarrow> audit_event list \<Rightarrow> event_meta list" where
  "journalMeta E events = map (\<lambda>e. \<lparr>em_created = event_created E e, em_size = length (marshal e) + 1\<rparr>) events"

text \<open>
  Reading the journal: whether it is a legacy one, or \<open>None\<close> for an error.  \<open>readable\<close> is the outcome of the read.
\<close>

definition loadJournal :: "journal_env \<Rightarrow> bool \<Rightarrow> journal \<Rightarrow> string option \<Rightarrow> (journal \<times> bool) option" where
  "loadJournal E readable J file = (case file of
     None \<Rightarrow> if readable then Some (J, False) else None
   | Some data \<Rightarrow>
       if \<not> readable \<or> length data > maxAuditJournalBytes then None
       else (case decodeJournal E (jn_key J) data of None \<Rightarrow> None
         | Some (events, mode) \<Rightarrow>
             Some (J\<lparr>jn_events := events, jn_meta := journalMeta E events, jn_bytes := length data\<rparr>, mode = ''legacy'')))"

text \<open>The key in its file: \<open>None\<close> is an error, \<open>Some None\<close> no file.\<close>

fun store_key :: "(string \<times> json_value) list \<Rightarrow> string \<Rightarrow> string option" where
  "store_key [] key = Some key"
| "store_key ((name, v) # ms) key =
     (if fold_text name \<noteq> fold_text ''key'' then None
      else (case v of JText None \<Rightarrow> store_key ms key | JText (Some s) \<Rightarrow> store_key ms s | JObject _ \<Rightarrow> None))"

definition readAuditKey :: "bool \<Rightarrow> string option \<Rightarrow> string option option" where
  "readAuditKey readable keyfile = (case keyfile of
     None \<Rightarrow> if readable then Some None else None
   | Some data \<Rightarrow>
       if \<not> readable \<or> length data > maxAuditKeyBytes then None
       else (case read_document data of None \<Rightarrow> None | Some ms \<Rightarrow>
         if rejectDuplicateJSONFields ms then None
         else (case Option.bind (store_key ms []) hex_decode of None \<Rightarrow> None
           | Some key \<Rightarrow> if length key \<noteq> 32 then None else Some (Some key))))"

definition createAuditKey :: "string \<Rightarrow> string" where
  "createAuditKey key = write_object [(''key'', json_quote (hex_encode key))]"

definition pruneLocked :: "journal \<Rightarrow> instant \<Rightarrow> journal \<times> bool" where
  "pruneLocked J now = (case retained J (jn_events J) (jn_meta J) now of (events, metas) \<Rightarrow>
     (J\<lparr>jn_events := events, jn_meta := metas\<rparr>, length events \<noteq> length (jn_events J)))"

definition rewriteLocked :: "journal_env \<Rightarrow> write_outcome \<Rightarrow> journal \<Rightarrow> string option \<Rightarrow> journal \<times> string option \<times> bool" where
  "rewriteLocked E wo J file =
     (if jn_file J = [] then (J, file, True)
      else case encodeChain E (jn_key J) (jn_events J) (jn_meta J) of (events, metas, out) \<Rightarrow>
        let J1 = J\<lparr>jn_events := events, jn_meta := metas\<rparr> in
        (case out of None \<Rightarrow> (J1, file, False)
         | Some data \<Rightarrow> (case file_write wo (Some data) file of (file', written) \<Rightarrow>
             if written then (J1\<lparr>jn_bytes := length data\<rparr>, file', True) else (J1, file', False))))"

text \<open>
  What the system calls of a start give: the reads of the key and of the journal, the writes of both, and the random key.
\<close>

record start_outcomes =
  so_readKey :: bool
  so_readJournal :: bool
  so_writeKey :: write_outcome
  so_writeJournal :: write_outcome
  so_key :: string

text \<open>The end of \<open>load\<close>, once the journal is read and there is a key.\<close>

definition load_finish :: "journal_env \<Rightarrow> write_outcome \<Rightarrow> instant \<Rightarrow> journal \<Rightarrow> bool \<Rightarrow> string option \<Rightarrow> journal \<times> string option \<times> bool" where
  "load_finish E wo now J legacy file =
     (case (if legacy then (J, False) else pruneLocked J now) of (J1, pruned) \<Rightarrow>
      (case (if legacy \<or> pruned then rewriteLocked E wo J1 file else (J1, file, True)) of (J2, file', written) \<Rightarrow>
         if \<not> written then (J2, file', False)
         else let J3 = J2\<lparr>jn_compacted := now\<rparr>
              in (J3\<lparr>jn_nextExpiry := earliestExpiry J3, jn_writable := True\<rparr>, file', True)))"

text \<open>The journal, its files, and whether \<open>load\<close> succeeded.\<close>

definition journal_load :: "journal_env \<Rightarrow> start_outcomes \<Rightarrow> instant \<Rightarrow> journal \<Rightarrow> string \<Rightarrow> string option \<Rightarrow> string option
    \<Rightarrow> journal \<times> string option \<times> string option \<times> bool" where
  "journal_load E so now J dataDir file keyfile =
     (if \<not> validateDataDir dataDir then (J, file, keyfile, False)
      else if dataDir = [] then (J\<lparr>jn_writable := True\<rparr>, file, keyfile, True)
      else let J1 = J\<lparr>jn_file := dataDir @ ''/audit.jsonl''\<rparr> in
        (case readAuditKey (so_readKey so) keyfile of None \<Rightarrow> (J1, file, keyfile, False)
         | Some found \<Rightarrow>
           let J2 = (case found of None \<Rightarrow> J1 | Some key \<Rightarrow> J1\<lparr>jn_key := key\<rparr>) in
           (case loadJournal E (so_readJournal so) J2 file of None \<Rightarrow> (J2, file, keyfile, False)
            | Some (J3, legacy) \<Rightarrow>
              (case (if found = None then file_write (so_writeKey so) (Some (createAuditKey (so_key so))) keyfile else (keyfile, True)) of
                 (keyfile', written) \<Rightarrow>
                   if \<not> written then (J3, file, keyfile', False)
                   else (case load_finish E (so_writeJournal so) now (if found = None then J3\<lparr>jn_key := so_key so\<rparr> else J3) legacy file of
                      (J4, file', loaded) \<Rightarrow> (J4, file', keyfile', loaded))))))"

definition new_journal :: "duration \<Rightarrow> duration \<Rightarrow> journal" where
  "new_journal auditRetention playbackRetention = \<lparr>jn_file = [], jn_events = [], jn_meta = [], jn_bytes = 0, jn_nextExpiry = 0,
     jn_compacted = 0, jn_flood = zero_guard,
     jn_auditRetention = (if auditRetention \<le> 0 then defaultAuditRetention else auditRetention),
     jn_playbackRetention = (if playbackRetention \<le> 0 then defaultPlaybackRetention else playbackRetention),
     jn_writeFailures = 0, jn_key = [], jn_writable = False\<rparr>"

definition journal_New :: "journal_env \<Rightarrow> start_outcomes \<Rightarrow> instant \<Rightarrow> duration \<Rightarrow> duration \<Rightarrow> string \<Rightarrow> string option \<Rightarrow> string option
    \<Rightarrow> journal \<times> string option \<times> string option" where
  "journal_New E so now auditRetention playbackRetention dataDir file keyfile =
     (case journal_load E so now (new_journal auditRetention playbackRetention) dataDir file keyfile of
        (J, file', keyfile', loaded) \<Rightarrow> (if loaded then J else failLocked J, file', keyfile'))"

section \<open>Reading\<close>

definition journal_Query :: "journal \<Rightarrow> string \<Rightarrow> int \<Rightarrow> audit_event list" where
  "journal_Query J category limit =
     (let n = (if limit < 1 then 1 else if limit > 1000 then 1000 else limit) in
      take (nat n) (filter (\<lambda>e. category = [] \<or> ev_Category e = category) (rev (jn_events J))))"

definition journal_RecentLogs :: "journal \<Rightarrow> audit_event list" where
  "journal_RecentLogs J = take 25 (filter (\<lambda>e. ev_Category e \<noteq> ''playback'') (rev (jn_events J)))"

definition journal_WriteJSONL :: "journal \<Rightarrow> string" where
  "journal_WriteJSONL J = file_text (map marshal (jn_events J))"

datatype tripwire_warning = NoWarning | ProbeDetected | ScannerQuarantined

definition journal_TripwireWarning :: "journal \<Rightarrow> tripwire_warning" where
  "journal_TripwireWarning J = (case find (\<lambda>e. ev_Action e = ''security.tripwire'') (rev (jn_events J)) of
     None \<Rightarrow> NoWarning
   | Some e \<Rightarrow> if map_of (ev_Details e) ''quarantined'' = Some ''true'' then ScannerQuarantined else ProbeDetected)"

end
