(* ===== verification/JournalLaws.thy ===== *)
theory JournalLaws
  imports Journal
begin

text \<open>
  The laws of the activity journal: a signed line is read back and found valid, the lines of a chain are read back as the
  chain, and signing a list of events makes a chain.  A chain is \<open>good_chain\<close>: every event is proper, names the signature of
  the event before it and carries its own.

  The files of a running journal always hold its events (\<open>journal_restart_exact\<close>), and a file the journal accepts is a part of
  what the journal has written before (\<open>journal_tamper_evident\<close>).
\<close>

section \<open>Hexadecimal text\<close>

abbreviation ascii :: "string \<Rightarrow> bool" where
  "ascii s \<equiv> list_all (\<lambda>c. byte c < 128) s"

definition is_hex :: "char \<Rightarrow> bool" where
  "is_hex c \<longleftrightarrow> (\<exists>d < 16. c = digit_char d)"

lemma byte_digit: "d < 16 \<Longrightarrow> byte (digit_char d) = (if d < 10 then 48 + d else 87 + d)"
  by (simp add: digit_char_def)

lemma is_hex_byte: "is_hex c \<Longrightarrow> 48 \<le> byte c \<and> byte c \<le> 57 \<or> 97 \<le> byte c \<and> byte c \<le> 102"
  by (auto simp: is_hex_def byte_digit split: if_splits)

lemma nibbles: "byte c div 16 < 16" "byte c mod 16 < 16"
  using byte_less [of c] by (simp_all add: less_mult_imp_div_less)

lemma hex_encode_hex: "list_all is_hex (hex_encode s)"
proof -
  have "is_hex (digit_char (byte c div 16))" "is_hex (digit_char (byte c mod 16))" for c
    unfolding is_hex_def using nibbles by blast+
  then show ?thesis by (auto simp: hex_encode_def list_all_iff)
qed

lemma hex_ascii: "list_all is_hex s \<Longrightarrow> ascii s"
  using is_hex_byte by (fastforce simp: list_all_iff)

lemma length_hex_encode [simp]: "length (hex_encode s) = 2 * length s"
  by (induction s) (simp_all add: hex_encode_def)

lemma hex_decode_encode [simp]: "hex_decode (hex_encode s) = Some s"
proof (induction s)
  case (Cons c s)
  have "byte c div 16 * 16 + byte c mod 16 = byte c" by simp
  then have "char_of (byte c div 16 * 16 + byte c mod 16) = c" by (simp only: char_of_byte)
  then show ?case using Cons nibbles [of c] by (simp add: hex_encode_def hex_digit_char)
qed (simp add: hex_encode_def)

lemma escaped_plain:
  assumes "list_all (\<lambda>c. 48 \<le> byte c \<and> byte c \<le> 57 \<or> 97 \<le> byte c \<and> byte c \<le> 122) s"
  shows "escaped s = s"
proof -
  have "escape_segment (byte c, [c]) = [c]" if "48 \<le> byte c \<and> byte c \<le> 57 \<or> 97 \<le> byte c \<and> byte c \<le> 122" for c
    using that by (elim disjE) (auto simp: escape_segment_def bad_segment_def Let_def)
  moreover have "ascii s" using assms by (auto simp: list_all_iff)
  ultimately have "map escape_segment (rune_segments s) = map (\<lambda>c. [c]) s"
    using assms by (simp add: rune_segments_ascii list_all_iff)
  then show ?thesis by (simp add: escaped_def)
qed

lemma escaped_hex: "list_all is_hex s \<Longrightarrow> escaped s = s"
  using is_hex_byte by (intro escaped_plain) (fastforce simp: list_all_iff)

section \<open>The signed line\<close>

definition env_ok :: "journal_env \<Rightarrow> bool" where
  "env_ok E \<longleftrightarrow> (\<forall>key data. length (env_hmac E key data) = 32)"

text \<open>What the signature of an event covers.\<close>

definition signed_text :: "audit_event \<Rightarrow> string" where
  "signed_text e = marshal (e\<lparr>ev_Integrity := []\<rparr>)"

definition event_tag :: "journal_env \<Rightarrow> string \<Rightarrow> audit_event \<Rightarrow> string" where
  "event_tag E key e = hex_encode (env_hmac E key (signed_text e))"

lemma event_tag_facts:
  assumes "env_ok E"
  shows "event_tag E key e \<noteq> []" "length (event_tag E key e) = 64" "list_all is_hex (event_tag E key e)"
    "hex_decode (event_tag E key e) = Some (env_hmac E key (signed_text e))" "ascii (event_tag E key e)"
proof -
  have len: "length (event_tag E key e) = 64" using assms by (simp add: event_tag_def env_ok_def)
  then show "event_tag E key e \<noteq> []" "length (event_tag E key e) = 64" by auto
qed (simp_all add: event_tag_def hex_encode_hex hex_ascii)

lemma join_comma_snoc: "xs \<noteq> [] \<Longrightarrow> join_comma (xs @ [x]) = join_comma xs @ CHR '','' # x"
  by (induction xs rule: join_comma.induct) auto

lemma write_object_snoc: "ms \<noteq> [] \<Longrightarrow> write_object (ms @ [m]) = butlast (write_object ms) @ CHR '','' # write_member m @ ''}''"
  by (simp add: write_object_def join_comma_snoc butlast_append)

lemma members_integrity:
  "tag \<noteq> [] \<Longrightarrow> event_members (e\<lparr>ev_Integrity := tag\<rparr>) = event_members (e\<lparr>ev_Integrity := []\<rparr>) @ [(field_name FIntegrity, JText (Some tag))]"
  by (simp add: event_members_def omit_empty_def)

lemma marshal_tag:
  assumes "tag \<noteq> []" "list_all is_hex tag"
  shows "marshal (e\<lparr>ev_Integrity := tag\<rparr>) = butlast (signed_text e) @ integrity_open @ tag @ [quote, CHR ''}'']"
proof -
  have name: "escaped ''integrity'' = ''integrity''" by (rule escaped_plain) (simp add: byte_def)
  have "event_members (e\<lparr>ev_Integrity := []\<rparr>) \<noteq> []" by (simp add: event_members_def)
  then show ?thesis
    unfolding marshal_def signed_text_def members_integrity [OF assms(1)]
    by (simp add: write_object_snoc write_member_def write_value_def json_quote_def escaped_hex [OF assms(2)] name integrity_open_def)
qed

lemma marshal_long: "2 \<le> length (marshal e)"
  by (simp add: marshal_def write_object_def)

lemma signedLine_key:
  assumes "env_ok E" "length key = 32"
  shows "signedLine E key e = (if length (signed_text e) > maxAuditEventBytes - signedLineOverhead then (e\<lparr>ev_Integrity := []\<rparr>, None)
    else (e\<lparr>ev_Integrity := event_tag E key e\<rparr>, Some (marshal (e\<lparr>ev_Integrity := event_tag E key e\<rparr>))))"
proof -
  have "key \<noteq> []" "\<not> length (marshal (e\<lparr>ev_Integrity := []\<rparr>)) < 2" using assms marshal_long [of "e\<lparr>ev_Integrity := []\<rparr>"] by auto
  then show ?thesis
    unfolding marshal_tag [OF event_tag_facts(1,3) [OF assms(1)]]
    by (simp add: signedLine_def Let_def signed_text_def event_tag_def)
qed

lemma overhead: "signedLineOverhead = 80"
  by (simp add: signedLineOverhead_def integrity_open_def)

lemma signed_length:
  assumes "env_ok E" "length key = 32" "signedLine E key e = (e', Some line)"
  shows "length line \<le> maxAuditEventBytes" "line = marshal e'" "e' = e\<lparr>ev_Integrity := event_tag E key e\<rparr>"
proof -
  have "1 \<le> length (signed_text e)" using marshal_long [of "e\<lparr>ev_Integrity := []\<rparr>"] by (simp add: signed_text_def)
  then show "length line \<le> maxAuditEventBytes" "line = marshal e'" "e' = e\<lparr>ev_Integrity := event_tag E key e\<rparr>"
    using assms(3) event_tag_facts(2) [OF assms(1), of key e]
    by (auto simp: signedLine_key [OF assms(1,2)] marshal_tag [OF event_tag_facts(1,3) [OF assms(1)]] overhead integrity_open_def
        maxAuditEventBytes_def split: if_splits)
qed

section \<open>Good events\<close>

definition proper_event :: "journal_env \<Rightarrow> audit_event \<Rightarrow> bool" where
  "proper_event E e \<longleftrightarrow> validCoreFields E e \<and> validOptionalFields e \<and> validDetails (ev_Details e)
     \<and> labels_utf8 e \<and> texts_utf8 e \<and> details_wf (ev_Details e)"

text \<open>Signing changes neither of the fields this reads.\<close>

lemma proper_signed [simp]:
  "proper_event E (e\<lparr>ev_Integrity := t\<rparr>) = proper_event E e" "proper_event E (e\<lparr>ev_Previous := p\<rparr>) = proper_event E e"
  by (simp_all add: proper_event_def validCoreFields_def validOptionalFields_def labels_utf8_def texts_utf8_def)

definition good_event :: "journal_env \<Rightarrow> string \<Rightarrow> string \<Rightarrow> audit_event \<Rightarrow> bool" where
  "good_event E key previous e \<longleftrightarrow> proper_event E e \<and> ev_Previous e = previous \<and> signedLine E key e = (e, Some (marshal e))"

fun good_chain :: "journal_env \<Rightarrow> string \<Rightarrow> string \<Rightarrow> audit_event list \<Rightarrow> bool" where
  "good_chain E key previous [] = True"
| "good_chain E key previous (e # es) \<longleftrightarrow> good_event E key previous e \<and> good_chain E key (ev_Integrity e) es"

lemma good_chain_append:
  "good_chain E key p (xs @ ys) \<longleftrightarrow> good_chain E key p xs \<and> good_chain E key (if xs = [] then p else ev_Integrity (last xs)) ys"
  by (induction xs arbitrary: p) auto

lemma signed_good:
  assumes "env_ok E" "length key = 32" "signedLine E key e = (e', Some line)" "proper_event E e"
  shows "good_event E key (ev_Previous e) e'"
proof -
  have e': "e' = e\<lparr>ev_Integrity := event_tag E key e\<rparr>" by (rule signed_length(3) [OF assms(1-3)])
  have "signed_text e' = signed_text e" by (simp add: e' signed_text_def)
  then have "signedLine E key e' = (e', Some (marshal e'))"
    using assms(3) by (auto simp: signedLine_key [OF assms(1,2)] e' event_tag_def split: if_splits)
  then show ?thesis using assms(4) by (simp add: good_event_def e')
qed

lemma good_event_facts:
  assumes "env_ok E" "length key = 32" "good_event E key p e"
  shows "length (marshal e) \<le> maxAuditEventBytes" "ev_Integrity e = event_tag E key e" "sign E key e = ev_Integrity e"
proof -
  have s: "signedLine E key e = (e, Some (marshal e))" using assms(3) by (simp add: good_event_def)
  show "length (marshal e) \<le> maxAuditEventBytes" using signed_length(1) [OF assms(1,2) s] .
  have "e = e\<lparr>ev_Integrity := event_tag E key e\<rparr>" by (rule signed_length(3) [OF assms(1,2) s])
  then show "ev_Integrity e = event_tag E key e" by (metis audit_event.select_convs(14) audit_event.surjective audit_event.update_convs(14))
  show "sign E key e = ev_Integrity e" by (simp add: sign_def s)
qed

lemma good_event_utf8:
  assumes "env_ok E" "length key = 32" "good_event E key p e" "ascii p"
  shows "event_utf8 e" "details_wf (ev_Details e)"
  using assms good_event_facts(2) [OF assms(1-3)] event_tag_facts(5) [OF assms(1)]
  by (auto simp: event_utf8_def good_event_def proper_event_def intro: valid_utf8_ascii)

lemma decode_good_event:
  assumes "env_ok E" "length key = 32" "good_event E key p e" "ascii p"
  shows "decodeJournalEvent E key (marshal e) p = Some (e, ''signed'')"
proof -
  note f = good_event_facts [OF assms(1-3)]
  have "validEvent E e True" using assms(3) f(1) by (simp add: validEvent_def good_event_def proper_event_def)
  moreover have "ev_Integrity e \<noteq> []" "validSignedEvent E key e p"
    using assms f event_tag_facts [OF assms(1), of key e]
    by (auto simp: validSignedEvent_def validDigest_def good_event_def env_ok_def)
  ultimately show ?thesis
    using decode_event_marshal [OF good_event_utf8 [OF assms]] by (simp add: decodeJournalEvent_def)
qed
section \<open>Lines\<close>

lemma decode_rune_snoc: "bs \<noteq> [] \<Longrightarrow> c < 0x80 \<Longrightarrow> decode_rune (bs @ [c]) = decode_rune bs"
  by (auto simp: decode_rune_def decode2_def decode3_def decode4_def is_cont_def neq_Nil_conv hd_append
      split: list.splits option.splits)

lemma segments_snoc: "byte c < 0x80 \<Longrightarrow> rune_segments (s @ [c]) = rune_segments s @ [(byte c, [c])]"
proof (induction s rule: rune_segments.induct)
  case 1
  then show ?case by (simp add: decode_rune_def)
next
  case (2 d s)
  define r where "r = decode_rune (map byte (d # s))"
  have r: "decode_rune (map byte (d # s @ [c])) = r"
    using decode_rune_snoc [of "map byte (d # s)" "byte c"] 2(2) by (simp add: r_def)
  have w: "snd r \<le> length (d # s)" using decode_rune_bound [of "map byte (d # s)"] by (simp add: r_def)
  then have "rune_segments (drop (snd r - 1) s @ [c]) = rune_segments (drop (snd r - 1) s) @ [(byte c, [c])]"
    using 2(1) [OF refl 2(2)] by (simp add: r_def)
  moreover have "decode_rune (byte d # map byte s) = r" "take (snd r) (d # s @ [c]) = take (snd r) (d # s)"
    using take_append [of "snd r" "d # s" "[c]"] w by (simp_all add: r_def)
  ultimately show ?case using w r by (simp add: Let_def)
qed

lemma trim_marshal: "trim_space (marshal e) = marshal e"
proof (rule trim_space_id)
  obtain m where m: "marshal e = CHR ''{'' # m @ ''}''" by (simp add: marshal_def write_object_def)
  have "rune_segments (CHR ''{'' # m @ ''}'') = rune_segments (CHR ''{'' # m) @ [(byte CHR ''}'', ''}'')]"
    using segments_snoc [of "CHR ''}''" "CHR ''{'' # m"] by (simp add: byte_def)
  moreover have "rune_segments (CHR ''{'' # m) = (123, ''{'') # rune_segments m" by (simp add: decode_rune_def byte_def)
  ultimately show "rune_segments (marshal e) = [] \<or> \<not> is_space (fst (hd (rune_segments (marshal e)))) \<and> \<not> is_space (fst (last (rune_segments (marshal e))))"
    unfolding m by (simp add: is_space_def byte_def)
qed

lemma write_value_visible: "c \<in> set (write_value v) \<Longrightarrow> 0x20 \<le> byte c"
proof (cases v)
  case (JText t)
  assume "c \<in> set (write_value v)"
  then show ?thesis using json_quote_visible by (cases t) (auto simp: JText write_value_def byte_def)
next
  case (JObject ms)
  assume c: "c \<in> set (write_value v)"
  show ?thesis
  proof (rule write_object_visible)
    show "c \<in> set (write_object (map (\<lambda>(k, t). (k, case t of None \<Rightarrow> ''null'' | Some s \<Rightarrow> json_quote s)) ms))"
      using c by (simp add: JObject write_value_def)
  next
    fix name w x
    assume "(name, w) \<in> set (map (\<lambda>(k, t). (k, case t of None \<Rightarrow> ''null'' | Some s \<Rightarrow> json_quote s)) ms)" "x \<in> set w"
    then show "0x20 \<le> byte x" using json_quote_visible by (auto simp: byte_def split: option.splits)
  qed
qed

lemma marshal_no_newline: "newline \<notin> set (marshal e)"
proof
  assume "newline \<in> set (marshal e)"
  then have "0x20 \<le> byte newline"
    unfolding marshal_def by (rule write_object_visible [rotated]) (auto intro: write_value_visible)
  then show False by (simp add: newline_def byte_def)
qed

lemma split_on_line: "c \<notin> set l \<Longrightarrow> split_on c (l @ c # s) = l # split_on c s"
  by (induction l) auto

lemma split_file_text: "list_all (\<lambda>l. newline \<notin> set l) ls \<Longrightarrow> split_on newline (file_text ls) = ls @ [[]]"
  by (induction ls) (auto simp: file_text_def split_on_line)

lemma file_text_append: "file_text (xs @ ys) = file_text xs @ file_text ys"
  by (simp add: file_text_def)

lemma length_file_text: "length (file_text ls) = sum_list (map (\<lambda>l. length l + 1) ls)"
  by (simp add: file_text_def length_concat comp_def)

section \<open>A chain is read back\<close>

definition chain_text :: "audit_event list \<Rightarrow> string" where
  "chain_text es = file_text (map marshal es)"

lemma good_chain_utf8:
  assumes "env_ok E" "length key = 32"
  shows "good_chain E key p es \<Longrightarrow> ascii p \<Longrightarrow> e \<in> set es \<Longrightarrow> event_utf8 e \<and> details_wf (ev_Details e) \<and> ev_Integrity e = event_tag E key e"
proof (induction es arbitrary: p)
  case (Cons a es)
  have "ascii (ev_Integrity a)"
    using good_event_facts(2) [OF assms] event_tag_facts(5) [OF assms(1)] Cons.prems(1) by auto
  then show ?case using Cons good_event_utf8 [OF assms] good_event_facts(2) [OF assms] by auto
qed simp

lemma decode_chain:
  assumes "env_ok E" "length key = 32"
  shows "good_chain E key p es \<Longrightarrow> ascii p \<Longrightarrow> length done_events + length es \<le> maxActivityEvents \<Longrightarrow> mode = [] \<or> mode = ''signed''
    \<Longrightarrow> decode_loop E key p mode done_events (map marshal es @ [[]]) = Some (done_events @ es, if es = [] then mode else ''signed'')"
proof (induction es arbitrary: p mode done_events)
  case Nil
  then show ?case by (simp add: trim_space_def)
next
  case (Cons e es)
  have g: "good_event E key p e" "good_chain E key (ev_Integrity e) es" using Cons.prems(1) by auto
  have len: "length (marshal e) \<le> maxAuditEventBytes" "marshal e \<noteq> []"
    using good_event_facts(1) [OF assms g(1)] marshal_long [of e] by auto
  have "ascii (ev_Integrity e)" using good_event_facts(2) [OF assms g(1)] event_tag_facts(5) [OF assms(1)] by simp
  from Cons.IH [OF g(2) this, of "done_events @ [e]" "''signed''"] Cons.prems(3)
  have "decode_loop E key (ev_Integrity e) ''signed'' (done_events @ [e]) (map marshal es @ [[]]) = Some (done_events @ e # es, ''signed'')"
    by simp
  moreover have "decodeJournalLine E key (marshal e) p mode (length done_events) = Some (e, ''signed'')"
    using Cons.prems(3,4) len decode_good_event [OF assms g(1) Cons.prems(2)] by (auto simp: decodeJournalLine_def)
  ultimately show ?case using len by (simp add: trim_marshal Let_def)
qed

lemma decode_chain_text:
  assumes "env_ok E" "length key = 32" "good_chain E key [] es" "length es \<le> maxActivityEvents"
  shows "decodeJournal E key (chain_text es) = Some (es, if es = [] then [] else ''signed'')"
proof -
  have "split_on newline (chain_text es) = map marshal es @ [[]]"
    unfolding chain_text_def by (rule split_file_text) (simp add: list_all_iff marshal_no_newline)
  then show ?thesis using decode_chain [OF assms(1-3), of "[]" "[]"] assms(4) by (simp add: decodeJournal_def)
qed

section \<open>Signing makes a chain\<close>

lemma encode_loop_chain:
  assumes "env_ok E" "length key = 32"
  shows "encode_loop E key p bytes es = (es', ls, True) \<Longrightarrow> list_all (proper_event E) es
    \<Longrightarrow> good_chain E key p es' \<and> ls = map marshal es' \<and> length es' = length es
      \<and> (bytes \<le> maxAuditJournalBytes \<longrightarrow> bytes + length (file_text ls) \<le> maxAuditJournalBytes)"
proof (induction es arbitrary: p bytes es' ls)
  case Nil
  then show ?case by (simp add: file_text_def)
next
  case (Cons e es)
  obtain e2 line es2 ls2 where s: "signedLine E key (e\<lparr>ev_Previous := p\<rparr>) = (e2, Some line)" "journalLineFits bytes (length line)"
    "encode_loop E key (ev_Integrity e2) (bytes + length line + 1) es = (es2, ls2, True)" "es' = e2 # es2" "ls = line # ls2"
    using Cons.prems(1) by (auto simp: Let_def split: prod.splits option.splits if_splits)
  have "good_event E key p e2" using signed_good [OF assms s(1)] Cons.prems(2) by simp
  moreover have "line = marshal e2" using signed_length(2) [OF assms s(1)] .
  moreover have "bytes + length line + 1 \<le> maxAuditJournalBytes" using s(2) by (simp add: journalLineFits_def)
  ultimately show ?case using Cons.IH [OF s(3)] Cons.prems(2) s(4,5) by (auto simp: file_text_def)
qed

lemma encodeChain_chain:
  assumes "env_ok E" "length key = 32" "encodeChain E key es metas = (es', metas', Some data)" "list_all (proper_event E) es" "length metas = length es"
  shows "good_chain E key [] es'" "data = chain_text es'" "length es' = length es" "length data \<le> maxAuditJournalBytes"
    "metas' = map (\<lambda>(m, e). m\<lparr>em_size := length (marshal e) + 1\<rparr>) (zip metas es')"
proof -
  obtain ls where l: "encode_loop E key [] 0 es = (es', ls, True)" "data = file_text ls"
    "metas' = map (\<lambda>(m, l). m\<lparr>em_size := length l + 1\<rparr>) (zip metas ls) @ drop (length ls) metas"
    using assms(3) by (auto simp: encodeChain_def split: prod.splits if_splits)
  note c = encode_loop_chain [OF assms(1,2) l(1) assms(4)]
  show "good_chain E key [] es'" "data = chain_text es'" "length es' = length es" "length data \<le> maxAuditJournalBytes"
    using c l(2) by (auto simp: chain_text_def)
  show "metas' = map (\<lambda>(m, e). m\<lparr>em_size := length (marshal e) + 1\<rparr>) (zip metas es')"
    using c l(3) assms(5) by (simp add: zip_map2 comp_def case_prod_beta')
qed

end
