(* ===== verification/JournalRuns.thy ===== *)
theory JournalRuns
  imports JournalLaws
begin

text \<open>
  Runs of the activity journal, restarts and crashes between any two steps included: what is in memory is what a start would
  read from the file, and what a start accepts is what the journal wrote.
\<close>

section \<open>What is retained\<close>

lemma shed_suffix: "suffix (shed_oldest bytes xs) xs"
proof (induction bytes xs rule: shed_oldest.induct)
  case (1 bytes x y ys)
  then show ?case by (auto simp: suffix_Cons)
qed auto

lemma shed_last: "xs \<noteq> [] \<Longrightarrow> shed_oldest bytes xs \<noteq> [] \<and> last (shed_oldest bytes xs) = last xs"
  by (induction bytes xs rule: shed_oldest.induct) auto

lemma subseq_mem: "subseq xs ys \<Longrightarrow> x \<in> set xs \<Longrightarrow> x \<in> set ys"
  by (induction rule: list_emb.induct) auto

lemma retained_pairs:
  assumes "retained J events metas now = (es, ms)" "length events = length metas" "length events \<le> maxActivityEvents + 1"
  obtains pairs where "es = map fst pairs" "ms = map snd pairs" "subseq pairs (zip events metas)" "length pairs \<le> maxActivityEvents"
proof -
  define kept where "kept = filter (\<lambda>(e, m). \<not> now > expiry J (ev_Category e) (em_created m)) (zip events metas)"
  define recent where "recent = (if length kept > maxActivityEvents then drop (length kept - compactedActivityEvents) kept else kept)"
  define final where "final = (if sum_list (map (em_size \<circ> snd) recent) > maxAuditJournalBytes
    then shed_oldest (sum_list (map (em_size \<circ> snd) recent)) recent else recent)"
  have "suffix recent kept" by (simp add: recent_def suffix_drop)
  moreover have "suffix final recent" by (simp add: final_def shed_suffix)
  ultimately have "subseq final kept" by (meson suffix_imp_subseq suffix_order.trans)
  moreover have "subseq kept (zip events metas)" unfolding kept_def by (rule subseq_filter_left)
  ultimately have sub: "subseq final (zip events metas)" by (rule subseq_order.trans)
  have "length recent \<le> maxActivityEvents" by (simp add: recent_def maxActivityEvents_def compactedActivityEvents_def)
  then have "length final \<le> maxActivityEvents" using \<open>suffix final recent\<close> suffix_length_le le_trans by blast
  moreover have "es = map fst final" "ms = map snd final"
    using assms(1) unfolding retained_def Let_def kept_def [symmetric] recent_def [symmetric] final_def [symmetric] by auto
  ultimately show ?thesis using that sub by blast
qed

section \<open>Memory and file\<close>

text \<open>The journal in memory is in order; and it is the one its file holds.\<close>

definition mem_good :: "journal_env \<Rightarrow> string \<Rightarrow> journal \<Rightarrow> bool" where
  "mem_good E key J \<longleftrightarrow> jn_key J = key \<and> length key = 32 \<and> jn_file J \<noteq> [] \<and> good_chain E key [] (jn_events J)
     \<and> length (jn_events J) \<le> maxActivityEvents \<and> jn_meta J = journalMeta E (jn_events J)
     \<and> jn_bytes J = length (chain_text (jn_events J)) \<and> jn_bytes J \<le> maxAuditJournalBytes"

definition mem_ok :: "journal_env \<Rightarrow> string \<Rightarrow> journal \<Rightarrow> string option \<Rightarrow> bool" where
  "mem_ok E key J file \<longleftrightarrow> mem_good E key J \<and> content file = chain_text (jn_events J)"

text \<open>A list of events that a start accepts when it is in the file.\<close>

definition whole_chain :: "journal_env \<Rightarrow> string \<Rightarrow> audit_event list \<Rightarrow> bool" where
  "whole_chain E key es \<longleftrightarrow> good_chain E key [] es \<and> length es \<le> maxActivityEvents \<and> length (chain_text es) \<le> maxAuditJournalBytes"

lemma mem_good_chain: "mem_good E key J \<Longrightarrow> whole_chain E key (jn_events J)"
  by (simp add: mem_good_def whole_chain_def)

lemma encode_loop_times: "encode_loop E key p bytes es = (es', ls, whole) \<Longrightarrow> map ev_Time es' = map ev_Time es"
proof (induction es arbitrary: p bytes es' ls whole)
  case (Cons e es)
  have t: "ev_Time e2 = ev_Time e" if "signedLine E key (e\<lparr>ev_Previous := p\<rparr>) = (e2, l)" for e2 l
    using that by (auto simp: signedLine_def Let_def split: if_splits)
  show ?case using Cons.prems Cons.IH t
    by (auto simp: Let_def split: prod.splits option.splits if_splits)
qed simp

lemma good_chain_proper: "good_chain E key p es \<Longrightarrow> list_all (proper_event E) es"
  by (induction es arbitrary: p) (auto simp: good_event_def)

text \<open>Signing the events of a list of pairs again gives a journal in order.\<close>

lemma resigned:
  assumes "env_ok E" "length key = 32" "encodeChain E key (map fst pairs) (map snd pairs) = (es', metas', Some data)"
    "\<forall>(e, m) \<in> set pairs. proper_event E e \<and> em_created m = event_created E e"
  shows "good_chain E key [] es'" "data = chain_text es'" "length es' = length pairs" "length data \<le> maxAuditJournalBytes"
    "metas' = journalMeta E es'"
proof -
  have "list_all (proper_event E) (map fst pairs)" using assms(4) by (auto simp: list_all_iff)
  note c = encodeChain_chain [OF assms(1-3) this]
  show "good_chain E key [] es'" "data = chain_text es'" "length es' = length pairs" "length data \<le> maxAuditJournalBytes"
    using c by simp_all
  have "map ev_Time es' = map ev_Time (map fst pairs)"
    using assms(3) encode_loop_times by (auto simp: encodeChain_def split: prod.splits)
  then have times: "ev_Time (es' ! i) = ev_Time (fst (pairs ! i))" if "i < length pairs" for i
    using that c(3) by (metis length_map nth_map)
  show "metas' = journalMeta E es'"
  proof (rule nth_equalityI)
    show "length metas' = length (journalMeta E es')" using c(3,5) by (simp add: journalMeta_def)
  next
    fix i assume "i < length metas'"
    then have i: "i < length pairs" using c(3,5) by simp
    obtain e m where em: "pairs ! i = (e, m)" by (cases "pairs ! i")
    then have "em_created m = event_created E e" using assms(4) i nth_mem by fastforce
    then have "em_created m = event_created E (es' ! i)" using times [OF i] em by (simp add: event_created_def)
    then show "metas' ! i = journalMeta E es' ! i"
      using i c(3,5) em by (simp add: journalMeta_def)
  qed
qed

section \<open>Persisting an event\<close>

lemma chain_text_snoc: "chain_text (es @ [e]) = chain_text es @ marshal e @ [newline]"
  by (simp add: chain_text_def file_text_def)

lemma journalMeta_snoc: "journalMeta E (es @ [e]) = journalMeta E es @ [\<lparr>em_created = event_created E e, em_size = length (marshal e) + 1\<rparr>]"
  by (simp add: journalMeta_def)

lemma meta_pairs: "(e, m) \<in> set (zip es (journalMeta E es)) \<Longrightarrow> e \<in> set es \<and> em_created m = event_created E e"
  by (induction es) (auto simp: journalMeta_def)

text \<open>The chain a call of \<open>persist\<close> writes into the file: signed again from the start, or with one event more.\<close>

definition persist_compacts :: "journal_env \<Rightarrow> journal \<Rightarrow> audit_event \<Rightarrow> instant \<Rightarrow> bool" where
  "persist_compacts E J e now = (case signedLine E (jn_key J) (chain_event J e) of
     (_, None) \<Rightarrow> False | (_, Some line) \<Rightarrow> compactionDue J (length line + 1) now)"

definition persist_chain :: "journal_env \<Rightarrow> journal \<Rightarrow> audit_event \<Rightarrow> instant \<Rightarrow> instant \<Rightarrow> audit_event list" where
  "persist_chain E J e created now = (case signedLine E (jn_key J) (chain_event J e) of
     (_, None) \<Rightarrow> []
   | (e2, Some line) \<Rightarrow>
       if compactionDue J (length line + 1) now
       then (case retained J (jn_events J @ [e2]) (jn_meta J @ [\<lparr>em_created = created, em_size = length line + 1\<rparr>]) now of
               (events, metas) \<Rightarrow> fst (encodeChain E (jn_key J) events metas))
       else jn_events J @ [e2])"

lemma compact_cases:
  assumes "env_ok E" "mem_good E key J" "good_event E key p e"
    "journal_compact E wo J file e entry now = (J', file', r)" "entry = \<lparr>em_created = event_created E e, em_size = length (marshal e) + 1\<rparr>"
    and c: "c = (case retained J (jn_events J @ [e]) (jn_meta J @ [entry]) now of (events, metas) \<Rightarrow> fst (encodeChain E (jn_key J) events metas))"
  obtains (same) "J' = J" "file' = file"
  | (compacted) "r \<noteq> None" "mem_good E key J'" "jn_events J' = c" "file' = Some (chain_text c)" "whole_chain E key c" "jn_writable J' = jn_writable J"
  | (replaced) "r = None" "J' = J" "file' = Some (chain_text c)" "whole_chain E key c"
proof -
  have metas: "jn_meta J @ [entry] = journalMeta E (jn_events J @ [e])" using assms(2,5) by (simp add: mem_good_def journalMeta_snoc)
  have len: "length key = 32" "length (jn_events J @ [e]) = length (jn_meta J @ [entry])" "length (jn_events J @ [e]) \<le> maxActivityEvents + 1"
    using assms(2) by (simp_all add: mem_good_def journalMeta_def)
  obtain es ms where r: "retained J (jn_events J @ [e]) (jn_meta J @ [entry]) now = (es, ms)" by fastforce
  obtain pairs where p: "es = map fst pairs" "ms = map snd pairs" "subseq pairs (zip (jn_events J @ [e]) (jn_meta J @ [entry]))" "length pairs \<le> maxActivityEvents"
    using retained_pairs [OF r len(2,3)] by metis
  have "proper_event E x \<and> em_created m = event_created E x" if "(x, m) \<in> set pairs" for x m
  proof -
    have "(x, m) \<in> set (zip (jn_events J @ [e]) (journalMeta E (jn_events J @ [e])))"
      using subseq_mem [OF p(3) that] unfolding metas .
    then have "x \<in> set (jn_events J @ [e])" "em_created m = event_created E x" using meta_pairs by blast+
    then show ?thesis using assms(2,3) good_chain_proper by (fastforce simp: mem_good_def good_event_def list_all_iff)
  qed
  then have pr: "\<forall>(x, m) \<in> set pairs. proper_event E x \<and> em_created m = event_created E x" by blast
  obtain es' ms' out where enc: "encodeChain E (jn_key J) es ms = (es', ms', out)" by (metis prod_cases3)
  have key: "jn_key J = key" "jn_file J \<noteq> []" using assms(2) by (simp_all add: mem_good_def)
  have ce: "c = es'" by (simp add: c r enc)
  show ?thesis
  proof (cases out)
    case None
    then have "J' = J \<and> file' = file" using assms(4) unfolding journal_compact_def r prod.case enc by simp
    then show ?thesis using same by blast
  next
    case (Some data)
    have enc': "encodeChain E key (map fst pairs) (map snd pairs) = (es', ms', Some data)" using enc p Some key by simp
    note g = resigned [OF assms(1) len(1) enc' pr]
    have w: "whole_chain E key c" using g p(4) by (simp add: ce whole_chain_def)
    note res = assms(4) [unfolded journal_compact_def r prod.case enc Some option.case if_P [OF key(2)]]
    show ?thesis
    proof (cases wo)
      case Refused
      with res show ?thesis by (intro same) auto
    next
      case Replaced
      with res g w show ?thesis by (intro replaced) (auto simp: ce)
    next
      case Written
      have "jn_events J' = es'" "jn_meta J' = ms'" "jn_bytes J' = length data" "file' = Some data" "jn_key J' = jn_key J" "jn_file J' = jn_file J"
        "jn_writable J' = jn_writable J" "r \<noteq> None"
        using res Written by (auto simp: Let_def)
      with g w p(4) len(1) key show ?thesis by (intro compacted) (simp_all add: mem_good_def ce)
    qed
  qed
qed

lemma append_cases:
  "appendAuditLine ao line file = (file, False)
   \<or> (\<exists>n. appendAuditLine ao line file = (Some (content file @ take n (line @ [newline])), False))
   \<or> appendAuditLine ao line file = (Some (content file @ line @ [newline]), True)"
proof (cases "length line > maxAuditEventBytes \<or> length (content file) + (length line + 1) > maxAuditJournalBytes")
  case True
  then show ?thesis by (simp only: appendAuditLine_def if_True simp_thms)
next
  case False
  then show ?thesis unfolding appendAuditLine_def if_not_P [OF False] by (cases ao) (simp_all del: take_append, blast)
qed

text \<open>What a call of \<open>persist\<close> can do to the memory and the file.\<close>

lemma persist_cases:
  assumes "env_ok E" "mem_good E key J" "proper_event E e" "ev_Previous e = []" "created = event_created E e"
    "journal_persist E ao wo J file e created now = (J', file', r)"
    and c: "c = persist_chain E J e created now"
  obtains (same) "J' = J" "file' = file"
  | (compacted) "persist_compacts E J e now" "r \<noteq> None" "mem_good E key J'" "jn_events J' = c" "file' = Some (chain_text c)" "whole_chain E key c"
      "jn_writable J' = jn_writable J"
  | (replaced) "persist_compacts E J e now" "r = None" "J' = J" "file' = Some (chain_text c)" "whole_chain E key c"
  | (appended) e2 where "\<not> persist_compacts E J e now" "r \<noteq> None" "mem_good E key J'" "jn_events J' = c" "c = jn_events J @ [e2]"
      "file' = Some (content file @ marshal e2 @ [newline])" "whole_chain E key c" "jn_writable J' = jn_writable J"
  | (left) n e2 where "\<not> persist_compacts E J e now" "r = None" "J' = J" "c = jn_events J @ [e2]"
      "file' = Some (content file @ take n (marshal e2 @ [newline]))" "whole_chain E key c"
proof -
  have key: "jn_key J = key" "length key = 32" "jn_file J \<noteq> []" using assms(2) by (simp_all add: mem_good_def)
  define e1 where "e1 = chain_event J e"
  have e1: "proper_event E e1" "ev_Previous e1 = (if jn_events J = [] then [] else ev_Integrity (last (jn_events J)))" "event_created E e1 = created"
    using assms(3-5) by (auto simp: e1_def chain_event_def event_created_def)
  obtain e2 out where s: "signedLine E key e1 = (e2, out)" by fastforce
  show ?thesis
  proof (cases "out = None \<or> (\<exists>line. out = Some line \<and> now > expiry J (ev_Category e2) created)")
    case True
    then have "J' = J \<and> file' = file"
      using assms(6) by (auto simp: journal_persist_def e1_def [symmetric] key s split: option.splits)
    then show ?thesis using same by blast
  next
    case False
    then obtain line where o: "out = Some line" "\<not> now > expiry J (ev_Category e2) created" by (cases out) auto
    note l = signed_length [OF assms(1) key(2) s [unfolded o]]
    have g: "good_event E key (ev_Previous e1) e2" using signed_good [OF assms(1) key(2) s [unfolded o] e1(1)] .
    have cr: "event_created E e2 = created" using e1(3) l(3) by (simp add: event_created_def)
    have cc: "persist_compacts E J e now = compactionDue J (length line + 1) now"
      by (simp add: persist_compacts_def e1_def [symmetric] key s o)
    show ?thesis
    proof (cases "compactionDue J (length line + 1) now")
      case True
      then have "journal_compact E wo J file e2 \<lparr>em_created = event_created E e2, em_size = length (marshal e2) + 1\<rparr> now = (J', file', r)"
        using assms(6) o cr l(2) by (simp add: journal_persist_def e1_def [symmetric] key s Let_def)
      moreover have "c = (case retained J (jn_events J @ [e2]) (jn_meta J @ [\<lparr>em_created = event_created E e2, em_size = length (marshal e2) + 1\<rparr>]) now of
          (events, metas) \<Rightarrow> fst (encodeChain E (jn_key J) events metas))"
        using True o cr l(2) by (simp add: c persist_chain_def e1_def [symmetric] key s)
      ultimately show ?thesis
        by (rule compact_cases [OF assms(1,2) g _ refl]) (use True cc same compacted replaced in blast)+
    next
      case due: False
      have ch: "c = jn_events J @ [e2]" using due o by (simp add: c persist_chain_def e1_def [symmetric] key s)
      have few: "length (jn_events J) < maxActivityEvents" "jn_bytes J + (length line + 1) \<le> maxAuditJournalBytes"
        using due by (simp_all add: compactionDue_def)
      have "good_chain E key [] c" using assms(2) g e1(2) by (auto simp: ch mem_good_def good_chain_append)
      then have w: "whole_chain E key c" using few assms(2) l(2) by (simp add: whole_chain_def ch mem_good_def chain_text_snoc)
      have res: "(J', file', r) = (case appendAuditLine ao line file of (file', appended) \<Rightarrow>
          let x = expiry J (ev_Category e2) created in
              if \<not> appended then (J, file', None)
              else (J\<lparr>jn_events := jn_events J @ [e2], jn_meta := jn_meta J @ [\<lparr>em_created = created, em_size = length line + 1\<rparr>],
                       jn_bytes := jn_bytes J + (length line + 1),
                       jn_nextExpiry := (if jn_nextExpiry J = 0 \<or> x < jn_nextExpiry J then x else jn_nextExpiry J)\<rparr>,
                    file', Some e2))"
        unfolding assms(6) [symmetric] using o due key(3) by (simp add: journal_persist_def e1_def [symmetric] key s Let_def case_prod_beta)
      consider "appendAuditLine ao line file = (file, False)"
        | n where "appendAuditLine ao line file = (Some (content file @ take n (line @ [newline])), False)"
        | "appendAuditLine ao line file = (Some (content file @ line @ [newline]), True)"
        using append_cases [of ao line "file"] by blast
      then show ?thesis
      proof cases
        case 1
        with res same show ?thesis by simp
      next
        case (2 n)
        with res left [OF _ _ _ ch _ w, of n] due cc l(2) show ?thesis by simp
      next
        case 3
        have J': "jn_events J' = c" "jn_meta J' = jn_meta J @ [\<lparr>em_created = created, em_size = length line + 1\<rparr>]"
          "jn_bytes J' = jn_bytes J + (length line + 1)" "jn_key J' = key" "jn_file J' = jn_file J" "jn_writable J' = jn_writable J"
          "r \<noteq> None" "file' = Some (content file @ marshal e2 @ [newline])"
          using res 3 key l(2) by (auto simp: Let_def ch)
        have "mem_good E key J'"
          using assms(2) J'(1-6) w few l(2) cr key by (simp add: mem_good_def whole_chain_def ch chain_text_snoc journalMeta_snoc)
        with J' w due cc ch show ?thesis by (intro appended) simp_all
      qed
    qed
  qed
qed

section \<open>Admitting an event\<close>

text \<open>The server's clock writes instants that are read back.\<close>

definition clock_ok :: "journal_env \<Rightarrow> instant \<Rightarrow> bool" where
  "clock_ok E t \<longleftrightarrow> env_parse E (env_format E t) = Some t \<and> valid_utf8 (env_format E t)"

definition event_text_ok :: "audit_event \<Rightarrow> bool" where
  "event_text_ok e \<longleftrightarrow> event_utf8 e \<and> details_wf (ev_Details e)"

definition flood_utf8 :: "flood_guard \<Rightarrow> bool" where
  "flood_utf8 g \<longleftrightarrow> (\<forall>k st. (k, st) \<in> set (fg_sources g @ fg_networks g) \<longrightarrow> event_text_ok (fl_last st))"

definition pending_ok :: "journal_env \<Rightarrow> admitted_event \<Rightarrow> bool" where
  "pending_ok E a \<longleftrightarrow> proper_event E (fst a) \<and> ev_Previous (fst a) = [] \<and> snd a = event_created E (fst a)"

lemma ascii_show_base: "1 \<le> b \<Longrightarrow> b \<le> 16 \<Longrightarrow> ascii (show_base b k n)"
proof (induction k arbitrary: n)
  case (Suc k)
  have "byte (digit_char d) < 128" if "d < 16" for d using that by (simp add: digit_char_def)
  moreover have "n mod b < 16" using Suc.prems mod_less_divisor [of b n] by linarith
  ultimately show ?case using Suc by auto
qed simp

lemma itoa_utf8: "valid_utf8 (itoa n)"
  unfolding itoa_def by (rule valid_utf8_ascii, rule ascii_show_base) simp_all

lemma suppressed_utf8: "valid_utf8 suppressedDetail"
  by (rule valid_utf8_ascii) (simp add: suppressedDetail_def byte_def)

lemma quarantined_utf8: "valid_utf8 ''quarantined''"
  by (rule valid_utf8_ascii) (simp add: byte_def)

lemma put_text_ok:
  assumes "event_text_ok e" "valid_utf8 k" "valid_utf8 v"
  shows "event_text_ok (e\<lparr>ev_Details := details_put k v (ev_Details e)\<rparr>)"
  using assms details_put_utf8 [of k v "ev_Details e"] details_put_wf [of "ev_Details e" k v]
  by (auto simp: event_text_ok_def event_utf8_alt get_details)

lemma zero_text_ok: "event_text_ok zero_event"
  by (simp add: event_text_ok_def zero_event_def event_utf8_defs details_wf_def)

lemma template_text_ok:
  assumes "event_text_ok e"
  shows "event_text_ok (floodSummaryTemplate e)"
proof -
  have "valid_utf8 q" if "map_of (ev_Details e) ''quarantined'' = Some q" for q
    using assms map_of_SomeD [OF that] by (auto simp: event_text_ok_def event_utf8_alt list_all_iff)
  then show ?thesis
    using assms template_ok [of e] quarantined_utf8
    by (auto simp: event_text_ok_def floodSummaryTemplate_def zero_event_def event_utf8_defs split: option.splits)
qed

lemma summary_text_ok:
  assumes "event_text_ok (fl_last st)" "valid_utf8 newID" "clock_ok E now"
  shows "event_text_ok (floodSummary E newID st now)"
proof -
  have "event_text_ok ((fl_last st)\<lparr>ev_ID := newID, ev_Time := env_format E now\<rparr>)"
    using assms by (auto simp: event_text_ok_def event_utf8_defs clock_ok_def)
  from put_text_ok [OF this suppressed_utf8 itoa_utf8, of "fl_suppressed st"] show ?thesis
    by (simp add: floodSummary_def)
qed

lemma sweep_text_ok:
  assumes "flood_utf8 g" "\<forall>i. valid_utf8 (ids i)" "clock_ok E now" "flood_sweep E ids now g = (g', news)"
  shows "flood_utf8 g'" "\<forall>s \<in> set news. event_text_ok s \<and> ev_Time s = env_format E now"
proof -
  have "event_text_ok s \<and> ev_Time s = env_format E now" if "s \<in> set news" for s
  proof -
    define counted where "counted = filter (\<lambda>st. fl_suppressed st > 0) (map snd (filter (\<lambda>(_, st). now > fl_reset st) (fg_sources g @ fg_networks g)))"
    have "news = [] \<or> news = map (\<lambda>(i, st). floodSummary E (ids i) st now) (enumerate 0 counted)"
      using assms(4) unfolding flood_sweep_def Let_def counted_def [symmetric] by (auto split: if_splits)
    then have "s \<in> (\<lambda>(i, st). floodSummary E (ids i) st now) ` set (enumerate 0 counted)" using that by auto
    then obtain i st where s: "s = floodSummary E (ids i) st now" "(i, st) \<in> set (enumerate 0 counted)" by auto
    then have "st \<in> set counted" by (auto simp: enumerate_eq_zip dest: set_zip_rightD)
    then have "event_text_ok (fl_last st)" using assms(1) by (auto simp: counted_def flood_utf8_def)
    with s(1) show ?thesis using summary_text_ok [of st "ids i" E now] assms by (simp add: floodSummary_def)
  qed
  then show "\<forall>s \<in> set news. event_text_ok s \<and> ev_Time s = env_format E now" by blast
  show "flood_utf8 g'" using assms(1,4) by (auto simp: flood_utf8_def flood_sweep_def Let_def mfilter_def split: if_splits)
qed

lemma flood_admit_text_ok:
  assumes "flood_utf8 g" "\<forall>i. valid_utf8 (ids i)" "clock_ok E now" "event_text_ok e" "flood_admit E ids e now g = (g', e', ok, news)"
  shows "flood_utf8 g'" "\<forall>s \<in> set news. event_text_ok s \<and> ev_Time s = env_format E now"
    "e' = e \<or> map_of (ev_Details e) suppressedDetail = None \<and> (\<exists>n. e' = e\<lparr>ev_Details := details_put suppressedDetail (itoa n) (ev_Details e)\<rparr>)"
proof -
  obtain g1 ns where sw: "flood_sweep E ids now g = (g1, ns)" by fastforce
  note s = sweep_text_ok [OF assms(1-3) sw]
  obtain g2 src key where b: "flood_bucket (ev_Action e) (ev_Remote e) now g1 = (g2, src, key)" using prod_cases3 by blast
  have "fg_sources g2 = fg_sources g1" "fg_networks g2 = fg_networks g1"
    using b by (auto simp: flood_bucket_def Let_def split: if_splits)
  then have g2: "flood_utf8 g2" using s(1) by (simp add: flood_utf8_def)
  have member: "(k, s) \<in> set (mput key st t) \<Longrightarrow> (k, s) \<in> set t \<or> s = st" for k s st and t :: "(string, flood_source) gomap"
    by (induction t) (auto split: if_splits)
  have put: "flood_utf8 (flood_put src key st g2)" if "fl_last st = floodSummaryTemplate e" for st
    using g2 that template_text_ok [OF assms(4)] by (auto simp: flood_utf8_def flood_put_def dest!: member)
  have ns: "news = ns" using assms(5) sw b by (auto simp: flood_admit_def Let_def split: if_splits)
  then show "\<forall>s \<in> set news. event_text_ok s \<and> ev_Time s = env_format E now" using s(2) by simp
  show "flood_utf8 g'" using assms(5) sw b put s(1) by (auto simp: flood_admit_def Let_def split: if_splits)
  show "e' = e \<or> map_of (ev_Details e) suppressedDetail = None \<and> (\<exists>n. e' = e\<lparr>ev_Details := details_put suppressedDetail (itoa n) (ev_Details e)\<rparr>)"
    using assms(5) sw b by (auto simp: flood_admit_def Let_def split: if_splits)
qed

lemma valid_proper: "validEvent E e stored \<Longrightarrow> event_text_ok e \<Longrightarrow> proper_event E e"
  by (simp add: validEvent_def proper_event_def event_text_ok_def event_utf8_def)

lemma summaries_pending:
  assumes "\<forall>s \<in> set news. event_text_ok s \<and> ev_Time s = env_format E now" "clock_ok E now"
  shows "list_all (pending_ok E) (summarizedEvents E news now)"
  using assms by (auto simp: list_all_iff summarizedEvents_def pending_ok_def valid_proper event_created_def clock_ok_def)
    (auto simp: validEvent_def)

lemma del_put: "map_of m k = None \<Longrightarrow> details_del k (details_put k v m) = m"
proof -
  assume "map_of m k = None"
  then have "list_all (\<lambda>(k', _). k' \<noteq> k) m" by (auto simp: list_all_iff map_of_eq_None_iff image_iff)
  then show ?thesis by (induction m) (auto simp: details_del_def filter_id_conv list_all_iff)
qed

lemma admit_ok:
  assumes "flood_utf8 (jn_flood J)" "\<forall>i. valid_utf8 (ids i)" "event_text_ok e" "clock_ok E (event_created E e)"
    "journal_admit E ids J e = (J', evs)"
  shows "flood_utf8 (jn_flood J')" "list_all (pending_ok E) evs"
    "J' = failLocked J \<and> evs = [] \<or> jn_writable J \<and> (\<exists>g. J' = J\<lparr>jn_flood := g\<rparr>)"
proof -
  let ?t = "event_created E e"
  obtain g e1 adm news where f: "flood_admit E ids e ?t (jn_flood J) = (g, e1, adm, news)" using prod_cases4 by blast
  note fa = flood_admit_text_ok [OF assms(1,2,4,3) f]
  note sp = summaries_pending [OF fa(2) assms(4)]
  show "J' = failLocked J \<and> evs = [] \<or> jn_writable J \<and> (\<exists>g. J' = J\<lparr>jn_flood := g\<rparr>)"
    using assms(5) f by (auto simp: journal_admit_def event_created_def [symmetric] Let_def split: if_splits)
  show "flood_utf8 (jn_flood J')"
    using assms(1,5) f fa(1) by (auto simp: journal_admit_def event_created_def [symmetric] Let_def failLocked_def split: if_splits)
  show "list_all (pending_ok E) evs"
  proof (cases "validEvent E e False")
    case False
    then show ?thesis using assms(5) by (auto simp: journal_admit_def)
  next
    case True
    define e2 where "e2 = (if map_of (ev_Details e1) suppressedDetail \<noteq> None \<and> \<not> validEvent E e1 False
      then e1\<lparr>ev_Details := details_del suppressedDetail (ev_Details e1)\<rparr> else e1)"
    have "e2 = e \<or> e2 = e1 \<and> validEvent E e1 False \<and> event_text_ok e1"
      using fa(3)
    proof
      assume "e1 = e"
      then show ?thesis using True by (simp add: e2_def)
    next
      assume h: "map_of (ev_Details e) suppressedDetail = None \<and> (\<exists>n. e1 = e\<lparr>ev_Details := details_put suppressedDetail (itoa n) (ev_Details e)\<rparr>)"
      then obtain n where e1: "e1 = e\<lparr>ev_Details := details_put suppressedDetail (itoa n) (ev_Details e)\<rparr>" by blast
      have "map_of (ev_Details e1) suppressedDetail \<noteq> None"
        using assms(3) by (simp add: e1 event_text_ok_def map_of_details_put)
      moreover have "e1\<lparr>ev_Details := details_del suppressedDetail (ev_Details e1)\<rparr> = e" using h by (simp add: e1 del_put)
      ultimately show ?thesis using put_text_ok [OF assms(3) suppressed_utf8 itoa_utf8] by (auto simp: e2_def e1)
    qed
    moreover have "ev_Time e1 = ev_Time e" using fa(3) by auto
    ultimately have "pending_ok E (e2, ?t)"
      using True assms(3) valid_proper by (auto simp: pending_ok_def event_created_def validEvent_def)
    moreover have "evs = [] \<or> evs = summarizedEvents E news ?t \<or> evs = summarizedEvents E news ?t @ [(e2, ?t)]"
      using assms(5) f True
      by (cases "jn_writable J"; cases adm) (simp_all add: journal_admit_def event_created_def [symmetric] Let_def e2_def)
    ultimately show ?thesis using sp by auto
  qed
qed

section \<open>Starting\<close>

lemma key_read_back:
  assumes "length key = 32"
  shows "readAuditKey readable (Some (createAuditKey key)) = (if readable then Some (Some key) else None)"
proof -
  have name: "escaped ''key'' = ''key''" by (rule escaped_plain) (simp add: byte_def)
  have hex: "escaped (hex_encode key) = hex_encode key" by (rule escaped_hex [OF hex_encode_hex])
  have len: "length (createAuditKey key) \<le> maxAuditKeyBytes"
    using assms by (simp add: createAuditKey_def write_object_def write_member_def json_quote_def name hex maxAuditKeyBytes_def)
  have utf8: "valid_utf8 ''key''" "valid_utf8 (hex_encode key)"
    using hex_ascii [OF hex_encode_hex] by (auto intro!: valid_utf8_ascii simp: byte_def)
  have "read_document (createAuditKey key) = Some [(''key'', JText (Some (hex_encode key)))]"
    unfolding createAuditKey_def
    using read_document_written [of "[(''key'', json_quote (hex_encode key), JText (Some (hex_encode key)))]"] utf8 text_reads_back by simp
  moreover have "\<not> rejectDuplicateJSONFields [(''key'', JText (Some (hex_encode key)))]" by (simp add: rejectDuplicateJSONFields_def)
  ultimately show ?thesis using len assms by (simp add: readAuditKey_def)
qed

lemma createAuditKey_inj:
  assumes "length k = 32" "length key = 32" "createAuditKey k = createAuditKey key"
  shows "k = key"
proof -
  have "Some (Some k) = readAuditKey True (Some (createAuditKey k))" by (simp only: key_read_back [OF assms(1)] if_True)
  also have "\<dots> = Some (Some key)" unfolding assms(3) by (simp only: key_read_back [OF assms(2)] if_True)
  finally show ?thesis by simp
qed

lemma decode_loop_proper:
  "decode_loop E key p mode evs raws = Some (es, m) \<Longrightarrow> list_all (proper_event E) evs \<Longrightarrow> length evs \<le> maxActivityEvents
    \<Longrightarrow> list_all (proper_event E) es \<and> length es \<le> maxActivityEvents"
proof (induction E key p mode evs raws rule: decode_loop.induct)
  case (2 E key p mode evs raw raws)
  show ?case
  proof (cases "trim_space raw = []")
    case True
    then show ?thesis using 2 by (simp split: if_splits)
  next
    case False
    then obtain e em where e: "decodeJournalLine E key (trim_space raw) p mode (length evs) = Some (e, em)"
      "decode_loop E key (ev_Integrity e) em (evs @ [e]) raws = Some (es, m)"
      using 2(3) by (auto simp: Let_def split: if_splits option.splits)
    have "length evs < maxActivityEvents" "decodeJournalEvent E key (trim_space raw) p = Some (e, em)"
      using e(1) by (auto simp: decodeJournalLine_def split: if_splits option.splits)
    moreover from this(2) have "validEvent E e True" "decodeStrictJSON (trim_space raw) = Some e"
      by (auto simp: decodeJournalEvent_def validateLegacyEvent_def split: if_splits option.splits)
    then have "proper_event E e" using decode_event_utf8 valid_proper by (auto simp: event_text_ok_def)
    ultimately show ?thesis using 2(2) [OF _ refl False e(1) refl e(2)] 2(3-5) by (simp split: if_splits)
  qed
qed simp

text \<open>A legacy file is read the same whatever the key.\<close>

lemma legacy_event:
  assumes "decodeJournalEvent E [] line p = Some (e, m)"
  shows "m = ''legacy'' \<and> decodeJournalEvent E key line p' = Some (e, ''legacy'')"
  using assms by (auto simp: decodeJournalEvent_def validSignedEvent_def validateLegacyEvent_def split: option.splits if_splits)

lemma legacy_any_key:
  "decode_loop E [] p mode evs raws = Some (es, m) \<Longrightarrow> decode_loop E key p' mode evs raws = Some (es, m)"
proof (induction raws arbitrary: p p' mode evs)
  case (Cons raw raws)
  show ?case
  proof (cases "trim_space raw = []")
    case True
    then show ?thesis using Cons by (simp split: if_splits)
  next
    case False
    then obtain e em where e: "decodeJournalLine E [] (trim_space raw) p mode (length evs) = Some (e, em)"
      "decode_loop E [] (ev_Integrity e) em (evs @ [e]) raws = Some (es, m)" "\<not> length raw > maxAuditEventBytes"
      using Cons.prems by (auto simp: Let_def split: if_splits option.splits)
    have "decodeJournalLine E key (trim_space raw) p' mode (length evs) = Some (e, em)"
      using e(1) legacy_event by (auto simp: decodeJournalLine_def split: if_splits option.splits prod.splits)
    then show ?thesis using False e Cons.IH by simp
  qed
qed simp

lemma decode_legacy:
  assumes "decodeJournal E [] d = Some (es, ''legacy'')"
  shows "decodeJournal E key d = Some (es, ''legacy'')" "list_all (proper_event E) es" "length es \<le> maxActivityEvents"
proof -
  have d: "decode_loop E [] [] [] [] (split_on newline d) = Some (es, ''legacy'')" using assms by (simp add: decodeJournal_def)
  show "decodeJournal E key d = Some (es, ''legacy'')" unfolding decodeJournal_def by (rule legacy_any_key [OF d])
  show "list_all (proper_event E) es" "length es \<le> maxActivityEvents" using decode_loop_proper [OF d] by simp_all
qed

definition file_ok :: "journal_env \<Rightarrow> string option \<Rightarrow> audit_event list list \<Rightarrow> string option \<Rightarrow> bool" where
  "file_ok E found H file \<longleftrightarrow> content file = []
     \<or> (\<exists>es. decodeJournal E [] (content file) = Some (es, ''legacy''))
     \<or> (\<exists>key es. found = Some key \<and> es \<in> set H \<and> whole_chain E key es \<and> content file = chain_text es)"

lemma rewrite_ok:
  assumes "env_ok E" "length (jn_key J) = 32" "jn_file J \<noteq> []" "jn_events J = map fst pairs" "jn_meta J = map snd pairs"
    "\<forall>(e, m) \<in> set pairs. proper_event E e \<and> em_created m = event_created E e" "length pairs \<le> maxActivityEvents"
    "rewriteLocked E wo J file = (J', file', written)"
  shows "(written \<longrightarrow> mem_ok E (jn_key J) J' file')
    \<and> (file' = file \<and> \<not> written \<or> file' = Some (chain_text (jn_events J')) \<and> whole_chain E (jn_key J) (jn_events J'))
    \<and> jn_flood J' = jn_flood J \<and> jn_writable J' = jn_writable J"
proof -
  obtain es' ms' out where enc: "encodeChain E (jn_key J) (map fst pairs) (map snd pairs) = (es', ms', out)" by (metis prod_cases3)
  show ?thesis
  proof (cases out)
    case None
    then show ?thesis using assms(8,3) enc by (auto simp: rewriteLocked_def assms(4,5) Let_def)
  next
    case (Some data)
    note g = resigned [OF assms(1,2) enc [unfolded Some] assms(6)]
    have w: "whole_chain E (jn_key J) es'" using g assms(7) by (simp add: whole_chain_def)
    show ?thesis
      using assms(8,3) enc g assms(2,7) w
      by (cases wo) (auto simp: rewriteLocked_def assms(4,5) Let_def Some mem_ok_def mem_good_def content_def)
  qed
qed

lemma mem_ok_compacted [simp]:
  "mem_ok E key (J\<lparr>jn_compacted := a, jn_nextExpiry := b, jn_writable := c\<rparr>) file = mem_ok E key J file"
  "mem_ok E key (J\<lparr>jn_flood := g\<rparr>) file = mem_ok E key J file"
  "mem_ok E key (failLocked J) file = mem_ok E key J file"
  "mem_good E key (J\<lparr>jn_compacted := a, jn_nextExpiry := b, jn_writable := c\<rparr>) = mem_good E key J"
  "mem_good E key (J\<lparr>jn_flood := g\<rparr>) = mem_good E key J"
  "mem_good E key (failLocked J) = mem_good E key J"
  by (simp_all add: mem_ok_def mem_good_def failLocked_def)

lemma zip_meta_pairs: "map fst (zip es (journalMeta E es)) = es" "map snd (zip es (journalMeta E es)) = journalMeta E es"
  by (simp_all add: journalMeta_def)

lemma pruned_pairs:
  assumes "pruneLocked J now = (J', pruned)" "jn_meta J = journalMeta E (jn_events J)" "length (jn_events J) \<le> maxActivityEvents"
    "list_all (proper_event E) (jn_events J)"
  obtains pairs where "jn_events J' = map fst pairs" "jn_meta J' = map snd pairs" "length pairs \<le> maxActivityEvents"
    "\<forall>(e, m) \<in> set pairs. proper_event E e \<and> em_created m = event_created E e" "\<not> pruned \<Longrightarrow> J' = J"
    "J' = J\<lparr>jn_events := jn_events J', jn_meta := jn_meta J'\<rparr>"
proof -
  obtain es ms where r: "retained J (jn_events J) (jn_meta J) now = (es, ms)" by fastforce
  have J': "J' = J\<lparr>jn_events := es, jn_meta := ms\<rparr>" "pruned \<longleftrightarrow> length es \<noteq> length (jn_events J)"
    using assms(1) by (auto simp: pruneLocked_def r)
  have len: "length (jn_events J) = length (jn_meta J)" using assms(2) by (simp add: journalMeta_def)
  obtain pairs where p: "es = map fst pairs" "ms = map snd pairs" "subseq pairs (zip (jn_events J) (jn_meta J))" "length pairs \<le> maxActivityEvents"
    using retained_pairs [OF r len] assms(3) by (metis le_add1 le_trans)
  have "proper_event E e \<and> em_created m = event_created E e" if "(e, m) \<in> set pairs" for e m
    using subseq_mem [OF p(3) that] meta_pairs [of e m "jn_events J" E] assms(2,4) by (auto simp: list_all_iff)
  then have ok: "\<forall>(e, m) \<in> set pairs. proper_event E e \<and> em_created m = event_created E e" by blast
  have "J' = J" if "\<not> pruned"
  proof -
    have "length pairs = length (zip (jn_events J) (jn_meta J))" using that J'(2) p(1) len by simp
    then have "pairs = zip (jn_events J) (jn_meta J)" using subseq_same_length [OF p(3)] by blast
    then have "es = jn_events J" "ms = jn_meta J" using p(1,2) len by simp_all
    then show ?thesis using J'(1) by simp
  qed
  then show ?thesis using that [of pairs] p ok J' by auto
qed

text \<open>What is read from the journal's file.\<close>

lemma load_journal_ok:
  assumes "env_ok E" "file_ok E found H file" "jn_key J = (case found of None \<Rightarrow> [] | Some key \<Rightarrow> key)" "length key = 32"
    "found \<noteq> None \<longrightarrow> found = Some key" "jn_events J = []" "jn_meta J = []" "jn_bytes J = 0" "jn_file J \<noteq> []"
    "loadJournal E readable J file = Some (J', legacy)"
  shows "jn_meta J' = journalMeta E (jn_events J') \<and> list_all (proper_event E) (jn_events J') \<and> length (jn_events J') \<le> maxActivityEvents
    \<and> (\<not> legacy \<longrightarrow> mem_ok E key (J'\<lparr>jn_key := key\<rparr>) file)
    \<and> jn_file J' = jn_file J \<and> jn_flood J' = jn_flood J \<and> jn_writable J' = jn_writable J \<and> jn_key J' = jn_key J"
proof (cases "file")
  case None
  then show ?thesis using assms(4,6-10)
    by (auto simp: loadJournal_def mem_ok_def mem_good_def content_def chain_text_def file_text_def journalMeta_def split: if_splits)
next
  case (Some d)
  have d: "content file = d" by (simp add: Some content_def)
  from assms(2) show ?thesis unfolding file_ok_def d
  proof (elim disjE exE conjE)
    assume f: "d = []"
    have "decodeJournal E (jn_key J) [] = Some ([], [])" by (simp add: decodeJournal_def trim_space_def)
    then have "J' = J\<lparr>jn_events := [], jn_meta := [], jn_bytes := 0\<rparr>" "\<not> legacy"
      using assms(10) by (auto simp: loadJournal_def Some f journalMeta_def split: if_splits)
    then show ?thesis using assms(4,9)
      by (simp add: d f mem_ok_def mem_good_def chain_text_def file_text_def journalMeta_def)
  next
    fix es
    assume f: "decodeJournal E [] d = Some (es, ''legacy'')"
    note dl = decode_legacy [OF f]
    have "J' = J\<lparr>jn_events := es, jn_meta := journalMeta E es, jn_bytes := length d\<rparr>" "legacy"
      using assms(10) Some dl(1) by (auto simp: loadJournal_def split: if_splits)
    then show ?thesis using dl by simp
  next
    fix k es
    assume f: "found = Some k" "es \<in> set H" "whole_chain E k es" "d = chain_text es"
    have k: "k = key" "jn_key J = key" using f(1) assms(3,5) by auto
    have "decodeJournal E (jn_key J) (chain_text es) = Some (es, if es = [] then [] else ''signed'')"
      using decode_chain_text [OF assms(1,4)] f(3) k by (simp add: whole_chain_def)
    then have "J' = J\<lparr>jn_events := es, jn_meta := journalMeta E es, jn_bytes := length (chain_text es)\<rparr>" "\<not> legacy"
      using assms(10) f(4) Some by (auto simp: loadJournal_def split: if_splits)
    then show ?thesis using f k d good_chain_proper assms(4,9) by (auto simp: mem_ok_def mem_good_def whole_chain_def)
  qed
qed

text \<open>The part of a start after the reads.\<close>

lemma start_rest_ok:
  assumes "env_ok E" "length key = 32" "jn_key J = key" "jn_file J \<noteq> []" "\<not> jn_writable J"
    "jn_meta J = journalMeta E (jn_events J)" "list_all (proper_event E) (jn_events J)" "length (jn_events J) \<le> maxActivityEvents"
    "\<not> legacy \<longrightarrow> mem_ok E key J file"
    "load_finish E wo now J legacy file = (L, file', loaded)"
  shows "(loaded \<longrightarrow> mem_ok E key L file') \<and> (file' = file \<or> file' = Some (chain_text (jn_events L)) \<and> whole_chain E key (jn_events L))
    \<and> jn_flood L = jn_flood J \<and> jn_writable L = loaded"
proof -
  obtain J5 pruned where p: "(if legacy then (J, False) else pruneLocked J now) = (J5, pruned)" by fastforce
  obtain J6 written where w: "(if legacy \<or> pruned then rewriteLocked E wo J5 file else (J5, file, True)) = (J6, file', written)"
    and L: "L = (if written then J6\<lparr>jn_compacted := now, jn_nextExpiry := earliestExpiry (J6\<lparr>jn_compacted := now\<rparr>), jn_writable := True\<rparr> else J6)"
      "loaded = written"
    using assms(10) unfolding load_finish_def p prod.case by (auto simp: Let_def split: prod.splits if_splits)
  have "(written \<longrightarrow> mem_ok E key J6 file') \<and> (file' = file \<or> file' = Some (chain_text (jn_events J6)) \<and> whole_chain E key (jn_events J6))
    \<and> jn_flood J6 = jn_flood J \<and> jn_writable J6 = jn_writable J"
  proof (cases legacy)
    case True
    let ?pairs = "zip (jn_events J) (jn_meta J)"
    have pairs: "jn_events J = map fst ?pairs" "jn_meta J = map snd ?pairs"
      using assms(6) by (simp_all add: journalMeta_def)
    have "\<forall>(e, m) \<in> set ?pairs. proper_event E e \<and> em_created m = event_created E e"
      using meta_pairs assms(6,7) by (fastforce simp: list_all_iff)
    moreover have "length ?pairs \<le> maxActivityEvents" using assms(8) by simp
    moreover have rw: "rewriteLocked E wo J file = (J6, file', written)" using p w True by simp
    ultimately show ?thesis
      using rewrite_ok [OF assms(1) _ assms(4) pairs _ _ rw] assms(2,3) by blast
  next
    case False
    then have pl: "pruneLocked J now = (J5, pruned)" using p by simp
    show ?thesis
    proof (rule pruned_pairs [OF pl assms(6,8,7)])
      fix pairs
      assume h: "jn_events J5 = map fst pairs" "jn_meta J5 = map snd pairs" "length pairs \<le> maxActivityEvents"
        "\<forall>(e, m) \<in> set pairs. proper_event E e \<and> em_created m = event_created E e" "\<not> pruned \<Longrightarrow> J5 = J"
        "J5 = J\<lparr>jn_events := jn_events J5, jn_meta := jn_meta J5\<rparr>"
      have same: "jn_key J5 = jn_key J" "jn_file J5 = jn_file J" "jn_flood J5 = jn_flood J" "jn_writable J5 = jn_writable J"
        by (subst h(6), simp)+
      show ?thesis
      proof (cases pruned)
        case True
        then have rw: "rewriteLocked E wo J5 file = (J6, file', written)" using w by simp
        have "length (jn_key J5) = 32" "jn_file J5 \<noteq> []" using same assms(2-4) by simp_all
        from rewrite_ok [OF assms(1) this h(1,2,4,3) rw] show ?thesis unfolding same assms(3) by blast
      next
        case no: False
        then show ?thesis using assms(9) w False h(5) by simp
      qed
    qed
  qed
  then show ?thesis using assms(5) by (auto simp: L)
qed

text \<open>What is known of the files and the journal after a start.\<close>

lemma start_ok:
  assumes "env_ok E" "dir \<noteq> []" "\<forall>key. found = Some key \<longrightarrow> length key = 32" "length (so_key so) = 32" "file_ok E found H file"
    "journal_New E so now ar pr dir file (map_option createAuditKey found) = (J', file', keyfile')"
  shows "\<exists>found'. keyfile' = map_option createAuditKey found' \<and> (\<forall>key. found' = Some key \<longrightarrow> length key = 32)
    \<and> (found \<noteq> None \<longrightarrow> found' = found) \<and> flood_utf8 (jn_flood J')
    \<and> (file' = file \<or> (\<exists>key. found' = Some key \<and> file' = Some (chain_text (jn_events J')) \<and> whole_chain E key (jn_events J')))
    \<and> (jn_writable J' \<longrightarrow> (\<exists>key. found' = Some key \<and> mem_ok E key J' file'))"
proof -
  define J0 where "J0 = new_journal ar pr"
  define J1 where "J1 = J0\<lparr>jn_file := dir @ ''/audit.jsonl''\<rparr>"
  have J1: "jn_flood J1 = zero_guard" "\<not> jn_writable J1" "jn_events J1 = []" "jn_meta J1 = []" "jn_bytes J1 = 0" "jn_file J1 \<noteq> []" "jn_key J1 = []"
    "jn_flood J0 = zero_guard" "\<not> jn_writable J0"
    by (simp_all add: J1_def J0_def new_journal_def)
  have fz: "flood_utf8 zero_guard" by (simp add: flood_utf8_def zero_guard_def)
  obtain L loaded where l: "journal_load E so now J0 dir file (map_option createAuditKey found) = (L, file', keyfile', loaded)"
    "J' = (if loaded then L else failLocked L)"
    using assms(6) by (auto simp: journal_New_def J0_def split: prod.splits)
  have fail: ?thesis if "\<not> loaded" "file' = file" "keyfile' = map_option createAuditKey found" "jn_flood L = zero_guard" "\<not> jn_writable L"
    using that assms(3) fz l(2) by (intro exI [of _ found]) (simp add: failLocked_def)
  have rk: "readAuditKey (so_readKey so) (map_option createAuditKey found) = (if so_readKey so then Some found else None)"
    using assms(3) key_read_back by (cases found) (simp_all add: readAuditKey_def)
  define J2 where "J2 = (case found of None \<Rightarrow> J1 | Some key \<Rightarrow> J1\<lparr>jn_key := key\<rparr>)"
  have J2: "jn_flood J2 = zero_guard" "\<not> jn_writable J2" "jn_events J2 = []" "jn_meta J2 = []" "jn_bytes J2 = 0" "jn_file J2 \<noteq> []"
    "jn_key J2 = (case found of None \<Rightarrow> [] | Some key \<Rightarrow> key)"
    using J1 by (auto simp: J2_def split: option.splits)
  have ld: "journal_load E so now J0 dir file (map_option createAuditKey found) =
    (if \<not> validateDataDir dir then (J0, file, map_option createAuditKey found, False)
     else if \<not> so_readKey so then (J1, file, map_option createAuditKey found, False)
     else (case loadJournal E (so_readJournal so) J2 file of None \<Rightarrow> (J2, file, map_option createAuditKey found, False)
       | Some (J3, legacy) \<Rightarrow>
         (case (if found = None then file_write (so_writeKey so) (Some (createAuditKey (so_key so))) (map_option createAuditKey found)
                else (map_option createAuditKey found, True)) of
            (keyfile', written) \<Rightarrow>
              if \<not> written then (J3, file, keyfile', False)
              else (case load_finish E (so_writeJournal so) now (if found = None then J3\<lparr>jn_key := so_key so\<rparr> else J3) legacy file of
                 (J4, file', loaded) \<Rightarrow> (J4, file', keyfile', loaded)))))"
    using assms(2) unfolding journal_load_def Let_def J1_def [symmetric] rk J2_def by (cases "so_readKey so") simp_all
  show ?thesis
  proof (cases "validateDataDir dir \<and> so_readKey so \<and> loadJournal E (so_readJournal so) J2 file \<noteq> None")
    case False
    then have "\<not> loaded \<and> file' = file \<and> keyfile' = map_option createAuditKey found \<and> (L = J0 \<or> L = J1 \<or> L = J2)"
      using l(1) unfolding ld by (cases "loadJournal E (so_readJournal so) J2 file") (auto split: if_split_asm)
    then show ?thesis using fail J1 J2 by auto
  next
    case True
    then obtain J3 legacy where lj: "loadJournal E (so_readJournal so) J2 file = Some (J3, legacy)" by auto
    define key where "key = (case found of None \<Rightarrow> so_key so | Some key \<Rightarrow> key)"
    have key: "length key = 32" "found \<noteq> None \<longrightarrow> found = Some key" using assms(3,4) by (auto simp: key_def split: option.splits)
    note lo = load_journal_ok [OF assms(1,5) J2(7) key J2(3-6) lj]
    define J4 where "J4 = (if found = None then J3\<lparr>jn_key := so_key so\<rparr> else J3)"
    have same: "jn_key J4 = key" "jn_file J4 \<noteq> []" "jn_flood J4 = zero_guard" "\<not> jn_writable J4" "jn_meta J4 = journalMeta E (jn_events J4)"
      "list_all (proper_event E) (jn_events J4)" "length (jn_events J4) \<le> maxActivityEvents"
      using lo J2 key(2) by (auto simp: J4_def key_def split: option.splits)
    have "J4 = J3\<lparr>jn_key := key\<rparr>"
      using lo J2(7) key(2) by (cases found) (auto simp: J4_def key_def)
    then have mem: "\<not> legacy \<longrightarrow> mem_ok E key J4 file" using lo by simp
    obtain J5 file1 written where w: "load_finish E (so_writeJournal so) now J4 legacy file = (J5, file1, written)" by (metis prod_cases3)
    note r = start_rest_ok [OF assms(1) key(1) same(1,2,4-7) mem w]
    consider "\<not> loaded" "file' = file" "keyfile' = map_option createAuditKey found" "L = J3"
      | "\<not> loaded" "file' = file" "keyfile' = Some (createAuditKey key)" "L = J3"
      | "L = J5" "file' = file1" "keyfile' = Some (createAuditKey key)" "loaded = written"
    proof (cases found)
      case None
      then have k: "key = so_key so" by (simp add: key_def)
      from l(1) True w None k show thesis unfolding ld lj
        by (cases "so_writeKey so") (auto simp: J4_def intro: that)
    next
      case (Some k)
      with l(1) True w key show thesis unfolding ld lj by (intro that(3)) (auto simp: J4_def)
    qed
    then show ?thesis
    proof cases
      case 1
      then show ?thesis using fail lo J2(1,2) by auto
    next
      case 2
      have "J' = failLocked J3" using l(2) 2 by simp
      then show ?thesis using 2 key fz lo J2(1,2)
        by (intro exI [of _ "Some key"]) (auto simp: failLocked_def)
    next
      case 3
      have "J' = (if loaded then J5 else failLocked J5)" using l(2) 3(1) by simp
      then show ?thesis using 3 r same(3) key fz
        by (intro exI [of _ "Some key"]) (auto simp: failLocked_def)
    qed
  qed
qed

section \<open>Runs\<close>

text \<open>
  What has become of the file: in step with the memory; holding a whole chain that the memory does not have, because the write
  of that chain reported a failure; or holding a part of a line, or a line that does not continue the chain before it.
\<close>

datatype file_status = Synced | Ahead | Broken

record journal_system =
  js_journal :: journal
  js_file :: "string option"
  js_keyfile :: "string option"
  js_pending :: "admitted_event list list"
  js_status :: file_status

text \<open>The chains that were written into the file, the latest first.\<close>

definition held :: "string option \<Rightarrow> string option \<Rightarrow> audit_event list \<Rightarrow> audit_event list list \<Rightarrow> audit_event list list" where
  "held file file' c H = (if file' = file then H else c # H)"

text \<open>
  The status after a call of \<open>persist\<close> with the result \<open>r\<close>.  A compaction that succeeds replaces the file by what is in memory;
  an append that succeeds continues what is there.  A failure that changed the file leaves a whole chain or a part of one.
\<close>

definition next_status :: "journal_env \<Rightarrow> journal \<Rightarrow> audit_event \<Rightarrow> instant \<Rightarrow> instant \<Rightarrow> string option \<Rightarrow> string option \<Rightarrow> audit_event option
    \<Rightarrow> file_status \<Rightarrow> file_status" where
  "next_status E J e created now file file' r st =
     (if file' = file then st
      else if r \<noteq> None then (if persist_compacts E J e now \<or> st = Synced then Synced else Broken)
      else if content file' = chain_text (persist_chain E J e created now) then Ahead
      else Broken)"

text \<open>
  The server is installed with no journal or a legacy one, and is started and crashes any number of times.  A call of
  \<open>Record\<close> first admits its event, bounded, and then persists what it admitted event by event; other calls and the
  ticker come between.  Every write ends in any way it can.  A crash is a start from the state it leaves: a write that a crash
  cut off is one that failed.  The labels of an event are valid UTF-8, its time and the ticker's are of the server's clock.
  Starts from a file with a broken end are left out: what the load makes of such a file is not modelled here.
\<close>

inductive journal_run :: "journal_env \<Rightarrow> duration \<Rightarrow> duration \<Rightarrow> string \<Rightarrow> audit_event list list \<Rightarrow> journal_system \<Rightarrow> bool"
  for E ar pr dir where
  installed: "journal_run E ar pr dir [] \<lparr>js_journal = new_journal ar pr, js_file = disk, js_keyfile = None, js_pending = [], js_status = Ahead\<rparr>"
    if "disk = None \<or> (\<exists>d es. disk = Some d \<and> decodeJournal E [] d = Some (es, ''legacy''))"
| started: "journal_run E ar pr dir (held (js_file S) file' (jn_events J') H)
      \<lparr>js_journal = J', js_file = file', js_keyfile = keyfile', js_pending = [], js_status = (if jn_writable J' then Synced else Ahead)\<rparr>"
    if "journal_run E ar pr dir H S" "js_status S \<noteq> Broken" "length (so_key so) = 32"
      "journal_New E so now ar pr dir (js_file S) (js_keyfile S) = (J', file', keyfile')"
| recorded: "journal_run E ar pr dir H (S\<lparr>js_journal := J', js_pending := js_pending S @ [evs]\<rparr>)"
    if "journal_run E ar pr dir H S" "labels_utf8 e" "ev_Previous e = []" "ev_Integrity e = []" "details_wf (ev_Details e)"
      "\<forall>i. valid_utf8 (ids i)" "clock_ok E (event_created E e)" "journal_admit E ids (js_journal S) (boundedEvent e) = (J', evs)"
| ticked: "journal_run E ar pr dir H (S\<lparr>js_journal := J', js_pending := js_pending S @ [evs]\<rparr>)"
    if "journal_run E ar pr dir H S" "\<forall>i. valid_utf8 (ids i)" "clock_ok E now"
      "expiredSecuritySummaries E ids (js_journal S) now = (J', evs)"
| persisted: "journal_run E ar pr dir (held (js_file S) file' (persist_chain E (js_journal S) e created now) H)
      (S\<lparr>js_journal := (if r = None then failLocked J' else J'), js_file := file', js_pending := xs @ (if r = None then ys else evs # ys),
         js_status := next_status E (js_journal S) e created now (js_file S) file' r (js_status S)\<rparr>)"
    if "journal_run E ar pr dir H S" "js_pending S = xs @ ((e, created) # evs) # ys"
      "journal_persist E ao wo (js_journal S) (js_file S) e created now = (J', file', r)"

text \<open>What the file is to the memory of a journal that accepts events.\<close>

definition in_step :: "journal_env \<Rightarrow> string \<Rightarrow> audit_event list list \<Rightarrow> file_status \<Rightarrow> journal \<Rightarrow> string option \<Rightarrow> bool" where
  "in_step E key H st J file \<longleftrightarrow> mem_good E key J \<and> (case st of
     Synced \<Rightarrow> content file = chain_text (jn_events J)
   | Ahead \<Rightarrow> (\<exists>es \<in> set H. whole_chain E key es \<and> content file = chain_text es)
   | Broken \<Rightarrow> True)"

definition system_ok :: "journal_env \<Rightarrow> audit_event list list \<Rightarrow> journal_system \<Rightarrow> bool" where
  "system_ok E H S \<longleftrightarrow> (\<exists>found. js_keyfile S = map_option createAuditKey found \<and> (\<forall>key. found = Some key \<longrightarrow> length key = 32)
     \<and> (js_status S \<noteq> Broken \<longrightarrow> file_ok E found H (js_file S)) \<and> (\<forall>c \<in> set H. \<exists>key. found = Some key \<and> good_chain E key [] c)
     \<and> (jn_writable (js_journal S) \<longrightarrow> (\<exists>key. found = Some key \<and> in_step E key H (js_status S) (js_journal S) (js_file S))))
   \<and> flood_utf8 (jn_flood (js_journal S)) \<and> list_all (list_all (pending_ok E)) (js_pending S)
   \<and> (\<not> jn_writable (js_journal S) \<longrightarrow> concat (js_pending S) = [])"

lemma writable_step:
  assumes "system_ok E H S" "jn_writable (js_journal S)"
  obtains key where "js_keyfile S = Some (createAuditKey key)" "length key = 32" "js_status S \<noteq> Broken \<longrightarrow> file_ok E (Some key) H (js_file S)"
    "\<forall>c \<in> set H. good_chain E key [] c" "in_step E key H (js_status S) (js_journal S) (js_file S)"
proof -
  obtain found where f: "js_keyfile S = map_option createAuditKey found" "\<forall>key. found = Some key \<longrightarrow> length key = 32"
    "js_status S \<noteq> Broken \<longrightarrow> file_ok E found H (js_file S)" "\<forall>c \<in> set H. \<exists>key. found = Some key \<and> good_chain E key [] c"
    "jn_writable (js_journal S) \<longrightarrow> (\<exists>key. found = Some key \<and> in_step E key H (js_status S) (js_journal S) (js_file S))"
    using assms(1) unfolding system_ok_def by (elim conjE exE) (rule that)
  from f(5) assms(2) obtain key where k: "found = Some key" "in_step E key H (js_status S) (js_journal S) (js_file S)" by (elim impE exE conjE)
  show ?thesis by (rule that [of key]) (use f(1-4) k in simp_all)
qed

lemma system_okI:
  assumes "js_keyfile S = Some (createAuditKey key)" "length key = 32" "js_status S \<noteq> Broken \<longrightarrow> file_ok E (Some key) H (js_file S)"
    "\<forall>c \<in> set H. good_chain E key [] c" "in_step E key H (js_status S) (js_journal S) (js_file S)" "jn_writable (js_journal S)"
    "flood_utf8 (jn_flood (js_journal S))" "list_all (list_all (pending_ok E)) (js_pending S)"
  shows "system_ok E H S"
  unfolding system_ok_def by (intro conjI exI [of _ "Some key"]) (use assms in simp_all)

lemma in_step_same [simp]:
  "in_step E key H st (J\<lparr>jn_flood := g\<rparr>) f = in_step E key H st J f"
  "in_step E key H st (failLocked J) f = in_step E key H st J f"
  by (cases st; simp add: in_step_def failLocked_def; simp add: mem_good_def)+

lemma held_good:
  assumes "\<forall>c \<in> set H. \<exists>key. found = Some key \<and> good_chain E key [] c" "found \<noteq> None \<longrightarrow> found' = found"
    "file' = file \<or> (\<exists>key. found' = Some key \<and> whole_chain E key c)"
  shows "\<forall>x \<in> set (held file file' c H). \<exists>key. found' = Some key \<and> good_chain E key [] x"
  using assms by (auto simp: held_def whole_chain_def)

text \<open>A file is as good as before when it stays, and it is good when it is a whole chain.\<close>

lemma held_file:
  assumes "file' = file \<Longrightarrow> file_ok E found H file" "found \<noteq> None \<longrightarrow> found' = found"
    "file' \<noteq> file \<Longrightarrow> \<exists>key. found' = Some key \<and> whole_chain E key c \<and> content file' = chain_text c"
  shows "file_ok E found' (held file file' c H) file'"
proof (cases "file' = file")
  case True
  have "found' = found \<or> found = None" using assms(2) by blast
  then show ?thesis using True assms(1) by (auto simp: held_def file_ok_def)
next
  case False
  then show ?thesis using assms(3) by (auto simp: held_def file_ok_def)
qed

text \<open>The step of the file and of its status in a call of \<open>persist\<close>.\<close>

lemma persist_step:
  assumes "env_ok E" "in_step E key H st J file" "st \<noteq> Broken \<longrightarrow> file_ok E (Some key) H file"
    "proper_event E e" "ev_Previous e = []" "created = event_created E e"
    "journal_persist E ao wo J file e created now = (J', file', r)"
    and c: "c = persist_chain E J e created now" and st': "st' = next_status E J e created now file file' r st"
  shows "in_step E key (held file file' c H) st' J' file'" "st' \<noteq> Broken \<longrightarrow> file_ok E (Some key) (held file file' c H) file'"
    "file' = file \<or> whole_chain E key c" "jn_writable J' = jn_writable J"
proof -
  have m: "mem_good E key J" using assms(2) by (simp add: in_step_def)
  have fo: "file_ok E (Some key) (held file file' c H) file'" if "st \<noteq> Broken \<or> file' \<noteq> file" "file' \<noteq> file \<Longrightarrow> whole_chain E key c \<and> content file' = chain_text c"
    by (rule held_file [where found = "Some key"]) (use that assms(3) in auto)
  have "in_step E key (held file file' c H) st' J' file' \<and> (st' \<noteq> Broken \<longrightarrow> file_ok E (Some key) (held file file' c H) file')
    \<and> (file' = file \<or> whole_chain E key c) \<and> jn_writable J' = jn_writable J"
  proof (cases rule: persist_cases [OF assms(1) m assms(4-7) c, case_names same compacted replaced appended left])
    case same
    then have "st' = st" by (simp add: st' next_status_def)
    with same assms(2,3) show ?thesis by (simp add: held_def)
  next
    case compacted
    then have ct: "content file' = chain_text c" by (simp add: content_def)
    show ?thesis
    proof (cases "file' = file")
      case True
      then have s: "st' = st" by (simp add: st' next_status_def)
      have "in_step E key H st J' file" using assms(2) compacted(3,4) ct True by (auto simp: in_step_def split: file_status.splits)
      then show ?thesis using True s assms(3) compacted(7) by (simp add: held_def)
    next
      case False
      then have "st' = Synced" using compacted(1,2) by (simp add: st' next_status_def)
      with False compacted ct fo show ?thesis by (simp add: in_step_def)
    qed
  next
    case replaced
    then have ct: "content file' = chain_text c" by (simp add: content_def)
    show ?thesis
    proof (cases "file' = file")
      case True
      then have "st' = st" by (simp add: st' next_status_def)
      with True replaced(3) assms(2,3) show ?thesis by (simp add: held_def)
    next
      case False
      then have "st' = Ahead" using replaced(2) ct by (simp add: st' next_status_def c)
      with False replaced m ct fo show ?thesis by (auto simp: in_step_def held_def)
    qed
  next
    case (appended e2)
    then have ct: "content file' = content file @ marshal e2 @ [newline]" by (simp add: content_def)
    then have ne: "file' \<noteq> file" by auto
    show ?thesis
    proof (cases "st = Synced")
      case True
      then have "content file' = chain_text c" using assms(2) ct by (simp add: in_step_def appended(5) chain_text_snoc)
      moreover have "st' = Synced" using True ne appended(2) by (simp add: st' next_status_def)
      ultimately show ?thesis using appended fo ne by (simp add: in_step_def)
    next
      case False
      then have "st' = Broken" using ne appended(1,2) by (simp add: st' next_status_def)
      with appended show ?thesis by (simp add: in_step_def)
    qed
  next
    case (left n e2)
    show ?thesis
    proof (cases "file' = file")
      case True
      then have "st' = st" by (simp add: st' next_status_def)
      with True left(3) assms(2,3) show ?thesis by (simp add: held_def)
    next
      case False
      show ?thesis
      proof (cases "content file' = chain_text c")
        case True
        then have "st' = Ahead" using False left(2) by (simp add: st' next_status_def c)
        with False True left m fo show ?thesis by (auto simp: in_step_def held_def)
      next
        case no: False
        then have "st' = Broken" using False left(2) by (simp add: st' next_status_def c)
        with left m show ?thesis by (simp add: in_step_def)
      qed
    qed
  qed
  then show "in_step E key (held file file' c H) st' J' file'" "st' \<noteq> Broken \<longrightarrow> file_ok E (Some key) (held file file' c H) file'"
    "file' = file \<or> whole_chain E key c" "jn_writable J' = jn_writable J" by blast+
qed

lemma bounded_created: "event_created E (boundedEvent e) = event_created E e"
  by (simp add: event_created_def boundedEvent_def boundedEventText_def)

lemma run_ok:
  assumes "env_ok E" "dir \<noteq> []"
  shows "journal_run E ar pr dir H S \<Longrightarrow> system_ok E H S"
proof (induction rule: journal_run.induct)
  case (installed disk)
  then show ?case
    by (auto simp: system_ok_def file_ok_def content_def new_journal_def flood_utf8_def zero_guard_def intro: exI [of _ None])
next
  case (started H S so now J' file' keyfile')
  obtain found where f: "js_keyfile S = map_option createAuditKey found" "\<forall>key. found = Some key \<longrightarrow> length key = 32"
    "file_ok E found H (js_file S)" "\<forall>c \<in> set H. \<exists>key. found = Some key \<and> good_chain E key [] c"
    using started.IH started.hyps(2) by (auto simp: system_ok_def)
  obtain found' where n: "keyfile' = map_option createAuditKey found'" "\<forall>key. found' = Some key \<longrightarrow> length key = 32"
    "found \<noteq> None \<longrightarrow> found' = found" "flood_utf8 (jn_flood J')"
    "file' = js_file S \<or> (\<exists>key. found' = Some key \<and> file' = Some (chain_text (jn_events J')) \<and> whole_chain E key (jn_events J'))"
    "jn_writable J' \<longrightarrow> (\<exists>key. found' = Some key \<and> mem_ok E key J' file')"
    using start_ok [OF assms f(2) started.hyps(3) f(3) started.hyps(4) [unfolded f(1)]] by blast
  have "file_ok E found' (held (js_file S) file' (jn_events J') H) file'"
    by (rule held_file [OF _ n(3)]) (use f(3) n(5) in \<open>auto simp: content_def\<close>)
  moreover have "\<forall>x \<in> set (held (js_file S) file' (jn_events J') H). \<exists>key. found' = Some key \<and> good_chain E key [] x"
    by (rule held_good [OF f(4) n(3)]) (use n(5) in auto)
  ultimately show ?case using n(1,2,4,6) by (auto simp: system_ok_def in_step_def mem_ok_def)
next
  case (recorded H S e ids J' evs)
  have tok: "event_text_ok (boundedEvent e)"
    using bounded_utf8 bounded_wf recorded.hyps by (simp add: event_text_ok_def)
  have flood: "flood_utf8 (jn_flood (js_journal S))" using recorded.IH by (simp add: system_ok_def)
  note a = admit_ok [OF flood recorded.hyps(6) tok recorded.hyps(7) [folded bounded_created [of E e]] recorded.hyps(8)]
  have m: "in_step E key H st J' f = in_step E key H st (js_journal S) f" "jn_writable J' = jn_writable (js_journal S)" for key f st
    using a(3) by auto (auto simp: failLocked_def)
  have "concat (js_pending S @ [evs]) = []" if "\<not> jn_writable J'"
    using that a(3) m recorded.IH by (auto simp: system_ok_def)
  then show ?case using recorded.IH a(1,2) m by (simp add: system_ok_def)
next
  case (ticked H S ids now J' evs)
  have flood: "flood_utf8 (jn_flood (js_journal S))" using ticked.IH by (simp add: system_ok_def)
  obtain g news where sw: "flood_sweep E ids now (jn_flood (js_journal S)) = (g, news)" by fastforce
  note s = sweep_text_ok [OF flood ticked.hyps(2,3) sw]
  have J': "if jn_writable (js_journal S) then J' = js_journal S\<lparr>jn_flood := g\<rparr> \<and> evs = summarizedEvents E news now else J' = js_journal S \<and> evs = []"
    using ticked.hyps(4) sw by (simp add: expiredSecuritySummaries_def split: if_splits)
  show ?case
  proof (cases "jn_writable (js_journal S)")
    case True
    then show ?thesis using ticked.IH J' s(1) summaries_pending [OF s(2) ticked.hyps(3)] by (simp add: system_ok_def)
  next
    case False
    then show ?thesis using ticked.IH J' by (simp add: system_ok_def)
  qed
next
  case (persisted H S xs e created evs ys ao wo now J' file' r)
  have w: "jn_writable (js_journal S)" using persisted.IH persisted.hyps(2) by (auto simp: system_ok_def)
  obtain key where f: "js_keyfile S = Some (createAuditKey key)" "length key = 32"
    "js_status S \<noteq> Broken \<longrightarrow> file_ok E (Some key) H (js_file S)" "\<forall>c \<in> set H. good_chain E key [] c"
    "in_step E key H (js_status S) (js_journal S) (js_file S)"
    by (rule writable_step [OF persisted.IH w])
  have "pending_ok E (e, created)" using persisted.IH persisted.hyps(2) by (simp add: system_ok_def)
  then have e: "proper_event E e" "ev_Previous e = []" "created = event_created E e" by (simp_all add: pending_ok_def)
  note p = persist_step [OF assms(1) f(5,3) e persisted.hyps(3) refl refl]
  let ?H = "held (js_file S) file' (persist_chain E (js_journal S) e created now) H"
  have h: "\<forall>x \<in> set ?H. good_chain E key [] x" using f(4) p(3) by (auto simp: held_def whole_chain_def)
  have flood: "jn_flood J' = jn_flood (js_journal S)"
    using persisted.hyps(3) by (auto simp: journal_persist_def journal_compact_def Let_def split: if_splits option.splits prod.splits)
  have pend: "flood_utf8 (jn_flood J')" "list_all (list_all (pending_ok E)) (xs @ (if r = None then ys else evs # ys))"
    using persisted.IH persisted.hyps(2) flood by (simp_all add: system_ok_def)
  have jf: "jn_flood (if r = None then failLocked J' else J') = jn_flood J'" "jn_writable (if r = None then failLocked J' else J')"
    "in_step E key h st (if r = None then failLocked J' else J') f = in_step E key h st J' f" for h st f
    using p(4) w by (simp_all split: if_splits) (simp_all add: failLocked_def)
  show ?case by (rule system_okI [of _ key]) (use p(1,2) f(1,2) h pend jf in simp_all)
qed

section \<open>What is accepted was written\<close>

text \<open>The events of a file that is accepted as signed.\<close>

fun accepted :: "journal_env \<Rightarrow> string \<Rightarrow> string \<Rightarrow> audit_event list \<Rightarrow> bool" where
  "accepted E key p [] = True"
| "accepted E key p (e # es) \<longleftrightarrow> validSignedEvent E key e p \<and> event_text_ok e \<and> accepted E key (ev_Integrity e) es"

lemma decode_event_modes:
  assumes "decodeJournalEvent E key line p = Some (e, m)"
  shows "m = ''legacy'' \<or> m = ''signed'' \<and> validSignedEvent E key e p \<and> event_text_ok e"
  using assms decode_event_utf8
  by (auto simp: decodeJournalEvent_def validateLegacyEvent_def event_text_ok_def split: option.splits if_splits)

lemma decode_legacy_stays: "decode_loop E key p ''legacy'' evs raws = Some (es, m) \<Longrightarrow> m = ''legacy''"
proof (induction raws arbitrary: p evs)
  case (Cons raw raws)
  then show ?case
    by (auto simp: Let_def decodeJournalLine_def split: if_splits option.splits prod.splits)
qed simp

lemma decode_loop_grows:
  "decode_loop E key p mode evs raws = Some (es, m) \<Longrightarrow> length evs \<le> length es \<and> (length es = length evs \<longrightarrow> m = mode)"
proof (induction raws arbitrary: p mode evs)
  case (Cons raw raws)
  show ?case
  proof (cases "trim_space raw = []")
    case True
    then show ?thesis using Cons by (simp split: if_splits)
  next
    case False
    then obtain e em where "decode_loop E key (ev_Integrity e) em (evs @ [e]) raws = Some (es, m)"
      using Cons.prems by (auto simp: Let_def split: if_splits option.splits)
    from Cons.IH [OF this] show ?thesis by simp
  qed
qed simp

lemma decode_accepted:
  "decode_loop E key p mode evs raws = Some (es, ''signed'') \<Longrightarrow> \<exists>rest. es = evs @ rest \<and> accepted E key p rest"
proof (induction raws arbitrary: p mode evs)
  case Nil
  then show ?case by (intro exI [of _ "[]"]) simp
next
  case (Cons raw raws)
  show ?case
  proof (cases "trim_space raw = []")
    case True
    then show ?thesis using Cons by (simp split: if_splits)
  next
    case False
    then obtain e em where e: "decodeJournalLine E key (trim_space raw) p mode (length evs) = Some (e, em)"
      "decode_loop E key (ev_Integrity e) em (evs @ [e]) raws = Some (es, ''signed'')"
      using Cons.prems by (auto simp: Let_def split: if_splits option.splits)
    have "decodeJournalEvent E key (trim_space raw) p = Some (e, em)"
      using e(1) by (auto simp: decodeJournalLine_def split: if_splits option.splits prod.splits)
    moreover have "em \<noteq> ''legacy''" using decode_legacy_stays e(2) by fastforce
    ultimately have v: "validSignedEvent E key e p" "event_text_ok e" using decode_event_modes by blast+
    obtain rest where "es = (evs @ [e]) @ rest" "accepted E key (ev_Integrity e) rest" using Cons.IH [OF e(2)] by blast
    then show ?thesis using v by (intro exI [of _ "e # rest"]) simp
  qed
qed

lemma accepted_nth:
  "accepted E key p es \<Longrightarrow> i < length es \<Longrightarrow>
    validSignedEvent E key (es ! i) (if i = 0 then p else ev_Integrity (es ! (i - 1))) \<and> event_text_ok (es ! i)"
proof (induction es arbitrary: p i)
  case (Cons e es)
  then show ?case
  proof (cases i)
    case (Suc j)
    then show ?thesis using Cons.IH [of "ev_Integrity e" j] Cons.prems by (cases j) auto
  qed simp
qed simp

lemma good_chain_nth:
  "good_chain E key p es \<Longrightarrow> i < length es \<Longrightarrow> good_event E key (if i = 0 then p else ev_Integrity (es ! (i - 1))) (es ! i)"
proof (induction es arbitrary: p i)
  case (Cons e es)
  then show ?case
  proof (cases i)
    case (Suc j)
    then show ?thesis using Cons.IH [of "ev_Integrity e" j] Cons.prems by (cases j) auto
  qed simp
qed simp

text \<open>The signed text determines the event but for its signature.\<close>

lemma signed_text_inj:
  assumes "event_text_ok a" "event_text_ok b" "signed_text a = signed_text b"
  shows "a\<lparr>ev_Integrity := []\<rparr> = b\<lparr>ev_Integrity := []\<rparr>"
proof -
  have d: "decodeStrictJSON (signed_text e) = Some (e\<lparr>ev_Integrity := []\<rparr>)" if "event_text_ok e" for e
    unfolding signed_text_def using that by (intro decode_event_marshal) (auto simp: event_text_ok_def event_utf8_defs)
  show ?thesis using d [OF assms(1)] d [OF assms(2)] assms(3) by simp
qed

lemma previous_eq: "a\<lparr>ev_Integrity := []\<rparr> = b\<lparr>ev_Integrity := []\<rparr> \<Longrightarrow> ev_Previous a = ev_Previous b"
  by (metis audit_event.select_convs(13) audit_event.surjective audit_event.update_convs(14))

lemma accepted_prefix:
  assumes "env_ok E" "length key = 32" "accepted E key [] es" "good_chain E key [] c"
    "inj_on (env_hmac E key) T" "\<forall>e \<in> set es. signed_text e \<in> T" "\<forall>e \<in> set c. signed_text e \<in> T"
  shows "i < length es \<Longrightarrow> j < length c \<Longrightarrow> signed_text (es ! i) = signed_text (c ! j)
    \<Longrightarrow> i = j \<and> (\<forall>k \<le> i. signed_text (es ! k) = signed_text (c ! k))"
proof (induction i arbitrary: j)
  case 0
  have tx: "event_text_ok (c ! j)" "event_text_ok (es ! 0)"
    using good_chain_utf8 [OF assms(1,2,4)] accepted_nth [OF assms(3) 0(1)] 0(2) by (auto simp: event_text_ok_def)
  have p: "ev_Previous (c ! j) = []"
    using accepted_nth [OF assms(3) 0(1)] previous_eq [OF signed_text_inj [OF tx(2,1) 0(3)]] by (simp add: validSignedEvent_def)
  have "j = 0"
  proof (rule ccontr)
    assume "j \<noteq> 0"
    then have "ev_Previous (c ! j) = ev_Integrity (c ! (j - 1))" using good_chain_nth [OF assms(4) 0(2)] by (simp add: good_event_def)
    moreover have "ev_Integrity (c ! (j - 1)) = event_tag E key (c ! (j - 1))"
      using good_chain_utf8 [OF assms(1,2,4)] 0(2) by (simp add: less_imp_diff_less)
    ultimately show False using p event_tag_facts(1) [OF assms(1)] by metis
  qed
  then show ?case using 0(3) by simp
next
  case (Suc i)
  have v: "validSignedEvent E key (es ! Suc i) (ev_Integrity (es ! i))" "event_text_ok (es ! Suc i)"
    "validSignedEvent E key (es ! i) (if i = 0 then [] else ev_Integrity (es ! (i - 1)))"
    using accepted_nth [OF assms(3) Suc.prems(1)] accepted_nth [OF assms(3), of i] Suc.prems(1) by auto
  have tc: "event_text_ok (c ! k)" "ev_Integrity (c ! k) = event_tag E key (c ! k)" if "k < length c" for k
    using good_chain_utf8 [OF assms(1,2,4)] that by (auto simp: event_text_ok_def)
  have "ev_Previous (c ! j) = ev_Integrity (es ! i)"
    using v(1) previous_eq [OF signed_text_inj [OF v(2) tc(1) [OF Suc.prems(2)] Suc.prems(3)]] by (simp add: validSignedEvent_def)
  moreover have dig: "\<exists>d. hex_decode (ev_Integrity (es ! i)) = Some d \<and> length d = 32"
    using v(3) by (auto simp: validSignedEvent_def validDigest_def split: option.splits)
  then have "ev_Integrity (es ! i) \<noteq> []" by auto
  ultimately obtain j' where j: "j = Suc j'" "ev_Integrity (es ! i) = ev_Integrity (c ! j')"
    using good_chain_nth [OF assms(4) Suc.prems(2)] by (cases j) (auto simp: good_event_def)
  have "sign E key (es ! i) = [] \<or> sign E key (es ! i) = event_tag E key (es ! i)"
    by (auto simp: sign_def signedLine_key [OF assms(1,2)])
  then have "hex_decode (ev_Integrity (es ! i)) = Some (env_hmac E key (signed_text (es ! i)))"
    using v(3) dig event_tag_facts(4) [OF assms(1)] by (auto simp: validSignedEvent_def)
  moreover have "hex_decode (ev_Integrity (es ! i)) = Some (env_hmac E key (signed_text (c ! j')))"
    using j tc(2) [of j'] Suc.prems(2) event_tag_facts(4) [OF assms(1)] by simp
  ultimately have "signed_text (es ! i) = signed_text (c ! j')"
    using assms(5-7) Suc.prems(1,2) j(1) by (auto dest: inj_onD)
  from Suc.IH [OF _ _ this] Suc.prems j(1) show ?case by (auto simp: le_Suc_eq)
qed

section \<open>Properties\<close>


text \<open>
  C37. Suppose an attacker who does not know the key replaces the file with one that the journal accepts as signed.  Its signatures
  verify only for texts the journal has itself signed into its file, and the hash has no collisions on those.  Then the events
  of the accepted file are the beginning of a chain the journal has written: nothing was changed, inserted, reordered or left
  out but at the end.
\<close>

theorem journal_tamper_evident:
  assumes "env_ok E" "dir \<noteq> []" "journal_run E ar pr dir H S" "js_keyfile S = Some (createAuditKey key)" "length key = 32"
    "inj_on (env_hmac E key) (\<Union>c \<in> set H. signed_text ` set c)"
    "decodeJournal E key data = Some (es, ''signed'')"
    "\<forall>e \<in> set es. signed_text e \<in> (\<Union>c \<in> set H. signed_text ` set c)"
  shows "\<exists>c \<in> set H. map (ev_Integrity_update (\<lambda>_. [])) es = map (ev_Integrity_update (\<lambda>_. [])) (take (length es) c)"
proof -
  obtain found where f: "js_keyfile S = map_option createAuditKey found" "\<forall>key. found = Some key \<longrightarrow> length key = 32"
    "\<forall>c \<in> set H. \<exists>key. found = Some key \<and> good_chain E key [] c"
    using run_ok [OF assms(1-3)] by (auto simp: system_ok_def)
  then have "found = Some key" using assms(4,5) createAuditKey_inj by (cases found) auto
  then have good: "\<forall>c \<in> set H. good_chain E key [] c" using f(3) by simp
  have acc: "accepted E key [] es"
    using decode_accepted [of E key "[]" "[]" "[]" _ es] assms(7) by (auto simp: decodeJournal_def)
  have "es \<noteq> []"
    using decode_loop_grows [of E key "[]" "[]" "[]" _ es "''signed''"] assms(7) by (auto simp: decodeJournal_def)
  define i where "i = length es - 1"
  have i: "i < length es" "length es = Suc i" using \<open>es \<noteq> []\<close> by (auto simp: i_def)
  obtain c j where c: "c \<in> set H" "j < length c" "signed_text (es ! i) = signed_text (c ! j)"
  proof -
    from assms(8) nth_mem [OF i(1)] have "signed_text (es ! i) \<in> (\<Union>c \<in> set H. signed_text ` set c)" by blast
    then obtain c x where "c \<in> set H" "x \<in> set c" "signed_text (es ! i) = signed_text x" by blast
    then show ?thesis using that by (metis in_set_conv_nth)
  qed
  have g: "good_chain E key [] c" using good c(1) by blast
  have T: "\<forall>e \<in> set c. signed_text e \<in> (\<Union>c \<in> set H. signed_text ` set c)" using c(1) by blast
  note p = accepted_prefix [OF assms(1,5) acc g assms(6,8) T i(1) c(2,3)]
  have "map (ev_Integrity_update (\<lambda>_. [])) es = map (ev_Integrity_update (\<lambda>_. [])) (take (length es) c)"
  proof (rule nth_equalityI)
    show "length (map (ev_Integrity_update (\<lambda>_. [])) es) = length (map (ev_Integrity_update (\<lambda>_. [])) (take (length es) c))"
      using p c(2) i(2) by simp
  next
    fix k assume "k < length (map (ev_Integrity_update (\<lambda>_. [])) es)"
    then have k: "k < length es" "k \<le> i" "k < length c" using p c(2) i by auto
    have "event_text_ok (es ! k)" "event_text_ok (c ! k)"
      using accepted_nth [OF acc k(1)] good_chain_utf8 [OF assms(1,5) g] k(3) by (auto simp: event_text_ok_def)
    then have "(es ! k)\<lparr>ev_Integrity := []\<rparr> = (c ! k)\<lparr>ev_Integrity := []\<rparr>" using p k(2) by (intro signed_text_inj) auto
    then show "map (ev_Integrity_update (\<lambda>_. [])) es ! k = map (ev_Integrity_update (\<lambda>_. [])) (take (length es) c) ! k"
      using k by simp
  qed
  then show ?thesis using c(1) by blast
qed

section \<open>A concrete run\<close>

definition sample_key :: string where
  "sample_key = replicate 32 (CHR ''k'')"

definition sample_event :: audit_event where
  "sample_event = zero_event\<lparr>ev_ID := ''1'', ev_Time := ''0'', ev_Category := ''c'', ev_Action := ''a'', ev_Result := ''r''\<rparr>"

definition sample_signed :: audit_event where
  "sample_signed = sample_event\<lparr>ev_Integrity := event_tag sample_env sample_key sample_event\<rparr>"

definition sample_started :: journal where
  "sample_started = (new_journal 0 0)\<lparr>jn_file := ''d/audit.jsonl'', jn_key := sample_key, jn_writable := True\<rparr>"

definition sample_stored :: journal where
  "sample_stored = sample_started\<lparr>jn_events := [sample_signed], jn_meta := [\<lparr>em_created = 0, em_size = length (marshal sample_signed) + 1\<rparr>],
     jn_bytes := length (marshal sample_signed) + 1, jn_nextExpiry := defaultAuditRetention\<rparr>"

lemma sample_env_ok: "env_ok sample_env" "length sample_key = 32"
  by (simp_all add: env_ok_def sample_env_def sample_key_def)

lemma sample_start: "journal_New sample_env \<lparr>so_readKey = True, so_readJournal = True, so_writeKey = Written, so_writeJournal = Written, so_key = sample_key\<rparr>
    0 0 0 ''d'' None None = (sample_started, None, Some (createAuditKey sample_key))"
  by (simp add: journal_New_def journal_load_def validateDataDir_def maxDataDirBytes_def new_journal_def readAuditKey_def loadJournal_def
      load_finish_def pruneLocked_def retained_def maxActivityEvents_def maxAuditJournalBytes_def earliestExpiry_def sample_started_def Let_def)

lemma sample_length: "length (marshal sample_event) \<le> 100"
proof -
  have e: "escaped ''id'' = ''id''" "escaped ''time'' = ''time''" "escaped ''category'' = ''category''" "escaped ''action'' = ''action''"
    "escaped ''result'' = ''result''" "escaped ''1'' = ''1''" "escaped ''0'' = ''0''" "escaped ''c'' = ''c''" "escaped ''a'' = ''a''" "escaped ''r'' = ''r''"
    by (rule escaped_plain, simp add: byte_def)+
  show ?thesis
    by (simp add: marshal_def event_members_def omit_empty_def write_object_def write_member_def write_value_def json_quote_def
        sample_event_def zero_event_def e)
qed

lemma sample_texts: "labels_utf8 sample_event" "details_wf (ev_Details sample_event)" "ev_Previous sample_event = []" "ev_Integrity sample_event = []"
proof -
  have "valid_utf8 ''1''" "valid_utf8 ''0''" "valid_utf8 ''c''" "valid_utf8 ''a''" "valid_utf8 ''r''"
    by (rule valid_utf8_ascii, simp add: byte_def)+
  then show "labels_utf8 sample_event" by (simp add: labels_utf8_def sample_event_def zero_event_def)
qed (simp_all add: sample_event_def zero_event_def details_wf_def)

lemma sample_bounded: "boundedEvent sample_event = sample_event"
proof -
  have "boundedText [] n = []" for n by (simp add: boundedText_def to_valid_utf8_def replace_nul_def)
  then have "boundedEventText sample_event n = sample_event" for n by (simp add: boundedEventText_def sample_event_def zero_event_def)
  then show ?thesis by (simp add: boundedEvent_def)
qed

lemma sample_admit: "journal_admit sample_env (\<lambda>_. []) sample_started (boundedEvent sample_event) = (sample_started, [(sample_event, 0)])"
proof -
  have v: "validEvent sample_env sample_event False"
    using sample_length
    by (simp add: validEvent_def maxAuditEventBytes_def)
      (simp add: validCoreFields_def validOptionalFields_def validDetails_def validRequiredString_def
        validOptionalString_def sample_event_def zero_event_def sample_env_def)
  have "flood_admit sample_env (\<lambda>_. []) sample_event 0 zero_guard = (zero_guard, sample_event, True, [])"
    by (simp add: flood_admit_def flood_sweep_def zero_guard_def sample_event_def zero_event_def securityEventWindow_def duration_defs)
  moreover have "sample_started\<lparr>jn_flood := zero_guard\<rparr> = sample_started" "jn_flood sample_started = zero_guard" "jn_writable sample_started"
    by (simp_all add: sample_started_def new_journal_def)
  ultimately show ?thesis
    using v unfolding sample_bounded by (simp add: journal_admit_def summarizedEvents_def sample_env_def)
qed

lemma sample_persist: "journal_persist sample_env Appended Refused sample_started None sample_event 0 0 =
  (sample_stored, Some (chain_text [sample_signed]), Some sample_signed)"
proof -
  have st: "signed_text sample_event = marshal sample_event"
    by (simp add: signed_text_def sample_event_def zero_event_def)
  have "signedLine sample_env sample_key sample_event = (sample_signed, Some (marshal sample_signed))"
    using sample_length by (simp add: signedLine_key [OF sample_env_ok] st overhead maxAuditEventBytes_def sample_signed_def)
  moreover from signed_length(1) [OF sample_env_ok this] have "length (marshal sample_signed) \<le> maxAuditEventBytes" .
  moreover have "ev_Category sample_signed = ''c''" by (simp add: sample_signed_def sample_event_def)
  moreover have "expiry sample_started ''c'' 0 = defaultAuditRetention" by (simp add: expiry_def sample_started_def new_journal_def)
  moreover have "jn_key sample_started = sample_key" "jn_events sample_started = []" "jn_file sample_started \<noteq> []" "jn_bytes sample_started = 0"
    "jn_meta sample_started = []" "jn_nextExpiry sample_started = 0"
    by (simp_all add: sample_started_def new_journal_def)
  ultimately show ?thesis
    by (simp add: journal_persist_def chain_event_def compactionDue_def Let_def appendAuditLine_def content_def maxAuditEventBytes_def maxAuditJournalBytes_def
        maxActivityEvents_def defaultAuditRetention_def sample_stored_def chain_text_def file_text_def)
qed

lemma sample_chain: "persist_chain sample_env sample_started sample_event 0 0 = [sample_signed]"
proof -
  have "signed_text sample_event = marshal sample_event" by (simp add: signed_text_def sample_event_def zero_event_def)
  then have "signedLine sample_env sample_key sample_event = (sample_signed, Some (marshal sample_signed))"
    using sample_length by (simp add: signedLine_key [OF sample_env_ok] overhead maxAuditEventBytes_def sample_signed_def)
  moreover from signed_length(1) [OF sample_env_ok this] have "length (marshal sample_signed) \<le> maxAuditEventBytes" .
  ultimately show ?thesis
    by (simp add: persist_chain_def chain_event_def compactionDue_def sample_started_def new_journal_def maxActivityEvents_def
        maxAuditEventBytes_def maxAuditJournalBytes_def)
qed

lemma sample_journal: "journal_run sample_env 0 0 ''d'' [[sample_signed]]
  \<lparr>js_journal = sample_stored, js_file = Some (chain_text [sample_signed]), js_keyfile = Some (createAuditKey sample_key), js_pending = [[]], js_status = Synced\<rparr>"
proof -
  let ?so = "\<lparr>so_readKey = True, so_readJournal = True, so_writeKey = Written, so_writeJournal = Written, so_key = sample_key\<rparr>"
  have i: "journal_run sample_env 0 0 ''d'' [] \<lparr>js_journal = new_journal 0 0, js_file = None, js_keyfile = None, js_pending = [], js_status = Ahead\<rparr>"
    by (rule installed) simp
  have s: "journal_run sample_env 0 0 ''d'' [] \<lparr>js_journal = sample_started, js_file = None, js_keyfile = Some (createAuditKey sample_key), js_pending = [], js_status = Synced\<rparr>"
  proof -
    let ?S = "\<lparr>js_journal = new_journal 0 0, js_file = None, js_keyfile = None, js_pending = [], js_status = Ahead\<rparr>"
    have l: "length (so_key ?so) = 32" by (simp add: sample_env_ok)
    have n: "journal_New sample_env ?so 0 0 0 ''d'' (js_file ?S) (js_keyfile ?S) = (sample_started, None, Some (createAuditKey sample_key))"
      by (simp add: sample_start)
    have w: "jn_writable sample_started" by (simp add: sample_started_def)
    from started [OF i _ l n] show ?thesis by (simp add: held_def w)
  qed
  have u: "\<forall>i :: nat. valid_utf8 ((\<lambda>_. []) i)" by simp
  have "valid_utf8 ''now''" by (rule valid_utf8_ascii) (simp add: byte_def)
  then have "clock_ok sample_env (event_created sample_env sample_event)" by (simp add: clock_ok_def event_created_def sample_env_def)
  from recorded [OF s sample_texts(1,3,4,2) u this] sample_admit
  have r: "journal_run sample_env 0 0 ''d'' [] \<lparr>js_journal = sample_started, js_file = None, js_keyfile = Some (createAuditKey sample_key),
      js_pending = [[(sample_event, 0)]], js_status = Synced\<rparr>" by simp
  let ?S = "\<lparr>js_journal = sample_started, js_file = None, js_keyfile = Some (createAuditKey sample_key), js_pending = [[(sample_event, 0)]], js_status = Synced\<rparr>"
  have pend: "js_pending ?S = [] @ ((sample_event, 0) # []) # []" by simp
  have pers: "journal_persist sample_env Appended Refused (js_journal ?S) (js_file ?S) sample_event 0 0 = (sample_stored, Some (chain_text [sample_signed]), Some sample_signed)"
    by (simp add: sample_persist)
  show ?thesis using persisted [OF r pend pers] by (simp add: held_def sample_chain next_status_def)
qed


lemma sample_read: "decodeJournal sample_env sample_key (chain_text [sample_signed]) = Some ([sample_signed], ''signed'')"
  using run_ok [OF sample_env_ok(1) _ sample_journal] decode_chain_text [OF sample_env_ok, of "[sample_signed]"]
  by (auto simp: system_ok_def in_step_def mem_good_def sample_stored_def sample_started_def)

text \<open>
  The finding: the append of an event fails and the roll-back fails too, so that its line stays.  The journal goes on without the
  event, and the next event, here the same one recorded again, is signed after the chain in memory.  The file that results, from
  two calls of which the last reports success, is refused by the next start.
\<close>

lemma kept_line_breaks_journal:
  assumes "n > length (marshal sample_signed)"
  shows "journal_persist sample_env (LeftBehind n) Refused sample_started None sample_event 0 0 =
      (sample_started, Some (chain_text [sample_signed]), None)"
    and "journal_persist sample_env Appended Refused sample_started (Some (chain_text [sample_signed])) sample_event 0 0 =
      (sample_stored, Some (chain_text [sample_signed, sample_signed]), Some sample_signed)"
    and "decodeJournal sample_env sample_key (chain_text [sample_signed, sample_signed]) = None"
proof -
  have st: "signed_text sample_event = marshal sample_event" by (simp add: signed_text_def sample_event_def zero_event_def)
  then have sl: "signedLine sample_env sample_key sample_event = (sample_signed, Some (marshal sample_signed))"
    using sample_length by (simp add: signedLine_key [OF sample_env_ok] overhead maxAuditEventBytes_def sample_signed_def)
  note len = signed_length(1) [OF sample_env_ok sl]
  have f: "ev_Category sample_signed = ''c''" "expiry sample_started ''c'' 0 = defaultAuditRetention" "jn_key sample_started = sample_key"
    "jn_events sample_started = []" "jn_file sample_started \<noteq> []" "jn_bytes sample_started = 0" "jn_meta sample_started = []" "jn_nextExpiry sample_started = 0"
    by (simp_all add: sample_signed_def sample_event_def expiry_def sample_started_def new_journal_def)
  show "journal_persist sample_env (LeftBehind n) Refused sample_started None sample_event 0 0 =
      (sample_started, Some (chain_text [sample_signed]), None)"
    using sl len f assms by (simp add: journal_persist_def chain_event_def compactionDue_def Let_def appendAuditLine_def content_def maxAuditEventBytes_def
        maxAuditJournalBytes_def maxActivityEvents_def defaultAuditRetention_def chain_text_def file_text_def)
  show "journal_persist sample_env Appended Refused sample_started (Some (chain_text [sample_signed])) sample_event 0 0 =
      (sample_stored, Some (chain_text [sample_signed, sample_signed]), Some sample_signed)"
    using sl len f by (simp add: journal_persist_def chain_event_def compactionDue_def Let_def appendAuditLine_def content_def maxAuditEventBytes_def
        maxAuditJournalBytes_def maxActivityEvents_def defaultAuditRetention_def chain_text_def file_text_def sample_stored_def)
  have good: "good_event sample_env sample_key [] sample_signed"
    using run_ok [OF sample_env_ok(1) _ sample_journal] by (auto simp: system_ok_def in_step_def mem_good_def sample_stored_def sample_started_def)
  have tag: "ev_Integrity sample_signed \<noteq> []" using event_tag_facts(1) [OF sample_env_ok(1)] by (simp add: sample_signed_def)
  have asc: "ascii (ev_Integrity sample_signed)" using event_tag_facts(5) [OF sample_env_ok(1)] by (simp add: sample_signed_def)
  have first: "decodeJournalLine sample_env sample_key (marshal sample_signed) [] [] 0 = Some (sample_signed, ''signed'')"
    using len decode_good_event [OF sample_env_ok good] by (simp add: decodeJournalLine_def maxActivityEvents_def)
  have "decodeStrictJSON (marshal sample_signed) = Some sample_signed"
    by (rule decode_event_marshal [OF good_event_utf8 [OF sample_env_ok good]]) simp_all
  moreover have "\<not> validSignedEvent sample_env sample_key sample_signed (ev_Integrity sample_signed)"
    using good tag by (auto simp: validSignedEvent_def good_event_def)
  ultimately have second: "decodeJournalLine sample_env sample_key (marshal sample_signed) (ev_Integrity sample_signed) ''signed'' 1 = None"
    using tag by (simp add: decodeJournalLine_def decodeJournalEvent_def)
  have split: "split_on newline (chain_text [sample_signed, sample_signed]) = [marshal sample_signed, marshal sample_signed, []]"
    unfolding chain_text_def by (subst split_file_text) (simp_all add: marshal_no_newline)
  have "marshal sample_signed \<noteq> []" using marshal_long [of sample_signed] by auto
  then show "decodeJournal sample_env sample_key (chain_text [sample_signed, sample_signed]) = None"
    using first second len by (simp add: decodeJournal_def split trim_marshal Let_def)
qed

lemma journal_tamper_evident_witness:
  "\<exists>c \<in> set [[sample_signed]]. map (ev_Integrity_update (\<lambda>_. [])) [sample_signed] = map (ev_Integrity_update (\<lambda>_. [])) (take (length [sample_signed]) c)"
proof -
  have "\<forall>e \<in> set [sample_signed]. signed_text e \<in> (\<Union>c \<in> set [[sample_signed]]. signed_text ` set c)" by simp
  moreover have "inj_on (env_hmac sample_env sample_key) (\<Union>c \<in> set [[sample_signed]]. signed_text ` set c)" by simp
  ultimately show ?thesis
    using journal_tamper_evident [OF sample_env_ok(1) _ sample_journal _ sample_env_ok(2) _ sample_read] by simp
qed

end
