(* ===== verification/Progress.thy ===== *)
theory Progress
  imports Json Storage
begin

text \<open>
  Watch progress: packages/catalog/progress.go (the states and the plain store), progress_change.go (an update with its
  revision), progress_request_store.go (the operations of the store), progress_coalescing.go (the store that holds back the
  heartbeats of a player and writes them together), the lookups of progress_projection.go, and the synchronisation of
  apps/player/internal/server/media_progress_sync.go.

  A change is what the callers pass as \<open>ProgressChange\<close>: the new state, whether it changed, and whether there was an error.
  \<open>disk\<close> is what a load of the stored document gives, be it a file or the entries of a database; what a write gives is an
  input.  A write of the file can fail although it has replaced the file (theory Storage); a transaction of the database that
  fails has no effect.  Seconds and offsets are doubles that are only compared (theory Prelude).  What is stored is JSON, so a session that is not
  UTF-8 comes back with its bytes replaced (\<open>stored_state\<close>).

  Theory ProgressRuns has the runs of a server and the properties.
\<close>

section \<open>States\<close>

record playback_state =
  st_Seconds :: gofloat
  st_ReaderOffset :: gofloat
  st_ReaderPage :: int
  st_Watched :: bool
  st_Dismissed :: bool
  st_Updated :: instant
  st_Session :: string
  st_Revision :: "64 word"

definition zero_state :: playback_state where
  "zero_state = \<lparr>st_Seconds = Fin 0, st_ReaderOffset = Fin 0, st_ReaderPage = 0, st_Watched = False, st_Dismissed = False,
     st_Updated = 0, st_Session = [], st_Revision = 0\<rparr>"

definition progressRange :: "gofloat \<Rightarrow> rat \<Rightarrow> bool" where
  "progressRange v maximum \<longleftrightarrow> \<not> is_nan v \<and> \<not> is_inf v \<and> fle (Fin 0) v \<and> fle v (Fin maximum)"

definition feq :: "gofloat \<Rightarrow> gofloat \<Rightarrow> bool" where
  "feq x y \<longleftrightarrow> fle x y \<and> fle y x"

definition ValidProgressKey :: "string \<Rightarrow> bool" where
  "ValidProgressKey key \<longleftrightarrow> key \<noteq> [] \<and> length key \<le> 256"

definition ValidPlaybackState :: "playback_state \<Rightarrow> bool" where
  "ValidPlaybackState s \<longleftrightarrow> progressRange (st_Seconds s) (10 ^ 9) \<and> progressRange (st_ReaderOffset s) 1
     \<and> (st_ReaderPage s > 0 \<or> feq (st_ReaderOffset s) (Fin 0)) \<and> st_ReaderPage s \<ge> 0 \<and> st_ReaderPage s \<le> 10000000
     \<and> length (st_Session s) \<le> 128"

definition maximumProgress :: nat where "maximumProgress = 1000000"

type_synonym progress_values = "(string, playback_state) gomap"
type_synonym progress_change = "playback_state \<Rightarrow> playback_state \<times> bool \<times> bool"

definition ValidateStoredProgress :: "progress_values \<Rightarrow> bool" where
  "ValidateStoredProgress values \<longleftrightarrow> length values \<le> maximumProgress \<and> list_all (\<lambda>(k, s). ValidProgressKey k \<and> ValidPlaybackState s) values"

section \<open>Changes\<close>

text \<open>An update of a player; \<open>watched\<close> is a pointer.\<close>

definition ProgressRevision :: "gofloat \<Rightarrow> bool option \<Rightarrow> string \<Rightarrow> 64 word \<Rightarrow> instant \<Rightarrow> progress_change" where
  "ProgressRevision seconds watched session revision now s =
     (if session \<noteq> [] \<and> revision > 0 \<and> st_Session s = session \<and> revision \<le> st_Revision s then (s, False, False)
      else let s1 = s\<lparr>st_Seconds := seconds, st_Updated := now\<rparr>;
               s2 = (if session \<noteq> [] \<and> revision > 0 then s1\<lparr>st_Session := session, st_Revision := revision\<rparr> else s1);
               s3 = (if flt (Fin 0) seconds then s2\<lparr>st_Watched := False, st_Dismissed := False\<rparr> else s2);
               s4 = (case watched of None \<Rightarrow> s3 | Some w \<Rightarrow> s3\<lparr>st_Watched := w\<rparr>)
           in (s4, True, False))"

record media_snapshot =
  sn_Seconds :: gofloat
  sn_Watched :: bool
  sn_Session :: string
  sn_Revision :: "64 word"

text \<open>An update of one of several devices, with the state the device has seen.\<close>

definition synchronizedProgress :: "gofloat \<Rightarrow> media_snapshot \<Rightarrow> media_snapshot \<Rightarrow> instant \<Rightarrow> progress_change" where
  "synchronizedProgress position expected update now s =
     (if st_Session s = sn_Session update \<and> st_Revision s \<ge> sn_Revision update then (s, False, False)
      else if st_Session s \<noteq> sn_Session update
        \<and> (st_Session s \<noteq> sn_Session expected \<or> st_Revision s \<noteq> sn_Revision expected \<or> \<not> feq (st_Seconds s) (sn_Seconds expected)
           \<or> st_Watched s \<noteq> sn_Watched expected) then (s, False, False)
      else ProgressRevision position (Some (sn_Watched update)) (sn_Session update) (sn_Revision update) now s)"

definition reader_change :: "int \<Rightarrow> gofloat \<Rightarrow> instant \<Rightarrow> progress_change" where
  "reader_change page offset now s =
     (s\<lparr>st_ReaderPage := page, st_ReaderOffset := offset, st_Updated := now, st_Dismissed := False\<rparr>, True, False)"

definition dismiss_change :: progress_change where
  "dismiss_change s = (s\<lparr>st_Dismissed := True\<rparr>, True, False)"

definition watched_change :: "bool \<Rightarrow> instant \<Rightarrow> progress_change" where
  "watched_change watched now s = (s\<lparr>st_Seconds := Fin 0, st_Watched := watched, st_Updated := now\<rparr>, True, False)"

section \<open>The store\<close>

record progress_store =
  pg_coalescing :: bool
  pg_flushFailed :: bool
  pg_dirty :: "string list"
  pg_file :: bool
  pg_values :: progress_values
  pg_entries :: bool

record update_result =
  ur_previous :: playback_state
  ur_current :: playback_state
  ur_changed :: bool
  ur_failed :: bool

definition progressChange :: "progress_values \<Rightarrow> string \<Rightarrow> progress_change \<Rightarrow> update_result" where
  "progressChange values key change = (let previous = mget0 zero_state values key; (current, changed, failed) = change previous;
       r = \<lparr>ur_previous = previous, ur_current = current, ur_changed = changed, ur_failed = failed\<rparr> in
     if failed \<or> \<not> changed then r
     else if \<not> ValidProgressKey key \<or> \<not> ValidPlaybackState current \<or> map_of values key = None \<and> length values \<ge> maximumProgress
       then r\<lparr>ur_changed := False, ur_failed := True\<rparr>
     else r)"

text \<open>
  What a load gives for a stored state, and the two writes: \<open>SaveJSON\<close> of the whole document, whose keys are the server's own
  identifiers, and \<open>SaveEntry\<close>, which refuses a key that is not UTF-8.
\<close>

definition stored_state :: "playback_state \<Rightarrow> playback_state" where
  "stored_state s = s\<lparr>st_Session := sanitized (st_Session s)\<rparr>"

definition stored_document :: "progress_values \<Rightarrow> progress_values" where
  "stored_document values = map (\<lambda>(k, s). (k, stored_state s)) values"

text \<open>The plain store: the whole document is written, or the entry, or nothing where there is no file.\<close>

definition storage_commit :: "write_outcome \<Rightarrow> progress_store \<Rightarrow> progress_values \<Rightarrow> string \<Rightarrow> progress_change
    \<Rightarrow> progress_store \<times> progress_values \<times> update_result" where
  "storage_commit wo P disk key change = (let r = progressChange (pg_values P) key change;
       values = mput key (ur_current r) (pg_values P) in
     if ur_failed r \<or> \<not> ur_changed r then (P, disk, r)
     else case (if \<not> pg_file P then (disk, True)
                else if pg_entries P
                then (if wo = Written \<and> valid_utf8 key then (mput key (stored_state (ur_current r)) disk, True) else (disk, False))
                else file_write wo (stored_document values) disk) of
       (disk1, saved) \<Rightarrow> if saved then (P\<lparr>pg_values := values\<rparr>, disk1, r) else (P, disk1, r\<lparr>ur_changed := False, ur_failed := True\<rparr>))"

definition progressHeartbeat :: "playback_state \<Rightarrow> playback_state \<Rightarrow> bool" where
  "progressHeartbeat previous current \<longleftrightarrow>
     flt (Fin 0) (st_Seconds current) \<and> fle (st_Seconds previous) (st_Seconds current)
     \<and> st_Watched current = st_Watched previous \<and> st_Dismissed current = st_Dismissed previous
     \<and> st_ReaderPage current = st_ReaderPage previous \<and> feq (st_ReaderOffset current) (st_ReaderOffset previous)
     \<and> st_Session current = st_Session previous"

definition progress_Update :: "write_outcome \<Rightarrow> progress_store \<Rightarrow> progress_values \<Rightarrow> string \<Rightarrow> progress_change
    \<Rightarrow> progress_store \<times> progress_values \<times> update_result" where
  "progress_Update wo P disk key change =
     (if \<not> pg_coalescing P \<or> \<not> pg_entries P then storage_commit wo P disk key change
      else let r = progressChange (pg_values P) key change;
               deferred = (\<not> ur_failed r \<and> ur_changed r \<and> map_of (pg_values P) key \<noteq> None \<and> \<not> pg_flushFailed P
                 \<and> progressHeartbeat (ur_previous r) (ur_current r))
           in if deferred then (P\<lparr>pg_values := mput key (ur_current r) (pg_values P), pg_dirty := List.insert key (pg_dirty P)\<rparr>, disk, r)
              else if ur_failed r \<or> \<not> ur_changed r then (P, disk, r)
              else if \<not> (wo = Written \<and> valid_utf8 key) then (P, disk, r\<lparr>ur_changed := False, ur_failed := True\<rparr>)
              else (P\<lparr>pg_values := mput key (ur_current r) (pg_values P), pg_dirty := removeAll key (pg_dirty P)\<rparr>,
                    mput key (stored_state (ur_current r)) disk, r))"

text \<open>All entries held back are written in one step.  The result tells whether there was an error.\<close>

definition flushLocked :: "bool \<Rightarrow> progress_store \<Rightarrow> progress_values \<Rightarrow> progress_store \<times> progress_values \<times> bool" where
  "flushLocked ok P disk =
     (if pg_dirty P = [] then (P, disk, False)
      else if \<not> (ok \<and> list_all valid_utf8 (pg_dirty P)) then (P\<lparr>pg_flushFailed := True\<rparr>, disk, True)
      else (P\<lparr>pg_flushFailed := False, pg_dirty := []\<rparr>,
            fold (\<lambda>key d. mput key (stored_state (mget0 zero_state (pg_values P) key)) d) (pg_dirty P) disk, False))"

definition StartWriteCoalescing :: "duration \<Rightarrow> progress_store \<Rightarrow> progress_store" where
  "StartWriteCoalescing interval P =
     (if \<not> pg_entries P \<or> pg_coalescing P \<or> interval \<le> 0 then P
      else P\<lparr>pg_coalescing := True, pg_flushFailed := False, pg_dirty := []\<rparr>)"

definition StopWriteCoalescing :: "bool \<Rightarrow> progress_store \<Rightarrow> progress_values \<Rightarrow> progress_store \<times> progress_values" where
  "StopWriteCoalescing ok P disk = (case flushLocked ok P disk of (P1, disk1, _) \<Rightarrow> (P1\<lparr>pg_coalescing := False\<rparr>, disk1))"

text \<open>
  The store at a start: \<open>loaded\<close> is what the load gives, \<open>None\<close> for its error, and \<open>database\<close> tells whether the server has one,
  and whether it could switch the document to entries.  With an error in the store the server does not start.
\<close>

definition NewRequestProgressStore :: "bool \<Rightarrow> bool option \<Rightarrow> progress_values option \<Rightarrow> progress_store option" where
  "NewRequestProgressStore dir database loaded =
     (let P = \<lparr>pg_coalescing = False, pg_flushFailed = False, pg_dirty = [], pg_file = dir, pg_values = [], pg_entries = False\<rparr> in
      if \<not> dir then Some P
      else case loaded of None \<Rightarrow> None
      | Some values \<Rightarrow>
          if \<not> ValidateStoredProgress values \<or> database = Some False then None
          else Some (P\<lparr>pg_values := values, pg_entries := (database = Some True)\<rparr>))"

text \<open>The operations on a viewer's own key.\<close>

definition progress_key :: "string \<Rightarrow> string \<Rightarrow> string" where
  "progress_key profile item = profile @ '':'' @ item"

definition SetReaderPosition :: "write_outcome \<Rightarrow> string \<Rightarrow> string \<Rightarrow> int \<Rightarrow> int \<Rightarrow> gofloat \<Rightarrow> instant \<Rightarrow> progress_store \<Rightarrow> progress_values
    \<Rightarrow> progress_store \<times> progress_values \<times> bool" where
  "SetReaderPosition wo profile item page pages offset now P disk =
     (if pages < 1 \<or> pages > 10000 \<or> page < 1 \<or> page > pages \<or> is_nan offset \<or> is_inf offset \<or> flt offset (Fin 0) \<or> flt (Fin 1) offset
      then (P, disk, True)
      else case progress_Update wo P disk (progress_key profile item) (reader_change page offset now) of
        (P1, disk1, r) \<Rightarrow> (P1, disk1, ur_failed r))"

fun MarkWatched :: "write_outcome list \<Rightarrow> string \<Rightarrow> string list \<Rightarrow> bool \<Rightarrow> instant \<Rightarrow> progress_store \<Rightarrow> progress_values
    \<Rightarrow> progress_store \<times> progress_values \<times> bool" where
  "MarkWatched wos profile [] watched now P disk = (P, disk, False)"
| "MarkWatched wos profile (item # items) watched now P disk =
     (case progress_Update (if wos = [] then Refused else hd wos) P disk (progress_key profile item) (watched_change watched now) of
        (P1, disk1, r) \<Rightarrow> if ur_failed r then (P1, disk1, True) else MarkWatched (tl wos) profile items watched now P1 disk1)"

section \<open>Lookups\<close>

definition ViewerProgress :: "progress_values \<Rightarrow> string \<Rightarrow> bool \<Rightarrow> string \<Rightarrow> playback_state" where
  "ViewerProgress values profile owner item =
     (case map_of values (progress_key profile item) of Some s \<Rightarrow> s | None \<Rightarrow> if owner then mget0 zero_state values item else zero_state)"

definition ReaderPage :: "progress_values \<Rightarrow> string \<Rightarrow> bool \<Rightarrow> string \<Rightarrow> int \<Rightarrow> int" where
  "ReaderPage values profile owner item pages = (let page = st_ReaderPage (ViewerProgress values profile owner item) in
     if page < 1 \<or> page > pages then 1 else page)"

text \<open>The items to resume, and the ones played, latest first; items are given by their identifiers.\<close>

definition ActiveProgress :: "progress_values \<Rightarrow> string \<Rightarrow> bool \<Rightarrow> string list \<Rightarrow> string list" where
  "ActiveProgress values profile owner items =
     filter (\<lambda>i. let s = ViewerProgress values profile owner i in flt (Fin 0) (st_Seconds s) \<and> \<not> st_Watched s \<and> \<not> st_Dismissed s) items"

record page =
  pa_Offset :: nat
  pa_Limit :: nat
  pa_Requested :: bool

definition page_Window :: "page \<Rightarrow> nat \<Rightarrow> nat \<times> nat" where
  "page_Window page n = (let start = min (pa_Offset page) n in (start, min (start + pa_Limit page) n))"

definition ProgressHistoryPage :: "progress_values \<Rightarrow> string \<Rightarrow> bool \<Rightarrow> string list \<Rightarrow> page \<Rightarrow> string list \<times> nat" where
  "ProgressHistoryPage values profile owner items page =
     (let played = filter (\<lambda>(_, u). u \<noteq> 0) (map (\<lambda>i. (i, st_Updated (ViewerProgress values profile owner i))) items);
          history = sort_key (\<lambda>(_, u). - u) played;
          (start, stop) = (if pa_Requested page then page_Window page (length history) else (0, length history))
      in (map fst (drop start (take stop history)), length history))"

definition ProgressHistory :: "progress_values \<Rightarrow> string \<Rightarrow> bool \<Rightarrow> string list \<Rightarrow> string list" where
  "ProgressHistory values profile owner items =
     fst (ProgressHistoryPage values profile owner items \<lparr>pa_Offset = 0, pa_Limit = 0, pa_Requested = False\<rparr>)"

section \<open>The synchronisation of devices\<close>

definition validSyncSnapshot :: "media_snapshot \<Rightarrow> bool \<Rightarrow> bool" where
  "validSyncSnapshot v required \<longleftrightarrow> progressRange (sn_Seconds v) 31536000 \<and> length (sn_Session v) \<le> 128
     \<and> \<not> list_ex is_control (runes (sn_Session v)) \<and> sn_Revision v \<le> 9007199254740991
     \<and> (\<not> required \<or> sn_Session v \<noteq> [] \<and> sn_Revision v > 0)"

datatype sync_response = SyncInvalid | SyncFailed | SyncConflict playback_state | SyncSaved playback_state

text \<open>The request of a device after its viewer and item are checked; \<open>position\<close> is its position in the source of the item.\<close>

definition serveMediaProgress :: "write_outcome \<Rightarrow> string \<Rightarrow> gofloat \<Rightarrow> media_snapshot \<Rightarrow> media_snapshot \<Rightarrow> instant \<Rightarrow> progress_store \<Rightarrow> progress_values
    \<Rightarrow> progress_store \<times> progress_values \<times> sync_response" where
  "serveMediaProgress wo key position expected update now P disk =
     (if \<not> validSyncSnapshot update True \<or> \<not> validSyncSnapshot expected False then (P, disk, SyncInvalid)
      else case progress_Update wo P disk key (synchronizedProgress position expected update now) of
        (P1, disk1, r) \<Rightarrow> (P1, disk1,
          if ur_failed r then SyncFailed
          else if \<not> ur_changed r \<and> (st_Session (ur_current r) \<noteq> sn_Session update \<or> st_Revision (ur_current r) < sn_Revision update)
            then SyncConflict (ur_current r)
          else SyncSaved (ur_current r)))"

end
